(* ===== verification/MSV_Prelude.thy ===== *)
theory MSV_Prelude
  imports Main "HOL-Library.AList"
begin

text \<open>
  Shared material of the development.  The C++ containers the analyses use are modelled by
  association lists and lists: \<^verbatim>\<open>std::map\<close>, \<^verbatim>\<open>std::unordered_map\<close> and \<^verbatim>\<open>llvm::DenseMap\<close>
  as association lists with distinct keys (\<open>m[k]\<close>, \<open>find\<close>, \<open>insert\<close> and \<open>erase\<close> are
  \<open>map_of\<close>, \<open>AList.update\<close> and \<open>AList.delete\<close>), the set containers as sets.
  The collections \<open>dict\<close> and \<open>outcome\<close> gather the rewrite rules the component proofs use.
\<close>

named_theorems dict \<open>look-up rules of the association-list operations\<close>
named_theorems outcome \<open>rules for results that may be errors\<close>

subsection \<open>Dictionaries\<close>

type_synonym ('k, 'v) dict = "('k \<times> 'v) list"

definition dict_ok :: "('k, 'v) dict \<Rightarrow> bool" where
  "dict_ok m \<longleftrightarrow> distinct (map fst m)"

definition contains :: "('k, 'v) dict \<Rightarrow> 'k \<Rightarrow> bool" where
  "contains m k \<longleftrightarrow> map_of m k \<noteq> None"

definition keys :: "('k, 'v) dict \<Rightarrow> 'k set" where
  "keys m = fst ` set m"

lemma keys_iff: "k \<in> keys m \<longleftrightarrow> contains m k"
  by (auto simp: keys_def contains_def map_of_eq_None_iff)

lemma keys_Nil [simp]: "keys [] = {}"
  by (simp add: keys_def)

lemma contains_update [dict]: "contains (AList.update k v m) j \<longleftrightarrow> j = k \<or> contains m j"
  by (auto simp: contains_def update_conv')

lemma map_of_update [dict]: "map_of (AList.update k v m) j = (if j = k then Some v else map_of m j)"
  by (simp add: update_conv')

lemma map_of_delete [dict]: "map_of (AList.delete k m) j = (if j = k then None else map_of m j)"
  by (simp add: delete_conv')

lemma contains_delete [dict]: "contains (AList.delete k m) j \<longleftrightarrow> j \<noteq> k \<and> contains m j"
  by (auto simp: contains_def delete_conv')

lemma contains_Nil [simp]: "\<not> contains [] k"
  by (simp add: contains_def)

lemma dict_ok_Nil [simp]: "dict_ok []"
  by (simp add: dict_ok_def)

lemma dict_ok_update [simp]: "dict_ok m \<Longrightarrow> dict_ok (AList.update k v m)"
  by (simp add: dict_ok_def distinct_update)

lemma dict_ok_delete [simp]: "dict_ok m \<Longrightarrow> dict_ok (AList.delete k m)"
  by (simp add: dict_ok_def distinct_delete)

lemma keys_update [dict]: "keys (AList.update k v m) = insert k (keys m)"
  by (auto simp: keys_iff dict)

lemma keys_delete [dict]: "keys (AList.delete k m) = keys m - {k}"
  by (auto simp: keys_iff dict)

lemma contains_map_of: "contains m k \<longleftrightarrow> (\<exists>v. map_of m k = Some v)"
  by (auto simp: contains_def)

lemma map_of_in_set: "map_of m k = Some v \<Longrightarrow> (k, v) \<in> set m"
  by (rule map_of_SomeD)

lemma dict_ok_map_of: "dict_ok m \<Longrightarrow> (k, v) \<in> set m \<Longrightarrow> map_of m k = Some v"
  by (simp add: dict_ok_def)

subsection \<open>Ordered dictionaries\<close>

text \<open>\<open>m[k] = v\<close> on a \<^verbatim>\<open>std::map\<close>: entries stay in the order of their keys.\<close>

fun ordered_update :: "'k :: linorder \<Rightarrow> 'v \<Rightarrow> ('k, 'v) dict \<Rightarrow> ('k, 'v) dict" where
  "ordered_update k v [] = [(k, v)]"
| "ordered_update k v ((j, w) # m) =
     (if k < j then (k, v) # (j, w) # m else if k = j then (k, v) # m else (j, w) # ordered_update k v m)"

lemma keys_ordered_update [dict]: "keys (ordered_update k v m) = insert k (keys m)"
  by (induction k v m rule: ordered_update.induct) (auto simp: keys_def)

lemma contains_ordered_update [dict]: "contains (ordered_update k v m) j \<longleftrightarrow> j = k \<or> contains m j"
  using keys_ordered_update [of k v m] by (auto simp flip: keys_iff)

lemma sorted_ordered_update:
  "sorted_wrt (<) (map fst m) \<Longrightarrow> sorted_wrt (<) (map fst (ordered_update k v m))"
proof (induction k v m rule: ordered_update.induct)
  case (2 k v j w m)
  have "fst ` set (ordered_update k v m) = insert k (fst ` set m)" using keys_ordered_update [of k v m] by (simp add: keys_def)
  then show ?case using 2 by auto
qed simp

lemma map_of_ordered_update:
  "sorted_wrt (<) (map fst m) \<Longrightarrow> map_of (ordered_update k v m) j = (if j = k then Some v else map_of m j)"
proof (induction k v m rule: ordered_update.induct)
  case (2 k v i w m)
  have "map_of m k = None" if "k < i" using 2(2) that by (fastforce simp: map_of_eq_None_iff)
  then show ?case using 2 by auto
qed simp

subsection \<open>Loops whose body may fail\<close>

fun fold_option :: "('i \<Rightarrow> 's \<Rightarrow> 's option) \<Rightarrow> 'i list \<Rightarrow> 's \<Rightarrow> 's option" where
  "fold_option f [] s = Some s"
| "fold_option f (x # xs) s = Option.bind (f x s) (fold_option f xs)"

text \<open>
  A family of steps that succeed on states with an invariant, keep it, and only move up in a preorder:
  a loop over steps does the same, and what one step establishes for all greater states holds at the end.
\<close>

locale total_steps =
  fixes step :: "'i \<Rightarrow> 's \<Rightarrow> 's option"
    and ok :: "'i \<Rightarrow> bool"
    and inv :: "'s \<Rightarrow> bool"
    and le :: "'s \<Rightarrow> 's \<Rightarrow> bool"
  assumes step_total: "ok i \<Longrightarrow> inv s \<Longrightarrow> \<exists>s'. step i s = Some s' \<and> inv s' \<and> le s s'"
    and le_refl: "le s s"
    and le_trans: "le s t \<Longrightarrow> le t u \<Longrightarrow> le s u"
begin

lemma loop_total: "list_all ok xs \<Longrightarrow> inv s \<Longrightarrow> \<exists>s'. fold_option step xs s = Some s' \<and> inv s' \<and> le s s'"
proof (induction xs arbitrary: s)
  case (Cons i rest)
  obtain s1 where s1: "step i s = Some s1" "inv s1" "le s s1" using Cons.prems step_total by fastforce
  then show ?case using Cons.IH [of s1] Cons.prems by (auto intro: le_trans)
qed (simp add: le_refl)

lemma loop_establishes:
  assumes "list_all ok xs" and "inv s" and "fold_option step xs s = Some s'" and "i \<in> set xs"
    and "\<And>t t'. inv t \<Longrightarrow> step i t = Some t' \<Longrightarrow> Q t'" and "\<And>t t'. le t t' \<Longrightarrow> Q t \<Longrightarrow> Q t'"
  shows "Q s'"
  using assms(1-4)
proof (induction xs arbitrary: s)
  case (Cons j rest)
  obtain s1 where s1: "step j s = Some s1" "inv s1" using Cons.prems step_total by fastforce
  then have r: "fold_option step rest s1 = Some s'" using Cons.prems by simp
  show ?case
  proof (cases "i = j")
    case True
    then have "Q s1" using assms(5) Cons.prems(2) s1 by blast
    moreover have "le s1 s'" using loop_total [of rest s1] Cons.prems(1) s1 r by auto
    ultimately show ?thesis using assms(6) by blast
  qed (use Cons.IH [OF _ s1(2) r] Cons.prems in auto)
qed simp

end

subsection \<open>Reachability in a graph given by successor lists\<close>

definition edges :: "('n \<Rightarrow> 'n list) \<Rightarrow> ('n \<times> 'n) set" where
  "edges f = {(x, y). y \<in> set (f x)}"

lemma edges_iff [simp]: "(x, y) \<in> edges f \<longleftrightarrow> y \<in> set (f x)"
  by (simp add: edges_def)

lemma Image_rtrancl_closed:
  assumes "\<And>x. x \<in> V \<Longrightarrow> set (f x) \<subseteq> V" and "x \<in> V" and "(x, y) \<in> (edges f)\<^sup>*"
  shows "y \<in> V"
  using assms(3,2) by (induction rule: rtrancl_induct) (use assms(1) in auto)

end
