(* ===== verification/APInt.thy ===== *)
theory APInt
  imports MSV_Prelude "HOL-Library.Word"
begin

text \<open>
  Machine integers whose width is known at run time only: the \<open>iN\<close> values of LLVM IR, which the
  sources hold as \<^verbatim>\<open>llvm::APInt\<close> and \<^verbatim>\<open>llvm::ConstantInt\<close>.  A value is a width and a bit pattern,
  the pattern kept as the unsigned number below \<open>2 ^ width\<close>; \<open>uval\<close> reads it unsigned, \<open>sval\<close>
  as two's complement.  Arithmetic wraps at the width; the operations with a name ending in
  \<open>_ov\<close> return the wrapped result with the signed overflow flag.
\<close>

datatype apint = AP (width: nat) (bits: int)

definition mk :: "nat \<Rightarrow> int \<Rightarrow> apint" where
  "mk w v = AP w (take_bit w v)"

definition ap_ok :: "apint \<Rightarrow> bool" where
  "ap_ok a \<longleftrightarrow> 0 < width a \<and> 0 \<le> bits a \<and> bits a < 2 ^ width a"

definition uval :: "apint \<Rightarrow> int" where
  "uval a = bits a"

definition sval :: "apint \<Rightarrow> int" where
  "sval a = (if bits a < 2 ^ (width a - 1) then bits a else bits a - 2 ^ width a)"

definition smin :: "nat \<Rightarrow> int" where
  "smin w = - (2 ^ (w - 1))"

definition smax :: "nat \<Rightarrow> int" where
  "smax w = 2 ^ (w - 1) - 1"

definition slt :: "apint \<Rightarrow> apint \<Rightarrow> bool" where
  "slt a b \<longleftrightarrow> sval a < sval b"

definition sgt :: "apint \<Rightarrow> apint \<Rightarrow> bool" where
  "sgt a b \<longleftrightarrow> sval b < sval a"

definition isNegative :: "apint \<Rightarrow> bool" where
  "isNegative a \<longleftrightarrow> sval a < 0"

definition isStrictlyPositive :: "apint \<Rightarrow> bool" where
  "isStrictlyPositive a \<longleftrightarrow> 0 < sval a"

definition sextOrTrunc :: "apint \<Rightarrow> nat \<Rightarrow> apint" where
  "sextOrTrunc a w = mk w (sval a)"

definition ap_add :: "apint \<Rightarrow> apint \<Rightarrow> apint" where
  "ap_add a b = mk (width a) (bits a + bits b)"

definition ap_sub :: "apint \<Rightarrow> apint \<Rightarrow> apint" where
  "ap_sub a b = mk (width a) (bits a - bits b)"

definition ap_mul :: "apint \<Rightarrow> apint \<Rightarrow> apint" where
  "ap_mul a b = mk (width a) (bits a * bits b)"

definition ap_add1 :: "apint \<Rightarrow> apint" where
  "ap_add1 a = mk (width a) (bits a + 1)"

definition ap_sub1 :: "apint \<Rightarrow> apint" where
  "ap_sub1 a = mk (width a) (bits a - 1)"

definition in_srange :: "nat \<Rightarrow> int \<Rightarrow> bool" where
  "in_srange w v \<longleftrightarrow> smin w \<le> v \<and> v \<le> smax w"

definition sadd_ov :: "apint \<Rightarrow> apint \<Rightarrow> apint \<times> bool" where
  "sadd_ov a b = (mk (width a) (sval a + sval b), \<not> in_srange (width a) (sval a + sval b))"

definition ssub_ov :: "apint \<Rightarrow> apint \<Rightarrow> apint \<times> bool" where
  "ssub_ov a b = (mk (width a) (sval a - sval b), \<not> in_srange (width a) (sval a - sval b))"

definition smul_ov :: "apint \<Rightarrow> apint \<Rightarrow> apint \<times> bool" where
  "smul_ov a b = (mk (width a) (sval a * sval b), \<not> in_srange (width a) (sval a * sval b))"

definition tdiv :: "int \<Rightarrow> int \<Rightarrow> int" where
  "tdiv x y = sgn x * sgn y * (\<bar>x\<bar> div \<bar>y\<bar>)"

definition sdiv_ov :: "apint \<Rightarrow> apint \<Rightarrow> apint \<times> bool" where
  "sdiv_ov a b = (mk (width a) (tdiv (sval a) (sval b)), \<not> in_srange (width a) (tdiv (sval a) (sval b)))"

definition udiv :: "apint \<Rightarrow> apint \<Rightarrow> apint" where
  "udiv a b = mk (width a) (bits a div bits b)"

definition ap_abs :: "apint \<Rightarrow> apint" where
  "ap_abs a = mk (width a) \<bar>sval a\<bar>"

definition flipAllBits :: "apint \<Rightarrow> apint" where
  "flipAllBits a = mk (width a) (- bits a - 1)"

definition is_zero :: "apint \<Rightarrow> bool" where
  "is_zero a \<longleftrightarrow> bits a = 0"

definition isPowerOf2 :: "apint \<Rightarrow> bool" where
  "isPowerOf2 a \<longleftrightarrow> (\<exists>k < width a. bits a = 2 ^ k)"

definition getMaxValue :: "nat \<Rightarrow> apint" where
  "getMaxValue w = AP w (2 ^ w - 1)"

definition getSignedMaxValue :: "nat \<Rightarrow> apint" where
  "getSignedMaxValue w = AP w (2 ^ (w - 1) - 1)"

definition getMinValue :: "nat \<Rightarrow> apint" where
  "getMinValue w = AP w 0"

definition getSignedMinValue :: "nat \<Rightarrow> apint" where
  "getSignedMinValue w = AP w (2 ^ (w - 1))"

definition uge :: "apint \<Rightarrow> nat \<Rightarrow> bool" where
  "uge a n \<longleftrightarrow> int n \<le> bits a"

definition getZExtValue :: "apint \<Rightarrow> nat" where
  "getZExtValue a = nat (bits a)"

definition getSExtValue :: "apint \<Rightarrow> int" where
  "getSExtValue a = sval a"

definition getLimitedValue :: "apint \<Rightarrow> nat" where
  "getLimitedValue a = (if bits a < 2 ^ 64 then nat (bits a) else 2 ^ 64 - 1)"

subsection \<open>Reading back what was built\<close>

lemma width_mk [simp]: "width (mk w v) = w"
  by (simp add: mk_def)

lemma bits_mk: "bits (mk w v) = v mod 2 ^ w"
  by (simp add: mk_def take_bit_eq_mod)

lemma ap_ok_mk [simp]: "0 < w \<Longrightarrow> ap_ok (mk w v)"
  by (simp add: ap_ok_def bits_mk)

lemma pow2_split: "0 < w \<Longrightarrow> (2::int) ^ w = 2 * 2 ^ (w - 1)"
  by (cases w) auto

lemma sval_range: "ap_ok a \<Longrightarrow> smin (width a) \<le> sval a \<and> sval a \<le> smax (width a)"
  using pow2_split [of "width a"] by (auto simp: ap_ok_def sval_def smin_def smax_def)

lemma uval_range: "ap_ok a \<Longrightarrow> 0 \<le> uval a \<and> uval a < 2 ^ width a"
  by (simp add: ap_ok_def uval_def)

lemma sval_mk:
  assumes "0 < w" and "in_srange w v"
  shows "sval (mk w v) = v"
proof (cases "0 \<le> v")
  case True
  then have "v mod 2 ^ w = v"
    using assms pow2_split [of w] by (auto simp: in_srange_def smax_def)
  then show ?thesis using True assms by (simp add: sval_def bits_mk in_srange_def smax_def)
next
  case False
  have "v mod 2 ^ w = (v + 2 ^ w) mod 2 ^ w" by simp
  also have "\<dots> = v + 2 ^ w"
    using assms False pow2_split [of w] by (intro mod_pos_pos_trivial) (auto simp: in_srange_def smin_def)
  finally have "v mod 2 ^ w = v + 2 ^ w" .
  then show ?thesis using assms False pow2_split [of w] by (auto simp: sval_def bits_mk in_srange_def smin_def)
qed

lemma sval_uval_nonneg: "ap_ok a \<Longrightarrow> 0 \<le> sval a \<Longrightarrow> sval a = uval a"
  by (auto simp: sval_def uval_def ap_ok_def split: if_splits)

lemma in_srange_mono: "0 < w \<Longrightarrow> w \<le> w' \<Longrightarrow> in_srange w v \<Longrightarrow> in_srange w' v"
proof -
  assume "0 < w" "w \<le> w'" "in_srange w v"
  have "(2::int) ^ (w - 1) \<le> 2 ^ (w' - 1)"
    using \<open>w \<le> w'\<close> by (intro power_increasing) auto
  then show ?thesis using \<open>in_srange w v\<close> unfolding in_srange_def smin_def smax_def by linarith
qed

lemma sval_sextOrTrunc:
  assumes "ap_ok a" and "width a \<le> w"
  shows "sval (sextOrTrunc a w) = sval a"
proof -
  have w: "0 < width a" using assms(1) by (simp add: ap_ok_def)
  have "in_srange w (sval a)"
    using in_srange_mono [OF w assms(2)] sval_range [OF assms(1)] by (simp add: in_srange_def)
  then show ?thesis using w assms(2) by (simp add: sextOrTrunc_def sval_mk)
qed

lemma width_sextOrTrunc [simp]: "width (sextOrTrunc a w) = w"
  by (simp add: sextOrTrunc_def)

lemma ap_ok_sextOrTrunc [simp]: "0 < w \<Longrightarrow> ap_ok (sextOrTrunc a w)"
  by (simp add: sextOrTrunc_def)

lemma sval_inj: "ap_ok a \<Longrightarrow> ap_ok b \<Longrightarrow> width a = width b \<Longrightarrow> sval a = sval b \<longleftrightarrow> a = b"
  by (cases a; cases b) (auto simp: sval_def ap_ok_def split: if_splits)

lemma mod_pow2_wrap: "(v - 2 ^ w + k) mod 2 ^ w = (v + k) mod (2 ^ w :: int)"
proof -
  have "v - 2 ^ w + k = (v + k) - 2 ^ w" by simp
  then show ?thesis by (simp only: minus_mod_self2)
qed

lemma mk_bits_sval: "ap_ok a \<Longrightarrow> mk (width a) (bits a + k) = mk (width a) (sval a + k)"
  using mod_pow2_wrap [of "bits a" "width a" k]
  by (simp add: mk_def take_bit_eq_mod sval_def ap_ok_def)

lemma sval_add1: "ap_ok a \<Longrightarrow> sval a < smax (width a) \<Longrightarrow> sval (ap_add1 a) = sval a + 1"
  using mk_bits_sval [of a 1] sval_range [of a]
  by (simp add: ap_add1_def) (subst sval_mk, auto simp: ap_ok_def in_srange_def)

lemma sval_sub1: "ap_ok a \<Longrightarrow> smin (width a) < sval a \<Longrightarrow> sval (ap_sub1 a) = sval a - 1"
  using mk_bits_sval [of a "- 1"] sval_range [of a]
  by (simp add: ap_sub1_def) (subst sval_mk, auto simp: ap_ok_def in_srange_def)

lemma uval_add1: "ap_ok a \<Longrightarrow> uval a + 1 < 2 ^ width a \<Longrightarrow> uval (ap_add1 a) = uval a + 1"
  by (simp add: ap_add1_def uval_def bits_mk ap_ok_def)

lemma uval_sub1: "ap_ok a \<Longrightarrow> 0 < uval a \<Longrightarrow> uval (ap_sub1 a) = uval a - 1"
  by (simp add: ap_sub1_def uval_def bits_mk ap_ok_def)

lemma width_add1 [simp]: "width (ap_add1 a) = width a"
  by (simp add: ap_add1_def)

lemma width_sub1 [simp]: "width (ap_sub1 a) = width a"
  by (simp add: ap_sub1_def)

lemma sval_extremes:
  "0 < w \<Longrightarrow> sval (getSignedMaxValue w) = smax w"
  "0 < w \<Longrightarrow> sval (getSignedMinValue w) = smin w"
  "0 < w \<Longrightarrow> sval (getMinValue w) = 0"
  using pow2_split [of w]
  by (auto simp: sval_def getSignedMaxValue_def getSignedMinValue_def getMinValue_def smax_def smin_def)

lemma uval_extremes: "uval (getMaxValue w) = 2 ^ w - 1" "uval (getMinValue w) = 0"
  by (simp_all add: uval_def getMaxValue_def getMinValue_def)

end
