(* ===== verification/LLVM_IR.thy ===== *)
theory LLVM_IR
  imports APInt
begin

text \<open>
  The LLVM module the passes read, as data.  LLVM itself is not part of the repository: the record
  \<open>ir\<close> lists the queries the sources make of a module, and every pass of the development takes such a
  record as a parameter.  A value is its address (\<open>vid\<close>, \<open>0\<close> is the null pointer), so that
  pointer comparison is equality and the ordered containers of pointers iterate in the order of
  \<open>vid\<close>.  \<open>kind\<close> is what \<^verbatim>\<open>isa\<close>/\<^verbatim>\<open>dyn_cast\<close> observe.  Types are uniqued by LLVM, so that pointer
  equality of types is equality of \<open>ty\<close>; a struct type is a number whose elements the module knows,
  since named structs may be recursive.
\<close>

type_synonym vid = nat

datatype ty =
    IntegerTy nat
  | PointerTy ty
  | ArrayTy nat ty
  | VectorTy nat ty
  | StructTy nat
  | FunctionTy ty "ty list"
  | OtherTy nat

datatype predicate =
    ICMP_EQ | ICMP_NE | ICMP_UGT | ICMP_UGE | ICMP_ULT | ICMP_ULE
  | ICMP_SGT | ICMP_SGE | ICMP_SLT | ICMP_SLE

datatype binop = Add | Sub | Mul | SDiv | UDiv | And | OtherOp nat

datatype castop = Trunc | ZExt | SExt | BitCast | OtherCast nat

datatype vkind =
    KConstantInt apint
  | KConstantPointerNull
  | KConstantExpr
  | KGlobalVariable
  | KFunction
  | KOtherConstant
  | KArgument
  | KBasicBlock
  | KInlineAsm string
  | KAlloca
  | KLoad
  | KStore
  | KGEP
  | KBinary binop
  | KCast castop
  | KICmp predicate
  | KOtherCmp
  | KPHI
  | KCall
  | KInvoke
  | KBr bool
  | KSwitch
  | KReturn
  | KOtherInst

datatype folded = FoldedInt apint | FoldedExpr | FoldedOther

record ir =
  kind :: "vid \<Rightarrow> vkind"
  typeOf :: "vid \<Rightarrow> ty"
  operands :: "vid \<Rightarrow> vid list"
  users :: "vid \<Rightarrow> vid list"
  parentBB :: "vid \<Rightarrow> vid"
  parentFn :: "vid \<Rightarrow> vid"
  insts :: "vid \<Rightarrow> vid list"
  blocks :: "vid \<Rightarrow> vid list"
  predecessors :: "vid \<Rightarrow> vid list"
  successors :: "vid \<Rightarrow> vid list"
  reversePostOrder :: "vid \<Rightarrow> vid list"
  formals :: "vid \<Rightarrow> vid list"
  callArgs :: "vid \<Rightarrow> vid list"
  calledFunction :: "vid \<Rightarrow> vid option"
  calledOperand :: "vid \<Rightarrow> vid"
  isDeclaration :: "vid \<Rightarrow> bool"
  isIntrinsic :: "vid \<Rightarrow> bool"
  valueName :: "vid \<Rightarrow> string"
  moduleFunctions :: "vid list"
  moduleGlobals :: "vid list"
  stripPointerCasts :: "vid \<Rightarrow> vid"
  typeAllocSize :: "ty \<Rightarrow> nat"
  structElements :: "nat \<Rightarrow> ty list"
  structOffset :: "nat \<Rightarrow> nat \<Rightarrow> nat"
  castIsValid :: "castop \<Rightarrow> apint \<Rightarrow> ty \<Rightarrow> bool"
  constantFoldCast :: "castop \<Rightarrow> apint \<Rightarrow> ty \<Rightarrow> folded"

subsection \<open>The class hierarchy seen by \<open>isa\<close> and \<open>dyn_cast\<close>\<close>

fun is_Constant_k :: "vkind \<Rightarrow> bool" where
  "is_Constant_k (KConstantInt _) = True"
| "is_Constant_k KConstantPointerNull = True"
| "is_Constant_k KConstantExpr = True"
| "is_Constant_k KGlobalVariable = True"
| "is_Constant_k KFunction = True"
| "is_Constant_k KOtherConstant = True"
| "is_Constant_k _ = False"

fun is_Instruction_k :: "vkind \<Rightarrow> bool" where
  "is_Instruction_k KArgument = False"
| "is_Instruction_k KBasicBlock = False"
| "is_Instruction_k (KInlineAsm _) = False"
| "is_Instruction_k k = (\<not> is_Constant_k k)"

fun is_CallBase_k :: "vkind \<Rightarrow> bool" where
  "is_CallBase_k KCall = True"
| "is_CallBase_k KInvoke = True"
| "is_CallBase_k _ = False"

fun is_Cast_k :: "vkind \<Rightarrow> bool" where
  "is_Cast_k (KCast _) = True"
| "is_Cast_k _ = False"

fun is_Cmp_k :: "vkind \<Rightarrow> bool" where
  "is_Cmp_k (KICmp _) = True"
| "is_Cmp_k KOtherCmp = True"
| "is_Cmp_k _ = False"

fun is_Br_k :: "vkind \<Rightarrow> bool" where
  "is_Br_k (KBr _) = True"
| "is_Br_k _ = False"

fun is_CondBr_k :: "vkind \<Rightarrow> bool" where
  "is_CondBr_k (KBr c) = c"
| "is_CondBr_k _ = False"

abbreviation isConstant :: "ir \<Rightarrow> vid \<Rightarrow> bool" where
  "isConstant I v \<equiv> is_Constant_k (kind I v)"

abbreviation isInstruction :: "ir \<Rightarrow> vid \<Rightarrow> bool" where
  "isInstruction I v \<equiv> is_Instruction_k (kind I v)"

abbreviation isCallBase :: "ir \<Rightarrow> vid \<Rightarrow> bool" where
  "isCallBase I v \<equiv> is_CallBase_k (kind I v)"

abbreviation isCastInst :: "ir \<Rightarrow> vid \<Rightarrow> bool" where
  "isCastInst I v \<equiv> is_Cast_k (kind I v)"

definition constantInt :: "ir \<Rightarrow> vid \<Rightarrow> apint option" where
  "constantInt I v = (case kind I v of KConstantInt c \<Rightarrow> Some c | _ \<Rightarrow> None)"

definition inlineAsm :: "ir \<Rightarrow> vid \<Rightarrow> string option" where
  "inlineAsm I v = (case kind I v of KInlineAsm s \<Rightarrow> Some s | _ \<Rightarrow> None)"

subsection \<open>Operand accessors\<close>

definition getOperand :: "ir \<Rightarrow> vid \<Rightarrow> nat \<Rightarrow> vid" where
  "getOperand I v n = (if n < length (operands I v) then operands I v ! n else 0)"

text \<open>Operand 0 of a store is the value, operand 1 the address; operand 0 of a load or a GEP is the address.\<close>

definition storeValue :: "ir \<Rightarrow> vid \<Rightarrow> vid" where
  "storeValue I v = getOperand I v 0"

definition storePointer :: "ir \<Rightarrow> vid \<Rightarrow> vid" where
  "storePointer I v = getOperand I v 1"

definition loadPointer :: "ir \<Rightarrow> vid \<Rightarrow> vid" where
  "loadPointer I v = getOperand I v 0"

definition gepPointer :: "ir \<Rightarrow> vid \<Rightarrow> vid" where
  "gepPointer I v = getOperand I v 0"

definition hasAllZeroIndices :: "ir \<Rightarrow> vid \<Rightarrow> bool" where
  "hasAllZeroIndices I v = list_all (\<lambda>x. case constantInt I x of Some c \<Rightarrow> is_zero c | None \<Rightarrow> False) (tl (operands I v))"

definition getFunction :: "ir \<Rightarrow> vid \<Rightarrow> vid" where
  "getFunction I v = parentFn I (parentBB I v)"

definition instructions :: "ir \<Rightarrow> vid \<Rightarrow> vid list" where
  "instructions I f = concat (map (insts I) (blocks I f))"

definition terminator :: "ir \<Rightarrow> vid \<Rightarrow> vid" where
  "terminator I bb = (if insts I bb = [] then 0 else last (insts I bb))"

subsection \<open>Neighbours of an instruction in its block\<close>

fun next_in :: "'a list \<Rightarrow> 'a \<Rightarrow> 'a option" where
  "next_in (x # y # ys) v = (if x = v then Some y else next_in (y # ys) v)"
| "next_in _ v = None"

fun prev_in :: "'a list \<Rightarrow> 'a \<Rightarrow> 'a option" where
  "prev_in (x # y # ys) v = (if y = v then Some x else prev_in (y # ys) v)"
| "prev_in _ v = None"

definition getNextNode :: "ir \<Rightarrow> vid \<Rightarrow> vid option" where
  "getNextNode I v = next_in (insts I (parentBB I v)) v"

definition getPrevNode :: "ir \<Rightarrow> vid \<Rightarrow> vid option" where
  "getPrevNode I v = prev_in (insts I (parentBB I v)) v"

subsection \<open>Types\<close>

fun isPointerTy :: "ty \<Rightarrow> bool" where
  "isPointerTy (PointerTy _) = True"
| "isPointerTy _ = False"

fun isIntegerTy :: "ty \<Rightarrow> bool" where
  "isIntegerTy (IntegerTy _) = True"
| "isIntegerTy _ = False"

fun isArrayTy :: "ty \<Rightarrow> bool" where
  "isArrayTy (ArrayTy _ _) = True"
| "isArrayTy _ = False"

fun getElementType :: "ty \<Rightarrow> ty" where
  "getElementType (PointerTy t) = t"
| "getElementType t = t"

fun intWidth :: "ty \<Rightarrow> nat option" where
  "intWidth (IntegerTy w) = Some w"
| "intWidth _ = None"

fun containedTypes :: "ir \<Rightarrow> ty \<Rightarrow> ty list" where
  "containedTypes I (PointerTy t) = [t]"
| "containedTypes I (ArrayTy _ t) = [t]"
| "containedTypes I (VectorTy _ t) = [t]"
| "containedTypes I (StructTy s) = structElements I s"
| "containedTypes I (FunctionTy r ps) = r # ps"
| "containedTypes I _ = []"

text \<open>An empty module, from which the examples are built.\<close>

definition empty_ir :: ir where
  "empty_ir = \<lparr>kind = (\<lambda>_. KOtherConstant), typeOf = (\<lambda>_. OtherTy 0), operands = (\<lambda>_. []),
     users = (\<lambda>_. []), parentBB = (\<lambda>_. 0), parentFn = (\<lambda>_. 0), insts = (\<lambda>_. []), blocks = (\<lambda>_. []),
     predecessors = (\<lambda>_. []), successors = (\<lambda>_. []), reversePostOrder = (\<lambda>_. []), formals = (\<lambda>_. []),
     callArgs = (\<lambda>_. []), calledFunction = (\<lambda>_. None), calledOperand = (\<lambda>_. 0),
     isDeclaration = (\<lambda>_. False), isIntrinsic = (\<lambda>_. False), valueName = (\<lambda>_. ''''),
     moduleFunctions = [], moduleGlobals = [], stripPointerCasts = (\<lambda>v. v), typeAllocSize = (\<lambda>_. 8),
     structElements = (\<lambda>_. []), structOffset = (\<lambda>_ _. 0), castIsValid = (\<lambda>_ _ _. False),
     constantFoldCast = (\<lambda>_ _ _. FoldedExpr)\<rparr>"

end
