(* ===== verification/Analysis_State.thy ===== *)
theory Analysis_State
  imports LLVM_IR
begin

text \<open>
  The pointer classification store shared by all passes: the class \<^verbatim>\<open>AnalysisState\<close> of
  \<^verbatim>\<open>Utils.hpp\<close>/\<^verbatim>\<open>Utils.cpp\<close> (namespace \<^verbatim>\<open>UnifiedMemSafe\<close>) and its older copy in
  \<^verbatim>\<open>program-dependence-graph\<close> (namespace \<^verbatim>\<open>NesCheck\<close>, definitions prefixed \<open>nc_\<close>).  The state is a
  dictionary from values to \<open>VariableInfo\<close>; every method is a function on the state.  The locale
  \<open>classifier\<close> states what the passes rely on when they send classification requests; both classes
  are interpretations of it.
\<close>

subsection \<open>Data\<close>

datatype VariableStates = Unknown | Safe | Seq | Dyn

fun enum_value :: "VariableStates \<Rightarrow> int" where
  "enum_value Unknown = - 1"
| "enum_value Safe = 0"
| "enum_value Seq = 1"
| "enum_value Dyn = 2"

lemma enum_value_inj: "enum_value a = enum_value b \<longleftrightarrow> a = b"
  by (cases a; cases b) auto

instantiation VariableStates :: linorder
begin

definition less_eq_VariableStates :: "VariableStates \<Rightarrow> VariableStates \<Rightarrow> bool" where
  "less_eq_VariableStates a b \<longleftrightarrow> enum_value a \<le> enum_value b"

definition less_VariableStates :: "VariableStates \<Rightarrow> VariableStates \<Rightarrow> bool" where
  "less_VariableStates a b \<longleftrightarrow> enum_value a < enum_value b"

instance
  by standard (auto simp: less_eq_VariableStates_def less_VariableStates_def enum_value_inj)

end

lemmas VariableStates_order = less_eq_VariableStates_def less_VariableStates_def

text \<open>A size is a \<^verbatim>\<open>Value*\<close>: null, a constant made by \<^verbatim>\<open>ConstantInt::get\<close>, or a value of the module.\<close>

datatype sizeval = SNull | SConst apint | SVal vid

record VariableInfo =
  classification :: VariableStates
  sizeOf :: sizeval
  hasMetadataTableEntry :: bool
  hasExplicitSizeVariable :: bool
  instantiatedExplicitSizeVariable :: bool
  explicitSizeVariable :: sizeval
  isGlobal :: bool
  didClassificationChange :: bool
  dependentFunctions :: "string set"

record AnalysisState =
  numFunctions :: nat
  sizetype :: nat
  Variables :: "(vid, VariableInfo) dict"

text \<open>What \<open>Variables[Decl]\<close> creates for a new key: a value-initialised structure.\<close>

definition fresh_info :: VariableInfo where
  "fresh_info = \<lparr>classification = Safe, sizeOf = SNull, hasMetadataTableEntry = False,
     hasExplicitSizeVariable = False, instantiatedExplicitSizeVariable = False,
     explicitSizeVariable = SNull, isGlobal = False, didClassificationChange = False,
     dependentFunctions = {}\<rparr>"

definition lookup_info :: "AnalysisState \<Rightarrow> vid \<Rightarrow> VariableInfo" where
  "lookup_info st v = (case map_of (Variables st) v of None \<Rightarrow> fresh_info | Some i \<Rightarrow> i)"

definition modify_info :: "vid \<Rightarrow> (VariableInfo \<Rightarrow> VariableInfo) \<Rightarrow> AnalysisState \<Rightarrow> AnalysisState" where
  "modify_info v f st = st\<lparr>Variables := AList.update v (f (lookup_info st v)) (Variables st)\<rparr>"

definition size_zero :: "AnalysisState \<Rightarrow> sizeval" where
  "size_zero st = SConst (mk (sizetype st) 0)"

fun PtrTypeToString :: "VariableStates \<Rightarrow> string" where
  "PtrTypeToString p =
     (if p = Safe then ''SAFE'' else if p = Seq then ''SEQ'' else if p = Dyn then ''DYN'' else ''UNKNOWN'')"

text \<open>The inline assembly that brackets an unsafe address computation.\<close>

definition MAGIC_ASM_BEGIN :: string where
  "MAGIC_ASM_BEGIN = ''addq 123456, %rax''"

definition MAGIC_ASM_END :: string where
  "MAGIC_ASM_END = ''addq 654321, %rax''"

definition NORMAL_MAGIC_ASM_BEGIN :: string where
  "NORMAL_MAGIC_ASM_BEGIN = ''addq 1234567, %rax''"

definition NORMAL_MAGIC_ASM_END :: string where
  "NORMAL_MAGIC_ASM_END = ''addq 7654321, %rax''"

subsection \<open>The methods of \<open>UnifiedMemSafe::AnalysisState\<close>\<close>

definition init_state :: AnalysisState where
  "init_state = \<lparr>numFunctions = 0, sizetype = 0, Variables = []\<rparr>"

definition SetSizeType :: "nat \<Rightarrow> AnalysisState \<Rightarrow> AnalysisState" where
  "SetSizeType w st = st\<lparr>sizetype := w\<rparr>"

definition RegisterFunction :: "AnalysisState \<Rightarrow> AnalysisState" where
  "RegisterFunction st = st\<lparr>numFunctions := numFunctions st + 1\<rparr>"

definition RegisterVariable :: "vid \<Rightarrow> AnalysisState \<Rightarrow> AnalysisState" where
  "RegisterVariable v st =
     (if contains (Variables st) v then st
      else modify_info v (\<lambda>i. i\<lparr>classification := Safe, sizeOf := size_zero st\<rparr>) st)"

definition reclassify :: "VariableStates \<Rightarrow> VariableInfo \<Rightarrow> VariableInfo" where
  "reclassify c i =
     (let i' = i\<lparr>classification := c\<rparr>
      in if isGlobal i' then i'\<lparr>didClassificationChange := True\<rparr> else i')"

definition ClassifyPointerVariable :: "vid \<Rightarrow> VariableStates \<Rightarrow> AnalysisState \<Rightarrow> AnalysisState" where
  "ClassifyPointerVariable v c st =
     (let st1 = RegisterVariable v st; old = classification (lookup_info st1 v)
      in if old < c then modify_info v (reclassify c) st1
         else if old = Dyn \<and> c = Seq then modify_info v (reclassify c) st1
         else st1)"

definition SetSizeForPointerVariable :: "vid \<Rightarrow> sizeval \<Rightarrow> AnalysisState \<Rightarrow> AnalysisState" where
  "SetSizeForPointerVariable v s st =
     (let st1 = RegisterVariable v st
      in if s = SNull then modify_info v (\<lambda>i. i\<lparr>sizeOf := size_zero st1\<rparr>) st1
         else modify_info v (\<lambda>i. i\<lparr>sizeOf := s\<rparr>) st1)"

definition SetExplicitSizeVariableForPointerVariable ::
    "vid \<Rightarrow> sizeval \<Rightarrow> AnalysisState \<Rightarrow> AnalysisState" where
  "SetExplicitSizeVariableForPointerVariable v s st =
     modify_info v (\<lambda>i. i\<lparr>hasExplicitSizeVariable := (s \<noteq> SNull), explicitSizeVariable := s\<rparr>)
       (RegisterVariable v st)"

definition SetInstantiatedExplicitSizeVariable :: "vid \<Rightarrow> bool \<Rightarrow> AnalysisState \<Rightarrow> AnalysisState" where
  "SetInstantiatedExplicitSizeVariable v b st =
     modify_info v (\<lambda>i. i\<lparr>instantiatedExplicitSizeVariable := b\<rparr>) (RegisterVariable v st)"

definition SetHasMetadataTableEntry :: "vid \<Rightarrow> AnalysisState \<Rightarrow> AnalysisState" where
  "SetHasMetadataTableEntry v st =
     modify_info v (\<lambda>i. i\<lparr>hasMetadataTableEntry := True\<rparr>) (RegisterVariable v st)"

text \<open>
  \<open>GetPointerVariableInfo\<close> returns a pointer: to a new structure for the null constant (its fields
  that the method leaves unset are those of \<open>junk\<close>), to the entry of the dictionary, or null.
\<close>

datatype info_ptr = NewInfo VariableInfo | Entry vid

definition GetPointerVariableInfo ::
    "ir \<Rightarrow> VariableInfo \<Rightarrow> AnalysisState \<Rightarrow> vid \<Rightarrow> info_ptr option" where
  "GetPointerVariableInfo I junk st v =
     (if kind I v = KConstantPointerNull
      then Some (NewInfo (junk\<lparr>classification := Unknown, sizeOf := size_zero st\<rparr>))
      else if contains (Variables st) v then Some (Entry v)
      else None)"

fun deref :: "AnalysisState \<Rightarrow> info_ptr \<Rightarrow> VariableInfo" where
  "deref st (NewInfo i) = i"
| "deref st (Entry v) = lookup_info st v"

record counters =
  safeptrscount :: nat
  seqptrscount :: nat
  dynptrscount :: nat
  hasmetadatatableentrycount :: nat

definition count_one :: "VariableInfo \<Rightarrow> counters \<Rightarrow> counters" where
  "count_one i c =
     (let c1 = (if classification i = Safe then c\<lparr>safeptrscount := safeptrscount c + 1\<rparr>
                else if classification i = Seq then c\<lparr>seqptrscount := seqptrscount c + 1\<rparr>
                else if classification i = Dyn then c\<lparr>dynptrscount := dynptrscount c + 1\<rparr>
                else c)
      in if hasMetadataTableEntry i
         then c1\<lparr>hasmetadatatableentrycount := hasmetadatatableentrycount c1 + 1\<rparr> else c1)"

definition zero_counters :: counters where
  "zero_counters = \<lparr>safeptrscount = 0, seqptrscount = 0, dynptrscount = 0, hasmetadatatableentrycount = 0\<rparr>"

definition GetVariablesStateAsString :: "AnalysisState \<Rightarrow> counters" where
  "GetVariablesStateAsString st = fold (\<lambda>(_, i). count_one i) (Variables st) zero_counters"

subsection \<open>The methods of \<open>NesCheck::AnalysisState\<close> that differ\<close>

definition nc_ClassifyPointerVariable ::
    "vid \<Rightarrow> VariableStates \<Rightarrow> AnalysisState \<Rightarrow> AnalysisState \<times> string" where
  "nc_ClassifyPointerVariable v c st =
     (let st1 = RegisterVariable v st; ptrTypeName = PtrTypeToString c
      in (if classification (lookup_info st1 v) < c then modify_info v (reclassify c) st1 else st1,
          ptrTypeName))"

subsection \<open>Operations as data\<close>

datatype state_op =
    OpRegister vid
  | OpClassify vid VariableStates
  | OpSetSize vid sizeval
  | OpSetExplicitSize vid sizeval
  | OpSetInstantiated vid bool
  | OpSetMetadata vid
  | OpRegisterFunction

fun apply_op :: "state_op \<Rightarrow> AnalysisState \<Rightarrow> AnalysisState" where
  "apply_op (OpRegister v) st = RegisterVariable v st"
| "apply_op (OpClassify v c) st = ClassifyPointerVariable v c st"
| "apply_op (OpSetSize v s) st = SetSizeForPointerVariable v s st"
| "apply_op (OpSetExplicitSize v s) st = SetExplicitSizeVariableForPointerVariable v s st"
| "apply_op (OpSetInstantiated v b) st = SetInstantiatedExplicitSizeVariable v b st"
| "apply_op (OpSetMetadata v) st = SetHasMetadataTableEntry v st"
| "apply_op OpRegisterFunction st = RegisterFunction st"

fun op_target :: "state_op \<Rightarrow> vid option" where
  "op_target (OpRegister v) = Some v"
| "op_target (OpClassify v c) = Some v"
| "op_target (OpSetSize v s) = Some v"
| "op_target (OpSetExplicitSize v s) = Some v"
| "op_target (OpSetInstantiated v b) = Some v"
| "op_target (OpSetMetadata v) = Some v"
| "op_target OpRegisterFunction = None"

definition apply_ops :: "state_op list \<Rightarrow> AnalysisState \<Rightarrow> AnalysisState" where
  "apply_ops ops st = fold apply_op ops st"

definition class_of :: "AnalysisState \<Rightarrow> vid \<Rightarrow> VariableStates" where
  "class_of st v = classification (lookup_info st v)"

subsection \<open>Basic facts\<close>

lemma lookup_modify: "lookup_info (modify_info v f st) w = (if w = v then f (lookup_info st v) else lookup_info st w)"
  by (simp add: modify_info_def lookup_info_def dict)

lemma contains_modify: "contains (Variables (modify_info v f st)) w \<longleftrightarrow> w = v \<or> contains (Variables st) w"
  by (simp add: modify_info_def dict)

lemma lookup_absent: "\<not> contains (Variables st) v \<Longrightarrow> lookup_info st v = fresh_info"
  by (simp add: lookup_info_def contains_def)

lemma lookup_Register:
  "lookup_info (RegisterVariable v st) w =
     (if w = v \<and> \<not> contains (Variables st) v then fresh_info\<lparr>sizeOf := size_zero st\<rparr> else lookup_info st w)"
  by (auto simp: RegisterVariable_def lookup_modify lookup_absent fresh_info_def)

lemma contains_Register:
  "contains (Variables (RegisterVariable v st)) w \<longleftrightarrow> w = v \<or> contains (Variables st) w"
  by (auto simp: RegisterVariable_def contains_modify)

lemma sizetype_modify [simp]: "sizetype (modify_info v f st) = sizetype st"
  by (simp add: modify_info_def)

lemma sizetype_Register [simp]: "sizetype (RegisterVariable v st) = sizetype st"
  by (simp add: RegisterVariable_def)

lemma class_fresh [simp]: "classification fresh_info = Safe"
  by (simp add: fresh_info_def)

lemma class_of_Register [simp]: "class_of (RegisterVariable v st) w = class_of st w"
  by (auto simp: class_of_def lookup_Register lookup_absent)

lemma classification_reclassify [simp]: "classification (reclassify c i) = c"
  by (simp add: reclassify_def Let_def)

lemma sizeOf_reclassify [simp]: "sizeOf (reclassify c i) = sizeOf i"
  by (simp add: reclassify_def Let_def)

lemmas state_simps = lookup_modify contains_modify lookup_Register contains_Register

lemma class_of_lookup: "classification (lookup_info st v) = class_of st v"
  by (simp add: class_of_def)

subsection \<open>The interface the passes rely on\<close>

text \<open>
  A classifier answers requests \<open>classify v c\<close>.  The class of a value changes only by requests for
  that value, through a step function; an unsafe class (\<open>Seq\<close> or \<open>Dyn\<close>) arises only from an unsafe
  request and is never lost.
\<close>

definition unsafe_class :: "VariableStates \<Rightarrow> bool" where
  "unsafe_class c \<longleftrightarrow> c = Seq \<or> c = Dyn"

locale classifier =
  fixes classify :: "'v \<Rightarrow> VariableStates \<Rightarrow> 's \<Rightarrow> 's"
    and cls :: "'s \<Rightarrow> 'v \<Rightarrow> VariableStates"
    and move :: "VariableStates \<Rightarrow> VariableStates \<Rightarrow> VariableStates"
  assumes cls_classify: "cls (classify v c s) w = (if w = v then move (cls s v) c else cls s w)"
    and move_unsafe: "unsafe_class (move a c) \<longleftrightarrow> unsafe_class a \<or> unsafe_class c"
begin

lemma cls_requests: "cls (fold (\<lambda>(w, c). classify w c) rs s) v = foldl move (cls s v) (map snd (filter (\<lambda>r. fst r = v) rs))"
  by (induction rs arbitrary: s) (auto simp: cls_classify)

lemma unsafe_foldl: "unsafe_class (foldl move a cs) \<longleftrightarrow> unsafe_class a \<or> (\<exists>c \<in> set cs. unsafe_class c)"
  by (induction cs arbitrary: a) (auto simp: move_unsafe)

lemma unsafe_requests:
  "unsafe_class (cls (fold (\<lambda>(w, c). classify w c) rs s) v) \<longleftrightarrow>
     unsafe_class (cls s v) \<or> (\<exists>c. (v, c) \<in> set rs \<and> unsafe_class c)"
  by (auto simp: cls_requests unsafe_foldl image_iff)

end

definition ums_move :: "VariableStates \<Rightarrow> VariableStates \<Rightarrow> VariableStates" where
  "ums_move a c = (if a < c then c else if a = Dyn \<and> c = Seq then Seq else a)"

lemma class_of_Classify:
  "class_of (ClassifyPointerVariable v c st) w = (if w = v then ums_move (class_of st v) c else class_of st w)"
proof -
  have old: "classification (lookup_info (RegisterVariable v st) v) = class_of st v"
    by (simp add: class_of_lookup)
  have other: "lookup_info (RegisterVariable v st) w = lookup_info st w" if "w \<noteq> v"
    using that by (simp add: lookup_Register)
  show ?thesis
    unfolding ClassifyPointerVariable_def Let_def old ums_move_def
    by (auto simp: class_of_def lookup_modify other) (simp_all add: class_of_lookup)
qed

lemma unsafe_ums_move: "unsafe_class (ums_move a c) \<longleftrightarrow> unsafe_class a \<or> unsafe_class c"
  by (cases a; cases c) (simp_all add: ums_move_def unsafe_class_def VariableStates_order)

interpretation ums: classifier ClassifyPointerVariable class_of ums_move
  by unfold_locales (simp_all add: class_of_Classify unsafe_ums_move)

lemma class_of_nc_Classify:
  "class_of (fst (nc_ClassifyPointerVariable v c st)) w = (if w = v then max (class_of st v) c else class_of st w)"
proof -
  have old: "classification (lookup_info (RegisterVariable v st) v) = class_of st v"
    by (simp add: class_of_lookup)
  have other: "lookup_info (RegisterVariable v st) w = lookup_info st w" if "w \<noteq> v"
    using that by (simp add: lookup_Register)
  show ?thesis
    unfolding nc_ClassifyPointerVariable_def Let_def old max_def fst_conv
    by (auto simp: class_of_def lookup_modify other not_le not_less) (simp_all add: class_of_lookup)
qed

lemma unsafe_max: "unsafe_class (max a c) \<longleftrightarrow> unsafe_class a \<or> unsafe_class c"
  by (cases a; cases c) (simp_all add: max_def unsafe_class_def VariableStates_order)

interpretation nes: classifier "\<lambda>v c st. fst (nc_ClassifyPointerVariable v c st)" class_of max
  by unfold_locales (simp_all add: class_of_nc_Classify unsafe_max)

subsection \<open>Invariants of the store\<close>

text \<open>
  Keys are distinct and no entry has a null size: what the passes need when they read
  \<open>varinfo->size\<close> without a check.
\<close>

definition state_ok :: "AnalysisState \<Rightarrow> bool" where
  "state_ok st \<longleftrightarrow> dict_ok (Variables st) \<and> (\<forall>(v, i) \<in> set (Variables st). sizeOf i \<noteq> SNull)"

lemma state_ok_alt:
  "state_ok st \<longleftrightarrow> dict_ok (Variables st) \<and>
     (\<forall>v. contains (Variables st) v \<longrightarrow> sizeOf (lookup_info st v) \<noteq> SNull)"
proof -
  have "(\<forall>(v, i) \<in> set (Variables st). sizeOf i \<noteq> SNull) \<longleftrightarrow>
      (\<forall>v i. map_of (Variables st) v = Some i \<longrightarrow> sizeOf i \<noteq> SNull)" if "dict_ok (Variables st)"
    using dict_ok_map_of [OF that] by (blast dest: map_of_in_set)
  moreover have "(\<forall>v i. map_of (Variables st) v = Some i \<longrightarrow> sizeOf i \<noteq> SNull) \<longleftrightarrow>
      (\<forall>v. contains (Variables st) v \<longrightarrow> sizeOf (lookup_info st v) \<noteq> SNull)"
    by (auto simp: lookup_info_def contains_map_of)
  ultimately show ?thesis by (auto simp: state_ok_def)
qed

lemma state_ok_modify:
  assumes "state_ok st" and "sizeOf (f (lookup_info st v)) \<noteq> SNull"
  shows "state_ok (modify_info v f st)"
proof -
  have "dict_ok (Variables (modify_info v f st))"
    using assms(1) by (simp add: state_ok_def modify_info_def)
  then show ?thesis using assms by (auto simp: state_ok_alt contains_modify lookup_modify)
qed

lemma size_zero_nonnull [simp]: "size_zero st \<noteq> SNull"
  by (simp add: size_zero_def)

lemma state_ok_Register [simp]: "state_ok st \<Longrightarrow> state_ok (RegisterVariable v st)"
  by (simp add: RegisterVariable_def state_ok_modify)

lemma registered_size: "state_ok st \<Longrightarrow> sizeOf (lookup_info (RegisterVariable v st) v) \<noteq> SNull"
  using state_ok_Register [of st v] by (simp add: state_ok_alt contains_Register)

lemma state_ok_Classify [simp]: "state_ok st \<Longrightarrow> state_ok (ClassifyPointerVariable v c st)"
  by (simp add: ClassifyPointerVariable_def Let_def state_ok_modify registered_size)

lemma state_ok_SetSize [simp]: "state_ok st \<Longrightarrow> state_ok (SetSizeForPointerVariable v s st)"
  by (simp add: SetSizeForPointerVariable_def Let_def state_ok_modify)

lemma state_ok_RegisterFunction [simp]: "state_ok (RegisterFunction st) \<longleftrightarrow> state_ok st"
  by (simp add: state_ok_def RegisterFunction_def)

lemma state_ok_apply_op: "state_ok st \<Longrightarrow> state_ok (apply_op p st)"
  by (cases p)
    (simp_all add: SetExplicitSizeVariableForPointerVariable_def SetInstantiatedExplicitSizeVariable_def
      SetHasMetadataTableEntry_def state_ok_modify registered_size)

lemma class_of_modify_keep:
  "(\<And>i. classification (f i) = classification i) \<Longrightarrow> class_of (modify_info v f st) w = class_of st w"
  by (simp add: class_of_def lookup_modify)

lemma class_of_SetSize [simp]: "class_of (SetSizeForPointerVariable v s st) w = class_of st w"
  by (simp add: SetSizeForPointerVariable_def Let_def class_of_modify_keep)

lemma class_of_RegisterFunction [simp]: "class_of (RegisterFunction st) w = class_of st w"
  by (simp add: RegisterFunction_def class_of_def lookup_info_def)

lemma class_of_apply_op:
  "class_of (apply_op p st) w =
     (case p of OpClassify v c \<Rightarrow> (if w = v then ums_move (class_of st v) c else class_of st w)
      | _ \<Rightarrow> class_of st w)"
  by (cases p)
    (simp_all add: class_of_Classify class_of_modify_keep SetExplicitSizeVariableForPointerVariable_def
      SetInstantiatedExplicitSizeVariable_def SetHasMetadataTableEntry_def)

lemma lookup_apply_op_other:
  "op_target p \<noteq> Some w \<Longrightarrow> lookup_info (apply_op p st) w = lookup_info st w"
  by (cases p)
    (auto simp: ClassifyPointerVariable_def SetSizeForPointerVariable_def Let_def state_simps
      SetExplicitSizeVariableForPointerVariable_def SetInstantiatedExplicitSizeVariable_def
      SetHasMetadataTableEntry_def RegisterFunction_def, simp add: lookup_info_def)

subsection \<open>Properties\<close>

lemma fold_apply_class:
  "unsafe_class (class_of (fold apply_op ops st) v) \<longleftrightarrow>
     unsafe_class (class_of st v) \<or> (\<exists>c. OpClassify v c \<in> set ops \<and> unsafe_class c)"
  by (induction ops arbitrary: st) (auto simp: class_of_apply_op unsafe_ums_move split: state_op.splits)

text \<open>
  C1: Whatever sequence of store operations a pass performs, a pointer is unsafe (\<open>Seq\<close> or \<open>Dyn\<close>)
  afterwards exactly if it was unsafe before or some operation classified it as unsafe: an unsafe
  classification is never lost, and none appears by itself.
\<close>

theorem unsafe_never_lost:
  "unsafe_class (class_of (apply_ops ops st) v) \<longleftrightarrow>
     unsafe_class (class_of st v) \<or> (\<exists>c. OpClassify v c \<in> set ops \<and> unsafe_class c)"
  unfolding apply_ops_def by (rule fold_apply_class)

lemma ums_move_unsafe_request: "unsafe_class c \<Longrightarrow> ums_move a c = c"
  by (cases a; cases c) (simp_all add: ums_move_def unsafe_class_def VariableStates_order)

lemma ums_move_safe_request: "\<not> unsafe_class c \<Longrightarrow> a \<noteq> Unknown \<Longrightarrow> ums_move a c = a"
  by (cases a; cases c) (simp_all add: ums_move_def unsafe_class_def VariableStates_order)

lemma foldl_ums_move:
  "a \<noteq> Unknown \<Longrightarrow> foldl ums_move a cs = (case rev (filter unsafe_class cs) of [] \<Rightarrow> a | c # _ \<Rightarrow> c)"
proof (induction cs rule: rev_induct)
  case (snoc c cs)
  moreover have "foldl ums_move a cs \<noteq> Unknown"
    using snoc by (auto split: list.split dest!: arg_cong [where f = set] simp: unsafe_class_def)
  ultimately show ?case
    by (cases "unsafe_class c") (simp_all add: ums_move_unsafe_request ums_move_safe_request)
qed simp

lemma class_of_init [simp]: "class_of init_state v = Safe"
  by (simp add: class_of_def lookup_info_def init_state_def)

text \<open>
  Among \<open>Seq\<close> and \<open>Dyn\<close> requests the last one wins: after any list of classification
  requests the class of a pointer is its last unsafe request, and \<open>Safe\<close> if there was none.
  Requests for other pointers have no influence.
\<close>

theorem class_is_last_unsafe_request:
  "class_of (fold (\<lambda>(w, c). ClassifyPointerVariable w c) rs init_state) v =
     (case rev (filter unsafe_class (map snd (filter (\<lambda>r. fst r = v) rs))) of [] \<Rightarrow> Safe | c # _ \<Rightarrow> c)"
  by (simp add: ums.cls_requests foldl_ums_move)

lemma foldl_max_Max: "foldl max a cs = Max (insert (a :: VariableStates) (set cs))"
proof (induction cs rule: rev_induct)
  case (snoc c cs)
  have "Max (insert a (set (cs @ [c]))) = Max (insert c (insert a (set cs)))"
    by (simp add: insert_commute)
  then show ?case using snoc by (simp add: max.commute)
qed simp

text \<open>
  The store of the older \<open>NesCheck\<close> copy keeps the greatest request instead (the order of the
  enumeration \<open>Unknown < Safe < Seq < Dyn\<close>), independent of their order.
\<close>

theorem nc_class_is_greatest_request:
  "class_of (fold (\<lambda>(w, c) st. fst (nc_ClassifyPointerVariable w c st)) rs init_state) v =
     Max (insert Safe {c. (v, c) \<in> set rs})"
proof -
  have "class_of (fold (\<lambda>(w, c) st. fst (nc_ClassifyPointerVariable w c st)) rs init_state) v =
      foldl max Safe (map snd (filter (\<lambda>r. fst r = v) rs))"
    using nes.cls_requests [of rs init_state v] by simp
  also have "\<dots> = Max (insert Safe (set (map snd (filter (\<lambda>r. fst r = v) rs))))"
    by (rule foldl_max_Max)
  also have "set (map snd (filter (\<lambda>r. fst r = v) rs)) = {c. (v, c) \<in> set rs}"
    by (force simp: image_iff)
  finally show ?thesis .
qed

lemma Variables_apply_op_other:
  "op_target p \<noteq> Some w \<Longrightarrow> contains (Variables (apply_op p st)) w \<longleftrightarrow> contains (Variables st) w"
  by (cases p)
    (auto simp: ClassifyPointerVariable_def SetSizeForPointerVariable_def Let_def state_simps
      SetExplicitSizeVariableForPointerVariable_def SetInstantiatedExplicitSizeVariable_def
      SetHasMetadataTableEntry_def RegisterFunction_def)

text \<open>
  C37: Every sequence of store operations keeps the store well formed (distinct keys, no entry with a
  null size, so \<open>varinfo->size\<close> may be dereferenced) and leaves the entries of pointers it does not
  name as they were.
\<close>

theorem store_operations_keep_invariant:
  assumes "state_ok st" and "\<forall>p \<in> set ops. op_target p \<noteq> Some w"
  shows "state_ok (apply_ops ops st) \<and> lookup_info (apply_ops ops st) w = lookup_info st w \<and>
    (contains (Variables (apply_ops ops st)) w \<longleftrightarrow> contains (Variables st) w)"
  using assms unfolding apply_ops_def
  by (induction ops arbitrary: st)
    (simp_all add: state_ok_apply_op lookup_apply_op_other Variables_apply_op_other)

theorem store_operations_keep_invariant_witness:
  "state_ok (apply_ops [OpClassify 1 Dyn, OpSetSize 1 SNull] init_state) \<and>
    lookup_info (apply_ops [OpClassify 1 Dyn, OpSetSize 1 SNull] init_state) 2 = lookup_info init_state 2 \<and>
    (contains (Variables (apply_ops [OpClassify 1 Dyn, OpSetSize 1 SNull] init_state)) 2 \<longleftrightarrow>
       contains (Variables init_state) 2)"
  by (rule store_operations_keep_invariant) (simp_all add: state_ok_def init_state_def)

lemma lookup_Classify:
  "lookup_info (ClassifyPointerVariable v c st) v =
     (let i = lookup_info (RegisterVariable v st) v
      in if ums_move (classification i) c \<noteq> classification i then reclassify c i else i)"
  by (auto simp: ClassifyPointerVariable_def Let_def lookup_modify ums_move_def)

text \<open>
  The full effect of a classification request on the entry of its pointer: the entry is created if
  it is missing, the class rises to a greater request or moves from \<open>Dyn\<close> to \<open>Seq\<close>, a global whose class changes is flagged for
  re-analysis, and size and all other fields keep the values they had.
\<close>

theorem classify_entry_effect:
  "contains (Variables (ClassifyPointerVariable v c st)) v \<and>
   lookup_info (ClassifyPointerVariable v c st) v =
     (let i = (if contains (Variables st) v then lookup_info st v else fresh_info\<lparr>sizeOf := size_zero st\<rparr>);
          changed = (classification i < c \<or> (classification i = Dyn \<and> c = Seq))
      in i\<lparr>classification := (if changed then c else classification i),
           didClassificationChange := (changed \<and> isGlobal i \<or> didClassificationChange i)\<rparr>)"
proof -
  have "(if ums_move (classification i) c \<noteq> classification i then reclassify c i else i) =
      (let changed = (classification i < c \<or> (classification i = Dyn \<and> c = Seq))
       in i\<lparr>classification := (if changed then c else classification i),
            didClassificationChange := (changed \<and> isGlobal i \<or> didClassificationChange i)\<rparr>)"
    for i :: VariableInfo
    by (cases i) (auto simp: ums_move_def reclassify_def Let_def)
  moreover have "contains (Variables (ClassifyPointerVariable v c st)) v"
    by (simp add: ClassifyPointerVariable_def Let_def state_simps)
  moreover have "lookup_info (RegisterVariable v st) v =
      (if contains (Variables st) v then lookup_info st v else fresh_info\<lparr>sizeOf := size_zero st\<rparr>)"
    by (simp add: lookup_Register)
  ultimately show ?thesis
    by (simp only: lookup_Classify Let_def simp_thms)
qed

lemma count_fold:
  "safeptrscount (fold (\<lambda>(_, i). count_one i) vs c) = safeptrscount c + length (filter (\<lambda>(_, i). classification i = Safe) vs)"
  "seqptrscount (fold (\<lambda>(_, i). count_one i) vs c) = seqptrscount c + length (filter (\<lambda>(_, i). classification i = Seq) vs)"
  "dynptrscount (fold (\<lambda>(_, i). count_one i) vs c) = dynptrscount c + length (filter (\<lambda>(_, i). classification i = Dyn) vs)"
  "hasmetadatatableentrycount (fold (\<lambda>(_, i). count_one i) vs c) =
     hasmetadatatableentrycount c + length (filter (\<lambda>(_, i). hasMetadataTableEntry i) vs)"
  by (induction vs arbitrary: c) (auto simp: count_one_def Let_def)

lemma count_classes:
  "length (filter (\<lambda>(_, i). classification i = Safe) vs) + length (filter (\<lambda>(_, i). classification i = Seq) vs) +
   length (filter (\<lambda>(_, i). classification i = Dyn) vs) + length (filter (\<lambda>(_, i). classification i = Unknown) vs) =
   length (vs :: (vid \<times> VariableInfo) list)"
proof (induction vs)
  case (Cons x vs)
  then show ?case by (cases "classification (snd x)") (auto simp: case_prod_beta)
qed simp

text \<open>
  The reported totals are exact: each counter is the number of entries of its class, the metadata
  counter the number of entries with a metadata table entry, and the three classes together count
  every pointer whose class is not \<open>Unknown\<close>.
\<close>

theorem reported_counts_exact:
  "safeptrscount (GetVariablesStateAsString st) = length (filter (\<lambda>(_, i). classification i = Safe) (Variables st)) \<and>
   seqptrscount (GetVariablesStateAsString st) = length (filter (\<lambda>(_, i). classification i = Seq) (Variables st)) \<and>
   dynptrscount (GetVariablesStateAsString st) = length (filter (\<lambda>(_, i). classification i = Dyn) (Variables st)) \<and>
   hasmetadatatableentrycount (GetVariablesStateAsString st) = length (filter (\<lambda>(_, i). hasMetadataTableEntry i) (Variables st)) \<and>
   safeptrscount (GetVariablesStateAsString st) + seqptrscount (GetVariablesStateAsString st) +
   dynptrscount (GetVariablesStateAsString st) +
     length (filter (\<lambda>(_, i). classification i = Unknown) (Variables st)) = length (Variables st)"
  using count_classes [of "Variables st"]
  by (simp add: GetVariablesStateAsString_def count_fold zero_counters_def)

end
