(* ===== verification/Range_Value.thy ===== *)
theory Range_Value
  imports LLVM_IR
begin

text \<open>
  The abstract domain of the value-range analysis: \<^verbatim>\<open>struct RangeValue\<close> of \<^verbatim>\<open>ValueRange.cpp\<close> with its
  operators and the class \<^verbatim>\<open>RangeMeet\<close>, together with the generic accumulation of
  \<^verbatim>\<open>analysis::Meet\<close> (\<^verbatim>\<open>DataflowAnalysis.h\<close>).  A range holds two nullable pointers to constants; an
  operator that dereferences a null pointer, or compares constants of different widths (an
  assertion of \<^verbatim>\<open>APInt\<close>), has the result \<open>None\<close>.  \<open>gamma\<close> is the set of numbers a range stands for.
\<close>

subsection \<open>Data\<close>

datatype PossibleRangeValues = unknownK | constantK | infinityK

record RangeValue =
  rkind :: PossibleRangeValues
  lvalue :: "apint option"
  rvalue :: "apint option"

definition unknownRange :: RangeValue where
  "unknownRange = \<lparr>rkind = unknownK, lvalue = None, rvalue = None\<rparr>"

definition isUnknown :: "RangeValue \<Rightarrow> bool" where
  "isUnknown r \<longleftrightarrow> rkind r = unknownK"

definition isInfinity :: "RangeValue \<Rightarrow> bool" where
  "isInfinity r \<longleftrightarrow> rkind r = infinityK"

definition isConstantRange :: "RangeValue \<Rightarrow> bool" where
  "isConstantRange r \<longleftrightarrow> rkind r = constantK"

definition makeRange :: "apint \<Rightarrow> apint \<Rightarrow> RangeValue" where
  "makeRange l r = \<lparr>rkind = constantK, lvalue = Some l, rvalue = Some r\<rparr>"

definition infRange :: RangeValue where
  "infRange = \<lparr>rkind = infinityK, lvalue = None, rvalue = None\<rparr>"

text \<open>Dereferencing both bounds.\<close>

definition bounds :: "RangeValue \<Rightarrow> (apint \<times> apint) option" where
  "bounds r = (case (lvalue r, rvalue r) of (Some a, Some b) \<Rightarrow> Some (a, b) | _ \<Rightarrow> None)"

subsection \<open>Operators\<close>

definition range_and :: "RangeValue \<Rightarrow> RangeValue \<Rightarrow> RangeValue option" where
  "range_and self other =
     (if isUnknown self \<or> isUnknown other
      then Some (if isUnknown self then other else self)
      else if isInfinity self \<or> isInfinity other
      then Some (if isInfinity self then other else self)
      else case (bounds self, bounds other) of
        (Some (selfL, selfR), Some (otherL, otherR)) \<Rightarrow>
          Some \<lparr>rkind = constantK,
             lvalue = Some (if slt (sextOrTrunc selfL 64) (sextOrTrunc otherL 64) then otherL else selfL),
             rvalue = Some (if sgt (sextOrTrunc selfR 64) (sextOrTrunc otherR 64) then otherR else selfR)\<rparr>
      | _ \<Rightarrow> None)"

definition range_or :: "RangeValue \<Rightarrow> RangeValue \<Rightarrow> RangeValue option" where
  "range_or self other =
     (if isUnknown self \<or> isUnknown other
      then Some (if isUnknown self then self else other)
      else if isInfinity self \<or> isInfinity other then Some infRange
      else case (bounds self, bounds other) of
        (Some (selfL, selfR), Some (otherL, otherR)) \<Rightarrow>
          (if width selfL = width otherL \<and> width selfR = width otherR
           then Some \<lparr>rkind = constantK,
               lvalue = Some (if slt selfL otherL then selfL else otherL),
               rvalue = Some (if sgt selfR otherR then selfR else otherR)\<rparr>
           else None)
      | _ \<Rightarrow> None)"

definition range_eq :: "RangeValue \<Rightarrow> RangeValue \<Rightarrow> bool option" where
  "range_eq self other =
     (if rkind self = constantK \<and> rkind other = constantK
      then case (bounds self, bounds other) of
        (Some (selfL, selfR), Some (otherL, otherR)) \<Rightarrow>
          (if width selfL \<noteq> width otherL then None
           else if selfL \<noteq> otherL then Some False
           else if width selfR \<noteq> width otherR then None
           else Some (selfR = otherR))
      | _ \<Rightarrow> None
      else Some (rkind self = rkind other))"

definition getSignedConstantRange :: "apint \<Rightarrow> apint \<Rightarrow> RangeValue" where
  "getSignedConstantRange l r = \<lparr>rkind = constantK, lvalue = Some l, rvalue = Some r\<rparr>"

definition getUnsignedConstantRange :: "apint \<Rightarrow> apint \<Rightarrow> RangeValue" where
  "getUnsignedConstantRange l r = \<lparr>rkind = constantK, lvalue = Some l, rvalue = Some r\<rparr>"

subsection \<open>The range implied by a conditional branch\<close>

text \<open>
  \<open>isTrueBranch\<close> says which edge of the branch is taken, \<open>isVariableOpFirst\<close> on which side of the
  comparison the variable stands.
\<close>

definition unsigned_branch ::
    "predicate \<Rightarrow> apint \<Rightarrow> apint \<Rightarrow> apint \<Rightarrow> bool \<Rightarrow> bool \<Rightarrow> RangeValue" where
  "unsigned_branch p known minVal maxVal t f =
     (case p of
        ICMP_UGT \<Rightarrow>
          (if t \<and> f then getUnsignedConstantRange (ap_add1 known) maxVal
           else if \<not> t \<and> \<not> f then getUnsignedConstantRange known maxVal
           else if \<not> t \<and> f then getUnsignedConstantRange minVal known
           else getUnsignedConstantRange minVal (ap_sub1 known))
      | ICMP_UGE \<Rightarrow>
          (if t \<and> f then getUnsignedConstantRange known maxVal
           else if \<not> t \<and> \<not> f then getUnsignedConstantRange (ap_add1 known) maxVal
           else if \<not> t \<and> f then getUnsignedConstantRange minVal (ap_sub1 known)
           else getUnsignedConstantRange minVal known)
      | ICMP_ULT \<Rightarrow>
          (if t \<and> f then getUnsignedConstantRange minVal (ap_sub1 known)
           else if \<not> t \<and> \<not> f then getUnsignedConstantRange minVal known
           else if \<not> t \<and> f then getUnsignedConstantRange known maxVal
           else getUnsignedConstantRange (ap_add1 known) maxVal)
      | ICMP_ULE \<Rightarrow>
          (if t \<and> f then getUnsignedConstantRange minVal known
           else if \<not> t \<and> \<not> f then getUnsignedConstantRange minVal (ap_sub1 known)
           else if \<not> t \<and> f then getUnsignedConstantRange (ap_add1 known) maxVal
           else getUnsignedConstantRange known maxVal)
      | _ \<Rightarrow> infRange)"

definition signed_branch ::
    "predicate \<Rightarrow> apint \<Rightarrow> apint \<Rightarrow> apint \<Rightarrow> bool \<Rightarrow> bool \<Rightarrow> RangeValue" where
  "signed_branch p known signedMinVal signedMaxVal t f =
     (case p of
        ICMP_SGT \<Rightarrow>
          (if t \<and> f then getSignedConstantRange (ap_add1 known) signedMaxVal
           else if \<not> t \<and> \<not> f then getSignedConstantRange known signedMaxVal
           else if \<not> t \<and> f then getSignedConstantRange signedMinVal known
           else getSignedConstantRange signedMinVal (ap_sub1 known))
      | ICMP_SGE \<Rightarrow>
          (if t \<and> f then getSignedConstantRange known signedMaxVal
           else if \<not> t \<and> \<not> f then getSignedConstantRange (ap_add1 known) signedMaxVal
           else if \<not> t \<and> f then getSignedConstantRange signedMinVal (ap_sub1 known)
           else getSignedConstantRange signedMinVal known)
      | ICMP_SLT \<Rightarrow>
          (if t \<and> f then getSignedConstantRange signedMinVal (ap_sub1 known)
           else if \<not> t \<and> \<not> f then getSignedConstantRange signedMinVal known
           else if \<not> t \<and> f then getSignedConstantRange known signedMaxVal
           else getSignedConstantRange (ap_add1 known) signedMaxVal)
      | ICMP_SLE \<Rightarrow>
          (if t \<and> f then getSignedConstantRange signedMinVal known
           else if \<not> t \<and> \<not> f then getSignedConstantRange signedMinVal (ap_sub1 known)
           else if \<not> t \<and> f then getSignedConstantRange (ap_add1 known) signedMaxVal
           else getSignedConstantRange known signedMaxVal)
      | _ \<Rightarrow> infRange)"

definition getRangeForConditionalBranch ::
    "predicate \<Rightarrow> ty \<Rightarrow> apint \<Rightarrow> bool \<Rightarrow> bool \<Rightarrow> RangeValue" where
  "getRangeForConditionalBranch p opType known isTrueBranch isVariableOpFirst =
     (case intWidth opType of
        None \<Rightarrow> infRange
      | Some bitWidth \<Rightarrow>
          (let maxVal = getMaxValue bitWidth;
               signedMaxVal = getSignedMaxValue bitWidth;
               signedMinVal = (if sval known < 0 then getSignedMinValue bitWidth else getMinValue bitWidth);
               minVal = getMinValue bitWidth
           in if p = ICMP_EQ then (if isTrueBranch then getSignedConstantRange known known else infRange)
              else if p = ICMP_NE then (if \<not> isTrueBranch then getSignedConstantRange known known else infRange)
              else if p \<in> {ICMP_UGT, ICMP_UGE, ICMP_ULT, ICMP_ULE}
              then unsigned_branch p known minVal maxVal isTrueBranch isVariableOpFirst
              else signed_branch p known signedMinVal signedMaxVal isTrueBranch isVariableOpFirst))"

subsection \<open>The meet of the analysis\<close>

definition meetPair :: "RangeValue \<Rightarrow> RangeValue \<Rightarrow> RangeValue option" where
  "meetPair s1 s2 = range_or s1 s2"

definition intersection :: "RangeValue \<Rightarrow> RangeValue \<Rightarrow> RangeValue option" where
  "intersection s1 s2 = range_and s1 s2"

text \<open>\<^verbatim>\<open>Meet::operator()\<close>: accumulate \<open>meetPair\<close> from a default-constructed value.\<close>

definition accumulate :: "('a \<Rightarrow> 'a \<Rightarrow> 'a option) \<Rightarrow> 'a \<Rightarrow> 'a list \<Rightarrow> 'a option" where
  "accumulate op v0 vs = foldl (\<lambda>acc v. Option.bind acc (\<lambda>a. op a v)) (Some v0) vs"

definition Meet :: "RangeValue list \<Rightarrow> RangeValue option" where
  "Meet values = accumulate meetPair unknownRange values"

subsection \<open>Concretisation\<close>

definition gamma :: "RangeValue \<Rightarrow> int set" where
  "gamma r = (case rkind r of
      constantK \<Rightarrow> (case bounds r of Some (a, b) \<Rightarrow> {sval a..sval b} | None \<Rightarrow> {})
    | _ \<Rightarrow> UNIV)"

definition range_ok :: "RangeValue \<Rightarrow> bool" where
  "range_ok r \<longleftrightarrow> (rkind r = constantK \<longrightarrow>
     (\<exists>a b. lvalue r = Some a \<and> rvalue r = Some b \<and> ap_ok a \<and> ap_ok b \<and> width a \<le> 64 \<and> width b \<le> 64))"

text \<open>The truth of a comparison on unsigned and signed readings.\<close>

fun icmp :: "predicate \<Rightarrow> apint \<Rightarrow> apint \<Rightarrow> bool" where
  "icmp ICMP_EQ a b = (uval a = uval b)"
| "icmp ICMP_NE a b = (uval a \<noteq> uval b)"
| "icmp ICMP_UGT a b = (uval a > uval b)"
| "icmp ICMP_UGE a b = (uval a \<ge> uval b)"
| "icmp ICMP_ULT a b = (uval a < uval b)"
| "icmp ICMP_ULE a b = (uval a \<le> uval b)"
| "icmp ICMP_SGT a b = (sval a > sval b)"
| "icmp ICMP_SGE a b = (sval a \<ge> sval b)"
| "icmp ICMP_SLT a b = (sval a < sval b)"
| "icmp ICMP_SLE a b = (sval a \<le> sval b)"

definition branch_taken :: "predicate \<Rightarrow> apint \<Rightarrow> apint \<Rightarrow> bool \<Rightarrow> bool \<Rightarrow> bool" where
  "branch_taken p x known t f = ((if f then icmp p x known else icmp p known x) = t)"

fun is_unsigned_pred :: "predicate \<Rightarrow> bool" where
  "is_unsigned_pred p \<longleftrightarrow> p \<in> {ICMP_UGT, ICMP_UGE, ICMP_ULT, ICMP_ULE}"

subsection \<open>Lemmas\<close>

lemma kind_cases: "isUnknown r \<or> isInfinity r \<or> isConstantRange r"
  by (cases "rkind r") (auto simp: isUnknown_def isInfinity_def isConstantRange_def)

lemma constant_bounds:
  "range_ok r \<Longrightarrow> isConstantRange r \<Longrightarrow>
     \<exists>a b. bounds r = Some (a, b) \<and> ap_ok a \<and> ap_ok b \<and> width a \<le> 64 \<and> width b \<le> 64"
  by (auto simp: range_ok_def isConstantRange_def bounds_def)

lemma gamma_top: "isUnknown r \<or> isInfinity r \<Longrightarrow> gamma r = UNIV"
  by (auto simp: gamma_def isUnknown_def isInfinity_def)

lemma gamma_constant: "isConstantRange r \<Longrightarrow> bounds r = Some (a, b) \<Longrightarrow> gamma r = {sval a..sval b}"
  by (simp add: gamma_def isConstantRange_def)

lemma bounds_simp [simp]: "bounds \<lparr>rkind = k, lvalue = Some a, rvalue = Some b\<rparr> = Some (a, b)"
  by (simp add: bounds_def)

lemma kind_simps [simp]:
  "isConstantRange \<lparr>rkind = constantK, lvalue = a, rvalue = b\<rparr>"
  "isUnknown unknownRange" "isInfinity infRange"
  "\<not> (isConstantRange r \<and> isUnknown r)" "\<not> (isConstantRange r \<and> isInfinity r)"
  by (auto simp: isConstantRange_def isUnknown_def isInfinity_def unknownRange_def infRange_def)

lemma constant_not: "isConstantRange r \<Longrightarrow> \<not> isUnknown r \<and> \<not> isInfinity r"
  by (auto simp: isConstantRange_def isUnknown_def isInfinity_def)

lemma range_ok_make [simp]:
  "ap_ok a \<Longrightarrow> ap_ok b \<Longrightarrow> width a \<le> 64 \<Longrightarrow> width b \<le> 64 \<Longrightarrow> range_ok \<lparr>rkind = k, lvalue = Some a, rvalue = Some b\<rparr>"
  by (simp add: range_ok_def)

lemma range_and_constant:
  assumes "range_ok a" "range_ok b" "isConstantRange a" "isConstantRange b"
  shows "\<exists>r. range_and a b = Some r \<and> range_ok r \<and> gamma r = gamma a \<inter> gamma b"
proof -
  obtain la ra where a: "bounds a = Some (la, ra)" "ap_ok la" "ap_ok ra" "width la \<le> 64" "width ra \<le> 64"
    using constant_bounds [OF assms(1,3)] by blast
  obtain lb rb where b: "bounds b = Some (lb, rb)" "ap_ok lb" "ap_ok rb" "width lb \<le> 64" "width rb \<le> 64"
    using constant_bounds [OF assms(2,4)] by blast
  have "range_and a b = Some \<lparr>rkind = constantK,
      lvalue = Some (if sval la < sval lb then lb else la), rvalue = Some (if sval rb < sval ra then rb else ra)\<rparr>"
    using constant_not [OF assms(3)] constant_not [OF assms(4)] a b
    by (simp add: range_and_def slt_def sgt_def sval_sextOrTrunc)
  then show ?thesis
    using a b gamma_constant [OF assms(3) a(1)] gamma_constant [OF assms(4) b(1)]
    by (auto simp: gamma_def)
qed

lemma range_or_constant:
  assumes "range_ok a" "range_ok b" "isConstantRange a" "isConstantRange b"
    and "map_option (\<lambda>(l, r). (width l, width r)) (bounds a) = map_option (\<lambda>(l, r). (width l, width r)) (bounds b)"
  shows "\<exists>r. range_or a b = Some r \<and> range_ok r \<and> gamma a \<union> gamma b \<subseteq> gamma r"
proof -
  obtain la ra where a: "bounds a = Some (la, ra)" "ap_ok la" "ap_ok ra" "width la \<le> 64" "width ra \<le> 64"
    using constant_bounds [OF assms(1,3)] by blast
  obtain lb rb where b: "bounds b = Some (lb, rb)" "ap_ok lb" "ap_ok rb" "width lb \<le> 64" "width rb \<le> 64"
    using constant_bounds [OF assms(2,4)] by blast
  have "range_or a b = Some \<lparr>rkind = constantK,
      lvalue = Some (if sval la < sval lb then la else lb), rvalue = Some (if sval rb < sval ra then ra else rb)\<rparr>"
    using constant_not [OF assms(3)] constant_not [OF assms(4)] a b assms(5)
    by (simp add: range_or_def slt_def sgt_def)
  then show ?thesis
    using a b gamma_constant [OF assms(3) a(1)] gamma_constant [OF assms(4) b(1)]
    by (auto simp: gamma_def)
qed

lemma foldl_bind_fix:
  "(\<And>v. v \<in> set vs \<Longrightarrow> op a v = Some a) \<Longrightarrow> foldl (\<lambda>acc v. Option.bind acc (\<lambda>a. op a v)) (Some a) vs = Some a"
  by (induction vs) auto

lemma range_or_unknown: "range_or unknownRange v = Some unknownRange"
  by (simp add: range_or_def)

subsection \<open>Properties\<close>

lemma intersection_gamma:
  assumes "range_ok a" and "range_ok b"
  shows "\<exists>r. intersection a b = Some r \<and> range_ok r \<and> gamma r = gamma a \<inter> gamma b"
proof (cases "isConstantRange a \<and> isConstantRange b")
  case True
  with assms show ?thesis unfolding intersection_def by (intro range_and_constant) auto
next
  case False
  then consider "isUnknown a \<or> isUnknown b" | "\<not> (isUnknown a \<or> isUnknown b)" "isInfinity a \<or> isInfinity b"
    using kind_cases by blast
  then show ?thesis
    by cases (auto simp: intersection_def range_and_def gamma_top assms)
qed

text \<open>
  The intersection used when a branch condition is applied is exact: it never crashes on
  well-formed ranges and the result stands for exactly the numbers both ranges stand for
  (\<open>unknown\<close> and \<open>infinity\<close> stand for all numbers).
\<close>

theorem intersection_exact:
  assumes "range_ok a" and "range_ok b"
  shows "\<exists>r. intersection a b = Some r \<and> range_ok r \<and> gamma r = gamma a \<inter> gamma b"
  using assms by (rule intersection_gamma)

theorem intersection_exact_witness:
  "\<exists>r. intersection (makeRange (mk 32 2) (mk 32 9)) (makeRange (mk 64 5) (mk 64 20)) = Some r \<and> range_ok r \<and>
     gamma r = gamma (makeRange (mk 32 2) (mk 32 9)) \<inter> gamma (makeRange (mk 64 5) (mk 64 20))"
  by (rule intersection_exact) (simp_all add: range_ok_def makeRange_def)

text \<open>
  The union of two ranges over-approximates both, provided constant bounds have equal widths;
  with different widths the comparison of the bounds violates the precondition of \<open>APInt\<close> and the
  operator fails.
\<close>

theorem union_sound:
  assumes "range_ok a" and "range_ok b"
  shows "(if isConstantRange a \<and> isConstantRange b \<and>
             map_option (\<lambda>(l, r). (width l, width r)) (bounds a) \<noteq> map_option (\<lambda>(l, r). (width l, width r)) (bounds b)
          then meetPair a b = None
          else \<exists>r. meetPair a b = Some r \<and> range_ok r \<and> gamma a \<union> gamma b \<subseteq> gamma r)"
proof (cases "isConstantRange a \<and> isConstantRange b")
  case True
  then have c: "isConstantRange a" "isConstantRange b" by auto
  obtain la ra lb rb where "bounds a = Some (la, ra)" "bounds b = Some (lb, rb)"
    using constant_bounds [OF assms(1) c(1)] constant_bounds [OF assms(2) c(2)] by blast
  then show ?thesis
    using c range_or_constant [OF assms c] constant_not [OF c(1)] constant_not [OF c(2)]
    by (auto simp: meetPair_def range_or_def)
next
  case False
  then consider "isUnknown a \<or> isUnknown b" | "\<not> (isUnknown a \<or> isUnknown b)" "isInfinity a \<or> isInfinity b"
    using kind_cases by blast
  then show ?thesis
    using False by cases (auto simp: meetPair_def range_or_def gamma_top assms range_ok_def isUnknown_def infRange_def isInfinity_def)
qed

theorem union_sound_witness:
  "\<exists>r. meetPair (makeRange (mk 32 2) (mk 32 9)) (makeRange (mk 32 5) (mk 32 20)) = Some r \<and> range_ok r \<and>
     gamma (makeRange (mk 32 2) (mk 32 9)) \<union> gamma (makeRange (mk 32 5) (mk 32 20)) \<subseteq> gamma r"
  using union_sound [of "makeRange (mk 32 2) (mk 32 9)" "makeRange (mk 32 5) (mk 32 20)"]
  by (simp add: range_ok_def makeRange_def)

lemma Meet_unknown: "Meet values = Some unknownRange"
  unfolding Meet_def accumulate_def meetPair_def by (rule foldl_bind_fix) (rule range_or_unknown)

text \<open>
  The meet operator of the dataflow analysis always yields \<open>unknown\<close>: it accumulates from a
  default-constructed, that is unknown, value, and the union with an unknown value is unknown.
  Joining dataflow facts therefore loses every range, and never fails.
\<close>

theorem meet_is_always_unknown: "Meet values = Some unknownRange"
  by (rule Meet_unknown)

subsection \<open>Branch conditions\<close>

lemmas branch_defs = getRangeForConditionalBranch_def unsigned_branch_def signed_branch_def Let_def
  getUnsignedConstantRange_def getSignedConstantRange_def

lemma unsigned_branch_sound:
  assumes "p \<in> {ICMP_UGT, ICMP_UGE, ICMP_ULT, ICMP_ULE}" and "ap_ok x" and "ap_ok known"
    and "width x = width known" and "branch_taken p x known t f"
  shows "\<exists>l r. bounds (unsigned_branch p known (getMinValue (width known)) (getMaxValue (width known)) t f) =
    Some (l, r) \<and> uval l \<le> uval x \<and> uval x \<le> uval r"
proof -
  note facts = uval_range [OF assms(2)] uval_range [OF assms(3)] uval_add1 [OF assms(3)] uval_sub1 [OF assms(3)]
    assms(4,5)
  show ?thesis
    using assms(1) facts
    by (cases p; cases t; cases f)
      (auto simp: unsigned_branch_def getUnsignedConstantRange_def branch_taken_def uval_extremes)
qed

text \<open>
  Unsigned comparisons are handled soundly: if a branch on an unsigned comparison of \<open>x\<close> with
  a constant of the same width is taken, \<open>x\<close> lies between the computed bounds, read as unsigned
  numbers, for either edge and either operand order; the wrapped bounds never occur on a feasible edge.
\<close>

theorem unsigned_condition_sound:
  assumes "is_unsigned_pred p" and "ap_ok x" and "ap_ok known"
    and "width x = width known" and "branch_taken p x known isTrueBranch isVariableOpFirst"
  shows "\<exists>l r. bounds (getRangeForConditionalBranch p (IntegerTy (width known)) known isTrueBranch isVariableOpFirst) =
    Some (l, r) \<and> uval l \<le> uval x \<and> uval x \<le> uval r"
proof -
  have "getRangeForConditionalBranch p (IntegerTy (width known)) known isTrueBranch isVariableOpFirst =
      unsigned_branch p known (getMinValue (width known)) (getMaxValue (width known)) isTrueBranch isVariableOpFirst"
    using assms(1) by (auto simp: getRangeForConditionalBranch_def Let_def)
  then show ?thesis using unsigned_branch_sound [of p x known] assms by simp
qed

theorem unsigned_condition_sound_witness:
  "\<exists>l r. bounds (getRangeForConditionalBranch ICMP_ULT (IntegerTy (width (mk 8 200))) (mk 8 200) True True) = Some (l, r) \<and>
     uval l \<le> uval (mk 8 130) \<and> uval (mk 8 130) \<le> uval r"
  by (rule unsigned_condition_sound) (simp_all add: branch_taken_def uval_def mk_def take_bit_eq_mod ap_ok_def)

lemma signed_branch_sound:
  assumes "p \<in> {ICMP_SGT, ICMP_SGE, ICMP_SLT, ICMP_SLE}" and "ap_ok x" and "ap_ok known"
    and "width x = width known" and "branch_taken p x known t f" and "lo \<le> sval x" and "lo = sval minVal"
  shows "sval x \<in> gamma (signed_branch p known minVal (getSignedMaxValue (width known)) t f)"
proof -
  have w: "0 < width known" using assms(3) by (simp add: ap_ok_def)
  note facts = sval_range [OF assms(2)] sval_range [OF assms(3)] sval_add1 [OF assms(3)] sval_sub1 [OF assms(3)]
    assms(4,5,6,7)
  show ?thesis
    using assms(1) facts
    by (cases p; cases t; cases f)
      (auto simp: signed_branch_def getSignedConstantRange_def branch_taken_def sval_extremes [OF w] gamma_def)
qed

text \<open>
  Equality and signed comparisons are handled soundly for a non-negative \<open>x\<close>, and for every
  \<open>x\<close> when the constant is negative: if the branch is taken, \<open>x\<close> lies in the computed range.
\<close>

theorem signed_condition_sound:
  assumes "\<not> is_unsigned_pred p" and "ap_ok x" and "ap_ok known" and "width x = width known"
    and "branch_taken p x known isTrueBranch isVariableOpFirst" and "sval known < 0 \<or> 0 \<le> sval x"
  shows "sval x \<in> gamma (getRangeForConditionalBranch p (IntegerTy (width known)) known isTrueBranch isVariableOpFirst)"
proof -
  have w: "0 < width known" using assms(3) by (simp add: ap_ok_def)
  let ?min = "if sval known < 0 then getSignedMinValue (width known) else getMinValue (width known)"
  have min: "sval ?min \<le> sval x"
    using assms(4,6) sval_range [OF assms(2)] by (auto simp: sval_extremes [OF w])
  consider "p = ICMP_EQ \<or> p = ICMP_NE" | "p \<in> {ICMP_SGT, ICMP_SGE, ICMP_SLT, ICMP_SLE}"
    using assms(1) by (cases p) auto
  then show ?thesis
  proof cases
    case 1
    have "uval x = uval known \<Longrightarrow> sval x = sval known" using assms(4) by (simp add: uval_def sval_def)
    then show ?thesis
      using 1 assms(5) by (auto simp: branch_defs branch_taken_def gamma_def infRange_def split: if_splits)
  next
    case 2
    then have "getRangeForConditionalBranch p (IntegerTy (width known)) known isTrueBranch isVariableOpFirst =
        signed_branch p known ?min (getSignedMaxValue (width known)) isTrueBranch isVariableOpFirst"
      by (auto simp: getRangeForConditionalBranch_def Let_def)
    then show ?thesis using signed_branch_sound [OF 2 assms(2,3,4,5) min] by simp
  qed
qed

theorem signed_condition_sound_witness:
  "sval (mk 32 7) \<in> gamma (getRangeForConditionalBranch ICMP_SLE (IntegerTy (width (mk 32 9))) (mk 32 9) True True)"
  by (rule signed_condition_sound) (simp_all add: branch_taken_def sval_def mk_def take_bit_eq_mod ap_ok_def)

text \<open>
  For a non-negative constant the lower bound of a signed comparison is zero instead of the least
  signed value: every negative \<open>x\<close> takes the true edge of \<open>x < known\<close>, and is excluded from the
  range assumed on that edge.
\<close>

theorem signed_condition_drops_negative_values:
  assumes "ap_ok known" and "width x = width known" and "0 \<le> sval known" and "sval x < 0"
  shows "branch_taken ICMP_SLT x known True True \<and>
    sval x \<notin> gamma (getRangeForConditionalBranch ICMP_SLT (IntegerTy (width known)) known True True)"
proof -
  have "0 < width known" using assms(1) by (simp add: ap_ok_def)
  then show ?thesis
    using assms by (simp add: branch_taken_def branch_defs gamma_def sval_extremes)
qed

theorem signed_condition_drops_negative_values_witness:
  "branch_taken ICMP_SLT (mk 32 (- 5)) (mk 32 10) True True \<and>
   sval (mk 32 (- 5)) \<notin> gamma (getRangeForConditionalBranch ICMP_SLT (IntegerTy (width (mk 32 10))) (mk 32 10) True True)"
  by (rule signed_condition_drops_negative_values) (simp_all add: sval_def mk_def take_bit_eq_mod ap_ok_def)

end
