(* ===== verification/Interval_Arith.thy ===== *)
theory Interval_Arith
  imports APInt
begin

text \<open>
  Bounds of products and truncating quotients over a box from the values at its corners: the arithmetic
  behind the interval operators of the value-range analysis.
\<close>


lemma mult_between:
  fixes x y a b :: int
  assumes "a \<le> x" "x \<le> b"
  shows "min (a * y) (b * y) \<le> x * y \<and> x * y \<le> max (a * y) (b * y)"
proof (cases "0 \<le> y")
  case True
  then have "a * y \<le> x * y" "x * y \<le> b * y" using assms by (auto intro: mult_right_mono)
  then show ?thesis by (simp add: min_def max_def)
next
  case False
  then have "b * y \<le> x * y" "x * y \<le> a * y" using assms by (auto intro: mult_right_mono_neg)
  then show ?thesis by (simp add: min_def max_def)
qed

lemma mult_corners:
  fixes x y :: int
  assumes "l1 \<le> x" "x \<le> r1" "l2 \<le> y" "y \<le> r2"
    and "\<And>c. c \<in> {l1 * l2, l1 * r2, r1 * l2, r1 * r2} \<Longrightarrow> lo \<le> c \<and> c \<le> hi"
  shows "lo \<le> x * y \<and> x * y \<le> hi"
proof -
  have corners: "lo \<le> l2 * l1 \<and> l2 * l1 \<le> hi" "lo \<le> r2 * l1 \<and> r2 * l1 \<le> hi"
    "lo \<le> l2 * r1 \<and> l2 * r1 \<le> hi" "lo \<le> r2 * r1 \<and> r2 * r1 \<le> hi"
    using assms(5) by (simp_all add: mult.commute)
  have "lo \<le> y * l1 \<and> y * l1 \<le> hi" "lo \<le> y * r1 \<and> y * r1 \<le> hi"
    using mult_between [OF assms(3,4), of l1] mult_between [OF assms(3,4), of r1] corners
    unfolding min_def max_def by (auto split: if_splits)
  then show ?thesis using mult_between [OF assms(1,2), of y] mult.commute [of y l1] mult.commute [of y r1]
    unfolding min_def max_def by (auto split: if_splits)
qed

lemma tdiv_pos: "0 < y \<Longrightarrow> tdiv x y = (if 0 \<le> x then x div y else - ((- x) div y))"
  by (auto simp: tdiv_def sgn_if)

lemma tdiv_minus: "tdiv x (- y) = - tdiv x y"
  by (auto simp: tdiv_def sgn_if)

lemma tdiv_mono: "0 < y \<Longrightarrow> x \<le> x' \<Longrightarrow> tdiv x y \<le> tdiv x' y"
proof (cases "0 \<le> x")
  case True
  assume "0 < y" "x \<le> x'"
  with True show ?thesis by (simp add: tdiv_pos zdiv_mono1)
next
  case False
  assume y: "0 < y" and le: "x \<le> x'"
  have "0 \<le> (- x) div y" using False y by (simp add: pos_imp_zdiv_nonneg_iff)
  moreover have "x' < 0 \<Longrightarrow> (- x') div y \<le> (- x) div y" using y le by (intro zdiv_mono1) auto
  moreover have "0 \<le> x' \<Longrightarrow> 0 \<le> x' div y" using y by (simp add: pos_imp_zdiv_nonneg_iff)
  ultimately show ?thesis using False y by (auto simp: tdiv_pos)
qed

lemma tdiv_between:
  assumes "0 < a" "a \<le> y" "y \<le> b"
  shows "min (tdiv x a) (tdiv x b) \<le> tdiv x y \<and> tdiv x y \<le> max (tdiv x a) (tdiv x b)"
proof (cases "0 \<le> x")
  case True
  then have "x div b \<le> x div y" "x div y \<le> x div a" using assms by (auto intro: zdiv_mono2)
  then show ?thesis using True assms by (simp add: tdiv_pos min_def max_def)
next
  case False
  then have "(- x) div b \<le> (- x) div y" "(- x) div y \<le> (- x) div a" using assms by (auto intro: zdiv_mono2)
  then show ?thesis using False assms by (simp add: tdiv_pos min_def max_def)
qed

lemma tdiv_corners_pos:
  assumes "l1 \<le> x" "x \<le> r1" "0 < l2" "l2 \<le> y" "y \<le> r2"
    and "\<And>c. c \<in> {tdiv l1 l2, tdiv l1 r2, tdiv r1 l2, tdiv r1 r2} \<Longrightarrow> lo \<le> c \<and> c \<le> hi"
  shows "lo \<le> tdiv x y \<and> tdiv x y \<le> hi"
proof -
  have "tdiv l1 y \<le> tdiv x y" "tdiv x y \<le> tdiv r1 y" using assms(1-5) by (auto intro: tdiv_mono)
  moreover have "lo \<le> tdiv l1 l2" "lo \<le> tdiv l1 r2" "tdiv r1 l2 \<le> hi" "tdiv r1 r2 \<le> hi"
    using assms(6) by blast+
  moreover have "min (tdiv l1 l2) (tdiv l1 r2) \<le> tdiv l1 y" "tdiv r1 y \<le> max (tdiv r1 l2) (tdiv r1 r2)"
    using tdiv_between [OF assms(3,4,5)] by blast+
  ultimately show ?thesis by linarith
qed

lemma tdiv_corners:
  assumes "l1 \<le> x" "x \<le> r1" "l2 \<le> y" "y \<le> r2" "0 < l2 \<or> r2 < 0"
    and "\<And>c. c \<in> {tdiv l1 l2, tdiv l1 r2, tdiv r1 l2, tdiv r1 r2} \<Longrightarrow> lo \<le> c \<and> c \<le> hi"
  shows "lo \<le> tdiv x y \<and> tdiv x y \<le> hi"
proof (cases "0 < l2")
  case True
  then show ?thesis using tdiv_corners_pos [OF assms(1,2) True assms(3,4)] assms(6) by blast
next
  case False
  have corners: "lo \<le> tdiv l1 l2 \<and> tdiv l1 l2 \<le> hi" "lo \<le> tdiv l1 r2 \<and> tdiv l1 r2 \<le> hi"
    "lo \<le> tdiv r1 l2 \<and> tdiv r1 l2 \<le> hi" "lo \<le> tdiv r1 r2 \<and> tdiv r1 r2 \<le> hi"
    using assms(6) by blast+
  have "- hi \<le> tdiv x (- y) \<and> tdiv x (- y) \<le> - lo"
  proof (rule tdiv_corners_pos [OF assms(1,2)])
    show "0 < - r2" "- r2 \<le> - y" "- y \<le> - l2" using False assms(3,4,5) by auto
    fix c
    assume "c \<in> {tdiv l1 (- r2), tdiv l1 (- l2), tdiv r1 (- r2), tdiv r1 (- l2)}"
    then show "- hi \<le> c \<and> c \<le> - lo" using corners unfolding tdiv_minus by auto
  qed
  then show ?thesis by (simp add: tdiv_minus)
qed

lemma tdiv_abs_le: "\<bar>tdiv x y\<bar> \<le> \<bar>x\<bar>"
proof (cases "y = 0")
  case True
  then show ?thesis by (simp add: tdiv_def)
next
  case False
  then have "\<bar>x\<bar> div \<bar>y\<bar> \<le> \<bar>x\<bar>" using zdiv_mono2 [of "\<bar>x\<bar>" 1 "\<bar>y\<bar>"] by simp
  moreover have "0 \<le> \<bar>x\<bar> div \<bar>y\<bar>" using False by (simp add: pos_imp_zdiv_nonneg_iff)
  ultimately show ?thesis using False by (auto simp: tdiv_def sgn_if abs_mult)
qed

end
