(* ===== verification/Range_Transfer.thy ===== *)
theory Range_Transfer
  imports Range_Value Interval_Arith
begin

text \<open>
  The transfer functions of the value-range analysis: \<^verbatim>\<open>isLocalAllocaPointer\<close>,
  \<^verbatim>\<open>isKnownMallocCall\<close> and the class \<^verbatim>\<open>RangeTransfer\<close> of \<^verbatim>\<open>ValueRange.cpp\<close>.  The abstract state maps
  values to ranges; \<open>state[v]\<close> inserts an unknown range for a missing key, as the indexing operator of
  the source does.  A result \<open>None\<close> is a null dereference.  The member \<^verbatim>\<open>storeHappened\<close> of the class is
  left out: both branches that consult it perform the same update of the state.
\<close>

type_synonym RangeState = "(vid, RangeValue) dict"

subsection \<open>The state\<close>

definition at_state :: "RangeState \<Rightarrow> vid \<Rightarrow> RangeValue \<times> RangeState" where
  "at_state s v = (case map_of s v of Some r \<Rightarrow> (r, s) | None \<Rightarrow> (unknownRange, AList.update v unknownRange s))"

definition set_infinity :: "vid \<Rightarrow> RangeState \<Rightarrow> RangeState" where
  "set_infinity v s = (let (r, s1) = at_state s v in AList.update v (r\<lparr>rkind := infinityK\<rparr>) s1)"

definition constRange :: "apint \<Rightarrow> RangeValue" where
  "constRange c = \<lparr>rkind = constantK, lvalue = Some c, rvalue = Some c\<rparr>"

subsection \<open>Recognising allocations\<close>

definition isLocalAllocaPointer :: "ir \<Rightarrow> vid \<Rightarrow> bool" where
  "isLocalAllocaPointer I ptr \<longleftrightarrow> kind I (stripPointerCasts I ptr) = KAlloca"

definition isKnownMallocCall :: "ir \<Rightarrow> vid \<Rightarrow> nat option" where
  "isKnownMallocCall I v0 =
     (if v0 = 0 then None
      else let v = stripPointerCasts I v0
      in if \<not> isCallBase I v then None
      else case calledFunction I v of
        None \<Rightarrow> None
      | Some callee \<Rightarrow>
          (if valueName I callee \<noteq> ''malloc'' then None
           else case callArgs I v of
             [] \<Rightarrow> None
           | arg # _ \<Rightarrow> (case constantInt I arg of Some c \<Rightarrow> Some (getZExtValue c) | None \<Rightarrow> Some 0)))"

subsection \<open>Reading operands\<close>

definition getRangeFor :: "ir \<Rightarrow> vid \<Rightarrow> RangeState \<Rightarrow> RangeValue \<times> RangeState" where
  "getRangeFor I v s = (case constantInt I v of Some c \<Rightarrow> (constRange c, s) | None \<Rightarrow> at_state s v)"

definition masking :: "ir \<Rightarrow> vid \<Rightarrow> bool" where
  "masking I v = (case constantInt I v of Some c \<Rightarrow> isPowerOf2 (ap_add1 c) | None \<Rightarrow> False)"

subsection \<open>Binary operators\<close>

fun maxCandidate :: "apint \<Rightarrow> apint list \<Rightarrow> apint" where
  "maxCandidate mx [] = mx"
| "maxCandidate mx (x # xs) = maxCandidate (if sgt x mx then x else mx) xs"

fun minCandidate :: "apint \<Rightarrow> apint list \<Rightarrow> apint" where
  "minCandidate mn [] = mn"
| "minCandidate mn (x # xs) = minCandidate (if slt x mn then x else mn) xs"

definition candidateRange :: "(apint \<times> bool) list \<Rightarrow> RangeValue" where
  "candidateRange cs =
     (if \<exists>c \<in> set cs. snd c then infRange
      else case map fst cs of [] \<Rightarrow> infRange
      | c0 # cs' \<Rightarrow> makeRange (minCandidate c0 (c0 # cs')) (maxCandidate c0 (c0 # cs')))"

definition rangeAdd :: "apint \<Rightarrow> apint \<Rightarrow> apint \<Rightarrow> apint \<Rightarrow> RangeValue" where
  "rangeAdd l1 r1 l2 r2 =
     (let (ll, ofl) = sadd_ov l1 l2; (rr, ofr) = sadd_ov r1 r2
      in if ofl \<or> ofr then infRange else makeRange ll rr)"

definition rangeSub :: "apint \<Rightarrow> apint \<Rightarrow> apint \<Rightarrow> apint \<Rightarrow> RangeValue" where
  "rangeSub l1 r1 l2 r2 =
     (let (ll, ofl) = ssub_ov l1 r2; (rr, ofr) = ssub_ov r1 l2
      in if ofl \<or> ofr then infRange else makeRange ll rr)"

definition rangeMul :: "apint \<Rightarrow> apint \<Rightarrow> apint \<Rightarrow> apint \<Rightarrow> RangeValue" where
  "rangeMul l1 r1 l2 r2 = candidateRange [smul_ov l1 l2, smul_ov l1 r2, smul_ov r1 l2, smul_ov r1 r2]"

definition rangeSDiv :: "apint \<Rightarrow> apint \<Rightarrow> apint \<Rightarrow> apint \<Rightarrow> RangeValue" where
  "rangeSDiv l1 r1 l2 r2 =
     (if isNegative l2 \<and> isStrictlyPositive r2
      then let abs1 = ap_abs l1; abs2 = ap_abs r1;
               abs = (if sgt abs1 abs2 then abs1 else abs2);
               ll = ap_add1 (flipAllBits abs)
           in makeRange ll abs
      else if is_zero l2 \<or> is_zero r2 then infRange
      else candidateRange [sdiv_ov l1 l2, sdiv_ov l1 r2, sdiv_ov r1 l2, sdiv_ov r1 r2])"

definition rangeUDiv :: "apint \<Rightarrow> apint \<Rightarrow> apint \<Rightarrow> apint \<Rightarrow> RangeValue" where
  "rangeUDiv l1 r1 l2 r2 =
     (if is_zero l2 \<or> is_zero r2 then infRange else makeRange (udiv r1 l2) (udiv l1 r2))"

definition constantBinOP :: "binop \<Rightarrow> apint \<Rightarrow> apint \<Rightarrow> apint \<Rightarrow> apint \<Rightarrow> RangeValue" where
  "constantBinOP opcode l1 r1 l2 r2 =
     (case opcode of
        Add \<Rightarrow> rangeAdd l1 r1 l2 r2
      | Sub \<Rightarrow> rangeSub l1 r1 l2 r2
      | Mul \<Rightarrow> rangeMul l1 r1 l2 r2
      | SDiv \<Rightarrow> rangeSDiv l1 r1 l2 r2
      | UDiv \<Rightarrow> rangeUDiv l1 r1 l2 r2
      | _ \<Rightarrow> infRange)"

definition ranges64 :: "binop \<Rightarrow> RangeValue \<Rightarrow> RangeValue \<Rightarrow> RangeValue option" where
  "ranges64 opcode range1 range2 =
     (case (bounds range1, bounds range2) of
        (Some (l1, r1), Some (l2, r2)) \<Rightarrow>
          Some (constantBinOP opcode (sextOrTrunc l1 64) (sextOrTrunc r1 64) (sextOrTrunc l2 64) (sextOrTrunc r2 64))
      | _ \<Rightarrow> None)"

text \<open>The lower bound of a masked value is a default-constructed, that is one-bit, zero.\<close>

definition maskRange :: "ir \<Rightarrow> vid \<Rightarrow> RangeValue option" where
  "maskRange I op = map_option (makeRange (mk 1 0)) (constantInt I op)"

definition evaluateBinOP :: "ir \<Rightarrow> binop \<Rightarrow> vid \<Rightarrow> RangeState \<Rightarrow> (RangeValue \<times> RangeState) option" where
  "evaluateBinOP I opcode binOp s =
     (let op1 = getOperand I binOp 0; op2 = getOperand I binOp 1;
          (range1, s1) = getRangeFor I op1 s;
          (range2, s2) = getRangeFor I op2 s1
      in map_option (\<lambda>r. (r, s2))
        (if opcode = And \<and> (isConstantRange range1 \<and> masking I op1 \<or> isConstantRange range2 \<and> masking I op2)
         then (if isConstantRange range1 \<and> masking I op1 then maskRange I op1 else maskRange I op2)
         else if isConstantRange range1 \<and> isConstantRange range2 then ranges64 opcode range1 range2
         else if isInfinity range1 \<or> isInfinity range2 then Some infRange
         else Some unknownRange))"

subsection \<open>Casts\<close>

definition evaluateCast :: "ir \<Rightarrow> castop \<Rightarrow> vid \<Rightarrow> RangeState \<Rightarrow> (RangeValue \<times> RangeState) option" where
  "evaluateCast I cop castOp s =
     (let (v, s1) = getRangeFor I (getOperand I castOp 0) s; dstTy = typeOf I castOp
      in map_option (\<lambda>r. (r, s1))
        (if isConstantRange v then
           (case bounds v of
              None \<Rightarrow> None
            | Some (l, r) \<Rightarrow>
                Some (if \<not> castIsValid I cop l dstTy \<or> \<not> castIsValid I cop r dstTy then infRange
                      else case (constantFoldCast I cop l dstTy, constantFoldCast I cop r dstTy) of
                          (FoldedInt cix, FoldedInt ciy) \<Rightarrow> makeRange cix ciy
                        | _ \<Rightarrow> infRange))
         else Some \<lparr>rkind = rkind v, lvalue = None, rvalue = None\<rparr>))"

subsection \<open>Memory\<close>

definition wrap64 :: "int \<Rightarrow> int" where
  "wrap64 v = v mod 2 ^ 64"

definition allocSizeOf :: "apint \<Rightarrow> int" where
  "allocSizeOf r = wrap64 (uval (sextOrTrunc r 64) + 1)"

definition handleStore :: "ir \<Rightarrow> vid \<Rightarrow> RangeState \<Rightarrow> RangeState option" where
  "handleStore I si s =
     (let val = storeValue I si; ptr = storePointer I si;
          bitWidth = (case intWidth (typeOf I val) of Some w \<Rightarrow> w | None \<Rightarrow> 64)
      in if isLocalAllocaPointer I ptr then
           (let (valRange, s1) = getRangeFor I val s;
                s2 = AList.update ptr valRange s1
            in case isKnownMallocCall I val of
                 Some sz \<Rightarrow>
                   Some (if sz = 0 then AList.update ptr infRange s2
                         else AList.update ptr (makeRange (mk bitWidth 0) (mk bitWidth (int sz - 1))) s2)
               | None \<Rightarrow>
                   (case map_of s2 val of
                      Some r \<Rightarrow>
                        (if isConstantRange r
                         then (case rvalue r of
                             None \<Rightarrow> None
                           | Some rv \<Rightarrow> Some (AList.update ptr
                               (makeRange (mk bitWidth 0) (mk bitWidth (wrap64 (allocSizeOf rv - 1)))) s2))
                         else Some s2)
                    | None \<Rightarrow> Some s2))
         else Some s)"

definition handleLoad :: "ir \<Rightarrow> vid \<Rightarrow> RangeState \<Rightarrow> RangeState" where
  "handleLoad I li s =
     (let ptr = loadPointer I li
      in if isLocalAllocaPointer I ptr \<and> contains s ptr
         then (case map_of s ptr of Some r \<Rightarrow> AList.update li r s | None \<Rightarrow> s)
         else set_infinity li s)"

text \<open>
  The loop over the indices of a GEP: \<open>None\<close> is a null dereference, \<open>Some (None, s)\<close> the early
  return that sets the range to infinity, \<open>Some (Some off, s)\<close> the total byte offset.
\<close>

fun gepOffset :: "ir \<Rightarrow> int \<Rightarrow> vid list \<Rightarrow> int \<Rightarrow> RangeState \<Rightarrow> (int option \<times> RangeState) option" where
  "gepOffset I elemSize [] totalOffset s = Some (Some totalOffset, s)"
| "gepOffset I elemSize (indexVal # rest) totalOffset s =
     (let (indexRange, s1) = getRangeFor I indexVal s
      in if isInfinity indexRange \<or> isUnknown indexRange then Some (None, s1)
         else case lvalue indexRange of
           None \<Rightarrow> None
         | Some l \<Rightarrow>
             (let index = sval (sextOrTrunc l 64)
              in if index < 0 then Some (None, s1)
                 else gepOffset I elemSize rest (wrap64 (totalOffset + wrap64 (index * elemSize))) s1))"

definition handleGEP :: "ir \<Rightarrow> vid \<Rightarrow> RangeState \<Rightarrow> RangeState option" where
  "handleGEP I gep s =
     (let (baseRange, s1) = getRangeFor I (gepPointer I gep) s
      in if isInfinity baseRange \<or> isUnknown baseRange then Some (set_infinity gep s1)
         else case gepOffset I (int (typeAllocSize I (getElementType (typeOf I gep)))) (tl (operands I gep)) 0 s1 of
             None \<Rightarrow> None
           | Some (None, s2) \<Rightarrow> Some (set_infinity gep s2)
           | Some (Some computedOffset, s2) \<Rightarrow>
               (case rvalue baseRange of
                  None \<Rightarrow> None
                | Some rv \<Rightarrow>
                    (let allocSize = allocSizeOf rv
                     in Some (if computedOffset < allocSize
                          then AList.update gep
                            (makeRange (mk 64 0) (mk 64 (wrap64 (allocSize - computedOffset - 1)))) s2
                          else set_infinity gep s2))))"

subsection \<open>The transfer function\<close>

definition derivedPointer :: "ir \<Rightarrow> vid \<Rightarrow> RangeState \<Rightarrow> RangeState option" where
  "derivedPointer I i s =
     (case map_of s (stripPointerCasts I (getOperand I i 0)) of
        Some r \<Rightarrow>
          (if isConstantRange r
           then map_option (\<lambda>rv. AList.update i (makeRange (mk 64 0) (mk 64 (wrap64 (allocSizeOf rv - 1)))) s) (rvalue r)
           else Some s)
      | None \<Rightarrow> Some s)"

definition transfer :: "ir \<Rightarrow> vid \<Rightarrow> RangeState \<Rightarrow> RangeState option" where
  "transfer I i s =
     (case kind I i of
        KStore \<Rightarrow> handleStore I i s
      | KLoad \<Rightarrow> Some (handleLoad I i s)
      | KGEP \<Rightarrow> handleGEP I i s
      | KConstantInt c \<Rightarrow> Some (AList.update i (constRange c) s)
      | KBinary opcode \<Rightarrow> map_option (\<lambda>(r, s1). AList.update i r s1) (evaluateBinOP I opcode i s)
      | KCast cop \<Rightarrow>
          Option.bind (if cop = BitCast then derivedPointer I i s else Some s)
            (\<lambda>s0. map_option (\<lambda>(r, s1). AList.update i r s1) (evaluateCast I cop i s0))
      | _ \<Rightarrow> Some (set_infinity i s))"

subsection \<open>Soundness of the interval operators\<close>

text \<open>
  \<open>binop_result opcode x y z\<close>: the operation on unbounded integers gives \<open>z\<close>; for the operators the
  source does not interpret any \<open>z\<close> will do. It serves the interval lemmas below; the operators of the
  intermediate language wrap at their width and are given by \<open>machine_op\<close>.
\<close>

definition binop_result :: "binop \<Rightarrow> int \<Rightarrow> int \<Rightarrow> int \<Rightarrow> bool" where
  "binop_result opcode x y z =
     (case opcode of
        Add \<Rightarrow> z = x + y | Sub \<Rightarrow> z = x - y | Mul \<Rightarrow> z = x * y
      | SDiv \<Rightarrow> y \<noteq> 0 \<and> z = tdiv x y
      | UDiv \<Rightarrow> 0 \<le> x \<and> 0 < y \<and> z = x div y
      | And \<Rightarrow> z = and x y
      | OtherOp n \<Rightarrow> True)"

text \<open>A valuation of the module's values agrees with its constants and lies in the ranges of a state.\<close>

definition covers :: "ir \<Rightarrow> RangeState \<Rightarrow> (vid \<Rightarrow> int) \<Rightarrow> bool" where
  "covers I s rho \<longleftrightarrow>
     (\<forall>v r. map_of s v = Some r \<longrightarrow> range_ok r \<and> rho v \<in> gamma r) \<and>
     (\<forall>v c. constantInt I v = Some c \<longrightarrow> ap_ok c \<and> width c \<le> 64 \<and> rho v = sval c)"

lemma gamma_makeRange [simp]: "gamma (makeRange a b) = {sval a..sval b}"
  by (simp add: gamma_def makeRange_def)

lemma gamma_infRange [simp]: "gamma infRange = UNIV"
  by (simp add: gamma_def infRange_def)

lemma minCandidate_first: "sval (minCandidate m xs) \<le> sval m"
proof (induction xs arbitrary: m)
  case (Cons a xs)
  show ?case using Cons [of a] Cons [of m] by (auto simp: slt_def)
qed simp

lemma minCandidate_le: "x \<in> set (m # xs) \<Longrightarrow> sval (minCandidate m xs) \<le> sval x"
proof (induction xs arbitrary: m)
  case (Cons a xs)
  then show ?case using minCandidate_first [of a xs] minCandidate_first [of m xs] by (auto simp: slt_def)
qed simp

lemma maxCandidate_first: "sval m \<le> sval (maxCandidate m xs)"
proof (induction xs arbitrary: m)
  case (Cons a xs)
  show ?case using Cons [of a] Cons [of m] by (auto simp: sgt_def)
qed simp

lemma maxCandidate_ge: "x \<in> set (m # xs) \<Longrightarrow> sval x \<le> sval (maxCandidate m xs)"
proof (induction xs arbitrary: m)
  case (Cons a xs)
  then show ?case using maxCandidate_first [of a xs] maxCandidate_first [of m xs] by (auto simp: sgt_def)
qed simp

lemma candidateRange_sound:
  assumes "\<And>c. c \<in> set cs \<Longrightarrow> \<not> snd c \<Longrightarrow> sval (fst c) = val c" and "cs \<noteq> []"
    and "\<And>lo hi. (\<And>c. c \<in> set cs \<Longrightarrow> lo \<le> val c \<and> val c \<le> hi) \<Longrightarrow> lo \<le> z \<and> z \<le> hi"
  shows "z \<in> gamma (candidateRange cs)"
proof (cases "\<exists>c \<in> set cs. snd c")
  case False
  obtain c0 cs' where cs: "map fst cs = c0 # cs'" using assms(2) by (cases cs) auto
  have "sval (minCandidate c0 (c0 # cs')) \<le> val c \<and> val c \<le> sval (maxCandidate c0 (c0 # cs'))"
    if "c \<in> set cs" for c
  proof -
    have "fst c \<in> set (c0 # c0 # cs')" using that cs by (metis image_eqI list.set_intros(2) set_map)
    then show ?thesis
      using minCandidate_le [of "fst c" c0 "c0 # cs'"] maxCandidate_ge [of "fst c" c0 "c0 # cs'"] assms(1) [OF that]
        False that by auto
  qed
  then show ?thesis using assms(3) [of "sval (minCandidate c0 (c0 # cs'))" "sval (maxCandidate c0 (c0 # cs'))"] False cs
    by (simp add: candidateRange_def)
qed (simp add: candidateRange_def)

lemma sval_of_ov:
  "0 < width a \<Longrightarrow> \<not> snd (sadd_ov a b) \<Longrightarrow> sval (fst (sadd_ov a b)) = sval a + sval b"
  "0 < width a \<Longrightarrow> \<not> snd (ssub_ov a b) \<Longrightarrow> sval (fst (ssub_ov a b)) = sval a - sval b"
  "0 < width a \<Longrightarrow> \<not> snd (smul_ov a b) \<Longrightarrow> sval (fst (smul_ov a b)) = sval a * sval b"
  "0 < width a \<Longrightarrow> \<not> snd (sdiv_ov a b) \<Longrightarrow> sval (fst (sdiv_ov a b)) = tdiv (sval a) (sval b)"
  by (simp_all add: sadd_ov_def ssub_ov_def smul_ov_def sdiv_ov_def sval_mk)

definition in_box :: "apint \<Rightarrow> apint \<Rightarrow> apint \<Rightarrow> apint \<Rightarrow> int \<Rightarrow> int \<Rightarrow> bool" where
  "in_box l1 r1 l2 r2 x y \<longleftrightarrow> (\<forall>a \<in> {l1, r1, l2, r2}. ap_ok a \<and> width a = 64) \<and>
     sval l1 \<le> x \<and> x \<le> sval r1 \<and> sval l2 \<le> y \<and> y \<le> sval r2"

lemma rangeAdd_sound: "in_box l1 r1 l2 r2 x y \<Longrightarrow> x + y \<in> gamma (rangeAdd l1 r1 l2 r2)"
  using sval_of_ov(1) [of l1 l2] sval_of_ov(1) [of r1 r2]
  by (auto simp: rangeAdd_def in_box_def Let_def case_prod_beta)

lemma rangeSub_sound: "in_box l1 r1 l2 r2 x y \<Longrightarrow> x - y \<in> gamma (rangeSub l1 r1 l2 r2)"
  using sval_of_ov(2) [of l1 r2] sval_of_ov(2) [of r1 l2]
  by (auto simp: rangeSub_def in_box_def Let_def case_prod_beta)

lemma rangeMul_sound:
  assumes "in_box l1 r1 l2 r2 x y"
  shows "x * y \<in> gamma (rangeMul l1 r1 l2 r2)"
proof (cases "\<exists>c \<in> {smul_ov l1 l2, smul_ov l1 r2, smul_ov r1 l2, smul_ov r1 r2}. snd c")
  case False
  note w = sval_of_ov(3) [of l1 l2] sval_of_ov(3) [of l1 r2] sval_of_ov(3) [of r1 l2] sval_of_ov(3) [of r1 r2]
  have corners: "sval (fst (smul_ov l1 l2)) = sval l1 * sval l2" "sval (fst (smul_ov l1 r2)) = sval l1 * sval r2"
    "sval (fst (smul_ov r1 l2)) = sval r1 * sval l2" "sval (fst (smul_ov r1 r2)) = sval r1 * sval r2"
    using w assms False by (auto simp: in_box_def)
  show ?thesis unfolding rangeMul_def
  proof (rule candidateRange_sound [where val = "\<lambda>c. sval (fst c)"])
    fix lo hi
    assume b: "\<And>c. c \<in> set [smul_ov l1 l2, smul_ov l1 r2, smul_ov r1 l2, smul_ov r1 r2] \<Longrightarrow>
      lo \<le> sval (fst c) \<and> sval (fst c) \<le> hi"
    show "lo \<le> x * y \<and> x * y \<le> hi"
      using assms b [of "smul_ov l1 l2"] b [of "smul_ov l1 r2"] b [of "smul_ov r1 l2"] b [of "smul_ov r1 r2"]
      unfolding in_box_def corners
      by (intro mult_corners [of "sval l1" x "sval r1" "sval l2" y "sval r2" lo hi]) auto
  qed simp_all
qed (auto simp: rangeMul_def candidateRange_def)

lemma sval_abs:
  assumes "ap_ok a" "smin (width a) < sval a"
  shows "sval (ap_abs a) = \<bar>sval a\<bar>" "ap_ok (ap_abs a)" "width (ap_abs a) = width a"
  using assms sval_range [OF assms(1)]
  by (simp_all add: ap_abs_def ap_ok_def [of a]) (subst sval_mk, auto simp: in_srange_def smin_def smax_def)

lemma sval_neg:
  assumes "ap_ok a" "smin (width a) < sval a"
  shows "sval (ap_add1 (flipAllBits a)) = - sval a"
proof -
  have "(1 + (- bits a - 1) mod 2 ^ width a) mod 2 ^ width a = - bits a mod 2 ^ width a"
    by (simp add: mod_add_right_eq)
  then have "ap_add1 (flipAllBits a) = mk (width a) (- sval a)"
    using mod_add_self2 [of "- bits a" "2 ^ width a"]
    by (simp add: ap_add1_def flipAllBits_def mk_def take_bit_eq_mod sval_def add.commute)
  then show ?thesis using assms sval_range [OF assms(1)]
    by (simp add: ap_ok_def) (subst sval_mk, auto simp: in_srange_def smin_def smax_def)
qed

lemma rangeSDiv_sound:
  assumes box: "in_box l1 r1 l2 r2 x y" and "y \<noteq> 0" and min: "smin 64 < sval l1"
  shows "tdiv x y \<in> gamma (rangeSDiv l1 r1 l2 r2)"
proof (cases "isNegative l2 \<and> isStrictlyPositive r2")
  case True
  have m: "smin (width r1) < sval r1" using box min by (auto simp: in_box_def)
  have l: "smin (width l1) < sval l1" using box min by (auto simp: in_box_def)
  have ok: "ap_ok l1" "ap_ok r1" using box by (auto simp: in_box_def)
  define a where "a = (if sgt (ap_abs l1) (ap_abs r1) then ap_abs l1 else ap_abs r1)"
  have a: "sval a = max \<bar>sval l1\<bar> \<bar>sval r1\<bar>" "ap_ok a"
    using sval_abs [OF ok(1) l] sval_abs [OF ok(2) m] by (auto simp: a_def sgt_def)
  have "smin (width a) < 0" by (simp add: smin_def)
  then have "smin (width a) < sval a" using a by linarith
  then have n: "sval (ap_add1 (flipAllBits a)) = - sval a" using a sval_neg by blast
  have "\<bar>x\<bar> \<le> sval a" using box a by (auto simp: in_box_def)
  then have "\<bar>tdiv x y\<bar> \<le> sval a" using tdiv_abs_le [of x y] by linarith
  then show ?thesis using True n by (simp add: rangeSDiv_def Let_def a_def [symmetric]) linarith
next
  case False
  show ?thesis
  proof (cases "is_zero l2 \<or> is_zero r2 \<or> (\<exists>c \<in> {sdiv_ov l1 l2, sdiv_ov l1 r2, sdiv_ov r1 l2, sdiv_ov r1 r2}. snd c)")
    case True
    then show ?thesis using False by (auto simp: rangeSDiv_def candidateRange_def)
  next
    case ovf: False
    have nz: "sval l2 \<noteq> 0" "sval r2 \<noteq> 0"
      using ovf box by (auto simp: is_zero_def sval_def in_box_def ap_ok_def split: if_splits)
    have sign: "0 < sval l2 \<or> sval r2 < 0"
      using False nz by (auto simp: isNegative_def isStrictlyPositive_def)
    note w = sval_of_ov(4) [of l1 l2] sval_of_ov(4) [of l1 r2] sval_of_ov(4) [of r1 l2] sval_of_ov(4) [of r1 r2]
    have corners: "sval (fst (sdiv_ov l1 l2)) = tdiv (sval l1) (sval l2)"
      "sval (fst (sdiv_ov l1 r2)) = tdiv (sval l1) (sval r2)"
      "sval (fst (sdiv_ov r1 l2)) = tdiv (sval r1) (sval l2)"
      "sval (fst (sdiv_ov r1 r2)) = tdiv (sval r1) (sval r2)"
      using w box ovf by (auto simp: in_box_def)
    have "tdiv x y \<in> gamma (candidateRange [sdiv_ov l1 l2, sdiv_ov l1 r2, sdiv_ov r1 l2, sdiv_ov r1 r2])"
    proof (rule candidateRange_sound [where val = "\<lambda>c. sval (fst c)"])
      fix lo hi
      assume b: "\<And>c. c \<in> set [sdiv_ov l1 l2, sdiv_ov l1 r2, sdiv_ov r1 l2, sdiv_ov r1 r2] \<Longrightarrow>
        lo \<le> sval (fst c) \<and> sval (fst c) \<le> hi"
      show "lo \<le> tdiv x y \<and> tdiv x y \<le> hi"
        using box sign b [of "sdiv_ov l1 l2"] b [of "sdiv_ov l1 r2"] b [of "sdiv_ov r1 l2"] b [of "sdiv_ov r1 r2"]
        unfolding in_box_def corners
        by (intro tdiv_corners [of "sval l1" x "sval r1" "sval l2" y "sval r2" lo hi]) auto
    qed simp_all
    then show ?thesis using False ovf by (auto simp: rangeSDiv_def)
  qed
qed

subsection \<open>Well-formedness of the computed ranges\<close>

lemma range_ok_infRange [simp]: "range_ok infRange"
  by (simp add: range_ok_def infRange_def)

lemma range_ok_unknownRange [simp]: "range_ok unknownRange"
  by (simp add: range_ok_def unknownRange_def)

lemma gamma_unknownRange [simp]: "gamma unknownRange = UNIV"
  by (simp add: gamma_def unknownRange_def)

lemma range_ok_makeRange:
  "ap_ok a \<Longrightarrow> ap_ok b \<Longrightarrow> width a \<le> 64 \<Longrightarrow> width b \<le> 64 \<Longrightarrow> range_ok (makeRange a b)"
  by (simp add: makeRange_def)

lemma minCandidate_in: "minCandidate m xs \<in> set (m # xs)"
proof (induction xs arbitrary: m)
  case (Cons a xs)
  then show ?case using Cons [of a] Cons [of m] by (auto split: if_splits)
qed simp

lemma maxCandidate_in: "maxCandidate m xs \<in> set (m # xs)"
proof (induction xs arbitrary: m)
  case (Cons a xs)
  then show ?case using Cons [of a] Cons [of m] by (auto split: if_splits)
qed simp

lemma range_ok_candidateRange:
  assumes "\<And>c. c \<in> set cs \<Longrightarrow> ap_ok (fst c) \<and> width (fst c) \<le> 64"
  shows "range_ok (candidateRange cs)"
proof (cases "map fst cs")
  case (Cons c0 cs')
  have "ap_ok x \<and> width x \<le> 64" if "x \<in> set (c0 # c0 # cs')" for x
  proof -
    have "x \<in> set (map fst cs)" using that unfolding Cons by auto
    then show ?thesis using assms by auto
  qed
  then show ?thesis
    using minCandidate_in [of c0 "c0 # cs'"] maxCandidate_in [of c0 "c0 # cs'"] Cons
    by (simp add: candidateRange_def range_ok_makeRange)
qed (simp add: candidateRange_def)

lemma ov_shape [simp]:
  "fst (sadd_ov a b) = mk (width a) (sval a + sval b)" "fst (ssub_ov a b) = mk (width a) (sval a - sval b)"
  "fst (smul_ov a b) = mk (width a) (sval a * sval b)" "fst (sdiv_ov a b) = mk (width a) (tdiv (sval a) (sval b))"
  by (simp_all add: sadd_ov_def ssub_ov_def smul_ov_def sdiv_ov_def)

lemma constantBinOP_ok:
  assumes "in_box l1 r1 l2 r2 x y" and "opcode \<noteq> SDiv" and "opcode \<noteq> UDiv"
  shows "range_ok (constantBinOP opcode l1 r1 l2 r2)"
proof -
  have w: "width l1 = 64" "width r1 = 64" using assms(1) by (auto simp: in_box_def)
  have "range_ok (rangeAdd l1 r1 l2 r2)" "range_ok (rangeSub l1 r1 l2 r2)"
    by (simp_all add: rangeAdd_def rangeSub_def Let_def case_prod_beta w range_ok_makeRange)
  moreover have "range_ok (rangeMul l1 r1 l2 r2)"
    unfolding rangeMul_def by (rule range_ok_candidateRange) (auto simp: w smul_ov_def)
  ultimately show ?thesis using assms(2,3) by (cases opcode) (simp_all add: constantBinOP_def)
qed

lemma constantBinOP_sound:
  assumes "in_box l1 r1 l2 r2 x y" and "opcode \<noteq> SDiv" and "opcode \<noteq> UDiv" and "binop_result opcode x y z"
  shows "z \<in> gamma (constantBinOP opcode l1 r1 l2 r2)"
  using assms rangeAdd_sound [OF assms(1)] rangeSub_sound [OF assms(1)] rangeMul_sound [OF assms(1)]
  by (cases opcode) (auto simp: constantBinOP_def binop_result_def)

lemma ranges64_box:
  assumes "range_ok a" "range_ok b" "isConstantRange a" "isConstantRange b" "x \<in> gamma a" "y \<in> gamma b"
  obtains l1 r1 l2 r2 where "in_box l1 r1 l2 r2 x y" and "ranges64 opcode a b = Some (constantBinOP opcode l1 r1 l2 r2)"
    and "sval l1 \<in> sval ` {u. lvalue a = Some u}"
proof -
  obtain la ra where a: "bounds a = Some (la, ra)" "ap_ok la" "ap_ok ra" "width la \<le> 64" "width ra \<le> 64"
    using constant_bounds [OF assms(1,3)] by blast
  obtain lb rb where b: "bounds b = Some (lb, rb)" "ap_ok lb" "ap_ok rb" "width lb \<le> 64" "width rb \<le> 64"
    using constant_bounds [OF assms(2,4)] by blast
  have "in_box (sextOrTrunc la 64) (sextOrTrunc ra 64) (sextOrTrunc lb 64) (sextOrTrunc rb 64) x y"
    using assms(5,6) a b gamma_constant [OF assms(3) a(1)] gamma_constant [OF assms(4) b(1)]
    by (simp add: in_box_def sval_sextOrTrunc)
  moreover have "lvalue a = Some la" using a(1) by (auto simp: bounds_def split: option.splits)
  ultimately show ?thesis using a b that by (simp add: ranges64_def sval_sextOrTrunc)
qed

lemma masking_value:
  assumes "masking I v" "constantInt I v = Some c" "ap_ok c"
  obtains k where "sval c = 2 ^ k - 1"
proof -
  have c: "0 < width c" "0 \<le> bits c" "bits c < 2 ^ width c" using assms(3) by (auto simp: ap_ok_def)
  obtain k where k: "k < width c" "(bits c + 1) mod 2 ^ width c = 2 ^ k"
    using assms by (auto simp: masking_def isPowerOf2_def ap_add1_def bits_mk)
  have pos: "(2::int) ^ k > 0" by simp
  have "bits c + 1 \<noteq> 2 ^ width c"
  proof
    assume "bits c + 1 = 2 ^ width c"
    with k(2) pos show False by simp
  qed
  then have kv: "bits c + 1 = 2 ^ k" using k(2) c by simp
  have "(2::int) ^ k \<le> 2 ^ (width c - 1)" using k(1) by (intro power_increasing) auto
  then have "bits c < 2 ^ (width c - 1)" using kv by linarith
  then have "sval c = 2 ^ k - 1" using kv by (simp add: sval_def)
  then show ?thesis using that by blast
qed

lemma and_mask_bounds: "0 \<le> and x (2 ^ k - 1 :: int) \<and> and x (2 ^ k - 1) \<le> 2 ^ k - 1"
proof -
  have "and x (2 ^ k - 1 :: int) = x mod 2 ^ k"
    by (simp flip: take_bit_eq_mod add: take_bit_eq_mask mask_eq_exp_minus_1)
  then show ?thesis using pos_mod_bound [of "2 ^ k" x] by simp
qed

lemma maskRange_sound:
  assumes "masking I v" "constantInt I v = Some c" "ap_ok c" "width c \<le> 64"
  shows "\<exists>r. maskRange I v = Some r \<and> range_ok r \<and> and x (sval c) \<in> gamma r"
proof -
  obtain k where k: "sval c = 2 ^ k - 1" using masking_value [OF assms(1-3)] .
  have "sval (mk 1 0) = 0" by (simp add: sval_def mk_def)
  then show ?thesis using assms and_mask_bounds [of x k] k by (auto simp: maskRange_def range_ok_makeRange)
qed

subsection \<open>Soundness over states\<close>

lemma covers_constD: "covers I s rho \<Longrightarrow> constantInt I v = Some c \<Longrightarrow> ap_ok c \<and> width c \<le> 64 \<and> rho v = sval c"
  by (auto simp: covers_def)

lemma covers_entryD: "covers I s rho \<Longrightarrow> map_of s v = Some r \<Longrightarrow> range_ok r \<and> rho v \<in> gamma r"
  by (auto simp: covers_def)

lemma covers_update [intro]: "covers I s rho \<Longrightarrow> range_ok r \<Longrightarrow> rho v \<in> gamma r \<Longrightarrow> covers I (AList.update v r s) rho"
  by (auto simp: covers_def map_of_update)

lemma covers_at_state:
  "covers I s rho \<Longrightarrow> at_state s v = (r, s1) \<Longrightarrow> range_ok r \<and> rho v \<in> gamma r \<and> covers I s1 rho"
  using covers_entryD [of I s rho v] by (auto simp: at_state_def split: option.splits)

lemma covers_getRangeFor:
  assumes "covers I s rho" and "getRangeFor I v s = (r, s1)"
  shows "range_ok r \<and> rho v \<in> gamma r \<and> covers I s1 rho"
proof (cases "constantInt I v")
  case None
  then show ?thesis using assms covers_at_state by (simp add: getRangeFor_def)
next
  case (Some c)
  then show ?thesis using assms covers_constD [OF assms(1) Some] by (auto simp: getRangeFor_def constRange_def gamma_def)
qed

lemma covers_set_infinity [intro]: "covers I s rho \<Longrightarrow> covers I (set_infinity v s) rho"
  using covers_at_state [of I s rho v]
  by (auto simp: set_infinity_def case_prod_beta Let_def prod_eq_iff range_ok_def gamma_def intro!: covers_update)

lemma evaluateBinOP_sound:
  assumes cov: "covers I s rho" and op: "opcode \<noteq> SDiv" "opcode \<noteq> UDiv"
    and res: "binop_result opcode (rho (getOperand I b 0)) (rho (getOperand I b 1)) z"
  shows "\<exists>r s'. evaluateBinOP I opcode b s = Some (r, s') \<and> range_ok r \<and> z \<in> gamma r \<and> covers I s' rho"
proof -
  let ?o1 = "getOperand I b 0" and ?o2 = "getOperand I b 1"
  obtain r1 s1 where g1: "getRangeFor I ?o1 s = (r1, s1)" by fastforce
  obtain r2 s2 where g2: "getRangeFor I ?o2 s1 = (r2, s2)" by fastforce
  have h1: "range_ok r1" "rho ?o1 \<in> gamma r1" "covers I s1 rho" using covers_getRangeFor [OF cov g1] by auto
  have h2: "range_ok r2" "rho ?o2 \<in> gamma r2" "covers I s2 rho" using covers_getRangeFor [OF h1(3) g2] by auto
  have mask: "\<exists>r. maskRange I v = Some r \<and> range_ok r \<and> and x (rho v) \<in> gamma r" if m: "masking I v" for v x
  proof -
    obtain c where c: "constantInt I v = Some c" using m by (auto simp: masking_def split: option.splits)
    show ?thesis using maskRange_sound [OF m c] covers_constD [OF cov c] by auto
  qed
  let ?E = "if opcode = And \<and> (isConstantRange r1 \<and> masking I ?o1 \<or> isConstantRange r2 \<and> masking I ?o2)
         then (if isConstantRange r1 \<and> masking I ?o1 then maskRange I ?o1 else maskRange I ?o2)
         else if isConstantRange r1 \<and> isConstantRange r2 then ranges64 opcode r1 r2
         else if isInfinity r1 \<or> isInfinity r2 then Some infRange
         else Some unknownRange"
  have "\<exists>r. ?E = Some r \<and> range_ok r \<and> z \<in> gamma r"
  proof (cases "opcode = And \<and> (isConstantRange r1 \<and> masking I ?o1 \<or> isConstantRange r2 \<and> masking I ?o2)")
    case True
    then show ?thesis using mask [of ?o1 "rho ?o2"] mask [of ?o2 "rho ?o1"] res
      by (auto simp: binop_result_def ac_simps)
  next
    case nomask: False
    show ?thesis
    proof (cases "isConstantRange r1 \<and> isConstantRange r2")
      case True
      obtain l1 u1 l2 u2 where box: "in_box l1 u1 l2 u2 (rho ?o1) (rho ?o2)"
        "ranges64 opcode r1 r2 = Some (constantBinOP opcode l1 u1 l2 u2)"
        by (rule ranges64_box [OF h1(1) h2(1) conjunct1 [OF True] conjunct2 [OF True] h1(2) h2(2)])
      show ?thesis unfolding if_not_P [OF nomask] if_P [OF True] box(2)
        using constantBinOP_ok [OF box(1) op] constantBinOP_sound [OF box(1) op res] by blast
    next
      case False
      show ?thesis unfolding if_not_P [OF nomask] if_not_P [OF False] by auto
    qed
  qed
  then obtain r where r: "?E = Some r" "range_ok r" "z \<in> gamma r" by blast
  have "evaluateBinOP I opcode b s = map_option (\<lambda>r. (r, s2)) ?E"
    unfolding evaluateBinOP_def Let_def g1 g2 prod.case ..
  then show ?thesis using r h2(3) unfolding r(1) by simp
qed

text \<open>
  The interpreted operators of the intermediate language on \<open>w\<close>-bit numbers, read as signed: the exact
  result, and the machine result, which wraps around at the width.
\<close>

definition exact_op :: "binop \<Rightarrow> int \<Rightarrow> int \<Rightarrow> int option" where
  "exact_op opcode x y =
     (case opcode of Add \<Rightarrow> Some (x + y) | Sub \<Rightarrow> Some (x - y) | Mul \<Rightarrow> Some (x * y) | And \<Rightarrow> Some (and x y) | _ \<Rightarrow> None)"

definition machine_op :: "nat \<Rightarrow> binop \<Rightarrow> int \<Rightarrow> int \<Rightarrow> int option" where
  "machine_op w opcode x y = map_option (\<lambda>z. sval (mk w z)) (exact_op opcode x y)"

lemma exact_op_result: "exact_op opcode x y = Some z \<Longrightarrow> binop_result opcode x y z \<and> opcode \<noteq> SDiv \<and> opcode \<noteq> UDiv"
  by (cases opcode) (auto simp: exact_op_def binop_result_def)

text \<open>
  C6: The transfer function on an addition, subtraction, multiplication or bitwise and of \<open>w\<close>-bit numbers is
  sound as long as the operation does not overflow: if a valuation lies in the ranges of the state, gives the
  instruction the (wrapping) machine result of its operands, and the exact result is representable in \<open>w\<close> bits,
  then the transfer function returns a state the valuation still lies in. The condition is needed:
  \<open>wrapped_result_missed\<close>.
\<close>

theorem transfer_binary_sound:
  assumes "covers I s rho" and "kind I i = KBinary opcode" and "0 < w"
    and "exact_op opcode (rho (getOperand I i 0)) (rho (getOperand I i 1)) = Some z" and "in_srange w z"
    and "machine_op w opcode (rho (getOperand I i 0)) (rho (getOperand I i 1)) = Some (rho i)"
  shows "\<exists>s'. transfer I i s = Some s' \<and> covers I s' rho"
proof -
  have "rho i = z" using assms(3-6) by (simp add: machine_op_def sval_mk)
  then show ?thesis using evaluateBinOP_sound [OF assms(1)] exact_op_result [OF assms(4)] assms(2) by (fastforce simp: transfer_def)
qed

text \<open>
  The range computed for a signed division contains the truncating quotient of any two members of
  the operand ranges with a non-zero divisor, when the lower bound of the dividend is not the least
  64-bit number.
\<close>

theorem sdiv_range_sound:
  assumes "range_ok a" "range_ok b" "isConstantRange a" "isConstantRange b" "x \<in> gamma a" "y \<in> gamma b"
    and "y \<noteq> 0" and "\<And>l. lvalue a = Some l \<Longrightarrow> smin 64 < sval l"
  shows "\<exists>r. ranges64 SDiv a b = Some r \<and> tdiv x y \<in> gamma r"
proof -
  obtain l1 r1 l2 r2 where box: "in_box l1 r1 l2 r2 x y"
    "ranges64 SDiv a b = Some (constantBinOP SDiv l1 r1 l2 r2)" "sval l1 \<in> sval ` {u. lvalue a = Some u}"
    using ranges64_box [OF assms(1-6)] .
  have "smin 64 < sval l1" using box(3) assms(8) by auto
  then show ?thesis using rangeSDiv_sound [OF box(1) assms(7)] box(2) by (simp add: constantBinOP_def)
qed

theorem sdiv_range_sound_witness:
  "\<exists>r. ranges64 SDiv (constRange (mk 32 7)) (constRange (mk 32 (- 2))) = Some r \<and> tdiv 7 (- 2) \<in> gamma r"
  by (rule sdiv_range_sound) (auto simp: constRange_def range_ok_def isConstantRange_def gamma_def sval_def mk_def ap_ok_def smin_def)

definition add_example :: ir where
  "add_example = empty_ir\<lparr>kind := (\<lambda>v. if v = 1 then KConstantInt (mk 32 5) else if v = 3 then KBinary Add else KArgument),
     operands := (\<lambda>v. if v = 3 then [1, 2] else [])\<rparr>"

theorem transfer_binary_sound_witness:
  "\<exists>s'. transfer add_example 3 [(2, constRange (mk 32 4))] = Some s' \<and> covers add_example s' (\<lambda>v. if v = 1 then 5 else if v = 2 then 4 else 9)"
  by (rule transfer_binary_sound [where opcode = Add and w = 32 and z = 9])
    (auto simp: covers_def add_example_def constRange_def constantInt_def range_ok_def gamma_def sval_def mk_def ap_ok_def
      exact_op_def machine_op_def in_srange_def smin_def smax_def getOperand_def empty_ir_def split: if_splits)

text \<open>
  Ranges are computed on 64 bits whatever the width of the operator. If a narrower operator overflows, the
  machine result is outside the range: the sum of two 8-bit numbers 100 is -56, the range is [200, 200].
\<close>

lemma wrapped_result_missed:
  "map_option (\<lambda>s. map_of s 3) (transfer (add_example\<lparr>kind := \<lambda>v. if v = 3 then KBinary Add else KArgument\<rparr>) 3
       [(1, constRange (mk 8 100)), (2, constRange (mk 8 100))]) = Some (Some (makeRange (mk 64 200) (mk 64 200)))"
  "machine_op 8 Add 100 100 = Some (- 56)"
  "- 56 \<notin> gamma (makeRange (mk 64 200) (mk 64 200))"
  by (simp_all add: transfer_def evaluateBinOP_def machine_op_def exact_op_def add_example_def empty_ir_def getOperand_def getRangeFor_def
      at_state_def constantInt_def constRange_def isConstantRange_def ranges64_def bounds_def constantBinOP_def rangeAdd_def
      sadd_ov_def sextOrTrunc_def in_srange_def smin_def smax_def makeRange_def gamma_def sval_def mk_def)

text \<open>
  When the divisor range contains numbers of both signs and the dividend range starts at the least
  64-bit number, the range computed for a signed division misses possible quotients: the absolute
  value of that bound wraps to a negative number and is never chosen as the maximum.
\<close>

theorem sdiv_range_unsound_at_minimum:
  "\<exists>l1 r1 l2 r2 x y. in_box l1 r1 l2 r2 x y \<and> y \<noteq> 0 \<and> tdiv x y \<notin> gamma (rangeSDiv l1 r1 l2 r2)"
  by (rule exI [of _ "mk 64 (smin 64)"], rule exI [of _ "mk 64 0"], rule exI [of _ "mk 64 (- 1)"],
      rule exI [of _ "mk 64 2"], rule exI [of _ "- 4"], rule exI [of _ 2])
    (simp add: in_box_def rangeSDiv_def isNegative_def isStrictlyPositive_def sval_def mk_def ap_ok_def smin_def
      Let_def sgt_def ap_abs_def flipAllBits_def ap_add1_def tdiv_def sgn_if take_bit_eq_mod)

text \<open>
  The range computed for an unsigned division has its bounds the wrong way round: for non-negative
  operand ranges with a positive divisor it contains no number at all unless the smallest and the
  largest possible quotient coincide.
\<close>

theorem udiv_range_empty:
  assumes "in_box l1 r1 l2 r2 x y" and "0 \<le> sval l1" and "0 < sval l2"
    and "sval l1 div sval r2 \<noteq> sval r1 div sval l2"
  shows "x div y \<notin> gamma (constantBinOP UDiv l1 r1 l2 r2) \<and> gamma (constantBinOP UDiv l1 r1 l2 r2) = {}"
proof -
  have ok: "ap_ok l1" "ap_ok r1" "ap_ok l2" "ap_ok r2" "width l1 = 64" "width r1 = 64"
    and le: "sval l1 \<le> sval r1" "sval l2 \<le> sval r2"
    using assms(1) by (auto simp: in_box_def)
  have u: "bits l1 = sval l1" "bits r1 = sval r1" "bits l2 = sval l2" "bits r2 = sval r2"
    using sval_uval_nonneg ok le assms(2,3) by (auto simp: uval_def)
  have small: "in_srange 64 (p div q)" if "0 \<le> p" "p \<le> smax 64" "0 < q" for p q :: int
  proof -
    have "p div q \<le> p" using that(1,3) zdiv_mono2 [of p 1 q] by simp
    moreover have "0 \<le> p div q" using that by (simp add: pos_imp_zdiv_nonneg_iff)
    ultimately show ?thesis using that(2) by (simp add: in_srange_def smin_def)
  qed
  have q: "sval (udiv r1 l2) = sval r1 div sval l2" "sval (udiv l1 r2) = sval l1 div sval r2"
    using small [of "sval r1" "sval l2"] small [of "sval l1" "sval r2"] sval_range [OF ok(1)] sval_range [OF ok(2)]
      le assms(2,3) by (simp_all add: udiv_def ok u sval_mk)
  have "sval l1 div sval r2 \<le> sval l1 div sval l2" using le assms(2,3) by (intro zdiv_mono2) auto
  also have "\<dots> \<le> sval r1 div sval l2" using le assms(3) by (intro zdiv_mono1) auto
  finally have "sval l1 div sval r2 < sval r1 div sval l2" using assms(4) by simp
  then have "gamma (constantBinOP UDiv l1 r1 l2 r2) = {}"
    using le assms(3) by (simp add: constantBinOP_def rangeUDiv_def is_zero_def u q)
  then show ?thesis by simp
qed

theorem udiv_range_empty_witness:
  "(15::int) div 2 \<notin> gamma (constantBinOP UDiv (mk 64 10) (mk 64 20) (mk 64 2) (mk 64 2)) \<and>
   gamma (constantBinOP UDiv (mk 64 10) (mk 64 20) (mk 64 2) (mk 64 2)) = {}"
  by (rule udiv_range_empty) (simp_all add: in_box_def sval_def mk_def ap_ok_def)

subsection \<open>Memory\<close>

definition const_index :: "ir \<Rightarrow> vid \<Rightarrow> int" where
  "const_index I v = (case constantInt I v of Some c \<Rightarrow> sval c | None \<Rightarrow> - 1)"

definition constant_indices :: "ir \<Rightarrow> vid list \<Rightarrow> bool" where
  "constant_indices I vs \<longleftrightarrow> list_all (\<lambda>v. case constantInt I v of
     Some c \<Rightarrow> ap_ok c \<and> width c \<le> 64 \<and> 0 \<le> sval c | None \<Rightarrow> False) vs"

definition byte_offset :: "ir \<Rightarrow> int \<Rightarrow> vid list \<Rightarrow> int" where
  "byte_offset I elemSize vs = sum_list (map (\<lambda>v. const_index I v * elemSize) vs)"

lemma byte_offset_nonneg: "constant_indices I vs \<Longrightarrow> 0 \<le> e \<Longrightarrow> 0 \<le> byte_offset I e vs"
  by (induction vs)
    (auto simp: constant_indices_def byte_offset_def const_index_def split: option.splits)

lemma gepOffset_constant:
  assumes "constant_indices I vs" and "0 \<le> e" and "0 \<le> off" and "off + byte_offset I e vs < 2 ^ 64"
  shows "gepOffset I e vs off s = Some (Some (off + byte_offset I e vs), s)"
  using assms
proof (induction vs arbitrary: off)
  case Nil
  then show ?case by (simp add: byte_offset_def)
next
  case (Cons v vs)
  then obtain c where c: "constantInt I v = Some c" "ap_ok c" "width c \<le> 64" "0 \<le> sval c"
    by (auto simp: constant_indices_def split: option.splits)
  have rest: "constant_indices I vs" using Cons.prems by (simp add: constant_indices_def)
  have step: "byte_offset I e (v # vs) = sval c * e + byte_offset I e vs"
    by (simp add: byte_offset_def const_index_def c)
  have nn: "0 \<le> byte_offset I e vs" "0 \<le> sval c * e"
    using byte_offset_nonneg [OF rest Cons.prems(2)] c Cons.prems(2) by auto
  have wr: "wrap64 (off + wrap64 (sval c * e)) = off + sval c * e"
    using Cons.prems nn step by (simp add: wrap64_def)
  have idx: "isInfinity (constRange c) = False" "isUnknown (constRange c) = False" "lvalue (constRange c) = Some c"
    by (simp_all add: constRange_def isInfinity_def isUnknown_def)
  have g: "getRangeFor I v s = (constRange c, s)" using c by (simp add: getRangeFor_def)
  have "gepOffset I e (v # vs) off s = gepOffset I e vs (off + sval c * e) s"
    using c by (simp add: g idx sval_sextOrTrunc wr)
  then show ?case using Cons.IH [OF rest Cons.prems(2), of "off + sval c * e"] Cons.prems nn step by (simp add: ac_simps)
qed

text \<open>
  For a GEP with constant non-negative indices on a base whose range says that \<open>n\<close> bytes are
  allocated, the recorded range is exactly the set of further byte offsets that stay inside the
  allocation; when the computed offset reaches or passes the end, the range becomes infinity.
\<close>

theorem gep_range_is_remaining_allocation:
  assumes "constantInt I (gepPointer I g) = None"
    and "map_of s (gepPointer I g) = Some (makeRange lo (mk 64 (n - 1)))" and "0 < n" and "n \<le> 2 ^ 63"
    and "constant_indices I (tl (operands I g))"
    and "off = byte_offset I (int (typeAllocSize I (getElementType (typeOf I g)))) (tl (operands I g))"
    and "off < 2 ^ 64"
  shows "\<exists>s' r. handleGEP I g s = Some s' \<and> map_of s' g = Some r \<and>
     (if off < n then isConstantRange r \<and> gamma r = {k. 0 \<le> k \<and> off + k < n} else isInfinity r)"
proof -
  let ?e = "int (typeAllocSize I (getElementType (typeOf I g)))"
  have off: "0 \<le> off" using byte_offset_nonneg [OF assms(5)] assms(6) by simp
  have n: "sval (mk 64 (n - 1)) = n - 1" using assms(3,4) by (intro sval_mk) (auto simp: in_srange_def smin_def smax_def)
  have base: "getRangeFor I (gepPointer I g) s = (makeRange lo (mk 64 (n - 1)), s)"
    using assms(1,2) by (simp add: getRangeFor_def at_state_def)
  have kinds: "\<not> isInfinity (makeRange lo (mk 64 (n - 1)))" "\<not> isUnknown (makeRange lo (mk 64 (n - 1)))"
    "rvalue (makeRange lo (mk 64 (n - 1))) = Some (mk 64 (n - 1))"
    by (simp_all add: makeRange_def isInfinity_def isUnknown_def)
  have idx: "gepOffset I ?e (tl (operands I g)) 0 s = Some (Some off, s)"
    using gepOffset_constant [OF assms(5), of ?e 0 s] assms(6,7) by simp
  have size: "allocSizeOf (mk 64 (n - 1)) = n"
    using assms(3,4) n by (simp add: allocSizeOf_def wrap64_def uval_def sextOrTrunc_def bits_mk)
  have run: "handleGEP I g s = Some (if off < n
       then AList.update g (makeRange (mk 64 0) (mk 64 (wrap64 (n - off - 1)))) s else set_infinity g s)"
    by (simp add: handleGEP_def base kinds idx size Let_def)
  show ?thesis
  proof (cases "off < n")
    case True
    have "wrap64 (n - off - 1) = n - off - 1" using True off assms(4) by (simp add: wrap64_def)
    moreover have "sval (mk 64 (n - off - 1)) = n - off - 1" "sval (mk 64 0) = 0"
      using True off assms(4) by (auto intro!: sval_mk simp: in_srange_def smin_def smax_def)
    ultimately show ?thesis using True run
      by (auto simp: map_of_update) (auto simp: makeRange_def isConstantRange_def)
  next
    case False
    then show ?thesis using run
      by (auto simp: set_infinity_def case_prod_beta Let_def map_of_update isInfinity_def)
  qed
qed

definition gep_example :: ir where
  "gep_example = empty_ir\<lparr>kind := (\<lambda>v. if v = 2 then KConstantInt (mk 64 3) else KGEP),
     operands := (\<lambda>v. if v = 3 then [1, 2] else [])\<rparr>"

theorem gep_range_is_remaining_allocation_witness:
  "\<exists>s' r. handleGEP gep_example 3 [(1, makeRange (mk 64 0) (mk 64 (40 - 1)))] = Some s' \<and> map_of s' 3 = Some r \<and>
     (if 24 < (40::int) then isConstantRange r \<and> gamma r = {k. 0 \<le> k \<and> 24 + k < 40} else isInfinity r)"
  by (rule gep_range_is_remaining_allocation)
    (simp_all add: gep_example_def constantInt_def empty_ir_def gepPointer_def getOperand_def constant_indices_def
      byte_offset_def const_index_def ap_ok_def mk_def sval_def)

text \<open>
  Storing an integer constant into a local variable and loading it back gives exactly the range of
  that constant, when the state holds no entry for the constant itself.
\<close>

theorem store_then_load_constant:
  assumes "isLocalAllocaPointer I (storePointer I si)" and "constantInt I (storeValue I si) = Some c"
    and "isKnownMallocCall I (storeValue I si) = None" and "map_of s (storeValue I si) = None"
    and "storeValue I si \<noteq> storePointer I si" and "loadPointer I li = storePointer I si"
  shows "\<exists>s'. handleStore I si s = Some s' \<and> map_of (handleLoad I li s') li = Some (constRange c)"
  using assms by (simp add: handleStore_def handleLoad_def getRangeFor_def Let_def map_of_update contains_update)

definition store_example :: ir where
  "store_example = empty_ir\<lparr>kind := (\<lambda>v. if v = 1 then KConstantInt (mk 32 7) else if v = 2 then KAlloca else if v = 3 then KStore else KLoad),
     operands := (\<lambda>v. if v = 3 then [1, 2] else if v = 4 then [2] else [])\<rparr>"

theorem store_then_load_constant_witness:
  "\<exists>s'. handleStore store_example 3 [] = Some s' \<and> map_of (handleLoad store_example 4 s') 4 = Some (constRange (mk 32 7))"
  by (rule store_then_load_constant)
    (simp_all add: store_example_def empty_ir_def constantInt_def isLocalAllocaPointer_def isKnownMallocCall_def
      storePointer_def storeValue_def loadPointer_def getOperand_def)

text \<open>
  Storing a computed value replaces the lower bound of its range by zero: every negative number the
  value may have is missing from the range recorded for the variable.
\<close>

theorem store_drops_negative_values:
  assumes "isLocalAllocaPointer I (storePointer I si)" and "constantInt I (storeValue I si) = None"
    and "isKnownMallocCall I (storeValue I si) = None" and "storeValue I si \<noteq> storePointer I si"
    and "map_of s (storeValue I si) = Some (makeRange l u)" and "typeOf I (storeValue I si) = IntegerTy w" and "0 < w"
    and "x < 0"
  shows "\<exists>s' r. handleStore I si s = Some s' \<and> map_of s' (storePointer I si) = Some r \<and> x \<notin> gamma r"
proof -
  have z: "sval (mk w 0) = 0" using assms(7) by (simp add: sval_def mk_def)
  have k: "isConstantRange (makeRange l u)" "rvalue (makeRange l u) = Some u"
    by (simp_all add: makeRange_def isConstantRange_def)
  show ?thesis using assms z k
    by (simp add: handleStore_def getRangeFor_def at_state_def Let_def map_of_update)
qed

definition store_example2 :: ir where
  "store_example2 = store_example\<lparr>kind := (\<lambda>v. if v = 1 then KBinary Sub else if v = 2 then KAlloca else KStore),
     typeOf := (\<lambda>_. IntegerTy 32)\<rparr>"

theorem store_drops_negative_values_witness:
  "\<exists>s' r. handleStore store_example2 3 [(1, makeRange (mk 32 (- 5)) (mk 32 9))] = Some s' \<and>
     map_of s' (storePointer store_example2 3) = Some r \<and> - 3 \<notin> gamma r"
  by (rule store_drops_negative_values [where w = 32])
    (simp_all add: store_example2_def store_example_def empty_ir_def constantInt_def isLocalAllocaPointer_def
      isKnownMallocCall_def storePointer_def storeValue_def getOperand_def)

end
