(* ===== verification/Search.thy ===== *)
theory Search
  imports MSV_Prelude
begin

text \<open>
  The search loops of the program, as interfaces.  Several passes explore a graph with a pending list
  and a visited set; they differ in where new nodes are put and in when they stop.  The locale
  \<open>worklist_search\<close> states the equations such a loop satisfies and proves once that the loop returns
  and visits exactly the reachable nodes; \<open>goal_search\<close> is the variant that stops at a goal node.
  The loops themselves are defined in the theories of their components and interpret these locales.
\<close>

definition closed_upto :: "('n \<Rightarrow> 'n list) \<Rightarrow> 'n list \<Rightarrow> 'n set \<Rightarrow> bool" where
  "closed_upto succ w V \<longleftrightarrow> (\<forall>x \<in> V. set (succ x) \<subseteq> V \<union> set w)"

definition reach :: "('n \<Rightarrow> 'n list) \<Rightarrow> 'n set \<Rightarrow> 'n set" where
  "reach succ S = (edges succ)\<^sup>* `` S"

lemma reach_mono: "S \<subseteq> T \<Longrightarrow> reach succ S \<subseteq> reach succ T"
  by (auto simp: reach_def)

lemma reach_increasing: "S \<subseteq> reach succ S"
  by (auto simp: reach_def)

lemma reach_idem [simp]: "reach succ (reach succ S) = reach succ S"
  by (auto simp: reach_def intro: rtrancl_trans)

lemma reach_succ: "x \<in> reach succ S \<Longrightarrow> set (succ x) \<subseteq> reach succ S"
  unfolding reach_def Image_def by (auto intro: rtrancl_into_rtrancl [OF _ edges_iff [THEN iffD2]])

lemma reach_step: "x \<in> S \<Longrightarrow> reach succ (S \<union> set (succ x)) = reach succ S"
proof
  assume x: "x \<in> S"
  then have "x \<in> reach succ S" using reach_increasing [of S succ] by auto
  then have "S \<union> set (succ x) \<subseteq> reach succ S" using reach_increasing [of S succ] reach_succ [of x succ S] by auto
  then have "reach succ (S \<union> set (succ x)) \<subseteq> reach succ (reach succ S)" by (rule reach_mono)
  then show "reach succ (S \<union> set (succ x)) \<subseteq> reach succ S" by simp
next
  show "reach succ S \<subseteq> reach succ (S \<union> set (succ x))" by (rule reach_mono) simp
qed

lemma reach_closed:
  assumes "\<And>x. x \<in> V \<Longrightarrow> set (succ x) \<subseteq> V"
  shows "reach succ V = V"
  using Image_rtrancl_closed [of V succ] assms by (auto simp: reach_def)

lemma reach_subset_universe:
  assumes "S \<subseteq> U" and "\<And>x. x \<in> U \<Longrightarrow> set (succ x) \<subseteq> U"
  shows "reach succ S \<subseteq> U"
  using reach_mono [OF assms(1), of succ] reach_closed [of U succ] assms(2) by simp

lemma closed_upto_step:
  assumes "closed_upto succ (n # w) V" and "set w' = set (succ n) \<union> set w"
  shows "closed_upto succ w' (insert n V)"
  using assms by (auto simp: closed_upto_def)

lemma closed_upto_seen: "closed_upto succ (n # w) V \<Longrightarrow> n \<in> V \<Longrightarrow> closed_upto succ w V"
  by (auto simp: closed_upto_def)

lemma reach_seen: "n \<in> V \<Longrightarrow> reach succ (V \<union> set (n # w)) = reach succ (V \<union> set w)"
  by (simp add: insert_absorb)

lemma reach_new:
  assumes "set w' = set (succ n) \<union> set w"
  shows "reach succ (insert n V \<union> set w') = reach succ (V \<union> set (n # w))"
proof -
  have "insert n V \<union> set w' = (V \<union> set (n # w)) \<union> set (succ n)" using assms by auto
  then show ?thesis using reach_step [of n "V \<union> set (n # w)" succ] by simp
qed

lemma fresh_decreases: "finite U \<Longrightarrow> n \<in> U \<Longrightarrow> n \<notin> V \<Longrightarrow> card (U - insert n V) < card (U - V)"
  by (rule psubset_card_mono) auto

locale worklist_search =
  fixes run :: "'n list \<Rightarrow> 'n set \<Rightarrow> 'n set option"
    and succ :: "'n \<Rightarrow> 'n list"
    and push :: "'n list \<Rightarrow> 'n list \<Rightarrow> 'n list"
  assumes run_empty: "run [] V = Some V"
    and run_seen: "n \<in> V \<Longrightarrow> run (n # w) V = run w V"
    and run_new: "n \<notin> V \<Longrightarrow> run (n # w) V = run (push (succ n) w) (insert n V)"
    and set_push: "set (push ns w) = set ns \<union> set w"
begin

lemma run_reaches:
  assumes "finite U" and "\<And>x. x \<in> U \<Longrightarrow> set (succ x) \<subseteq> U"
    and "V \<subseteq> U" and "set w \<subseteq> U" and "closed_upto succ w V"
  shows "run w V = Some (reach succ (V \<union> set w))"
  using assms(3,4,5)
proof (induction "(V, w)" arbitrary: V w rule: wf_induct_rule [OF wf_measures [of "[\<lambda>(V, w). card (U - V), \<lambda>(V, w). length w]"]])
  case (1 V w)
  show ?case
  proof (cases w)
    case Nil
    then show ?thesis using "1.prems" reach_closed [of V succ] by (simp add: run_empty closed_upto_def)
  next
    case (Cons n w0)
    show ?thesis
    proof (cases "n \<in> V")
      case True
      have "run w0 V = Some (reach succ (V \<union> set w0))"
        using "1.hyps" [of V w0] "1.prems" closed_upto_seen [of succ n w0 V] Cons True by simp
      then show ?thesis using run_seen [OF True, of w0] reach_seen [OF True, of succ w0] Cons by simp
    next
      case False
      have U: "insert n V \<subseteq> U" "set (push (succ n) w0) \<subseteq> U"
        using "1.prems" Cons assms(2) by (auto simp: set_push)
      have "card (U - insert n V) < card (U - V)" using fresh_decreases [OF assms(1)] U False by auto
      then have "run (push (succ n) w0) (insert n V) = Some (reach succ (insert n V \<union> set (push (succ n) w0)))"
        using "1.hyps" [of "insert n V" "push (succ n) w0"] U "1.prems"(3)
          closed_upto_step [of succ n w0 V "push (succ n) w0"] set_push [of "succ n" w0] Cons by simp
      then show ?thesis
        using run_new [OF False, of w0] reach_new [of "push (succ n) w0" succ n w0 V] set_push [of "succ n" w0] Cons by simp
    qed
  qed
qed

lemma run_from:
  assumes "finite U" and "\<And>x. x \<in> U \<Longrightarrow> set (succ x) \<subseteq> U" and "set w \<subseteq> U"
  shows "run w {} = Some (reach succ (set w))"
  using run_reaches [OF assms(1,2) _ assms(3), of "{}"] by (simp add: closed_upto_def)

end

locale goal_search =
  fixes find :: "'n list \<Rightarrow> 'n set \<Rightarrow> bool option"
    and succ :: "'n \<Rightarrow> 'n list"
    and push :: "'n list \<Rightarrow> 'n list \<Rightarrow> 'n list"
    and goal :: "'n \<Rightarrow> bool"
  assumes find_empty: "find [] V = Some False"
    and find_seen: "n \<in> V \<Longrightarrow> \<not> goal n \<Longrightarrow> find (n # w) V = find w V"
    and find_goal: "n \<notin> V \<Longrightarrow> goal n \<Longrightarrow> find (n # w) V = Some True"
    and find_new: "n \<notin> V \<Longrightarrow> \<not> goal n \<Longrightarrow> find (n # w) V = find (push (succ n) w) (insert n V)"
    and set_push: "set (push ns w) = set ns \<union> set w"
begin

lemma find_decides:
  assumes "finite U" and "\<And>x. x \<in> U \<Longrightarrow> set (succ x) \<subseteq> U"
    and "V \<subseteq> U" and "set w \<subseteq> U" and "closed_upto succ w V" and "\<And>x. x \<in> V \<Longrightarrow> \<not> goal x"
  shows "find w V = Some (\<exists>x \<in> reach succ (V \<union> set w). goal x)"
  using assms(3,4,5,6)
proof (induction "(V, w)" arbitrary: V w rule: wf_induct_rule [OF wf_measures [of "[\<lambda>(V, w). card (U - V), \<lambda>(V, w). length w]"]])
  case (1 V w)
  show ?case
  proof (cases w)
    case Nil
    then show ?thesis using "1.prems" reach_closed [of V succ] by (auto simp: find_empty closed_upto_def)
  next
    case (Cons n w0)
    show ?thesis
    proof (cases "n \<in> V")
      case True
      have "find w0 V = Some (\<exists>x \<in> reach succ (V \<union> set w0). goal x)"
        using "1.hyps" [of V w0] "1.prems" closed_upto_seen [of succ n w0 V] Cons True by simp
      then show ?thesis using find_seen [OF True "1.prems"(4) [OF True], of w0] reach_seen [OF True, of succ w0] Cons by simp
    next
      case new: False
      show ?thesis
      proof (cases "goal n")
        case True
        have "n \<in> reach succ (V \<union> set w)" using reach_increasing [of "V \<union> set w" succ] Cons by auto
        then show ?thesis using find_goal [OF new True, of w0] Cons True by auto
      next
        case False
        have U: "insert n V \<subseteq> U" "set (push (succ n) w0) \<subseteq> U"
          using "1.prems" Cons assms(2) by (auto simp: set_push)
        have "card (U - insert n V) < card (U - V)" using fresh_decreases [OF assms(1)] U new by auto
        then have "find (push (succ n) w0) (insert n V) =
            Some (\<exists>x \<in> reach succ (insert n V \<union> set (push (succ n) w0)). goal x)"
          using "1.hyps" [of "insert n V" "push (succ n) w0"] U "1.prems"(3,4) False
            closed_upto_step [of succ n w0 V "push (succ n) w0"] set_push [of "succ n" w0] Cons by auto
        then show ?thesis
          using find_new [OF new False, of w0] reach_new [of "push (succ n) w0" succ n w0 V] set_push [of "succ n" w0] Cons by simp
      qed
    qed
  qed
qed

lemma find_from:
  assumes "finite U" and "\<And>x. x \<in> U \<Longrightarrow> set (succ x) \<subseteq> U" and "set w \<subseteq> U"
  shows "find w {} = Some (\<exists>x \<in> reach succ (set w). goal x)"
  using find_decides [OF assms(1,2) _ assms(3), of "{}"] by (simp add: closed_upto_def)

end

subsection \<open>Searches that mark nodes when they are queued\<close>

text \<open>
  The third kind of loop marks a node when it is queued, so that nodes marked beforehand are never
  expanded.  Its result is described with the marked nodes of the start removed from the graph.
\<close>

definition enqueue :: "'n \<Rightarrow> 'n set \<times> 'n list \<Rightarrow> 'n set \<times> 'n list" where
  "enqueue n acc = (if n \<in> fst acc then acc else (insert n (fst acc), snd acc @ [n]))"

lemma enqueue_all:
  "fst (fold enqueue ns (V, q)) = V \<union> set ns"
  "set (snd (fold enqueue ns (V, q))) = set q \<union> (set ns - V)"
  "length (snd (fold enqueue ns (V, q))) = length q + card (set ns - V)"
proof (induction ns arbitrary: V q)
  case (Cons n ns)
  have c: "card (insert n (set ns) - W) = (if n \<in> W then card (set ns - W) else Suc (card (set ns - insert n W)))" for W
  proof (cases "n \<in> W")
    case False
    then have "insert n (set ns) - W = insert n (set ns - insert n W)" by auto
    then show ?thesis using False by (simp add: card_insert_if)
  qed (simp add: insert_Diff_if)
  {
    case 1
    show ?case using Cons.IH(1) by (auto simp: enqueue_def)
  next
    case 2
    show ?case using Cons.IH(2) by (auto simp: enqueue_def)
  next
    case 3
    show ?case using Cons.IH(3) by (simp add: enqueue_def c)
  }
qed simp_all

definition unmarked :: "('n \<Rightarrow> 'n list) \<Rightarrow> 'n set \<Rightarrow> ('n \<times> 'n) set" where
  "unmarked succ V0 = {(x, y). y \<in> set (succ x) \<and> y \<notin> V0}"

text \<open>
  The loop may collect information \<open>collect x\<close> from every node it takes from the queue; \<open>run_marks\<close> says
  which nodes these are.
\<close>

locale push_search =
  fixes run :: "'n list \<Rightarrow> 'n set \<Rightarrow> 'a \<Rightarrow> ('n set \<times> 'a) option"
    and succ :: "'n \<Rightarrow> 'n list"
    and collect :: "'n \<Rightarrow> 'a \<Rightarrow> 'a"
  assumes run_empty: "run [] V a = Some (V, a)"
    and run_step: "run (x # q) V a =
      run (snd (fold enqueue (succ x) (V, q))) (fst (fold enqueue (succ x) (V, q))) (collect x a)"
begin

lemma run_invariant:
  assumes "finite U" and "\<And>x. x \<in> U \<Longrightarrow> set (succ x) \<subseteq> U"
    and "set q \<subseteq> U" and "A \<subseteq> U" and "A \<subseteq> (unmarked succ V0)\<^sup>+ `` Q" and "P \<union> set q = Q \<union> A"
    and "\<And>x. x \<in> P \<Longrightarrow> set (succ x) \<subseteq> V0 \<union> A"
  shows "\<exists>xs. run q (V0 \<union> A) a = Some (V0 \<union> (unmarked succ V0)\<^sup>+ `` Q, fold collect xs a) \<and>
    P \<union> set xs = Q \<union> (unmarked succ V0)\<^sup>+ `` Q"
  using assms(3-7)
proof (induction "card (U - (V0 \<union> A)) + length q" arbitrary: q A P a rule: less_induct)
  case less
  let ?R = "(unmarked succ V0)\<^sup>+ `` Q"
  show ?case
  proof (cases q)
    case Nil
    have new: "y \<in> A" if "(x, y) \<in> (unmarked succ V0)\<^sup>+" "x \<in> Q" for x y
      using that
    proof (induction rule: trancl_induct)
      case (base y)
      then show ?case using less.prems(4) less.prems(5) [of x] Nil by (auto simp: unmarked_def)
    next
      case (step y z)
      then show ?case using less.prems(4) less.prems(5) [of y] Nil by (auto simp: unmarked_def)
    qed
    then have "A = ?R" using less.prems(3) by auto
    then show ?thesis using Nil less.prems(4) by (intro exI [of _ "[]"]) (simp add: run_empty)
  next
    case (Cons x q')
    let ?q = "snd (fold enqueue (succ x) (V0 \<union> A, q'))" and ?A = "A \<union> (set (succ x) - V0)"
    have x: "x \<in> U" "x \<in> Q \<union> A" using less.prems Cons by auto
    have V: "fst (fold enqueue (succ x) (V0 \<union> A, q')) = V0 \<union> ?A" by (auto simp: enqueue_all(1))
    have q: "set ?q = set q' \<union> (set (succ x) - (V0 \<union> A))" by (simp add: enqueue_all(2))
    have "card (U - (V0 \<union> ?A)) + card (set (succ x) - (V0 \<union> A)) = card (U - (V0 \<union> A))"
    proof -
      have "U - (V0 \<union> A) = (U - (V0 \<union> ?A)) \<union> (set (succ x) - (V0 \<union> A))" using assms(2) [OF x(1)] by auto
      moreover have "card ((U - (V0 \<union> ?A)) \<union> (set (succ x) - (V0 \<union> A))) =
          card (U - (V0 \<union> ?A)) + card (set (succ x) - (V0 \<union> A))"
        by (rule card_Un_disjoint) (use assms(1) in auto)
      ultimately show ?thesis by simp
    qed
    then have dec: "card (U - (V0 \<union> ?A)) + length ?q < card (U - (V0 \<union> A)) + length q"
      using Cons enqueue_all(3) [of "succ x" "V0 \<union> A" q'] by simp
    have new: "set (succ x) - V0 \<subseteq> ?R"
    proof
      fix y
      assume y: "y \<in> set (succ x) - V0"
      then have e: "(x, y) \<in> unmarked succ V0" by (simp add: unmarked_def)
      show "y \<in> ?R"
      proof (cases "x \<in> Q")
        case False
        then show ?thesis using x(2) less.prems(3) e by (blast intro: trancl_into_trancl)
      qed (use e in auto)
    qed
    have "\<exists>xs. run ?q (V0 \<union> ?A) (collect x a) = Some (V0 \<union> ?R, fold collect xs (collect x a)) \<and>
        insert x P \<union> set xs = Q \<union> ?R"
    proof (rule less.hyps [OF dec])
      show "set ?q \<subseteq> U" "?A \<subseteq> U" using less.prems(1,2) Cons assms(2) [OF x(1)] q by auto
      show "?A \<subseteq> ?R" using less.prems(3) new by auto
      show "insert x P \<union> set ?q = Q \<union> ?A" using less.prems(4) Cons q by auto
      show "set (succ y) \<subseteq> V0 \<union> ?A" if "y \<in> insert x P" for y using that less.prems(5) by auto
    qed
    then obtain xs where "run ?q (V0 \<union> ?A) (collect x a) = Some (V0 \<union> ?R, fold collect xs (collect x a))"
      "insert x P \<union> set xs = Q \<union> ?R" by auto
    then show ?thesis using Cons V run_step [of x q' "V0 \<union> A" a] by (intro exI [of _ "x # xs"]) simp
  qed
qed

lemma run_marks:
  assumes "finite U" and "\<And>x. x \<in> U \<Longrightarrow> set (succ x) \<subseteq> U" and "set q \<subseteq> U"
  shows "\<exists>xs. run q V0 a = Some (V0 \<union> (unmarked succ V0)\<^sup>+ `` set q, fold collect xs a) \<and>
    set xs = set q \<union> (unmarked succ V0)\<^sup>+ `` set q"
  using run_invariant [OF assms(1,2,3), of "{}" V0 "set q" "{}" a] by simp

end

end
