(* ===== verification/PDG_Graph.thy ===== *)
theory PDG_Graph
  imports Search LLVM_IR
begin

text \<open>
  The graph of \<^verbatim>\<open>program-dependence-graph\<close>: nodes and edges (\<^verbatim>\<open>PDGNode.hh\<close>, \<^verbatim>\<open>PDGNode.cpp\<close>,
  \<^verbatim>\<open>PDGEdge.hh\<close>) and the generic graph with its traversals (\<^verbatim>\<open>Graph.hh\<close>, \<^verbatim>\<open>Graph.cpp\<close>).  Nodes are
  addresses (\<open>nid\<close>) into an explicit heap, because \<open>addNeighbor\<close> updates two nodes that may be the
  same.  A hash set of edges is a list without duplicates, a \<^verbatim>\<open>std::set\<close> of nodes a set that is
  iterated in the order of the addresses.  The traversals may in principle not end; their result is
  an option, and the theorems say that they return.
\<close>

subsection \<open>Data\<close>

datatype EdgeType =
    CALL | IND_CALL | CONTROL | CONTROL_FLOW | DATA_DEF_USE | DATA_RAW | DATA_READ | DATA_ALIAS
  | DATA_RET | PARAMETER_IN | PARAMETER_OUT | PARAMETER_FIELD | GLOBAL_DEP | VAL_DEP

definition all_edge_types :: "EdgeType list" where
  "all_edge_types = [CALL, IND_CALL, CONTROL, CONTROL_FLOW, DATA_DEF_USE, DATA_RAW, DATA_READ, DATA_ALIAS,
     DATA_RET, PARAMETER_IN, PARAMETER_OUT, PARAMETER_FIELD, GLOBAL_DEP, VAL_DEP]"

datatype GraphNodeType =
    INST | FORMAL_IN | FORMAL_OUT | ACTUAL_IN | ACTUAL_OUT | RETURN | FUNC_ENTRY | GLOBAL_VAR
  | CALL_NODE | GLOBAL_TYPE | FUNC

type_synonym nid = nat

record Edge =
  getSrcNode :: nid
  getDstNode :: nid
  getEdgeType :: EdgeType

record Node =
  node_val :: vid
  node_func :: vid
  is_visited :: bool
  in_edge_set :: "Edge list"
  out_edge_set :: "Edge list"
  in_neighbors :: "nid set"
  out_neighbors :: "nid set"
  in_neighbors_with_edge_type :: "EdgeType \<Rightarrow> nid set"
  out_neighbors_with_edge_type :: "EdgeType \<Rightarrow> nid set"
  node_type :: GraphNodeType
  node_di_type :: nat

type_synonym node_heap = "nid \<Rightarrow> Node"

definition mkEdge :: "nid \<Rightarrow> nid \<Rightarrow> EdgeType \<Rightarrow> Edge" where
  "mkEdge s d t = \<lparr>getSrcNode = s, getDstNode = d, getEdgeType = t\<rparr>"

definition new_Node :: "GraphNodeType \<Rightarrow> Node" where
  "new_Node t = \<lparr>node_val = 0, node_func = 0, is_visited = False, in_edge_set = [], out_edge_set = [],
     in_neighbors = {}, out_neighbors = {}, in_neighbors_with_edge_type = (\<lambda>_. {}),
     out_neighbors_with_edge_type = (\<lambda>_. {}), node_type = t, node_di_type = 0\<rparr>"

definition new_Node_val :: "ir \<Rightarrow> vid \<Rightarrow> GraphNodeType \<Rightarrow> Node" where
  "new_Node_val I v t =
     (new_Node t)\<lparr>node_val := v, node_func := (if isInstruction I v then getFunction I v else 0)\<rparr>"

subsection \<open>Methods of a node\<close>

definition addOutEdge :: "Edge \<Rightarrow> Node \<Rightarrow> Node" where
  "addOutEdge e n = n\<lparr>out_edge_set := List.insert e (out_edge_set n)\<rparr>"

definition addInEdge :: "Edge \<Rightarrow> Node \<Rightarrow> Node" where
  "addInEdge e n = n\<lparr>in_edge_set := List.insert e (in_edge_set n)\<rparr>"

definition addNeighbor :: "nid \<Rightarrow> nid \<Rightarrow> EdgeType \<Rightarrow> node_heap \<Rightarrow> node_heap" where
  "addNeighbor this neighbor t h =
     (let e = mkEdge this neighbor t;
          n1 = addOutEdge e (h this);
          n2 = n1\<lparr>out_neighbors := insert neighbor (out_neighbors n1),
            out_neighbors_with_edge_type := (out_neighbors_with_edge_type n1)
              (t := insert neighbor (out_neighbors_with_edge_type n1 t))\<rparr>;
          h1 = h(this := n2);
          m1 = addInEdge e (h1 neighbor);
          m2 = m1\<lparr>in_neighbors := insert this (in_neighbors m1),
            in_neighbors_with_edge_type := (in_neighbors_with_edge_type m1)
              (t := insert this (in_neighbors_with_edge_type m1 t))\<rparr>
      in h1(neighbor := m2))"

definition getInNeighborsWithDepType :: "node_heap \<Rightarrow> nid \<Rightarrow> EdgeType \<Rightarrow> nid set" where
  "getInNeighborsWithDepType h this t = in_neighbors_with_edge_type (h this) t"

definition getOutNeighborsWithDepType :: "node_heap \<Rightarrow> nid \<Rightarrow> EdgeType \<Rightarrow> nid set" where
  "getOutNeighborsWithDepType h this t = out_neighbors_with_edge_type (h this) t"

definition hasInNeighborWithEdgeType :: "node_heap \<Rightarrow> nid \<Rightarrow> nid \<Rightarrow> EdgeType \<Rightarrow> bool" where
  "hasInNeighborWithEdgeType h this n t \<longleftrightarrow> mkEdge this n t \<in> set (in_edge_set (h this))"

definition hasOutNeighborWithEdgeType :: "node_heap \<Rightarrow> nid \<Rightarrow> nid \<Rightarrow> EdgeType \<Rightarrow> bool" where
  "hasOutNeighborWithEdgeType h this n t \<longleftrightarrow> mkEdge this n t \<in> set (out_edge_set (h this))"

definition getNeighborsWithDepType :: "node_heap \<Rightarrow> nid \<Rightarrow> EdgeType set \<Rightarrow> nid set" where
  "getNeighborsWithDepType h this ts =
     set (map getSrcNode (filter (\<lambda>e. getEdgeType e \<in> ts) (in_edge_set (h this)))) \<union>
     set (map getDstNode (filter (\<lambda>e. getEdgeType e \<in> ts) (out_edge_set (h this))))"

definition getAbstractTreeNode :: "node_heap \<Rightarrow> nid \<Rightarrow> nid option" where
  "getAbstractTreeNode h this = map_option getSrcNode
     (find (\<lambda>e. getEdgeType e = PARAMETER_IN \<and> node_type (h (getSrcNode e)) = FORMAL_IN) (in_edge_set (h this)))"

definition isAddrVarNode :: "node_heap \<Rightarrow> nid \<Rightarrow> bool" where
  "isAddrVarNode h this =
     list_ex (\<lambda>e. getEdgeType e = PARAMETER_IN \<and> node_type (h (getSrcNode e)) = FORMAL_IN) (in_edge_set (h this))"

subsection \<open>The generic graph\<close>

record GenericGraph =
  val_node_map :: "(vid, nid) dict"
  node_set :: "nid set"
  is_build :: bool

definition addNode :: "nid \<Rightarrow> GenericGraph \<Rightarrow> GenericGraph" where
  "addNode n g = g\<lparr>node_set := insert n (node_set g)\<rparr>"

definition hasNode :: "GenericGraph \<Rightarrow> vid \<Rightarrow> bool" where
  "hasNode g v \<longleftrightarrow> contains (val_node_map g) v"

definition getNode :: "GenericGraph \<Rightarrow> vid \<Rightarrow> nid option" where
  "getNode g v = (if \<not> hasNode g v then None else map_of (val_node_map g) v)"

subsection \<open>Traversals\<close>

definition included_successors :: "node_heap \<Rightarrow> EdgeType set \<Rightarrow> nid \<Rightarrow> nid list" where
  "included_successors h ts n = map getDstNode (filter (\<lambda>e. getEdgeType e \<in> ts) (out_edge_set (h n)))"

partial_function (option) canReach_loop ::
    "(nid \<Rightarrow> nid list) \<Rightarrow> nid \<Rightarrow> nid list \<Rightarrow> nid set \<Rightarrow> bool option" where
  "canReach_loop succ dst stack visited =
     (case stack of
        [] \<Rightarrow> Some False
      | current_node # rest \<Rightarrow>
          (if current_node \<in> visited then canReach_loop succ dst rest visited
           else if current_node = dst then Some True
           else canReach_loop succ dst (rev (succ current_node) @ rest) (insert current_node visited)))"

definition canReach_types :: "node_heap \<Rightarrow> nid \<Rightarrow> nid \<Rightarrow> EdgeType set \<Rightarrow> bool option" where
  "canReach_types h src dst include_edge_types =
     (if src = dst then Some True
      else canReach_loop (included_successors h include_edge_types) dst [src] {})"

definition canReach :: "node_heap \<Rightarrow> nid \<Rightarrow> nid \<Rightarrow> bool option" where
  "canReach h src dst = canReach_types h src dst {}"

partial_function (option) reachedByEdge_loop ::
    "(nid \<Rightarrow> nid list) \<Rightarrow> nid list \<Rightarrow> nid set \<Rightarrow> nid set option" where
  "reachedByEdge_loop succ queue visited =
     (case queue of
        [] \<Rightarrow> Some visited
      | current_node # rest \<Rightarrow>
          (if current_node \<in> visited then reachedByEdge_loop succ rest visited
           else reachedByEdge_loop succ (rest @ succ current_node) (insert current_node visited)))"

text \<open>The sets \<open>ret\<close> and \<open>visited\<close> of the source always have the same elements.\<close>

definition findNodesReachedByEdge :: "node_heap \<Rightarrow> nid \<Rightarrow> EdgeType \<Rightarrow> nid set option" where
  "findNodesReachedByEdge h src t = reachedByEdge_loop (included_successors h {t}) [src] {}"

partial_function (option) reachedByEdges_loop :: "nid list \<Rightarrow> nid list \<Rightarrow> nid set \<Rightarrow> nid set option" where
  "reachedByEdges_loop neighbors queue ret =
     (case queue of
        [] \<Rightarrow> Some ret
      | current_node # rest \<Rightarrow>
          (let acc = fold enqueue neighbors (ret, rest)
           in reachedByEdges_loop neighbors (snd acc) (fst acc)))"

text \<open>The neighbours are those of \<open>src\<close> in every round of the loop, as in the source.\<close>

definition findNodesReachedByEdges :: "node_heap \<Rightarrow> nid \<Rightarrow> EdgeType set \<Rightarrow> bool \<Rightarrow> nid set option" where
  "findNodesReachedByEdges h src edge_types is_backward =
     (let neighbors = concat (map (\<lambda>t. sorted_list_of_set
            (if is_backward then getInNeighborsWithDepType h src t else getOutNeighborsWithDepType h src t))
          (filter (\<lambda>t. t \<in> edge_types) all_edge_types))
      in reachedByEdges_loop neighbors [src] {})"

subsection \<open>Graphs built by \<open>addNeighbor\<close>\<close>

type_synonym edge_spec = "nid \<times> nid \<times> EdgeType"

definition build_edges :: "edge_spec list \<Rightarrow> node_heap" where
  "build_edges es = fold (\<lambda>(a, b, t). addNeighbor a b t) es (\<lambda>_. new_Node INST)"

definition mirrors :: "edge_spec set \<Rightarrow> node_heap \<Rightarrow> bool" where
  "mirrors E h \<longleftrightarrow>
     (\<forall>a. set (out_edge_set (h a)) = {mkEdge a b t | b t. (a, b, t) \<in> E} \<and>
          set (in_edge_set (h a)) = {mkEdge b a t | b t. (b, a, t) \<in> E} \<and>
          out_neighbors (h a) = {b. \<exists>t. (a, b, t) \<in> E} \<and>
          in_neighbors (h a) = {b. \<exists>t. (b, a, t) \<in> E} \<and>
          (\<forall>t. out_neighbors_with_edge_type (h a) t = {b. (a, b, t) \<in> E} \<and>
               in_neighbors_with_edge_type (h a) t = {b. (b, a, t) \<in> E}))"

lemma mkEdge_eq [simp]: "mkEdge a b t = mkEdge a' b' t' \<longleftrightarrow> a = a' \<and> b = b' \<and> t = t'"
  by (auto simp: mkEdge_def)

lemma addNeighbor_fields:
  "set (out_edge_set (addNeighbor a b t h x)) = set (out_edge_set (h x)) \<union> (if x = a then {mkEdge a b t} else {})"
  "set (in_edge_set (addNeighbor a b t h x)) = set (in_edge_set (h x)) \<union> (if x = b then {mkEdge a b t} else {})"
  "out_neighbors (addNeighbor a b t h x) = out_neighbors (h x) \<union> (if x = a then {b} else {})"
  "in_neighbors (addNeighbor a b t h x) = in_neighbors (h x) \<union> (if x = b then {a} else {})"
  "out_neighbors_with_edge_type (addNeighbor a b t h x) u =
     out_neighbors_with_edge_type (h x) u \<union> (if x = a \<and> u = t then {b} else {})"
  "in_neighbors_with_edge_type (addNeighbor a b t h x) u =
     in_neighbors_with_edge_type (h x) u \<union> (if x = b \<and> u = t then {a} else {})"
  by (auto simp: addNeighbor_def Let_def addOutEdge_def addInEdge_def)

lemma mirrors_add:
  assumes "mirrors E h"
  shows "mirrors (insert (a, b, t) E) (addNeighbor a b t h)"
  using assms unfolding mirrors_def addNeighbor_fields by auto

lemma mirrors_build_from: "mirrors E h \<Longrightarrow> mirrors (E \<union> set es) (fold (\<lambda>(a, b, t). addNeighbor a b t) es h)"
proof (induction es arbitrary: E h)
  case (Cons e es)
  obtain a b t where e: "e = (a, b, t)" by (cases e)
  have "mirrors (insert (a, b, t) E) (addNeighbor a b t h)" using Cons.prems by (rule mirrors_add)
  then show ?case using Cons.IH e by force
qed simp

lemma mirrors_build: "mirrors (set es) (build_edges es)"
  using mirrors_build_from [of "{}" "\<lambda>_. new_Node INST" es] by (simp add: build_edges_def mirrors_def new_Node_def)

lemma set_included_successors:
  "mirrors E h \<Longrightarrow> set (included_successors h ts a) = {b. \<exists>t \<in> ts. (a, b, t) \<in> E}"
proof -
  assume "mirrors E h"
  then have "set (out_edge_set (h a)) = {mkEdge a b t | b t. (a, b, t) \<in> E}" by (simp add: mirrors_def)
  then have "set (included_successors h ts a) = getDstNode ` {e. (\<exists>b t. e = mkEdge a b t \<and> (a, b, t) \<in> E) \<and> getEdgeType e \<in> ts}"
    by (auto simp: included_successors_def)
  also have "\<dots> = {b. \<exists>t \<in> ts. (a, b, t) \<in> E}" by (force simp: mkEdge_def)
  finally show ?thesis .
qed

lemma edges_included:
  "edges (included_successors (build_edges es) ts) = {(a, b). \<exists>t \<in> ts. (a, b, t) \<in> set es}"
  by (auto simp: edges_def set_included_successors [OF mirrors_build])

lemma included_closed:
  assumes "U = insert src ((\<lambda>(a, b, t). b) ` set es)" and "x \<in> U"
  shows "set (included_successors (build_edges es) ts x) \<subseteq> U"
  using assms by (force simp: set_included_successors [OF mirrors_build])

subsection \<open>The loops as searches\<close>

interpretation pdg_dfs: goal_search "canReach_loop succ dst" succ "\<lambda>ns w. rev ns @ w" "\<lambda>n. n = dst" for succ dst
  by unfold_locales (auto simp: canReach_loop.simps)

interpretation pdg_bfs: worklist_search "reachedByEdge_loop succ" succ "\<lambda>ns w. w @ ns" for succ
  by unfold_locales (auto simp: reachedByEdge_loop.simps)

text \<open>
  After any sequence of \<open>addNeighbor\<close> calls the six redundant views of the graph (out edges, in
  edges, both neighbour sets, both neighbour sets by edge type) agree with the set of requested edges,
  self-loops included.
\<close>

theorem adjacency_views_agree: "mirrors (set es) (build_edges es)"
  by (rule mirrors_build)

lemma canReach_types_reach:
  "canReach_types (build_edges es) src dst ts = Some ((src, dst) \<in> {(a, b). \<exists>t \<in> ts. (a, b, t) \<in> set es}\<^sup>*)"
proof -
  let ?s = "included_successors (build_edges es) ts"
  have "canReach_loop ?s dst [src] {} = Some (\<exists>x \<in> reach ?s (set [src]). x = dst)"
    by (rule pdg_dfs.find_from [where U = "insert src ((\<lambda>(a, b, t). b) ` set es)"])
      (use included_closed [of _ src es _ ts] in auto)
  then show ?thesis by (auto simp: canReach_types_def reach_def edges_included)
qed

text \<open>
  The depth-first search over given edge types returns, and answers exactly whether the target is
  reachable over edges of these types.
\<close>

theorem canReach_types_decides_reachability:
  "canReach_types (build_edges es) src dst ts = Some ((src, dst) \<in> {(a, b). \<exists>t \<in> ts. (a, b, t) \<in> set es}\<^sup>*)"
  by (rule canReach_types_reach)

text \<open>
  The two-argument reachability query passes an empty set of edge types and so holds only between
  a node and itself, whatever edges the graph has.
\<close>

theorem canReach_only_reflexive: "canReach (build_edges es) src dst = Some (src = dst)"
  unfolding canReach_def canReach_types_reach by simp

lemma enqueue_marked: "set ns \<subseteq> ret \<Longrightarrow> fold enqueue ns (ret, q) = (ret, q)"
  by (induction ns) (simp_all add: enqueue_def)

lemma reachedByEdges_drain: "set ns \<subseteq> ret \<Longrightarrow> reachedByEdges_loop ns q ret = Some ret"
proof (induction q)
  case Nil
  then show ?case by (simp add: reachedByEdges_loop.simps)
next
  case (Cons n q)
  then show ?case by (subst reachedByEdges_loop.simps) (simp add: enqueue_marked)
qed

lemma reachedByEdges_one_round: "reachedByEdges_loop ns [src] {} = Some (set ns)"
  by (subst reachedByEdges_loop.simps) (simp add: enqueue_all(1) reachedByEdges_drain)

lemma all_edge_types_complete: "t \<in> set all_edge_types"
  by (cases t) (simp_all add: all_edge_types_def)

lemma finite_neighbors:
  "finite (getOutNeighborsWithDepType (build_edges es) a t)" "finite (getInNeighborsWithDepType (build_edges es) a t)"
proof -
  have "{b. (a, b, t) \<in> set es} \<subseteq> (\<lambda>(a, b, t). b) ` set es" "{b. (b, a, t) \<in> set es} \<subseteq> (\<lambda>(a, b, t). a) ` set es"
    by force+
  then have "finite {b. (a, b, t) \<in> set es}" "finite {b. (b, a, t) \<in> set es}"
    using finite_surj [OF finite_set] by auto
  then show "finite (getOutNeighborsWithDepType (build_edges es) a t)" "finite (getInNeighborsWithDepType (build_edges es) a t)"
    using mirrors_build [of es]
    by (simp_all add: getOutNeighborsWithDepType_def getInNeighborsWithDepType_def mirrors_def)
qed

text \<open>
  The search over several edge types returns, but only the direct neighbours of its start: the
  loop asks for the neighbours of \<open>src\<close> instead of those of the current node in every round.
\<close>

theorem findNodesReachedByEdges_direct_neighbours:
  "findNodesReachedByEdges (build_edges es) src ts back =
     Some {b. \<exists>t \<in> ts. (if back then (b, src, t) else (src, b, t)) \<in> set es}"
  using mirrors_build [of es] all_edge_types_complete
  by (auto simp: findNodesReachedByEdges_def reachedByEdges_one_round finite_neighbors)
    (auto simp: getOutNeighborsWithDepType_def getInNeighborsWithDepType_def mirrors_def)

text \<open>
  Breadth-first search over one edge type collects exactly the nodes reachable over edges of it.
\<close>

theorem findNodesReachedByEdge_reachable:
  "findNodesReachedByEdge (build_edges es) src t = Some ({(a, b). (a, b, t) \<in> set es}\<^sup>* `` {src})"
proof -
  let ?s = "included_successors (build_edges es) {t}"
  have "reachedByEdge_loop ?s [src] {} = Some (reach ?s (set [src]))"
    by (rule pdg_bfs.run_from [where U = "insert src ((\<lambda>(a, b, t). b) ` set es)"])
      (use included_closed [of _ src es _ "{t}"] in auto)
  then show ?thesis by (simp add: findNodesReachedByEdge_def reach_def edges_included)
qed

text \<open>
  Asking a node for an out-neighbour of a type is exact; the corresponding question for
  in-neighbours builds the edge in the wrong direction and is true only for a self-loop.
\<close>

theorem neighbour_queries:
  "(hasOutNeighborWithEdgeType (build_edges es) a b t \<longleftrightarrow> (a, b, t) \<in> set es) \<and>
   (hasInNeighborWithEdgeType (build_edges es) a b t \<longleftrightarrow> a = b \<and> (a, a, t) \<in> set es)"
  using mirrors_build [of es]
  by (auto simp: hasOutNeighborWithEdgeType_def hasInNeighborWithEdgeType_def mirrors_def)

subsection \<open>The edges a step adds\<close>

text \<open>A change of the heap that adds the edges \<open>X\<close> to all views and keeps the values and types of the nodes.\<close>

definition adds :: "(node_heap \<Rightarrow> node_heap) \<Rightarrow> edge_spec set \<Rightarrow> bool" where
  "adds f X \<longleftrightarrow> (\<forall>E h. mirrors E h \<longrightarrow> mirrors (E \<union> X) (f h)) \<and>
     (\<forall>h n. node_val (f h n) = node_val (h n) \<and> node_func (f h n) = node_func (h n) \<and> node_di_type (f h n) = node_di_type (h n))"

lemma addNeighbor_node_fields [simp]:
  "node_val (addNeighbor a b t h x) = node_val (h x)" "node_func (addNeighbor a b t h x) = node_func (h x)"
  "node_di_type (addNeighbor a b t h x) = node_di_type (h x)" "node_type (addNeighbor a b t h x) = node_type (h x)"
  by (simp_all add: addNeighbor_def addOutEdge_def addInEdge_def Let_def)

lemma adds_comp: "adds f X \<Longrightarrow> adds g Y \<Longrightarrow> adds (\<lambda>h. g (f h)) (X \<union> Y)"
  by (simp add: adds_def sup_assoc [symmetric])

lemma adds_cong: "adds f X \<Longrightarrow> X = Y \<Longrightarrow> adds f Y"
  by simp

lemma adds_addNeighbor: "adds (addNeighbor a b t) {(a, b, t)}"
  using mirrors_add by (auto simp: adds_def)

lemma adds_fold:
  assumes "\<And>x. x \<in> set xs \<Longrightarrow> adds (f x) (X x)"
  shows "adds (fold f xs) (\<Union>x \<in> set xs. X x)"
  using assms
proof (induction xs)
  case Nil
  then show ?case by (simp add: adds_def)
next
  case (Cons x xs)
  have "adds (\<lambda>h. fold f xs (f x h)) (X x \<union> (\<Union>x \<in> set xs. X x))"
    by (rule adds_comp) (use Cons in auto)
  then show ?case by (simp add: comp_def)
qed

end
