(* ===== verification/Compatible_Type.thy ===== *)
theory Compatible_Type
  imports Analysis_State
begin

text \<open>
  The compatible-type analysis of \<^verbatim>\<open>CompatibleType.cpp\<close>: it removes from the map of \<open>Dyn\<close> heap
  pointers every cast it considers type-compatible, with the operand of the cast.  The map is a
  \<^verbatim>\<open>std::map\<close>, a dictionary sorted by address; its iterator is the key it points to.  The four
  handlers of the source contain the same erasing code, \<open>eraseCurrent\<close> here, which runs exactly when
  the handler returns false.  Erasing the element the iterator has been advanced to leaves it
  dangling: the loop then has no defined result (\<open>None\<close>).
\<close>

subsection \<open>Types\<close>

fun CountIndirections :: "ty \<Rightarrow> nat" where
  "CountIndirections (PointerTy t) = CountIndirections t + 1"
| "CountIndirections t = 0"

fun UnwrapPointer :: "ty \<Rightarrow> ty" where
  "UnwrapPointer (PointerTy t) = UnwrapPointer t"
| "UnwrapPointer t = t"

text \<open>
  The search over the subtypes compares the address of the slot that holds a subtype, not the
  subtype, with the destination type.  \<open>slotIs t n d\<close> says that slot \<open>n\<close> of the type \<open>t\<close> lies at
  the address of the type object \<open>d\<close>; it depends on the memory layout of LLVM.
\<close>

type_synonym slot_layout = "ty \<Rightarrow> nat \<Rightarrow> ty \<Rightarrow> bool"

definition isPotentiallyUnsafeCast :: "ir \<Rightarrow> slot_layout \<Rightarrow> ty \<Rightarrow> ty \<Rightarrow> ty \<Rightarrow> ty \<Rightarrow> bool" where
  "isPotentiallyUnsafeCast I slotIs innerSrcT realSrcType realDstType innerDstT =
     (if list_ex (\<lambda>n. slotIs realSrcType n realDstType) [0..<length (containedTypes I realSrcType)] then True
      else if (isIntegerTy innerSrcT \<and> isIntegerTy realSrcType) \<and>
         (\<not> isIntegerTy realDstType \<or> \<not> isIntegerTy innerDstT) then True
      else if \<not> isIntegerTy realSrcType \<and> \<not> isIntegerTy realDstType \<and> realSrcType \<noteq> realDstType then True
      else False)"

subsection \<open>The real destination of a cast\<close>

definition castUserType :: "ir \<Rightarrow> vid list \<Rightarrow> ty option" where
  "castUserType I us = map_option (\<lambda>u. UnwrapPointer (typeOf I u)) (find (isCastInst I) us)"

fun findRealDstType :: "ir \<Rightarrow> vid list \<Rightarrow> ty option" where
  "findRealDstType I [] = None"
| "findRealDstType I (u # us) =
     (case kind I u of
        KStore \<Rightarrow> Some (UnwrapPointer (typeOf I (storePointer I u)))
      | KLoad \<Rightarrow> (case castUserType I (users I u) of
            Some t \<Rightarrow> Some t | None \<Rightarrow> Some (UnwrapPointer (typeOf I u)))
      | KCast _ \<Rightarrow> Some (UnwrapPointer (typeOf I u))
      | _ \<Rightarrow> findRealDstType I us)"

definition realDst :: "ir \<Rightarrow> vid \<Rightarrow> ty \<Rightarrow> ty" where
  "realDst I II innerDstT = (case findRealDstType I (users I II) of Some t \<Rightarrow> t | None \<Rightarrow> innerDstT)"

subsection \<open>The handlers: the boolean they return\<close>

definition handleLoadCast :: "ir \<Rightarrow> slot_layout \<Rightarrow> vid \<Rightarrow> vid \<Rightarrow> ty \<Rightarrow> ty \<Rightarrow> bool" where
  "handleLoadCast I slotIs II loadInst innerSrcT innerDstT =
     isPotentiallyUnsafeCast I slotIs innerSrcT (UnwrapPointer (typeOf I loadInst)) (realDst I II innerDstT) innerDstT"

definition handleGetElementPtrCast :: "ir \<Rightarrow> slot_layout \<Rightarrow> vid \<Rightarrow> vid \<Rightarrow> ty \<Rightarrow> ty \<Rightarrow> bool" where
  "handleGetElementPtrCast I slotIs II gepInst innerSrcT innerDstT =
     isPotentiallyUnsafeCast I slotIs innerSrcT (UnwrapPointer (getElementType (typeOf I gepInst)))
       (realDst I II innerDstT) innerDstT"

definition handleCastInstCast :: "ir \<Rightarrow> slot_layout \<Rightarrow> vid \<Rightarrow> vid \<Rightarrow> ty \<Rightarrow> ty \<Rightarrow> bool" where
  "handleCastInstCast I slotIs II nestedCast innerSrcT innerDstT =
     isPotentiallyUnsafeCast I slotIs innerSrcT (UnwrapPointer (typeOf I (getOperand I nestedCast 0)))
       (realDst I II innerDstT) innerDstT"

definition allocationSize :: "ir \<Rightarrow> vid \<Rightarrow> string \<Rightarrow> nat" where
  "allocationSize I CI FName =
     (if FName = ''malloc''
      then (case callArgs I CI of a # _ \<Rightarrow> (case constantInt I a of Some c \<Rightarrow> getZExtValue c | None \<Rightarrow> 0) | [] \<Rightarrow> 0)
      else case callArgs I CI of
          a # b # _ \<Rightarrow> (case (constantInt I a, constantInt I b) of
              (Some cnt, Some sz) \<Rightarrow> (getZExtValue cnt * getZExtValue sz) mod 2 ^ 64 | _ \<Rightarrow> 0)
        | _ \<Rightarrow> 0)"

definition handleCallInstCast :: "ir \<Rightarrow> vid \<Rightarrow> vid \<Rightarrow> bool" where
  "handleCallInstCast I II op =
     (case calledFunction I op of
        None \<Rightarrow> False
      | Some Callee \<Rightarrow>
          (let FName = valueName I Callee
           in if FName = ''malloc'' \<or> FName = ''calloc'' then
                (let allocSize = allocationSize I op FName
                 in allocSize > 0 \<and> isPointerTy (typeOf I II) \<and>
                    typeAllocSize I (UnwrapPointer (typeOf I II)) > allocSize)
              else False))"

definition handleCastOperation :: "ir \<Rightarrow> slot_layout \<Rightarrow> vid \<Rightarrow> ty \<Rightarrow> ty \<Rightarrow> bool" where
  "handleCastOperation I slotIs II innerSrcT innerDstT =
     (let op = getOperand I II 0
      in case kind I op of
           KLoad \<Rightarrow> handleLoadCast I slotIs II op innerSrcT innerDstT
         | KGEP \<Rightarrow> handleGetElementPtrCast I slotIs II op innerSrcT innerDstT
         | KCast _ \<Rightarrow> handleCastInstCast I slotIs II op innerSrcT innerDstT
         | KCall \<Rightarrow> handleCallInstCast I II op
         | _ \<Rightarrow> True)"

subsection \<open>The loop over the map\<close>

definition keepEntry :: "ir \<Rightarrow> slot_layout \<Rightarrow> vid \<Rightarrow> bool" where
  "keepEntry I slotIs II =
     (case kind I II of
        KCast cop \<Rightarrow>
          (let srcT = typeOf I (getOperand I II 0); dstT = typeOf I II;
               innerSrcT = UnwrapPointer srcT; innerDstT = UnwrapPointer dstT
           in if isPointerTy srcT then
                (if CountIndirections srcT \<noteq> CountIndirections dstT \<or> \<not> isIntegerTy innerSrcT \<or> \<not> isIntegerTy innerDstT
                 then handleCastOperation I slotIs II innerSrcT innerDstT
                 else if isIntegerTy innerSrcT \<and> isIntegerTy innerDstT \<and> cop \<noteq> SExt \<and> cop \<noteq> Trunc
                 then handleCastOperation I slotIs II innerSrcT innerDstT
                 else True)
              else if cop \<noteq> SExt \<and> cop \<noteq> Trunc then handleCastOperation I slotIs II innerSrcT innerDstT
              else True)
      | _ \<Rightarrow> True)"

type_synonym pointer_map = "(vid, VariableInfo) dict"

definition next_key :: "pointer_map \<Rightarrow> vid \<Rightarrow> vid option" where
  "next_key m k = find (\<lambda>k'. k < k') (map fst m)"

definition first_key :: "pointer_map \<Rightarrow> vid option" where
  "first_key m = (case m of [] \<Rightarrow> None | (k, _) # _ \<Rightarrow> Some k)"

definition eraseCurrent :: "ir \<Rightarrow> pointer_map \<Rightarrow> vid \<Rightarrow> (pointer_map \<times> vid option) option" where
  "eraseCurrent I m II =
     (let it = next_key m II; m1 = AList.delete II m; var = getOperand I II 0
      in if contains m1 var
         then (if it = Some var then None else Some (AList.delete var m1, it))
         else Some (m1, it))"

function safeTypeCast_loop :: "ir \<Rightarrow> slot_layout \<Rightarrow> pointer_map \<Rightarrow> vid option \<Rightarrow> pointer_map option" where
  "safeTypeCast_loop I slotIs m None = Some m"
| "safeTypeCast_loop I slotIs m (Some II) =
     (if keepEntry I slotIs II
      then (if m \<noteq> [] then safeTypeCast_loop I slotIs m (next_key m II) else Some m)
      else case eraseCurrent I m II of
          None \<Rightarrow> None
        | Some (m', it) \<Rightarrow> safeTypeCast_loop I slotIs m' it)"
  by pat_completeness auto

definition keys_after :: "pointer_map \<Rightarrow> vid \<Rightarrow> nat" where
  "keys_after m k = length (filter (\<lambda>k'. k < k') (map fst m))"

lemma next_keyD: "next_key m k = Some k' \<Longrightarrow> k < k' \<and> contains m k'"
  unfolding next_key_def keys_iff [symmetric] keys_def by (auto simp: find_Some_iff)

lemma filter_le_filter: "(\<And>x. P x \<Longrightarrow> Q x) \<Longrightarrow> length (filter P xs) \<le> length (filter Q xs)"
  by (induction xs) (auto intro: le_SucI)

lemma keys_after_less:
  assumes "next_key m k = Some k'"
  shows "keys_after m k' < keys_after m k"
proof -
  have k: "k < k'" "k' \<in> set (map fst m)"
    using next_keyD [OF assms] by (auto simp: keys_iff [symmetric] keys_def)
  then obtain ys zs where m: "map fst m = ys @ k' # zs" by (meson split_list)
  have "length (filter ((<) k') ys) \<le> length (filter ((<) k) ys)" "length (filter ((<) k') zs) \<le> length (filter ((<) k) zs)"
    using k(1) by (auto intro: filter_le_filter)
  then show ?thesis using k(1) by (simp add: keys_after_def m)
qed

lemma keys_after_delete: "keys_after (AList.delete x m) k \<le> keys_after m k"
  by (induction m) (auto simp: keys_after_def AList.delete_eq)

lemma eraseCurrent_it: "eraseCurrent I m II = Some (m', it) \<Longrightarrow> it = next_key m II"
  by (auto simp: eraseCurrent_def Let_def split: if_splits)

lemma eraseCurrent_map:
  "eraseCurrent I m II = Some (m', it) \<Longrightarrow>
     m' = AList.delete II m \<and> \<not> contains (AList.delete II m) (getOperand I II 0) \<or>
     m' = AList.delete (getOperand I II 0) (AList.delete II m)"
  by (auto simp: eraseCurrent_def Let_def split: if_splits)

lemma eraseCurrent_keys_after:
  assumes "eraseCurrent I m II = Some (m', Some k')"
  shows "keys_after m' k' < keys_after m II"
proof -
  have "keys_after m' k' \<le> keys_after m k'"
    using eraseCurrent_map [OF assms] keys_after_delete [of II m k']
      keys_after_delete [of "getOperand I II 0" "AList.delete II m" k'] by auto
  then show ?thesis using eraseCurrent_it [OF assms] keys_after_less [of m II k'] by simp
qed

termination safeTypeCast_loop
  by (relation "measure (\<lambda>(I, q, m, it). case it of None \<Rightarrow> 0 | Some k \<Rightarrow> Suc (keys_after m k))")
    (auto split: option.split dest: keys_after_less eraseCurrent_keys_after)

definition safeTypeCastAnalysis :: "ir \<Rightarrow> slot_layout \<Rightarrow> pointer_map \<Rightarrow> pointer_map option" where
  "safeTypeCastAnalysis I slotIs heapDynPointerSet =
     safeTypeCast_loop I slotIs heapDynPointerSet (first_key heapDynPointerSet)"

subsection \<open>What the loop removes\<close>

definition map_sorted :: "pointer_map \<Rightarrow> bool" where
  "map_sorted m \<longleftrightarrow> sorted_wrt (<) (map fst m)"


lemma map_sorted_delete: "map_sorted m \<Longrightarrow> map_sorted (AList.delete k m)"
  by (induction m) (auto simp: map_sorted_def AList.delete_eq)

lemma first_keyD: "first_key m = Some k \<Longrightarrow> contains m k"
  by (cases m) (auto simp: first_key_def contains_def split: prod.splits)

lemma key_set: "contains m k \<longleftrightarrow> k \<in> set (map fst m)"
  using keys_iff [of k m] by (simp add: keys_def)

lemma next_key_least:
  "map_sorted m \<Longrightarrow> contains m j \<Longrightarrow> k < j \<Longrightarrow> \<exists>k'. next_key m k = Some k' \<and> k' \<le> j"
proof (induction m)
  case (Cons x m)
  then show ?case
    by (cases "k < fst x") (auto simp: next_key_def map_sorted_def key_set order.strict_iff_order)
qed simp

definition it_ok :: "pointer_map \<Rightarrow> vid option \<Rightarrow> bool" where
  "it_ok m it \<longleftrightarrow> (\<forall>k. it = Some k \<longrightarrow> contains m k)"

lemma it_ok_next [simp]: "it_ok m (next_key m k)"
  using next_keyD by (auto simp: it_ok_def)

lemma it_ok_erase:
  assumes "eraseCurrent I m II = Some (m', it)"
  shows "it_ok m' it"
  using assms next_keyD [of m II]
  by (auto simp: eraseCurrent_def Let_def it_ok_def contains_delete split: if_splits)

lemma contains_erase:
  assumes "eraseCurrent I m II = Some (m', it)"
  shows "contains m' k \<longleftrightarrow> contains m k \<and> k \<noteq> II \<and> k \<noteq> getOperand I II 0 \<or>
     contains m' k \<and> contains m k \<and> k \<noteq> II"
  using eraseCurrent_map [OF assms] by (auto simp: contains_delete)

lemma map_of_erase:
  assumes "eraseCurrent I m II = Some (m', it)"
  shows "map_of m' k = (if k = II \<or> k = getOperand I II 0 then None else map_of m k)"
  using eraseCurrent_map [OF assms] by (auto simp: map_of_delete contains_delete) (auto simp: contains_def)

lemma loop_submap:
  "safeTypeCast_loop I q m it = Some m' \<Longrightarrow> map_of m' k = None \<or> map_of m' k = map_of m k"
proof (induction I q m it rule: safeTypeCast_loop.induct)
  case (2 I q m II)
  then show ?case
    using map_of_erase [of I m II] by (auto split: if_splits option.splits) metis+
qed simp

lemma loop_removes:
  assumes "safeTypeCast_loop I q m it = Some m'" "it_ok m it" "contains m k" "\<not> contains m' k"
  shows "\<not> keepEntry I q k \<or> (\<exists>c. contains m c \<and> \<not> keepEntry I q c \<and> getOperand I c 0 = k)"
  using assms
proof (induction I q m it rule: safeTypeCast_loop.induct)
  case (2 I q m II)
  show ?case
  proof (cases "keepEntry I q II")
    case True
    then show ?thesis using 2 by (auto split: if_splits)
  next
    case False
    then obtain m1 it1 where e: "eraseCurrent I m II = Some (m1, it1)" "safeTypeCast_loop I q m1 it1 = Some m'"
      using 2(3) by (auto split: option.splits)
    have sub: "contains m1 c \<Longrightarrow> contains m c" for c using contains_erase [OF e(1)] by blast
    show ?thesis
    proof (cases "contains m1 k")
      case True
      then show ?thesis using 2(2) [OF False e(1) refl e(2) it_ok_erase [OF e(1)]] 2(6) sub by blast
    next
      case gone: False
      then have "k = II \<or> k = getOperand I II 0" using map_of_erase [OF e(1), of k] 2(5) by (auto simp: contains_def split: if_splits)
      then show ?thesis using False 2(4) by (auto simp: it_ok_def)
    qed
  qed
qed simp

lemma loop_complete:
  assumes "safeTypeCast_loop I q m it = Some m'" "map_sorted m"
    and "\<And>k. contains m k \<Longrightarrow> (case it of None \<Rightarrow> True | Some i \<Rightarrow> k < i) \<Longrightarrow> keepEntry I q k"
    and "contains m' k"
  shows "keepEntry I q k"
  using assms
proof (induction I q m it rule: safeTypeCast_loop.induct)
  case (2 I q m II)
  have passed: "j \<le> II" if "contains m j" "case next_key m II of None \<Rightarrow> True | Some i \<Rightarrow> j < i" for j
    using next_key_least [OF 2(4) that(1), of II] that(2) by (auto simp: not_le [symmetric] split: option.splits)
  show ?case
  proof (cases "keepEntry I q II")
    case True
    have le: "keepEntry I q j" if "contains m j" "j \<le> II" for j
      using that 2(5) [of j] True by (cases "j = II") auto
    show ?thesis
    proof (cases "m = []")
      case False
      then have "safeTypeCast_loop I q m (next_key m II) = Some m'" using 2(3) True by simp
      then show ?thesis using 2(1) [OF True False _ 2(4) _ 2(6)] le passed by blast
    qed (use 2(3,6) True in auto)
  next
    case False
    then obtain m1 it1 where e: "eraseCurrent I m II = Some (m1, it1)" "safeTypeCast_loop I q m1 it1 = Some m'"
      using 2(3) by (auto split: option.splits)
    show ?thesis
    proof (rule 2(2) [OF False e(1) refl e(2)])
      show "map_sorted m1" using eraseCurrent_map [OF e(1)] 2(4) map_sorted_delete by auto
      fix j
      assume j: "contains m1 j" "case it1 of None \<Rightarrow> True | Some i \<Rightarrow> j < i"
      have "contains m j" "j \<noteq> II" using contains_erase [OF e(1), of j] j(1) by auto
      then show "keepEntry I q j" using passed [of j] j(2) eraseCurrent_it [OF e(1)] 2(5) [of j] by auto
    qed (rule 2(6))
  qed
qed simp

text \<open>
  An example module: 2 is a cast of the load 3 between equal struct pointers, 4 a cast of the load 5 of an
  integer pointer to a struct pointer, 6 a cast of \<open>malloc(8)\<close> to a pointer to a struct of 16 bytes.
\<close>

definition cast_example :: ir where
  "cast_example = empty_ir\<lparr>
     kind := (\<lambda>v. if v \<in> {2, 4, 6} then KCast BitCast else if v \<in> {3, 5} then KLoad else if v = 7 then KCall
       else if v = 8 then KFunction else if v = 9 then KConstantInt (AP 64 8) else KArgument),
     typeOf := (\<lambda>v. if v = 5 then PointerTy (IntegerTy 8) else PointerTy (StructTy 0)),
     operands := (\<lambda>v. if v = 2 then [3] else if v = 4 then [5] else if v = 6 then [7] else []),
     calledFunction := (\<lambda>v. if v = 7 then Some 8 else None), callArgs := (\<lambda>v. if v = 7 then [9] else []),
     valueName := (\<lambda>v. if v = 8 then ''malloc'' else ''''),
     structElements := (\<lambda>_. [IntegerTy 32, IntegerTy 64]), typeAllocSize := (\<lambda>_. 16)\<rparr>"

definition no_slots :: slot_layout where
  "no_slots _ _ _ \<longleftrightarrow> False"

definition entries :: "vid list \<Rightarrow> pointer_map" where
  "entries ks = map (\<lambda>k. (k, fresh_info)) ks"

lemma keepEntry_example:
  "keepEntry cast_example no_slots 2 \<longleftrightarrow> False" "keepEntry cast_example no_slots 3 \<longleftrightarrow> True"
  "keepEntry cast_example no_slots 4 \<longleftrightarrow> True" "keepEntry cast_example no_slots 6 \<longleftrightarrow> True"
  by (simp_all add: keepEntry_def cast_example_def empty_ir_def getOperand_def handleCastOperation_def
      handleLoadCast_def handleCallInstCast_def allocationSize_def constantInt_def getZExtValue_def
      isPotentiallyUnsafeCast_def realDst_def no_slots_def Let_def)

lemma operand_example:
  "getOperand cast_example 2 0 = 3" "getOperand cast_example 4 0 = 5" "getOperand cast_example 6 0 = 7"
  by (simp_all add: cast_example_def getOperand_def)

lemmas cast_example_simps = keepEntry_example operand_example next_key_def first_key_def eraseCurrent_def Let_def
  contains_def map_sorted_def safeTypeCastAnalysis_def entries_def

text \<open>
  When the analysis returns, what is left is part of the input with unchanged information; a cast
  that the handlers consider compatible is never left; and an entry is dropped only if it is such a
  cast or the operand of one.
\<close>

theorem only_compatible_casts_are_dropped:
  assumes "safeTypeCastAnalysis I q m = Some m'" and "map_sorted m"
  shows "(contains m' k \<longrightarrow> map_of m' k = map_of m k \<and> keepEntry I q k) \<and>
    (contains m k \<and> \<not> contains m' k \<longrightarrow>
       \<not> keepEntry I q k \<or> (\<exists>c. contains m c \<and> \<not> keepEntry I q c \<and> getOperand I c 0 = k))"
proof -
  have ok: "it_ok m (first_key m)" using first_keyD by (auto simp: it_ok_def)
  have start: "keepEntry I q j" if "contains m j" "case first_key m of None \<Rightarrow> True | Some i \<Rightarrow> j < i" for j
    using that assms(2) by (cases m) (auto simp: first_key_def map_sorted_def key_set split: prod.splits)
  have run: "safeTypeCast_loop I q m (first_key m) = Some m'" using assms(1) by (simp add: safeTypeCastAnalysis_def)
  show ?thesis
    using loop_submap [OF run, of k] loop_complete [OF run assms(2) start, of k] loop_removes [OF run ok, of k]
    by (auto simp: contains_def)
qed

theorem only_compatible_casts_are_dropped_witness:
  "map_of (entries [4]) 4 = map_of (entries [2, 4]) 4 \<and> keepEntry cast_example no_slots 4"
  using only_compatible_casts_are_dropped [of cast_example no_slots "entries [2, 4]" "entries [4]" 4]
  by (simp add: cast_example_simps)

lemma AList_delete_filter: "AList.delete k m = filter (\<lambda>(k', _). k \<noteq> k') m"
  by (simp add: AList.delete_eq)

lemma loop_exact:
  assumes "map_sorted m" and "it_ok m it" and "\<And>c. contains m c \<Longrightarrow> \<not> keepEntry I q c \<Longrightarrow> \<not> contains m (getOperand I c 0)"
    and "\<And>k. contains m k \<Longrightarrow> (case it of None \<Rightarrow> True | Some i \<Rightarrow> k < i) \<Longrightarrow> keepEntry I q k"
  shows "safeTypeCast_loop I q m it = Some (filter (\<lambda>(k, _). keepEntry I q k) m)"
  using assms
proof (induction I q m it rule: safeTypeCast_loop.induct)
  case (1 I q m)
  then have "keepEntry I q (fst x)" if "x \<in> set m" for x using that by (auto simp: key_set)
  then have "filter (\<lambda>(k, _). keepEntry I q k) m = m" by (auto simp: filter_id_conv)
  then show ?case by simp
next
  case (2 I q m II)
  have passed: "j \<le> II" if "contains m j" "case next_key m II of None \<Rightarrow> True | Some i \<Rightarrow> j < i" for j
    using next_key_least [OF 2(3) that(1), of II] that(2) by (auto simp: not_le [symmetric] split: option.splits)
  have II: "contains m II" using 2(4) by (simp add: it_ok_def)
  then have ne: "m \<noteq> []" by auto
  show ?case
  proof (cases "keepEntry I q II")
    case True
    have "keepEntry I q j" if "contains m j" "j \<le> II" for j
      using that 2(6) [of j] True by (cases "j = II") auto
    then have "safeTypeCast_loop I q m (next_key m II) = Some (filter (\<lambda>(k, _). keepEntry I q k) m)"
      using 2(1) [OF True ne 2(3) it_ok_next 2(5)] passed by blast
    then show ?thesis using True ne by simp
  next
    case False
    have e: "eraseCurrent I m II = Some (AList.delete II m, next_key m II)"
      using 2(5) [OF II False] by (simp add: eraseCurrent_def Let_def contains_delete)
    have "safeTypeCast_loop I q (AList.delete II m) (next_key m II) =
        Some (filter (\<lambda>(k, _). keepEntry I q k) (AList.delete II m))"
    proof (rule 2(2) [OF False e refl map_sorted_delete [OF 2(3)] it_ok_erase [OF e]])
      fix j
      assume j: "contains (AList.delete II m) j" "case next_key m II of None \<Rightarrow> True | Some i \<Rightarrow> j < i"
      then show "keepEntry I q j" using passed [of j] 2(6) [of j] by (auto simp: contains_delete)
    qed (use 2(5) in \<open>auto simp: contains_delete\<close>)
    moreover have "filter (\<lambda>(k, _). keepEntry I q k) (AList.delete II m) = filter (\<lambda>(k, _). keepEntry I q k) m"
      using False by (auto simp: AList_delete_filter intro!: filter_cong)
    ultimately show ?thesis using False e by simp
  qed
qed

text \<open>
  If no entry is the operand of a compatible cast in the map, the analysis returns, and its result
  is exactly the map without the compatible casts.
\<close>

theorem compatible_casts_filtered:
  assumes "map_sorted m" and "\<forall>c. contains m c \<and> \<not> keepEntry I q c \<longrightarrow> \<not> contains m (getOperand I c 0)"
  shows "safeTypeCastAnalysis I q m = Some (filter (\<lambda>(k, _). keepEntry I q k) m)"
  unfolding safeTypeCastAnalysis_def
proof (rule loop_exact [OF assms(1)])
  show "it_ok m (first_key m)" using first_keyD by (auto simp: it_ok_def)
  fix j
  assume "contains m j" "case first_key m of None \<Rightarrow> True | Some i \<Rightarrow> j < i"
  then show "keepEntry I q j"
    using assms(1) by (cases m) (auto simp: first_key_def map_sorted_def key_set split: prod.splits)
qed (use assms(2) in auto)

theorem compatible_casts_filtered_witness:
  "safeTypeCastAnalysis cast_example no_slots (entries [2, 4]) =
     Some (filter (\<lambda>(k, _). keepEntry cast_example no_slots k) (entries [2, 4]))"
  by (rule compatible_casts_filtered) (auto simp: cast_example_simps split: if_splits)

text \<open>
  When the first entry is a compatible cast and its operand is the entry that follows it in the
  map, erasing the operand invalidates the iterator of the loop.
\<close>

theorem erasing_the_operand_invalidates_the_iterator:
  assumes "first_key m = Some c" and "\<not> keepEntry I q c" and "next_key m c = Some (getOperand I c 0)"
  shows "safeTypeCastAnalysis I q m = None"
  using assms next_keyD [OF assms(3)]
  by (simp add: safeTypeCastAnalysis_def eraseCurrent_def Let_def contains_delete)

theorem erasing_the_operand_invalidates_the_iterator_witness:
  "safeTypeCastAnalysis cast_example no_slots (entries [2, 3]) = None"
  by (rule erasing_the_operand_invalidates_the_iterator [where c = 2]) (simp_all add: cast_example_simps)

text \<open>
  As long as no slot of a type lies at the address of a type object, a cast from an aggregate to
  one of its integer members passes as compatible, although the check means to find a member of
  that type.
\<close>

theorem member_downcast_not_detected:
  assumes "\<And>t n d. \<not> slotIs t n d" and "d \<in> set (containedTypes I s)" and "isIntegerTy d" and "\<not> isIntegerTy s"
  shows "\<not> isPotentiallyUnsafeCast I slotIs inner s d innerDst"
  using assms by (auto simp: isPotentiallyUnsafeCast_def list_ex_iff)

theorem member_downcast_not_detected_witness:
  "\<not> isPotentiallyUnsafeCast cast_example no_slots (StructTy 0) (StructTy 0) (IntegerTy 32) (IntegerTy 32)"
  by (rule member_downcast_not_detected) (simp_all add: no_slots_def cast_example_def)

text \<open>
  An undersized allocation: a cast of the result of \<open>malloc\<close> or \<open>calloc\<close> with constant arguments that ask for \<open>b\<close> bytes, to a
  pointer whose innermost type is larger than \<open>b\<close> bytes.
\<close>

definition requested_bytes :: "ir \<Rightarrow> vid \<Rightarrow> nat \<Rightarrow> bool" where
  "requested_bytes I ci b \<longleftrightarrow> kind I ci = KCall \<and> (\<exists>f. calledFunction I ci = Some f \<and>
     (valueName I f = ''malloc'' \<and> (\<exists>a c. callArgs I ci = [a] \<and> constantInt I a = Some c \<and> b = getZExtValue c) \<or>
      valueName I f = ''calloc'' \<and> (\<exists>a1 a2 c1 c2. callArgs I ci = [a1, a2] \<and> constantInt I a1 = Some c1 \<and> constantInt I a2 = Some c2 \<and>
        b = getZExtValue c1 * getZExtValue c2)))"

definition undersized_cast :: "ir \<Rightarrow> vid \<Rightarrow> bool" where
  "undersized_cast I k \<longleftrightarrow> isCastInst I k \<and> isPointerTy (typeOf I k) \<and>
     (\<exists>b. requested_bytes I (getOperand I k 0) b \<and> 0 < b \<and> b < 2 ^ 64 \<and> b < typeAllocSize I (UnwrapPointer (typeOf I k)))"

lemma undersized_cast_kept:
  assumes "undersized_cast I k"
  shows "keepEntry I q k"
proof -
  obtain b where b: "requested_bytes I (getOperand I k 0) b" "0 < b" "b < 2 ^ 64" "b < typeAllocSize I (UnwrapPointer (typeOf I k))"
    using assms by (auto simp: undersized_cast_def)
  have "handleCallInstCast I k (getOperand I k 0)"
    using b assms by (auto simp: requested_bytes_def handleCallInstCast_def allocationSize_def Let_def undersized_cast_def)
  then have h: "handleCastOperation I q k s d" for s d using b(1) by (simp add: handleCastOperation_def requested_bytes_def)
  obtain cop where "kind I k = KCast cop" using assms by (cases "kind I k") (auto simp: undersized_cast_def)
  then show ?thesis using h by (simp add: keepEntry_def Let_def)
qed

text \<open>The loop returns if the operand of a cast in the map has a smaller address than the cast, where it is in the map at all.\<close>

definition operands_below :: "ir \<Rightarrow> pointer_map \<Rightarrow> bool" where
  "operands_below I m \<longleftrightarrow> (\<forall>c. contains m c \<longrightarrow> isCastInst I c \<longrightarrow> contains m (getOperand I c 0) \<longrightarrow> getOperand I c 0 < c)"

lemma dropped_is_cast: "\<not> keepEntry I q c \<Longrightarrow> isCastInst I c"
  by (cases "kind I c") (auto simp: keepEntry_def)

lemma loop_returns: "operands_below I m \<Longrightarrow> it_ok m it \<Longrightarrow> \<exists>m'. safeTypeCast_loop I q m it = Some m'"
proof (induction I q m it rule: safeTypeCast_loop.induct)
  case (2 I q m II)
  show ?case
  proof (cases "keepEntry I q II")
    case True
    then show ?thesis using 2(1) [OF True _ 2(3)] by simp
  next
    case False
    have II: "contains m II" using 2(4) by (simp add: it_ok_def)
    have "contains (AList.delete II m) (getOperand I II 0) \<Longrightarrow> next_key m II \<noteq> Some (getOperand I II 0)"
      using 2(3) II dropped_is_cast [OF False] next_keyD [of m II] by (force simp: operands_below_def contains_delete)
    then obtain m1 it1 where e: "eraseCurrent I m II = Some (m1, it1)"
      by (cases "contains (AList.delete II m) (getOperand I II 0)") (auto simp: eraseCurrent_def Let_def)
    have "operands_below I m1" using 2(3) contains_erase [OF e] unfolding operands_below_def by blast
    then show ?thesis using 2(2) [OF False e refl _ it_ok_erase [OF e]] False e by simp
  qed
qed simp

text \<open>
  C36: An undersized allocation is never dropped.  If the operands of casts have smaller addresses than the casts, where they are in the map, the
  analysis returns (otherwise erasing an operand may invalidate the iterator), and a cast in the map of the result of \<open>malloc\<close> or \<open>calloc\<close>, with
  constant arguments that ask for a positive number of bytes below the size of the type it is cast to, is still in the result, with its
  information, unless it is the operand of another cast in the map.
\<close>

theorem undersized_allocation_reported:
  assumes "map_sorted m" and "operands_below I m" and "contains m k" and "undersized_cast I k"
    and "\<And>c. contains m c \<Longrightarrow> isCastInst I c \<Longrightarrow> getOperand I c 0 \<noteq> k"
  shows "\<exists>m'. safeTypeCastAnalysis I q m = Some m' \<and> contains m' k \<and> map_of m' k = map_of m k"
proof -
  have it: "it_ok m (first_key m)" using first_keyD by (auto simp: it_ok_def)
  obtain m' where run: "safeTypeCast_loop I q m (first_key m) = Some m'" using loop_returns [OF assms(2) it] by blast
  have "contains m' k" using loop_removes [OF run it assms(3)] undersized_cast_kept [OF assms(4)] dropped_is_cast assms(5) by blast
  then show ?thesis using loop_submap [OF run, of k] run by (auto simp: contains_def safeTypeCastAnalysis_def)
qed

theorem undersized_allocation_reported_witness:
  "\<exists>m'. safeTypeCastAnalysis cast_example no_slots (entries [2, 6]) = Some m' \<and> contains m' 6 \<and> map_of m' 6 = map_of (entries [2, 6]) 6"
proof (rule undersized_allocation_reported)
  have "requested_bytes cast_example (getOperand cast_example 6 0) 8"
    unfolding operand_example by (simp add: requested_bytes_def cast_example_def constantInt_def getZExtValue_def)
  moreover have "isCastInst cast_example 6" "isPointerTy (typeOf cast_example 6)" "8 < typeAllocSize cast_example (UnwrapPointer (typeOf cast_example 6))"
    by (simp_all add: cast_example_def)
  ultimately show "undersized_cast cast_example 6" unfolding undersized_cast_def by (auto intro: exI [of _ 8])
  show "operands_below cast_example (entries [2, 6])"
    by (auto simp: operands_below_def entries_def contains_def operand_example split: if_splits)
  show "getOperand cast_example c 0 \<noteq> 6" if "contains (entries [2, 6]) c" for c
    using that by (auto simp: entries_def contains_def operand_example split: if_splits)
qed (simp_all add: entries_def map_sorted_def contains_def)

end
