(* ===== verification/Out_Of_Window.thy ===== *)
theory Out_Of_Window
  imports Search LLVM_IR
begin

text \<open>
  The out-of-window analysis of \<^verbatim>\<open>OutOfWindow.cpp\<close>: which address computations cannot be reached within
  a speculation window after a branch.  The call graph is LLVM's: \<open>callees f\<close> lists the functions of the
  call records of \<open>f\<close>, \<open>0\<close> for a record without a function.  An instruction iterator is a block with a
  position in it.  The recursive searches carry fuel, \<open>None\<close> means that it ran out; \<open>dfs\<close> gets one more
  than the number of functions of the module, which is enough since every nested call visits a new
  function.  The vector \<open>callStack\<close> is a list whose head is the back of the vector.
\<close>

record OOWPass =
  visitedFunctions :: "vid set"
  OOWInstructions :: "vid set"
  functionCallSiteMap :: "(vid, vid set) dict"
  callStack :: "vid list"
  recursionCache :: "(vid, bool) dict"
  visitedInstructions :: "(vid \<times> nat) set"

record oow_env =
  module_ir :: ir
  callees :: "vid \<Rightarrow> vid list"
  windowSize :: int

definition new_pass :: OOWPass where
  "new_pass = \<lparr>visitedFunctions = {}, OOWInstructions = {}, functionCallSiteMap = [], callStack = [],
     recursionCache = [], visitedInstructions = {}\<rparr>"

subsection \<open>Recursive functions\<close>

fun dfs :: "nat \<Rightarrow> oow_env \<Rightarrow> vid \<Rightarrow> vid \<Rightarrow> vid set \<Rightarrow> (bool \<times> vid set) option"
and dfs_callees :: "nat \<Rightarrow> oow_env \<Rightarrow> vid \<Rightarrow> vid list \<Rightarrow> vid set \<Rightarrow> (bool \<times> vid set) option"
where
  "dfs fuel E target current visited =
     (if current = 0 \<or> current \<in> visited then Some (False, visited)
      else if isIntrinsic (module_ir E) current then Some (False, insert current visited)
      else case fuel of 0 \<Rightarrow> None
        | Suc n \<Rightarrow> dfs_callees n E target (callees E current) (insert current visited))"
| "dfs_callees n E target [] visited = Some (False, visited)"
| "dfs_callees n E target (callee # rest) visited =
     (if callee = 0 \<or> isDeclaration (module_ir E) callee then dfs_callees n E target rest visited
      else if callee = target then Some (True, visited)
      else case dfs n E target callee visited of
          None \<Rightarrow> None
        | Some (found, visited') \<Rightarrow>
            (if found then Some (True, visited') else dfs_callees n E target rest visited'))"

declare dfs.simps [simp del]

definition isRecursive :: "oow_env \<Rightarrow> vid \<Rightarrow> OOWPass \<Rightarrow> (bool \<times> OOWPass) option" where
  "isRecursive E f st =
     (case map_of (recursionCache st) f of
        Some b \<Rightarrow> Some (b, st)
      | None \<Rightarrow>
          (case dfs (Suc (length (moduleFunctions (module_ir E)))) E f f {} of
             None \<Rightarrow> None
           | Some (b, _) \<Rightarrow> Some (b, st\<lparr>recursionCache := AList.update f b (recursionCache st)\<rparr>)))"

subsection \<open>Positions\<close>

type_synonym position = "vid \<times> nat"

definition inst_at :: "ir \<Rightarrow> position \<Rightarrow> vid" where
  "inst_at I p = (if snd p < length (insts I (fst p)) then insts I (fst p) ! snd p else 0)"

fun index_of :: "'a list \<Rightarrow> 'a \<Rightarrow> nat" where
  "index_of [] y = 0"
| "index_of (x # xs) y = (if x = y then 0 else Suc (index_of xs y))"

definition findInstructionIterator :: "ir \<Rightarrow> vid \<Rightarrow> position" where
  "findInstructionIterator I callInst = (parentBB I callInst, index_of (insts I (parentBB I callInst)) callInst)"

definition after :: "position \<Rightarrow> position" where
  "after p = (fst p, Suc (snd p))"

definition normalDest :: "ir \<Rightarrow> vid \<Rightarrow> vid" where
  "normalDest I v = successors I (parentBB I v) ! 0"

definition unwindDest :: "ir \<Rightarrow> vid \<Rightarrow> vid" where
  "unwindDest I v = successors I (parentBB I v) ! 1"

definition getSingleSuccessor :: "ir \<Rightarrow> vid \<Rightarrow> vid option" where
  "getSingleSuccessor I bb = (case successors I bb of [s] \<Rightarrow> Some s | _ \<Rightarrow> None)"

definition entryBlock :: "ir \<Rightarrow> vid \<Rightarrow> vid" where
  "entryBlock I f = hd (blocks I f)"

definition isDebugFunction :: "ir \<Rightarrow> vid \<Rightarrow> bool" where
  "isDebugFunction I f \<longleftrightarrow> take 9 (valueName I f) = ''llvm.dbg.''"

definition eraseOOW :: "vid \<Rightarrow> OOWPass \<Rightarrow> OOWPass" where
  "eraseOOW v st = st\<lparr>OOWInstructions := OOWInstructions st - {v}\<rparr>"

subsection \<open>Exploring the window\<close>

text \<open>
  The function \<open>explore\<close> of the source, its while loop and its loop over the call sites call each
  other.  A \<open>task\<close> names one of them with its arguments: \<open>Explore p\<close> a call of \<open>explore\<close>, \<open>Loop BB i\<close>
  the while loop at position \<open>i\<close> of the block \<open>BB\<close>, \<open>Sites cs\<close> the loop over the call sites \<open>cs\<close>.
  Each body takes the interpreter of the tasks it starts as its argument \<open>go\<close>; \<open>run\<close> ties the knot with
  fuel.  The result is the value of \<open>*step\<close> and the state.
\<close>

datatype task = Explore position | Loop vid nat | Sites "vid list"

type_synonym oow_result = "(nat \<times> OOWPass) option"

type_synonym interpreter = "task \<Rightarrow> nat \<Rightarrow> OOWPass \<Rightarrow> oow_result"

definition explore_body :: "oow_env \<Rightarrow> interpreter \<Rightarrow> position \<Rightarrow> nat \<Rightarrow> OOWPass \<Rightarrow> oow_result" where
  "explore_body E go p step st =
     (let visitKey = (inst_at (module_ir E) p, step)
      in if visitKey \<in> visitedInstructions st then Some (step, st)
         else go (Loop (fst p) (snd p)) step
           (st\<lparr>visitedInstructions := insert visitKey (visitedInstructions st)\<rparr>))"

text \<open>Exploring both destinations of an invoke, with the call stack restored in between.\<close>

definition explore_both :: "interpreter \<Rightarrow> vid \<Rightarrow> nat \<Rightarrow> vid \<Rightarrow> nat \<Rightarrow> vid list \<Rightarrow> OOWPass \<Rightarrow> oow_result" where
  "explore_both go normal step1 unwind step2 stack st =
     Option.bind (go (Explore (normal, 0)) step1 st) (\<lambda>(_, st1).
       let st2 = st1\<lparr>callStack := stack\<rparr>
       in if unwind \<noteq> normal then go (Explore (unwind, 0)) step2 st2 else Some (step2, st2))"

definition return_body :: "oow_env \<Rightarrow> interpreter \<Rightarrow> vid \<Rightarrow> nat \<Rightarrow> OOWPass \<Rightarrow> oow_result" where
  "return_body E go BB step st =
     (let I = module_ir E
      in case callStack st of
           [] \<Rightarrow>
             Option.bind (isRecursive E (parentFn I BB) st) (\<lambda>(r, st1).
               if r then Some (step, st1)
               else case map_of (functionCallSiteMap st1) (parentFn I BB) of
                   None \<Rightarrow> Some (step, st1)
                 | Some callSites \<Rightarrow> go (Sites (sorted_list_of_set callSites)) step st1)
         | target # rest \<Rightarrow>
             (let st1 = st\<lparr>callStack := rest\<rparr>
              in if kind I target = KCall
                 then go (Loop (parentBB I target) (snd (after (findInstructionIterator I target)))) step st1
                 else explore_both go (normalDest I target) step (unwindDest I target) step rest st1))"

definition end_body :: "oow_env \<Rightarrow> interpreter \<Rightarrow> vid \<Rightarrow> nat \<Rightarrow> OOWPass \<Rightarrow> oow_result" where
  "end_body E go BB step st =
     (let I = module_ir E; term = terminator I BB
      in if kind I term = KSwitch \<or> is_CondBr_k (kind I term) then Some (step, st)
         else if kind I term = KInvoke \<and>
            (case calledFunction I term of None \<Rightarrow> True | Some f \<Rightarrow> isDeclaration I f)
         then explore_both go (normalDest I term) (step + 1) (unwindDest I term) step (callStack st) st
         else case getSingleSuccessor I BB of
             Some nextBB \<Rightarrow> go (Loop nextBB 0) step st
           | None \<Rightarrow> return_body E go BB step st)"

definition inst_body :: "oow_env \<Rightarrow> interpreter \<Rightarrow> vid \<Rightarrow> nat \<Rightarrow> nat \<Rightarrow> OOWPass \<Rightarrow> oow_result" where
  "inst_body E go BB i step st =
     (let I = module_ir E; v = insts I BB ! i
      in if isCallBase I v then
           (case calledFunction I v of
              Some f \<Rightarrow>
                Option.bind (isRecursive E f st) (\<lambda>(r, st1).
                  if \<not> r \<and> \<not> isDeclaration I f
                  then go (Loop (entryBlock I f) 0) (step + 1) (st1\<lparr>callStack := v # callStack st1\<rparr>)
                  else if \<not> r \<and> isDebugFunction I f then go (Loop BB (i + 1)) step st1
                  else go (Loop BB (i + 1)) (step + 1) (eraseOOW v st1))
            | None \<Rightarrow> go (Loop BB (i + 1)) (step + 1) (eraseOOW v st))
         else go (Loop BB (i + 1)) (step + 1) (eraseOOW v st))"

definition loop_body :: "oow_env \<Rightarrow> interpreter \<Rightarrow> vid \<Rightarrow> nat \<Rightarrow> nat \<Rightarrow> OOWPass \<Rightarrow> oow_result" where
  "loop_body E go BB i step st =
     (if \<not> int step < windowSize E then Some (step, st)
      else if length (insts (module_ir E) BB) \<le> i then end_body E go BB step st
      else inst_body E go BB i step st)"

definition site_body :: "oow_env \<Rightarrow> interpreter \<Rightarrow> vid \<Rightarrow> vid list \<Rightarrow> nat \<Rightarrow> OOWPass \<Rightarrow> oow_result" where
  "site_body E go cs rest step st =
     (let I = module_ir E
      in Option.bind (isRecursive E (getFunction I cs) st) (\<lambda>(r, st1).
        if r then go (Sites rest) step st1
        else Option.bind
          (if kind I cs = KCall then go (Explore (after (findInstructionIterator I cs))) step st1
           else explore_both go (normalDest I cs) step (unwindDest I cs) step [] st1)
          (\<lambda>(_, st2). go (Sites rest) step (st2\<lparr>callStack := []\<rparr>))))"

definition sites_body :: "oow_env \<Rightarrow> interpreter \<Rightarrow> vid list \<Rightarrow> nat \<Rightarrow> OOWPass \<Rightarrow> oow_result" where
  "sites_body E go sites step st =
     (case sites of [] \<Rightarrow> Some (step, st) | cs # rest \<Rightarrow> site_body E go cs rest step st)"

definition task_body :: "oow_env \<Rightarrow> interpreter \<Rightarrow> interpreter" where
  "task_body E go t step st =
     (case t of
        Explore p \<Rightarrow> explore_body E go p step st
      | Loop BB i \<Rightarrow> loop_body E go BB i step st
      | Sites sites \<Rightarrow> sites_body E go sites step st)"

primrec run :: "nat \<Rightarrow> oow_env \<Rightarrow> interpreter" where
  "run 0 = (\<lambda>E t step st. None)"
| "run (Suc n) = (\<lambda>E t step st. task_body E (run n E) t step st)"

definition explore :: "nat \<Rightarrow> oow_env \<Rightarrow> position \<Rightarrow> nat \<Rightarrow> OOWPass \<Rightarrow> oow_result" where
  "explore n E p step st = run n E (Explore p) step st"

subsection \<open>One function\<close>

text \<open>The first loop starts an exploration at every recursive or indirect call, and does not clear the call stack.\<close>

fun explore_calls :: "nat \<Rightarrow> oow_env \<Rightarrow> position list \<Rightarrow> OOWPass \<Rightarrow> OOWPass option" where
  "explore_calls n E [] st = Some st"
| "explore_calls n E (p # ps) st =
     (let I = module_ir E; v = inst_at I p
      in if isCallBase I v then
           (case calledFunction I v of
              Some f \<Rightarrow>
                Option.bind (isRecursive E f st) (\<lambda>(r, st1).
                  if r then Option.bind (explore n E p 0 st1) (\<lambda>(_, st2). explore_calls n E ps st2)
                  else explore_calls n E ps st1)
            | None \<Rightarrow> Option.bind (explore n E p 0 st) (\<lambda>(_, st2). explore_calls n E ps st2))
         else explore_calls n E ps st)"

fun explore_blocks :: "nat \<Rightarrow> oow_env \<Rightarrow> vid list \<Rightarrow> OOWPass \<Rightarrow> OOWPass option" where
  "explore_blocks n E [] st = Some st"
| "explore_blocks n E (b # bs) st =
     Option.bind (explore n E (b, 0) 0 st) (\<lambda>(_, st1). explore_blocks n E bs (st1\<lparr>callStack := []\<rparr>))"

text \<open>The successors of a switch are its default block and its cases, only the cases are explored.\<close>

definition branchTargets :: "ir \<Rightarrow> vid \<Rightarrow> vid list" where
  "branchTargets I BB =
     (let term = terminator I BB
      in if is_CondBr_k (kind I term) then successors I BB
         else if kind I term = KSwitch then tl (successors I BB)
         else [])"

definition positions :: "ir \<Rightarrow> vid \<Rightarrow> position list" where
  "positions I f = concat (map (\<lambda>b. map (\<lambda>i. (b, i)) [0..<length (insts I b)]) (blocks I f))"

definition analyzeFunction :: "nat \<Rightarrow> oow_env \<Rightarrow> vid \<Rightarrow> OOWPass \<Rightarrow> OOWPass option" where
  "analyzeFunction n E f st =
     (let I = module_ir E
      in if isDeclaration I f then Some st
         else Option.bind (explore_calls n E (positions I f) st) (\<lambda>st1.
           explore_blocks n E (concat (map (branchTargets I) (blocks I f))) st1))"

subsection \<open>The module\<close>

definition scan_inst :: "ir \<Rightarrow> vid \<Rightarrow> OOWPass \<Rightarrow> OOWPass" where
  "scan_inst I v st =
     (let st1 = (if kind I v = KGEP then st\<lparr>OOWInstructions := insert v (OOWInstructions st)\<rparr> else st)
      in if isCallBase I v then
           (case calledFunction I v of
              None \<Rightarrow> st1
            | Some f \<Rightarrow>
                (if isDeclaration I f then st1
                 else let old = (case map_of (functionCallSiteMap st1) f of None \<Rightarrow> {} | Some s \<Rightarrow> s)
                   in st1\<lparr>functionCallSiteMap := AList.update f (insert v old) (functionCallSiteMap st1)\<rparr>))
         else st1)"

definition module_insts :: "ir \<Rightarrow> vid list" where
  "module_insts I = concat (map (instructions I) (moduleFunctions I))"

definition scan_module :: "ir \<Rightarrow> OOWPass \<Rightarrow> OOWPass" where
  "scan_module I st = fold (scan_inst I) (module_insts I) st"

definition memoryOpSet :: "ir \<Rightarrow> vid set" where
  "memoryOpSet I = set (filter (\<lambda>v. kind I v = KGEP) (module_insts I))"

definition calledFunctions :: "ir \<Rightarrow> vid \<Rightarrow> vid list" where
  "calledFunctions I f = List.map_filter (\<lambda>v. if isCallBase I v then calledFunction I v else None) (instructions I f)"

partial_function (option) functions_loop ::
    "nat \<Rightarrow> oow_env \<Rightarrow> vid list \<Rightarrow> OOWPass \<Rightarrow> OOWPass option" where
  "functions_loop n E queue st =
     (case queue of
        [] \<Rightarrow> Some st
      | F # rest \<Rightarrow>
          Option.bind (analyzeFunction n E F (st\<lparr>visitedFunctions := insert F (visitedFunctions st)\<rparr>)) (\<lambda>st1.
            functions_loop n E
              (rest @ filter (\<lambda>f. f \<notin> visitedFunctions st1) (calledFunctions (module_ir E) F)) st1))"

definition runOnModule :: "nat \<Rightarrow> oow_env \<Rightarrow> string \<Rightarrow> OOWPass \<Rightarrow> OOWPass option" where
  "runOnModule n E entryFunction st =
     (let I = module_ir E; st0 = st\<lparr>recursionCache := [], visitedInstructions := {}\<rparr>
      in case find (\<lambda>f. valueName I f = entryFunction) (moduleFunctions I) of
           None \<Rightarrow> Some st0
         | Some mainFunction \<Rightarrow> functions_loop n E [mainFunction] (scan_module I st0))"

subsection \<open>Definitions outside the window\<close>

definition position_in :: "ir \<Rightarrow> vid \<Rightarrow> vid \<Rightarrow> int" where
  "position_in I bb v = (if v \<in> set (insts I bb) then int (index_of (insts I bb) v) else 0)"

partial_function (option) window_bfs ::
    "ir \<Rightarrow> vid \<Rightarrow> (vid \<times> int) list \<Rightarrow> vid set \<Rightarrow> int option option" where
  "window_bfs I useBB q visited =
     (case q of
        [] \<Rightarrow> Some None
      | (bb, dist) # rest \<Rightarrow>
          (if bb = useBB then Some (Some dist)
           else let new = rev (remdups (rev (filter (\<lambda>s. s \<notin> visited) (successors I bb))))
             in window_bfs I useBB (rest @ map (\<lambda>s. (s, dist + int (length (insts I s)))) new) (visited \<union> set new)))"

definition isOutsideWindow :: "ir \<Rightarrow> int \<Rightarrow> vid \<Rightarrow> vid \<Rightarrow> bool option" where
  "isOutsideWindow I W def use =
     (let defBB = parentBB I def; useBB = parentBB I use
      in if defBB = useBB then Some (position_in I useBB use - position_in I defBB def > W)
         else map_option (\<lambda>r. case r of
             None \<Rightarrow> True
           | Some dist \<Rightarrow>
               (int (length (insts I defBB)) - position_in I defBB def - 1) + dist + position_in I useBB use > W)
           (window_bfs I useBB [(defBB, 0)] {defBB}))"

text \<open>
  The scan over the users of the address an index is loaded from: the pair says whether a store was
  found and whether the flag \<open>alwaysOutside\<close> was set; the first store inside the window ends it.
\<close>

fun scanDefs :: "ir \<Rightarrow> int \<Rightarrow> vid \<Rightarrow> vid list \<Rightarrow> bool \<times> bool \<Rightarrow> (bool \<times> bool) option" where
  "scanDefs I W gep [] flags = Some flags"
| "scanDefs I W gep (u # us) flags =
     (if kind I u = KStore
      then Option.bind (isOutsideWindow I W u gep) (\<lambda>outside.
        if outside then scanDefs I W gep us (True, True) else Some (True, snd flags))
      else scanDefs I W gep us flags)"

definition gepIndex :: "ir \<Rightarrow> vid \<Rightarrow> vid option" where
  "gepIndex I gep =
     (if length (operands I gep) < 2 then None
      else if length (operands I gep) = 2 then Some (getOperand I gep 1)
      else Some (getOperand I gep 2))"

definition indexLoad :: "ir \<Rightarrow> vid \<Rightarrow> vid option" where
  "indexLoad I index =
     (let v = (if kind I index = KCast SExt then getOperand I index 0 else index)
      in if kind I v = KLoad then Some v else None)"

text \<open>What the report says of one GEP: variable index, pattern found, always outside.\<close>

definition classifyGep :: "ir \<Rightarrow> int \<Rightarrow> vid \<Rightarrow> (bool \<times> bool \<times> bool) option" where
  "classifyGep I W gep =
     (case gepIndex I gep of
        None \<Rightarrow> Some (False, False, False)
      | Some index \<Rightarrow>
          (if constantInt I index \<noteq> None then Some (False, False, False)
           else case indexLoad I index of
               None \<Rightarrow> Some (True, False, False)
             | Some ld \<Rightarrow>
                 (let indexAddr = getOperand I ld 0
                  in if isInstruction I indexAddr
                     then map_option (\<lambda>(found, always). (True, found, always))
                       (scanDefs I W gep (users I indexAddr) (False, False))
                     else Some (True, False, False))))"

subsection \<open>Recursion is detected exactly\<close>

definition call_succs :: "oow_env \<Rightarrow> vid \<Rightarrow> vid list" where
  "call_succs E f = (if isIntrinsic (module_ir E) f then []
     else filter (\<lambda>c. c \<noteq> 0 \<and> \<not> isDeclaration (module_ir E) c) (callees E f))"

definition explored :: "oow_env \<Rightarrow> vid \<Rightarrow> vid set \<Rightarrow> vid set \<Rightarrow> bool" where
  "explored E target V V' \<longleftrightarrow> V \<subseteq> V' \<and>
     (\<forall>x \<in> V' - V. x \<noteq> 0 \<and> set (call_succs E x) \<subseteq> V' \<and> target \<notin> set (call_succs E x))"

lemma explored_trans: "explored E t V V' \<Longrightarrow> explored E t V' V'' \<Longrightarrow> explored E t V V''"
  unfolding explored_def by blast

lemma explored_refl [simp]: "explored E t V V"
  by (simp add: explored_def)

definition live :: "oow_env \<Rightarrow> vid list \<Rightarrow> vid set" where
  "live E cs = {c \<in> set cs. c \<noteq> 0 \<and> \<not> isDeclaration (module_ir E) c}"

lemma live_Cons: "live E (c # cs) = (if c = 0 \<or> isDeclaration (module_ir E) c then live E cs else insert c (live E cs))"
  by (auto simp: live_def)

lemma live_callees: "\<not> isIntrinsic (module_ir E) f \<Longrightarrow> set (call_succs E f) = live E (callees E f)"
  by (auto simp: live_def call_succs_def)

lemma dfs_sound:
  "dfs n E t c V = Some (b, V') \<Longrightarrow>
     (if b then (c, t) \<in> (edges (call_succs E))\<^sup>+ else explored E t V V' \<and> (c = 0 \<or> c \<in> V'))"
  "dfs_callees n E t cs V = Some (b, V') \<Longrightarrow>
     (if b then \<exists>c \<in> live E cs. c = t \<or> (c, t) \<in> (edges (call_succs E))\<^sup>+
      else explored E t V V' \<and> live E cs \<subseteq> V' \<and> t \<notin> live E cs)"
proof (induction n E t c V and n E t cs V arbitrary: b V' and b V' rule: dfs_dfs_callees.induct)
  case (1 n E t c V)
  show ?case
  proof (cases "c = 0 \<or> c \<in> V \<or> isIntrinsic (module_ir E) c")
    case True
    then show ?thesis using 1(2) by (auto simp: dfs.simps explored_def call_succs_def split: if_splits)
  next
    case False
    then obtain m where n: "n = Suc m" "dfs_callees m E t (callees E c) (insert c V) = Some (b, V')"
      using 1(2) by (auto simp: dfs.simps split: nat.splits)
    have ih: "if b then \<exists>d \<in> live E (callees E c). d = t \<or> (d, t) \<in> (edges (call_succs E))\<^sup>+
      else explored E t (insert c V) V' \<and> live E (callees E c) \<subseteq> V' \<and> t \<notin> live E (callees E c)"
      using 1(1) [of m] n False by auto
    show ?thesis
    proof (cases b)
      case True
      then obtain d where "d \<in> set (call_succs E c)" "d = t \<or> (d, t) \<in> (edges (call_succs E))\<^sup>+"
        using ih live_callees False by auto
      then have "(c, t) \<in> (edges (call_succs E))\<^sup>+" by (auto intro: trancl_into_trancl2)
      then show ?thesis using True by simp
    next
      case notb: False
      then have ex: "explored E t (insert c V) V'" "set (call_succs E c) \<subseteq> V'" "t \<notin> set (call_succs E c)"
        using ih live_callees False by auto
      have "x \<noteq> 0 \<and> set (call_succs E x) \<subseteq> V' \<and> t \<notin> set (call_succs E x)" if "x \<in> V' - V" for x
        using ex that False by (cases "x = c") (auto simp: explored_def)
      then show ?thesis using notb ex(1) by (auto simp: explored_def)
    qed
  qed
next
  case (2 n E t V)
  then show ?case by (simp add: live_def)
next
  case (3 n E t c cs V)
  show ?case
  proof (cases "c = 0 \<or> isDeclaration (module_ir E) c \<or> c = t")
    case True
    then show ?thesis using 3(1,4) by (auto simp: live_Cons split: if_splits)
  next
    case False
    then obtain b1 V1 where d: "dfs n E t c V = Some (b1, V1)" using 3(4) by (auto split: option.splits)
    have h: "if b1 then (c, t) \<in> (edges (call_succs E))\<^sup>+ else explored E t V V1 \<and> (c = 0 \<or> c \<in> V1)"
      using 3(2) False d by blast
    show ?thesis
    proof (cases b1)
      case True
      then show ?thesis using 3(4) False d h by (auto simp: live_Cons)
    next
      case notb: False
      then have r: "dfs_callees n E t cs V1 = Some (b, V')" using 3(4) False d by simp
      have ih: "if b then \<exists>c \<in> live E cs. c = t \<or> (c, t) \<in> (edges (call_succs E))\<^sup>+
        else explored E t V1 V' \<and> live E cs \<subseteq> V' \<and> t \<notin> live E cs"
        using 3(3) False d notb r by blast
      have l: "live E (c # cs) = insert c (live E cs)" using False by (simp add: live_Cons)
      show ?thesis
      proof (cases b)
        case True
        then show ?thesis using ih l by auto
      next
        case nb: False
        have v: "c \<in> V1" "explored E t V V1" "explored E t V1 V'" using h notb False ih nb by auto
        have "explored E t V V'" using v(2,3) by (rule explored_trans)
        moreover have "c \<in> V'" using v(1,3) unfolding explored_def by (elim conjE subsetD)
        ultimately show ?thesis using nb ih l False by simp
      qed
    qed
  qed
qed

lemma dfs_total:
  "finite U \<Longrightarrow> (\<And>x. x \<in> U \<Longrightarrow> set (callees E x) \<subseteq> insert 0 U) \<Longrightarrow> c \<in> insert 0 U \<Longrightarrow> card (U - V) \<le> n \<Longrightarrow>
     dfs n E t c V \<noteq> None"
  "finite U \<Longrightarrow> (\<And>x. x \<in> U \<Longrightarrow> set (callees E x) \<subseteq> insert 0 U) \<Longrightarrow> set cs \<subseteq> insert 0 U \<Longrightarrow> card (U - V) \<le> n \<Longrightarrow>
     dfs_callees n E t cs V \<noteq> None"
proof (induction n E t c V and n E t cs V rule: dfs_dfs_callees.induct)
  case (1 n E t c V)
  show ?case
  proof (cases "c = 0 \<or> c \<in> V \<or> isIntrinsic (module_ir E) c")
    case True
    then show ?thesis by (auto simp: dfs.simps)
  next
    case False
    have less: "card (U - insert c V) < card (U - V)" using fresh_decreases [OF 1(2)] 1(4) False by auto
    then obtain m where n: "n = Suc m" using 1(5) by (cases n) auto
    have "dfs_callees m E t (callees E c) (insert c V) \<noteq> None"
      by (rule 1(1)) (use 1(2-5) False n less in auto)
    then show ?thesis using False n by (simp add: dfs.simps)
  qed
next
  case (2 n E t V)
  then show ?case by simp
next
  case (3 n E t c cs V)
  show ?case
  proof (cases "c = 0 \<or> isDeclaration (module_ir E) c \<or> c = t")
    case True
    then show ?thesis using 3(1) 3(4-7) by auto
  next
    case False
    have "dfs n E t c V \<noteq> None" by (rule 3(2)) (use 3(4-7) False in auto)
    then obtain b1 V1 where d: "dfs n E t c V = Some (b1, V1)" by auto
    show ?thesis
    proof (cases b1)
      case True
      then show ?thesis using d False by simp
    next
      case nb: False
      have "V \<subseteq> V1" using dfs_sound(1) [OF d] nb by (simp add: explored_def)
      then have "card (U - V1) \<le> card (U - V)" using 3(4) by (intro card_mono) auto
      then have "dfs_callees n E t cs V1 \<noteq> None"
        using 3(3) [of "(b1, V1)" b1 V1] 3(4-7) False d nb by auto
      then show ?thesis using d False nb by simp
    qed
  qed
qed

text \<open>A module whose call graph stays within its functions.\<close>

definition callgraph_ok :: "oow_env \<Rightarrow> bool" where
  "callgraph_ok E \<longleftrightarrow> (\<forall>f. set (callees E f) \<subseteq> insert 0 (set (moduleFunctions (module_ir E))))"

definition cyclic :: "oow_env \<Rightarrow> vid \<Rightarrow> bool" where
  "cyclic E f \<longleftrightarrow> (f, f) \<in> (edges (call_succs E))\<^sup>+"

lemma explored_closed:
  assumes "explored E f {} V" and "f \<in> V"
  shows "\<not> cyclic E f"
proof
  assume "cyclic E f"
  then obtain x where x: "(f, x) \<in> (edges (call_succs E))\<^sup>*" "f \<in> set (call_succs E x)"
    by (auto simp: cyclic_def dest: tranclD2)
  have "x \<in> V" using Image_rtrancl_closed [of V "call_succs E" f x] assms x(1) by (auto simp: explored_def)
  then show False using assms x(2) by (auto simp: explored_def)
qed

lemma dfs_cyclic:
  assumes "callgraph_ok E" and "f \<noteq> 0"
  shows "\<exists>V. dfs (Suc (length (moduleFunctions (module_ir E)))) E f f {} = Some (cyclic E f, V)"
proof -
  let ?U = "insert f (set (moduleFunctions (module_ir E)))"
  have "card (?U - {}) \<le> Suc (card (set (moduleFunctions (module_ir E))))" by (simp add: card_insert_le_m1)
  also have "\<dots> \<le> Suc (length (moduleFunctions (module_ir E)))" using card_length by auto
  finally obtain b V where d: "dfs (Suc (length (moduleFunctions (module_ir E)))) E f f {} = Some (b, V)"
    using dfs_total(1) [of ?U E f "{}" _ f] assms(1) by (fastforce simp: callgraph_ok_def)
  then show ?thesis using dfs_sound(1) [OF d] explored_closed [of E f V] assms(2)
    by (cases b) (auto simp: cyclic_def)
qed

definition cache_ok :: "oow_env \<Rightarrow> OOWPass \<Rightarrow> bool" where
  "cache_ok E st \<longleftrightarrow> (\<forall>f b. map_of (recursionCache st) f = Some b \<longrightarrow> b = cyclic E f)"

lemma isRecursive_cyclic:
  assumes "callgraph_ok E" and "cache_ok E st" and "f \<noteq> 0"
  shows "\<exists>st'. isRecursive E f st = Some (cyclic E f, st') \<and> cache_ok E st' \<and>
    st' = st\<lparr>recursionCache := recursionCache st'\<rparr>"
proof (cases "map_of (recursionCache st) f")
  case None
  then show ?thesis using dfs_cyclic [OF assms(1,3)] assms(2)
    by (auto simp: isRecursive_def cache_ok_def map_of_update)
next
  case (Some b)
  then show ?thesis using assms(2) by (auto simp: isRecursive_def cache_ok_def)
qed

text \<open>
  The memoised recursion test returns and is exact: if the cache is correct, \<open>isRecursive\<close> answers
  whether the function lies on a cycle of direct calls between defined functions, changes nothing
  but the cache, and leaves a correct cache.
\<close>

theorem isRecursive_exact:
  assumes "callgraph_ok E" and "cache_ok E st" and "f \<noteq> 0"
  shows "\<exists>st'. isRecursive E f st = Some (cyclic E f, st') \<and> cache_ok E st' \<and>
    st' = st\<lparr>recursionCache := recursionCache st'\<rparr>"
  using assms by (rule isRecursive_cyclic)

definition loop_example :: oow_env where
  "loop_example = \<lparr>module_ir = empty_ir\<lparr>moduleFunctions := [1, 2]\<rparr>,
     callees = (\<lambda>f. if f = 1 then [2] else if f = 2 then [0, 1] else []), windowSize = 200\<rparr>"

theorem isRecursive_exact_witness:
  "\<exists>st'. isRecursive loop_example 1 new_pass = Some (cyclic loop_example 1, st') \<and> cache_ok loop_example st' \<and>
    st' = new_pass\<lparr>recursionCache := recursionCache st'\<rparr>"
  by (rule isRecursive_exact) (auto simp: callgraph_ok_def loop_example_def cache_ok_def new_pass_def)

subsection \<open>What an exploration changes\<close>

definition frame :: "OOWPass \<Rightarrow> OOWPass \<Rightarrow> bool" where
  "frame st st' \<longleftrightarrow> OOWInstructions st' \<subseteq> OOWInstructions st \<and> visitedInstructions st \<subseteq> visitedInstructions st' \<and>
     visitedFunctions st' = visitedFunctions st \<and> functionCallSiteMap st' = functionCallSiteMap st"

lemma frame_refl [simp, intro]: "frame st st"
  by (simp add: frame_def)

lemma frame_trans: "frame st st' \<Longrightarrow> frame st' st'' \<Longrightarrow> frame st st''"
  by (auto simp: frame_def)

lemma frame_callStack [simp]: "frame (st\<lparr>callStack := cs\<rparr>) st' \<longleftrightarrow> frame st st'" "frame st (st'\<lparr>callStack := cs\<rparr>) \<longleftrightarrow> frame st st'"
  by (simp_all add: frame_def)

lemma frame_erase [simp, intro]: "frame st (eraseOOW v st)"
  by (auto simp: frame_def eraseOOW_def)

lemma frame_isRecursive: "isRecursive E f st = Some (r, st') \<Longrightarrow> frame st st'"
  by (auto simp: isRecursive_def frame_def split: option.splits)

definition keeps :: "interpreter \<Rightarrow> bool" where
  "keeps go \<longleftrightarrow> (\<forall>t step st step' st'. go t step st = Some (step', st') \<longrightarrow> frame st st')"

lemma keepsD: "keeps go \<Longrightarrow> go t step st = Some (step', st') \<Longrightarrow> frame st st'"
  by (auto simp: keeps_def)

lemma keeps_explore_both:
  assumes "keeps go" "explore_both go nd s1 ud s2 stack st = Some (step', st')"
  shows "frame st st'"
proof -
  obtain s3 st1 where a: "go (Explore (nd, 0)) s1 st = Some (s3, st1)"
    and b: "(if ud \<noteq> nd then go (Explore (ud, 0)) s2 (st1\<lparr>callStack := stack\<rparr>) else Some (s2, st1\<lparr>callStack := stack\<rparr>)) =
      Some (step', st')"
    using assms(2) by (auto simp: explore_both_def Let_def bind_eq_Some_conv)
  have "frame st1 st'" using b keepsD [OF assms(1), of "Explore (ud, 0)" s2 "st1\<lparr>callStack := stack\<rparr>" step' st']
    by (auto split: if_splits)
  then show ?thesis using keepsD [OF assms(1) a] frame_trans by blast
qed

lemma keeps_return_body:
  assumes "keeps go" "return_body E go BB step st = Some (step', st')"
  shows "frame st st'"
proof (cases "callStack st")
  case Nil
  then obtain r st1 where r: "isRecursive E (parentFn (module_ir E) BB) st = Some (r, st1)"
    using assms(2) by (auto simp: return_body_def Let_def bind_eq_Some_conv)
  have "frame st1 st'" using assms(2) Nil r keepsD [OF assms(1)]
    by (auto simp: return_body_def Let_def split: if_splits option.splits)
  then show ?thesis using frame_isRecursive [OF r] frame_trans by blast
next
  case (Cons t rest)
  then show ?thesis using assms(2) keepsD [OF assms(1)] keeps_explore_both [OF assms(1)]
    by (fastforce simp: return_body_def Let_def split: if_splits)
qed

lemma keeps_end_body: "keeps go \<Longrightarrow> end_body E go BB step st = Some (step', st') \<Longrightarrow> frame st st'"
  using keepsD [of go] keeps_explore_both [of go] keeps_return_body [of go]
  by (fastforce simp: end_body_def Let_def split: if_splits option.splits)

lemma keeps_inst_body:
  assumes "keeps go" "inst_body E go BB i step st = Some (step', st')"
  shows "frame st st'"
proof -
  have plain: "frame st0 st'" if "go t s (eraseOOW v st0) = Some (step', st')" for t s v st0
    using keepsD [OF assms(1) that] frame_erase frame_trans by blast
  let ?I = "module_ir E" and ?v = "insts (module_ir E) BB ! i"
  show ?thesis
  proof (cases "isCallBase ?I ?v \<and> calledFunction ?I ?v \<noteq> None")
    case True
    then obtain f where f: "calledFunction ?I ?v = Some f" by auto
    then obtain r st1 where r: "isRecursive E f st = Some (r, st1)"
      using assms(2) True by (auto simp: inst_body_def Let_def bind_eq_Some_conv)
    have "frame st1 st'" using assms(2) True f r plain keepsD [OF assms(1)]
      by (fastforce simp: inst_body_def Let_def split: if_splits)
    then show ?thesis using frame_isRecursive [OF r] frame_trans by blast
  next
    case False
    then show ?thesis using assms(2) plain by (auto simp: inst_body_def Let_def split: if_splits)
  qed
qed

lemma keeps_site_body:
  assumes "keeps go" "site_body E go cs rest step st = Some (step', st')"
  shows "frame st st'"
proof -
  obtain r st1 where r: "isRecursive E (getFunction (module_ir E) cs) st = Some (r, st1)"
    using assms(2) by (auto simp: site_body_def Let_def bind_eq_Some_conv)
  have "frame st1 st'"
  proof (cases r)
    case True
    then show ?thesis using assms(2) r keepsD [OF assms(1)] by (auto simp: site_body_def Let_def)
  next
    case False
    then obtain s2 st2 where e: "(if kind (module_ir E) cs = KCall
          then go (Explore (after (findInstructionIterator (module_ir E) cs))) step st1
          else explore_both go (normalDest (module_ir E) cs) step (unwindDest (module_ir E) cs) step [] st1) = Some (s2, st2)"
        and f: "go (Sites rest) step (st2\<lparr>callStack := []\<rparr>) = Some (step', st')"
      using assms(2) r by (auto simp: site_body_def Let_def bind_eq_Some_conv split: if_splits)
    have "frame st1 st2" using e keepsD [OF assms(1)] keeps_explore_both [OF assms(1)] by (auto split: if_splits)
    then show ?thesis using keepsD [OF assms(1) f] frame_trans by auto
  qed
  then show ?thesis using frame_isRecursive [OF r] frame_trans by blast
qed

lemma keeps_task_body: "keeps go \<Longrightarrow> keeps (task_body E go)"
  unfolding keeps_def [of "task_body E go"]
proof (intro allI impI)
  fix t step st step' st'
  assume go: "keeps go" and r: "task_body E go t step st = Some (step', st')"
  show "frame st st'"
  proof (cases t)
    case (Explore p)
    have "frame st (st\<lparr>visitedInstructions := insert k (visitedInstructions st)\<rparr>)" for k by (auto simp: frame_def)
    then show ?thesis using r Explore keepsD [OF go] frame_trans
      by (fastforce simp: task_body_def explore_body_def Let_def split: if_splits)
  next
    case (Loop BB i)
    then show ?thesis using r keeps_end_body [OF go] keeps_inst_body [OF go]
      by (auto simp: task_body_def loop_body_def split: if_splits)
  next
    case (Sites cs)
    then show ?thesis using r keeps_site_body [OF go]
      by (auto simp: task_body_def sites_body_def split: list.splits)
  qed
qed

lemma run_keeps: "keeps (run n E)"
proof (induction n)
  case (Suc n)
  then show ?case using keeps_task_body by simp
qed (simp add: keeps_def)

lemma explore_keeps: "explore n E p step st = Some (step', st') \<Longrightarrow> frame st st'"
  using keepsD [OF run_keeps] by (simp add: explore_def)

subsection \<open>Straight-line code\<close>

definition straight_line :: "ir \<Rightarrow> vid \<Rightarrow> bool" where
  "straight_line I BB \<longleftrightarrow> list_all (\<lambda>v. \<not> isCallBase I v) (insts I BB) \<and>
     (kind I (terminator I BB) = KSwitch \<or> is_CondBr_k (kind I (terminator I BB)))"

definition eraseAll :: "vid list \<Rightarrow> OOWPass \<Rightarrow> OOWPass" where
  "eraseAll vs st = st\<lparr>OOWInstructions := OOWInstructions st - set vs\<rparr>"

lemma eraseAll_simps [simp]: "eraseAll [] st = st" "eraseAll vs (eraseOOW v st) = eraseAll (v # vs) st"
  by (simp_all add: eraseAll_def eraseOOW_def flip: Diff_insert2)

lemma loop_straight_line:
  assumes "straight_line (module_ir E) BB"
  shows "length (insts (module_ir E) BB) - i < n \<Longrightarrow>
    run n E (Loop BB i) step st =
      (let k = min (length (insts (module_ir E) BB) - i) (nat (windowSize E - int step))
       in Some (step + k, eraseAll (take k (drop i (insts (module_ir E) BB))) st))"
proof (induction "length (insts (module_ir E) BB) - i" arbitrary: i n step st)
  case 0
  then obtain m where "n = Suc m" by (cases n) auto
  then show ?case using 0 assms
    by (auto simp: task_body_def loop_body_def end_body_def straight_line_def Let_def)
next
  case (Suc d)
  let ?vs = "insts (module_ir E) BB"
  obtain m where n: "n = Suc m" using Suc by (cases n) auto
  have i: "i < length ?vs" using Suc(2) by simp
  show ?case
  proof (cases "int step < windowSize E")
    case False
    then show ?thesis using n i by (simp add: task_body_def loop_body_def Let_def)
  next
    case True
    have call: "\<not> isCallBase (module_ir E) (?vs ! i)" using assms i by (simp add: straight_line_def list_all_length)
    have "run n E (Loop BB i) step st = run m E (Loop BB (Suc i)) (Suc step) (eraseOOW (?vs ! i) st)"
      using n i True call by (simp add: task_body_def loop_body_def inst_body_def Let_def)
    also have "\<dots> = (let k = min (length ?vs - Suc i) (nat (windowSize E - int (Suc step)))
        in Some (Suc step + k, eraseAll (take k (drop (Suc i) ?vs)) (eraseOOW (?vs ! i) st)))"
      using Suc(1) [of "Suc i" m "Suc step"] Suc(2,3) n by auto
    also have "\<dots> = (let k = min (length ?vs - i) (nat (windowSize E - int step))
        in Some (step + k, eraseAll (take k (drop i ?vs)) st))"
    proof -
      have k: "min (length ?vs - i) (nat (windowSize E - int step)) =
          Suc (min (length ?vs - Suc i) (nat (windowSize E - int (Suc step))))"
        using True i by auto
      have "take (Suc j) (drop i ?vs) = ?vs ! i # take j (drop (Suc i) ?vs)" for j
        using i by (simp add: Cons_nth_drop_Suc [symmetric])
      then show ?thesis unfolding k Let_def by simp
    qed
    finally show ?thesis .
  qed
qed

text \<open>
  In a block without calls that ends in a branch or a switch, an exploration that starts at a fresh
  position takes exactly the instructions within the remaining window out of the out-of-window set,
  and fuel beyond the length of the block suffices.
\<close>

theorem explore_straight_line:
  assumes "straight_line (module_ir E) BB" and "length (insts (module_ir E) BB) + 1 < n"
    and "(inst_at (module_ir E) (BB, i), step) \<notin> visitedInstructions st"
  shows "\<exists>step' st'. explore n E (BB, i) step st = Some (step', st') \<and>
    OOWInstructions st' = OOWInstructions st -
      set (take (nat (windowSize E - int step)) (drop i (insts (module_ir E) BB)))"
proof -
  obtain m where n: "n = Suc m" "length (insts (module_ir E) BB) - i < m" using assms(2) by (cases n) auto
  have "take (min (length xs) k) xs = take k xs" for k and xs :: "vid list" by (simp add: min_def)
  then have "take (min (length (insts (module_ir E) BB) - i) k) (drop i (insts (module_ir E) BB)) =
      take k (drop i (insts (module_ir E) BB))" for k by (metis length_drop)
  then show ?thesis using n assms(3) loop_straight_line [OF assms(1) n(2)]
    by (simp add: explore_def task_body_def explore_body_def Let_def eraseAll_def)
qed

definition window_example :: oow_env where
  "window_example = \<lparr>module_ir = empty_ir\<lparr>kind := (\<lambda>v. if v = 13 then KBr True else KGEP),
     insts := (\<lambda>b. if b = 5 then [10, 11, 12, 13] else [])\<rparr>, callees = (\<lambda>_. []), windowSize = 2\<rparr>"

theorem explore_straight_line_witness:
  "\<exists>step' st'. explore 7 window_example (5, 0) 0 (new_pass\<lparr>OOWInstructions := {10, 11, 12}\<rparr>) = Some (step', st') \<and>
    OOWInstructions st' = OOWInstructions (new_pass\<lparr>OOWInstructions := {10, 11, 12}\<rparr>) -
      set (take (nat (windowSize window_example - int 0)) (drop 0 (insts (module_ir window_example) 5)))"
  by (rule explore_straight_line)
    (simp_all add: window_example_def straight_line_def terminator_def new_pass_def empty_ir_def)

lemma functions_frame:
  "explore_calls n E ps st = Some st' \<Longrightarrow> frame st st'"
  "explore_blocks n E bs st = Some st' \<Longrightarrow> frame st st'"
proof -
  show "explore_calls n E ps st = Some st' \<Longrightarrow> frame st st'"
  proof (induction ps arbitrary: st)
    case (Cons p ps)
    have go: "frame st0 st'" if b: "Option.bind (explore n E p 0 st0) (\<lambda>(_, st2). explore_calls n E ps st2) = Some st'" for st0
    proof -
      obtain s2 st2 where e: "explore n E p 0 st0 = Some (s2, st2)" "explore_calls n E ps st2 = Some st'"
        using b by (auto simp: bind_eq_Some_conv)
      show ?thesis by (rule frame_trans [OF explore_keeps [OF e(1)] Cons.IH [OF e(2)]])
    qed
    let ?v = "inst_at (module_ir E) p"
    show ?case
    proof (cases "isCallBase (module_ir E) ?v \<and> calledFunction (module_ir E) ?v \<noteq> None")
      case True
      then obtain f r st1 where r: "calledFunction (module_ir E) ?v = Some f" "isRecursive E f st = Some (r, st1)"
        using Cons.prems by (auto simp: Let_def bind_eq_Some_conv)
      have "frame st1 st'" using Cons True r go by (auto simp: Let_def split: if_splits)
      then show ?thesis using frame_isRecursive [OF r(2)] frame_trans by blast
    next
      case False
      then show ?thesis using Cons go by (auto simp: Let_def split: if_splits)
    qed
  qed simp
  show "explore_blocks n E bs st = Some st' \<Longrightarrow> frame st st'"
  proof (induction bs arbitrary: st)
    case (Cons b bs)
    then obtain s2 st2 where e: "explore n E (b, 0) 0 st = Some (s2, st2)"
      "explore_blocks n E bs (st2\<lparr>callStack := []\<rparr>) = Some st'"
      by (auto simp: bind_eq_Some_conv)
    have "frame st2 st'" using Cons.IH [OF e(2)] by simp
    then show ?case by (rule frame_trans [OF explore_keeps [OF e(1)]])
  qed simp
qed

lemma analyzeFunction_frame: "analyzeFunction n E f st = Some st' \<Longrightarrow> frame st st'"
  using functions_frame(1) [of n E "positions (module_ir E) f" st]
    functions_frame(2) [of n E "concat (map (branchTargets (module_ir E)) (blocks (module_ir E) f))" _ st']
    frame_trans [of st _ st']
  by (cases "isDeclaration (module_ir E) f") (auto simp: analyzeFunction_def Let_def bind_eq_Some_conv)

subsection \<open>Distances\<close>

lemma window_bfs_queued:
  "useBB \<notin> fst ` set pre \<Longrightarrow> window_bfs I useBB (pre @ (useBB, d) # post) V = Some (Some d)"
proof (induction pre arbitrary: post V)
  case Nil
  then show ?case by (simp add: window_bfs.simps)
next
  case (Cons x pre)
  then show ?case by (subst window_bfs.simps) (auto simp: Let_def split: prod.splits)
qed

lemma new_successors: "set (rev (remdups (rev (filter P xs)))) = {x \<in> set xs. P x}"
  by auto

lemma outside_window_successor:
  assumes "parentBB I use \<noteq> parentBB I def" and "parentBB I use \<in> set (successors I (parentBB I def))"
  shows "isOutsideWindow I W def use =
    Some (int (length (insts I (parentBB I def))) - position_in I (parentBB I def) def - 1 +
      int (length (insts I (parentBB I use))) + position_in I (parentBB I use) use > W)"
proof -
  let ?d = "parentBB I def" and ?u = "parentBB I use"
  let ?new = "rev (remdups (rev (filter (\<lambda>s. s \<notin> {?d}) (successors I ?d))))"
  have "?u \<in> set ?new" using assms by auto
  then obtain pre post where new: "?new = pre @ ?u # post" "?u \<notin> set pre" by (meson split_list_first)
  let ?f = "\<lambda>s. (s, 0 + int (length (insts I s)))"
  have "window_bfs I ?u [(?d, 0)] {?d} = window_bfs I ?u (map ?f ?new) ({?d} \<union> set ?new)"
    using assms(1) by (subst window_bfs.simps) (simp add: Let_def)
  also have "\<dots> = Some (Some (int (length (insts I ?u))))"
    unfolding new(1) using window_bfs_queued [of ?u "map ?f pre" I] new(2) by (simp add: image_image)
  finally show ?thesis using assms(1) by (simp add: isOutsideWindow_def Let_def)
qed

text \<open>
  When the use is in a successor block of the definition, the computed distance is the rest of the
  defining block, plus the whole length of the using block, plus the position of the use in it: the
  using block is counted although only the part before the use lies on the path.
\<close>

theorem outside_window_counts_the_using_block:
  assumes "parentBB I use \<noteq> parentBB I def" and "parentBB I use \<in> set (successors I (parentBB I def))"
  shows "isOutsideWindow I W def use =
    Some (int (length (insts I (parentBB I def))) - position_in I (parentBB I def) def - 1 +
      int (length (insts I (parentBB I use))) + position_in I (parentBB I use) use > W)"
  using assms by (rule outside_window_successor)

definition distance_example :: ir where
  "distance_example = empty_ir\<lparr>insts := (\<lambda>b. if b = 5 then [10, 11] else if b = 6 then [12, 13, 14, 15] else []),
     parentBB := (\<lambda>v. if v \<in> {10, 11} then 5 else 6), successors := (\<lambda>b. if b = 5 then [6] else [])\<rparr>"

theorem outside_window_counts_the_using_block_witness:
  "isOutsideWindow distance_example 3 11 12 =
    Some (int (length (insts distance_example (parentBB distance_example 11))) -
      position_in distance_example (parentBB distance_example 11) 11 - 1 +
      int (length (insts distance_example (parentBB distance_example 12))) +
      position_in distance_example (parentBB distance_example 12) 12 > 3)"
  by (rule outside_window_counts_the_using_block) (simp_all add: distance_example_def)

lemma window_bfs_total:
  assumes "finite U" and "\<And>x. x \<in> U \<Longrightarrow> set (successors I x) \<subseteq> U" and "V \<subseteq> U" and "fst ` set q \<subseteq> V"
    and "\<And>x. x \<in> V \<Longrightarrow> x \<notin> fst ` set q \<Longrightarrow> set (successors I x) \<subseteq> V \<and> x \<noteq> useBB"
  shows "\<exists>r. window_bfs I useBB q V = Some r \<and> (r = None \<longleftrightarrow> useBB \<notin> reach (successors I) V)"
  using assms(3-5)
proof (induction "card (U - V) + length q" arbitrary: q V rule: less_induct)
  case less
  show ?case
  proof (cases q)
    case Nil
    then have "reach (successors I) V = V" using less.prems by (intro reach_closed) auto
    then show ?thesis using Nil less.prems by (auto simp: window_bfs.simps)
  next
    case (Cons x rest)
    obtain bb dist where x: "x = (bb, dist)" by (cases x)
    show ?thesis
    proof (cases "bb = useBB")
      case True
      have "useBB \<in> reach (successors I) V"
        using reach_increasing [of V "successors I"] less.prems(2) Cons x True by auto
      then show ?thesis using True Cons x by (simp add: window_bfs.simps)
    next
      case False
      let ?new = "rev (remdups (rev (filter (\<lambda>s. s \<notin> V) (successors I bb))))"
      let ?q = "rest @ map (\<lambda>s. (s, dist + int (length (insts I s)))) ?new" and ?V = "V \<union> set ?new"
      have bb: "bb \<in> V" "bb \<in> U" using less.prems Cons x by auto
      have new: "set ?new = set (successors I bb) - V" by auto
      have U: "?V \<subseteq> U" using less.prems assms(2) [OF bb(2)] by auto
      have "length ?new = card (set ?new)" using distinct_card [of ?new] by simp
      moreover have "card (U - ?V) + card (set ?new) = card (U - V)"
      proof -
        have "U - V = (U - ?V) \<union> set ?new" using U new by auto
        moreover have "card ((U - ?V) \<union> set ?new) = card (U - ?V) + card (set ?new)"
          by (rule card_Un_disjoint) (use assms(1) new in auto)
        ultimately show ?thesis by simp
      qed
      ultimately have dec: "card (U - ?V) + length ?q < card (U - V) + length q" using Cons by simp
      have fst_q: "fst ` set ?q = fst ` set rest \<union> set ?new" by (simp add: image_Un image_image)
      have sub: "fst ` set ?q \<subseteq> ?V" using less.prems(2) Cons fst_q by auto
      have inv: "set (successors I y) \<subseteq> ?V \<and> y \<noteq> useBB" if "y \<in> ?V" "y \<notin> fst ` set ?q" for y
      proof (cases "y = bb")
        case True
        then show ?thesis using False new by auto
      next
        case nb: False
        then show ?thesis using that less.prems(3) [of y] Cons x fst_q by auto
      qed
      have "reach (successors I) ?V = reach (successors I) V"
      proof -
        have "?V = V \<union> set (successors I bb)" using new by auto
        then show ?thesis using reach_step [OF bb(1), of "successors I"] by simp
      qed
      moreover have "window_bfs I useBB q V = window_bfs I useBB ?q ?V"
        using False Cons x by (subst window_bfs.simps) (simp add: Let_def)
      ultimately show ?thesis using less.hyps [OF dec U sub inv] by simp
    qed
  qed
qed

text \<open>
  The window test returns for every function with finitely many blocks, and answers true whenever the
  block of the use cannot be reached from the block of the definition.
\<close>

theorem isOutsideWindow_returns:
  assumes "finite U" and "parentBB I def \<in> U" and "\<forall>b \<in> U. set (successors I b) \<subseteq> U"
  shows "\<exists>b. isOutsideWindow I W def use = Some b \<and>
    (parentBB I use \<notin> reach (successors I) {parentBB I def} \<longrightarrow> b)"
proof (cases "parentBB I def = parentBB I use")
  case True
  then show ?thesis using reach_increasing [of "{parentBB I def}" "successors I"] by (auto simp: isOutsideWindow_def Let_def)
next
  case False
  have "\<exists>r. window_bfs I (parentBB I use) [(parentBB I def, 0)] {parentBB I def} = Some r \<and>
      (r = None \<longleftrightarrow> parentBB I use \<notin> reach (successors I) {parentBB I def})"
    by (rule window_bfs_total [OF assms(1)]) (use assms(2,3) in auto)
  then obtain r where r: "window_bfs I (parentBB I use) [(parentBB I def, 0)] {parentBB I def} = Some r"
    "r = None \<longleftrightarrow> parentBB I use \<notin> reach (successors I) {parentBB I def}" by auto
  then show ?thesis using False r by (cases r) (auto simp: isOutsideWindow_def Let_def)
qed

theorem isOutsideWindow_returns_witness:
  "\<exists>b. isOutsideWindow distance_example 3 12 10 = Some b \<and>
    (parentBB distance_example 10 \<notin> reach (successors distance_example) {parentBB distance_example 12} \<longrightarrow> b)"
  by (rule isOutsideWindow_returns [where U = "{5, 6}"]) (auto simp: distance_example_def empty_ir_def)

text \<open>
  The flag that reports an index as always defined outside the window is set as soon as the first
  store found is outside; a later store inside the window ends the scan but does not clear the flag.
\<close>

theorem always_outside_decided_by_first_store:
  assumes "\<forall>u \<in> set us. kind I u = KStore \<longrightarrow> isOutsideWindow I W u gep \<noteq> None"
  shows "map_option snd (scanDefs I W gep us (False, False)) =
    (case filter (\<lambda>u. kind I u = KStore) us of [] \<Rightarrow> Some False | u # _ \<Rightarrow> isOutsideWindow I W u gep)"
proof -
  have later: "map_option snd (scanDefs I W gep vs (True, True)) = Some True"
    if "\<forall>u \<in> set vs. kind I u = KStore \<longrightarrow> isOutsideWindow I W u gep \<noteq> None" for vs
    using that by (induction vs) auto
  show ?thesis using assms
  proof (induction us)
    case (Cons u us)
    then show ?case using later [of us] by (auto split: bind_splits)
  qed simp
qed

definition store_order_example :: ir where
  "store_order_example = distance_example\<lparr>kind := (\<lambda>v. if v = 10 \<or> v = 15 then KStore else KGEP)\<rparr>"

lemma store_order_simps:
  "isOutsideWindow store_order_example 2 10 14 = Some True" "isOutsideWindow store_order_example 2 15 14 = Some False"
  using outside_window_successor [of store_order_example 14 10 2]
  by (simp_all add: store_order_example_def distance_example_def isOutsideWindow_def position_in_def Let_def)

theorem always_outside_decided_by_first_store_witness:
  "map_option snd (scanDefs store_order_example 2 14 [10, 15] (False, False)) =
    (case filter (\<lambda>u. kind store_order_example u = KStore) [10, 15] of
       [] \<Rightarrow> Some False | u # _ \<Rightarrow> isOutsideWindow store_order_example 2 u 14)"
  by (rule always_outside_decided_by_first_store) (auto simp: store_order_simps)

end
