(* ===== verification/Out_Of_Window_Total.thy ===== *)
theory Out_Of_Window_Total
  imports Out_Of_Window
begin

text \<open>
  The out-of-window analysis terminates: for a well-formed module, the fuel computed from its size is enough
  for every exploration, and with it for the whole analysis.  The measure is the number of visit keys that
  are left, then the part of the window that is left, then the rest of the current block.
\<close>

subsection \<open>Well-formed modules and states\<close>

text \<open>
  What the LLVM verifier guarantees of a module and the pass relies on: blocks are not empty and end in
  a terminator, instructions know their block, callees are functions of the module.
\<close>

definition module_blocks :: "ir \<Rightarrow> vid list" where
  "module_blocks I = concat (map (blocks I) (moduleFunctions I))"

definition block_insts :: "ir \<Rightarrow> vid list" where
  "block_insts I = concat (map (insts I) (module_blocks I))"

definition call_ok :: "ir \<Rightarrow> vid \<Rightarrow> bool" where
  "call_ok I v \<longleftrightarrow> (case calledFunction I v of None \<Rightarrow> True
     | Some f \<Rightarrow> f \<noteq> 0 \<and> f \<in> set (moduleFunctions I) \<and> (isDeclaration I f \<or> entryBlock I f \<in> set (module_blocks I)))"

definition not_debug_call :: "ir \<Rightarrow> vid \<Rightarrow> bool" where
  "not_debug_call I v \<longleftrightarrow> (case calledFunction I v of None \<Rightarrow> True | Some f \<Rightarrow> \<not> isDebugFunction I f)"

definition block_ok :: "ir \<Rightarrow> vid \<Rightarrow> bool" where
  "block_ok I b \<longleftrightarrow> insts I b \<noteq> [] \<and> set (successors I b) \<subseteq> set (module_blocks I) \<and> parentFn I b \<noteq> 0 \<and>
     kind I (last (insts I b)) \<noteq> KCall \<and> (isCallBase I (last (insts I b)) \<longrightarrow> not_debug_call I (last (insts I b))) \<and>
     list_all (\<lambda>v. parentBB I v = b \<and> (isCallBase I v \<longrightarrow> call_ok I v \<and> (kind I v \<noteq> KCall \<longrightarrow> 2 \<le> length (successors I b))))
       (insts I b)"

definition env_ok :: "oow_env \<Rightarrow> bool" where
  "env_ok E \<longleftrightarrow> callgraph_ok E \<and> list_all (block_ok (module_ir E)) (module_blocks (module_ir E))"

definition calls_of :: "ir \<Rightarrow> vid set" where
  "calls_of I = {v \<in> set (block_insts I). isCallBase I v}"

definition visit_keys :: "oow_env \<Rightarrow> (vid \<times> nat) set" where
  "visit_keys E = insert 0 (set (block_insts (module_ir E))) \<times> {..nat (windowSize E)}"

definition st_ok :: "oow_env \<Rightarrow> OOWPass \<Rightarrow> bool" where
  "st_ok E st \<longleftrightarrow> cache_ok E st \<and> set (callStack st) \<subseteq> calls_of (module_ir E) \<and> visitedInstructions st \<subseteq> visit_keys E \<and>
     (\<forall>f S. map_of (functionCallSiteMap st) f = Some S \<longrightarrow> S \<subseteq> calls_of (module_ir E))"

fun task_ok :: "oow_env \<Rightarrow> task \<Rightarrow> nat \<Rightarrow> bool" where
  "task_ok E (Explore p) step \<longleftrightarrow> fst p \<in> set (module_blocks (module_ir E)) \<and> int step \<le> max 0 (windowSize E)"
| "task_ok E (Loop BB i) step \<longleftrightarrow> BB \<in> set (module_blocks (module_ir E)) \<and> int step \<le> max 0 (windowSize E)"
| "task_ok E (Sites cs) step \<longleftrightarrow> set cs \<subseteq> calls_of (module_ir E) \<and> int step \<le> max 0 (windowSize E)"

definition size_bound :: "oow_env \<Rightarrow> nat" where
  "size_bound E = length (block_insts (module_ir E))"

definition per_visit :: "oow_env \<Rightarrow> nat" where
  "per_visit E = (size_bound E + 4) + (nat (windowSize E) + 1) * (size_bound E + 2) + size_bound E + 2"

definition remaining :: "oow_env \<Rightarrow> vid \<Rightarrow> nat \<Rightarrow> nat" where
  "remaining E BB i = (let n = length (insts (module_ir E) BB) in if n \<le> i then size_bound E + 1 else n - i)"

definition visits_left :: "oow_env \<Rightarrow> OOWPass \<Rightarrow> nat" where
  "visits_left E st = card (visit_keys E - visitedInstructions st)"

definition window_left :: "oow_env \<Rightarrow> nat \<Rightarrow> nat" where
  "window_left E step = (nat (windowSize E) - step) * (size_bound E + 2)"

fun task_fuel :: "oow_env \<Rightarrow> task \<Rightarrow> nat \<Rightarrow> nat" where
  "task_fuel E (Explore p) step = 1"
| "task_fuel E (Sites cs) step = length cs + 2"
| "task_fuel E (Loop BB i) step =
     size_bound E + 3 + window_left E step + remaining E BB i"

definition fuel_needed :: "oow_env \<Rightarrow> task \<Rightarrow> nat \<Rightarrow> OOWPass \<Rightarrow> nat" where
  "fuel_needed E t step st = visits_left E st * per_visit E + task_fuel E t step"

definition finishes :: "oow_env \<Rightarrow> oow_result \<Rightarrow> OOWPass \<Rightarrow> bool" where
  "finishes E r st \<longleftrightarrow> (\<exists>step' st'. r = Some (step', st') \<and> st_ok E st' \<and> frame st st')"

definition enough :: "nat \<Rightarrow> oow_env \<Rightarrow> interpreter \<Rightarrow> bool" where
  "enough n E go \<longleftrightarrow> (\<forall>t step st. task_ok E t step \<longrightarrow> st_ok E st \<longrightarrow> fuel_needed E t step st \<le> n \<longrightarrow> finishes E (go t step st) st)"

lemma enoughD:
  "enough n E go \<Longrightarrow> task_ok E t step \<Longrightarrow> st_ok E st \<Longrightarrow> fuel_needed E t step st \<le> n \<Longrightarrow> finishes E (go t step st) st"
  by (simp add: enough_def)

lemma finite_keys [simp]: "finite (visit_keys E)"
  by (simp add: visit_keys_def)

lemma visits_left_frame: "frame st st' \<Longrightarrow> visits_left E st' \<le> visits_left E st"
  unfolding visits_left_def frame_def by (intro card_mono) auto

lemma fuel_frame: "frame st st' \<Longrightarrow> fuel_needed E t step st' \<le> visits_left E st * per_visit E + task_fuel E t step"
  using visits_left_frame [of st st' E] by (simp add: fuel_needed_def)

lemma finishes_frame: "finishes E r st1 \<Longrightarrow> frame st st1 \<Longrightarrow> finishes E r st"
  unfolding finishes_def using frame_trans by blast

lemma finishes_now [simp]: "st_ok E st \<Longrightarrow> finishes E (Some (step, st)) st"
  by (auto simp: finishes_def)

lemma finishes_bind:
  assumes "finishes E r st" and "\<And>step' st'. r = Some (step', st') \<Longrightarrow> st_ok E st' \<Longrightarrow> frame st st' \<Longrightarrow> finishes E (f (step', st')) st'"
  shows "finishes E (Option.bind r f) st"
proof -
  obtain step' st' where r: "r = Some (step', st')" "st_ok E st'" "frame st st'" using assms(1) by (auto simp: finishes_def)
  show ?thesis using finishes_frame [OF assms(2) [OF r] r(3)] r(1) by simp
qed

lemma st_ok_callStack [simp]: "set cs \<subseteq> calls_of (module_ir E) \<Longrightarrow> st_ok E st \<Longrightarrow> st_ok E (st\<lparr>callStack := cs\<rparr>)"
  by (auto simp: st_ok_def cache_ok_def)

lemma finishes_callStack [simp]: "finishes E r (st\<lparr>callStack := cs\<rparr>) \<longleftrightarrow> finishes E r st"
  by (simp add: finishes_def)

lemma st_ok_erase [simp]: "st_ok E st \<Longrightarrow> st_ok E (eraseOOW v st)"
  by (auto simp: st_ok_def cache_ok_def eraseOOW_def)

lemma fuel_callStack [simp]: "fuel_needed E t step (st\<lparr>callStack := cs\<rparr>) = fuel_needed E t step st"
  by (simp add: fuel_needed_def visits_left_def)

lemma fuel_erase [simp]: "fuel_needed E t step (eraseOOW v st) = fuel_needed E t step st"
  by (simp add: fuel_needed_def visits_left_def eraseOOW_def)

lemma isRecursive_finishes:
  assumes "env_ok E" and "st_ok E st" and "f \<noteq> 0"
  obtains st' where "isRecursive E f st = Some (cyclic E f, st')" "st_ok E st'" "frame st st'"
    "callStack st' = callStack st" "visits_left E st' = visits_left E st" "functionCallSiteMap st' = functionCallSiteMap st"
proof -
  obtain st' where s: "isRecursive E f st = Some (cyclic E f, st')" "cache_ok E st'"
    "st' = st\<lparr>recursionCache := recursionCache st'\<rparr>"
    using isRecursive_cyclic [of E st f] assms by (auto simp: env_ok_def st_ok_def)
  have fields: "callStack st' = callStack st" "visitedInstructions st' = visitedInstructions st"
    "functionCallSiteMap st' = functionCallSiteMap st"
    by (subst s(3), simp)+
  have "st_ok E st'" using assms(2) s(2) fields by (auto simp: st_ok_def)
  then show ?thesis using that s fields frame_isRecursive [OF s(1)] by (auto simp: visits_left_def)
qed

subsection \<open>Facts of well-formed modules\<close>

lemma block_okD: "env_ok E \<Longrightarrow> b \<in> set (module_blocks (module_ir E)) \<Longrightarrow> block_ok (module_ir E) b"
  by (simp add: env_ok_def list_all_iff)

lemma length_insts_bound: "b \<in> set (module_blocks (module_ir E)) \<Longrightarrow> length (insts (module_ir E) b) \<le> size_bound E"
  unfolding size_bound_def block_insts_def by (auto simp: length_concat comp_def intro!: member_le_sum_list)

lemma nth_block_insts:
  "b \<in> set (module_blocks I) \<Longrightarrow> i < length (insts I b) \<Longrightarrow> insts I b ! i \<in> set (block_insts I)"
  unfolding block_insts_def set_concat set_map by (blast intro: nth_mem)

lemma card_calls: "S \<subseteq> calls_of (module_ir E) \<Longrightarrow> finite S \<and> card S \<le> size_bound E"
proof -
  assume S: "S \<subseteq> calls_of (module_ir E)"
  have fin: "finite (calls_of (module_ir E))" by (simp add: calls_of_def)
  have "card S \<le> card (set (block_insts (module_ir E)))"
    using S by (intro card_mono) (auto simp: calls_of_def)
  then show ?thesis using finite_subset [OF S fin] card_length [of "block_insts (module_ir E)"] by (simp add: size_bound_def)
qed

lemma call_facts:
  assumes "env_ok E" and "v \<in> calls_of (module_ir E)"
  shows "isCallBase (module_ir E) v" and "parentBB (module_ir E) v \<in> set (module_blocks (module_ir E))"
    and "v \<in> set (insts (module_ir E) (parentBB (module_ir E) v))" and "call_ok (module_ir E) v"
    and "kind (module_ir E) v \<noteq> KCall \<Longrightarrow> 2 \<le> length (successors (module_ir E) (parentBB (module_ir E) v))"
proof -
  let ?I = "module_ir E"
  obtain b where b: "b \<in> set (module_blocks ?I)" "v \<in> set (insts ?I b)" and c: "isCallBase ?I v"
    using assms(2) by (auto simp: calls_of_def block_insts_def)
  have v: "parentBB ?I v = b" "call_ok ?I v" "kind ?I v \<noteq> KCall \<longrightarrow> 2 \<le> length (successors ?I b)"
    using block_okD [OF assms(1) b(1)] b(2) c by (auto simp: block_ok_def list_all_iff)
  show "isCallBase ?I v" "parentBB ?I v \<in> set (module_blocks ?I)" "v \<in> set (insts ?I (parentBB ?I v))" "call_ok ?I v"
    "kind ?I v \<noteq> KCall \<Longrightarrow> 2 \<le> length (successors ?I (parentBB ?I v))"
    using b v c by auto
qed

lemma invoke_dests:
  assumes "env_ok E" and "v \<in> calls_of (module_ir E)" and "kind (module_ir E) v \<noteq> KCall"
  shows "normalDest (module_ir E) v \<in> set (module_blocks (module_ir E))"
    and "unwindDest (module_ir E) v \<in> set (module_blocks (module_ir E))"
proof -
  note f = call_facts [OF assms(1,2)]
  have "set (successors (module_ir E) (parentBB (module_ir E) v)) \<subseteq> set (module_blocks (module_ir E))"
    using block_okD [OF assms(1) f(2)] by (simp add: block_ok_def)
  then show "normalDest (module_ir E) v \<in> set (module_blocks (module_ir E))"
    "unwindDest (module_ir E) v \<in> set (module_blocks (module_ir E))"
    using f(5) [OF assms(3)] nth_mem [of 0 "successors (module_ir E) (parentBB (module_ir E) v)"]
      nth_mem [of 1 "successors (module_ir E) (parentBB (module_ir E) v)"]
    unfolding normalDest_def unwindDest_def by (fastforce dest: subsetD)+
qed

lemma index_of_nth: "v \<in> set xs \<Longrightarrow> index_of xs v < length xs \<and> xs ! index_of xs v = v"
  by (induction xs) auto

lemma call_not_last:
  assumes "env_ok E" and "v \<in> calls_of (module_ir E)" and "kind (module_ir E) v = KCall"
  shows "Suc (index_of (insts (module_ir E) (parentBB (module_ir E) v)) v) <
    length (insts (module_ir E) (parentBB (module_ir E) v))"
proof -
  let ?xs = "insts (module_ir E) (parentBB (module_ir E) v)"
  note f = call_facts [OF assms(1,2)]
  have "kind (module_ir E) (last ?xs) \<noteq> KCall" "?xs \<noteq> []" using block_okD [OF assms(1) f(2)] by (auto simp: block_ok_def)
  then have "v \<noteq> ?xs ! (length ?xs - 1)" using assms(3) by (auto simp: last_conv_nth)
  then have "index_of ?xs v \<noteq> length ?xs - 1" using index_of_nth [OF f(3)] by auto
  then show ?thesis using index_of_nth [OF f(3)] by linarith
qed

lemma remaining_bound:
  "remaining E BB i \<le> size_bound E + 1" if "BB \<in> set (module_blocks (module_ir E))"
  using length_insts_bound [OF that] by (auto simp: remaining_def Let_def)

lemma remaining_inside:
  "BB \<in> set (module_blocks (module_ir E)) \<Longrightarrow> i < length (insts (module_ir E) BB) \<Longrightarrow> remaining E BB i \<le> size_bound E"
  using length_insts_bound [of BB E] by (auto simp: remaining_def Let_def)

lemma window_step:
  "int step < windowSize E \<Longrightarrow>
     window_left E step = window_left E (Suc step) + (size_bound E + 2)"
proof -
  assume "int step < windowSize E"
  then have "nat (windowSize E) - step = Suc (nat (windowSize E) - Suc step)" by linarith
  then show ?thesis by (simp only: window_left_def mult_Suc add.commute)
qed

subsection \<open>The bodies finish\<close>

lemma explore_both_finishes:
  assumes "enough n E go" "st_ok E st" "set stack \<subseteq> calls_of (module_ir E)"
    and "nd \<in> set (module_blocks (module_ir E))" "ud \<in> set (module_blocks (module_ir E))"
    and "int s1 \<le> max 0 (windowSize E)" "int s2 \<le> max 0 (windowSize E)" "visits_left E st * per_visit E + 1 \<le> n"
  shows "finishes E (explore_both go nd s1 ud s2 stack st) st"
  unfolding explore_both_def
proof (rule finishes_bind)
  show "finishes E (go (Explore (nd, 0)) s1 st) st"
    using assms by (intro enoughD [OF assms(1)]) (auto simp: fuel_needed_def)
  fix step' st'
  assume s: "st_ok E st'" "frame st st'"
  have "finishes E (go (Explore (ud, 0)) s2 (st'\<lparr>callStack := stack\<rparr>)) (st'\<lparr>callStack := stack\<rparr>)"
    using assms s fuel_frame [OF s(2), of E "Explore (ud, 0)" s2]
    by (intro enoughD [OF assms(1)]) auto
  then show "finishes E (case (step', st') of (_, st1) \<Rightarrow>
      let st2 = st1\<lparr>callStack := stack\<rparr> in if ud \<noteq> nd then go (Explore (ud, 0)) s2 st2 else Some (s2, st2)) st'"
    using s assms(3) finishes_now [of E "st'\<lparr>callStack := stack\<rparr>" s2] by (auto simp: Let_def)
qed

lemma return_body_finishes:
  assumes env: "env_ok E" and go: "enough n E go" and st: "st_ok E st"
    and BB: "BB \<in> set (module_blocks (module_ir E))" and step: "int step < windowSize E"
    and fuel: "visits_left E st * per_visit E + (size_bound E + 2) + window_left E step + size_bound E + 1 \<le> n"
  shows "finishes E (return_body E go BB step st) st"
proof (cases "callStack st")
  case Nil
  have "parentFn (module_ir E) BB \<noteq> 0" using block_okD [OF env BB] by (simp add: block_ok_def)
  then obtain st1 where r: "isRecursive E (parentFn (module_ir E) BB) st = Some (cyclic E (parentFn (module_ir E) BB), st1)"
    "st_ok E st1" "frame st st1" "visits_left E st1 = visits_left E st"
    using isRecursive_finishes [OF env st] by metis
  have "finishes E (go (Sites (sorted_list_of_set S)) step st1) st1"
    if "map_of (functionCallSiteMap st1) (parentFn (module_ir E) BB) = Some S" for S
  proof -
    have "S \<subseteq> calls_of (module_ir E)" using r(2) that by (auto simp: st_ok_def)
    then show ?thesis using card_calls [of S E] r fuel step by (intro enoughD [OF go]) (auto simp: fuel_needed_def)
  qed
  then have "finishes E (if cyclic E (parentFn (module_ir E) BB) then Some (step, st1)
      else case map_of (functionCallSiteMap st1) (parentFn (module_ir E) BB) of None \<Rightarrow> Some (step, st1)
        | Some S \<Rightarrow> go (Sites (sorted_list_of_set S)) step st1) st1"
    using r(2) by (auto split: option.split)
  then show ?thesis using finishes_frame [OF _ r(3)] Nil r(1) by (simp add: return_body_def Let_def)
next
  case (Cons target rest)
  then have t: "target \<in> calls_of (module_ir E)" "set rest \<subseteq> calls_of (module_ir E)" using st by (auto simp: st_ok_def)
  have st1: "st_ok E (st\<lparr>callStack := rest\<rparr>)" using st t(2) by simp
  show ?thesis
  proof (cases "kind (module_ir E) target = KCall")
    case True
    let ?b = "parentBB (module_ir E) target" and ?i = "snd (after (findInstructionIterator (module_ir E) target))"
    have "?i < length (insts (module_ir E) ?b)"
      using call_not_last [OF env t(1) True] by (simp add: after_def findInstructionIterator_def)
    then have "remaining E ?b ?i \<le> size_bound E" using remaining_inside call_facts(2) [OF env t(1)] by blast
    then have "finishes E (go (Loop ?b ?i) step (st\<lparr>callStack := rest\<rparr>)) (st\<lparr>callStack := rest\<rparr>)"
      using st1 step fuel call_facts(2) [OF env t(1)] by (intro enoughD [OF go]) (auto simp: fuel_needed_def visits_left_def)
    then show ?thesis using Cons True by (simp add: return_body_def Let_def)
  next
    case False
    have "finishes E (explore_both go (normalDest (module_ir E) target) step (unwindDest (module_ir E) target) step rest
        (st\<lparr>callStack := rest\<rparr>)) (st\<lparr>callStack := rest\<rparr>)"
      using st1 t invoke_dests [OF env t(1) False] step fuel
      by (intro explore_both_finishes [OF go]) (auto simp: visits_left_def)
    then show ?thesis using Cons False by (simp add: return_body_def Let_def)
  qed
qed

lemma terminator_call:
  assumes "env_ok E" "BB \<in> set (module_blocks (module_ir E))" "kind (module_ir E) (terminator (module_ir E) BB) = KInvoke"
  shows "terminator (module_ir E) BB \<in> calls_of (module_ir E)"
proof -
  have "insts (module_ir E) BB \<noteq> []" using block_okD [OF assms(1,2)] by (simp add: block_ok_def)
  then have "terminator (module_ir E) BB \<in> set (insts (module_ir E) BB)" by (simp add: terminator_def)
  then show ?thesis using assms(2,3) by (auto simp: calls_of_def block_insts_def)
qed

lemma end_body_finishes:
  assumes env: "env_ok E" and go: "enough n E go" and st: "st_ok E st"
    and BB: "BB \<in> set (module_blocks (module_ir E))" and step: "int step < windowSize E"
    and fuel: "visits_left E st * per_visit E + (size_bound E + 2) + window_left E step + size_bound E + 1 \<le> n"
  shows "finishes E (end_body E go BB step st) st"
proof -
  let ?t = "terminator (module_ir E) BB"
  have invoke: "finishes E (explore_both go (normalDest (module_ir E) ?t) (step + 1) (unwindDest (module_ir E) ?t) step (callStack st) st) st"
    if "kind (module_ir E) ?t = KInvoke"
    using that st invoke_dests [OF env terminator_call [OF env BB that]] step fuel
    by (intro explore_both_finishes [OF go]) (auto simp: st_ok_def)
  have next_block: "finishes E (go (Loop b 0) step st) st" if "getSingleSuccessor (module_ir E) BB = Some b" for b
  proof -
    have b: "b \<in> set (module_blocks (module_ir E))"
      using that block_okD [OF env BB] by (auto simp: getSingleSuccessor_def block_ok_def split: list.splits)
    then have "remaining E b 0 \<le> size_bound E"
      using block_okD [OF env b] by (intro remaining_inside) (auto simp: block_ok_def)
    then show ?thesis using b st step fuel by (intro enoughD [OF go]) (auto simp: fuel_needed_def)
  qed
  show ?thesis
    using st invoke next_block return_body_finishes [OF env go st BB step fuel]
    by (auto simp: end_body_def Let_def split: option.split)
qed

lemma inst_body_finishes:
  assumes env: "env_ok E" and go: "enough n E go" and st: "st_ok E st"
    and BB: "BB \<in> set (module_blocks (module_ir E))" and step: "int step < windowSize E"
    and i: "i < length (insts (module_ir E) BB)" and fuel: "fuel_needed E (Loop BB i) step st \<le> Suc n"
  shows "finishes E (inst_body E go BB i step st) st"
proof -
  let ?I = "module_ir E" and ?v = "insts (module_ir E) BB ! i"
  have rem: "0 < remaining E BB i" using i by (simp add: remaining_def Let_def)
  have f: "visits_left E st * per_visit E + size_bound E + 3 +
      window_left E (Suc step) + (size_bound E + 2) + remaining E BB i \<le> Suc n"
    using fuel window_step [OF step] by (simp add: fuel_needed_def)
  have further: "finishes E (go (Loop b j) (step + 1) st1) st1"
    if "st_ok E st1" "visits_left E st1 = visits_left E st" "b \<in> set (module_blocks ?I)" for b j st1
    using that f rem remaining_bound [OF that(3), of j] step by (intro enoughD [OF go]) (auto simp: fuel_needed_def)
  have erase: "finishes E (go (Loop BB (i + 1)) (step + 1) (eraseOOW ?v st1)) st1"
    if "st_ok E st1" "visits_left E st1 = visits_left E st" for st1
  proof -
    have "visits_left E (eraseOOW ?v st1) = visits_left E st" using that(2) by (simp add: visits_left_def eraseOOW_def)
    then have "finishes E (go (Loop BB (i + 1)) (step + 1) (eraseOOW ?v st1)) (eraseOOW ?v st1)"
      using further [of "eraseOOW ?v st1" BB "i + 1"] that(1) BB by simp
    then show ?thesis by (rule finishes_frame [OF _ frame_erase])
  qed
  show ?thesis
  proof (cases "isCallBase ?I ?v \<and> calledFunction ?I ?v \<noteq> None")
    case False
    then show ?thesis using erase [OF st] by (auto simp: inst_body_def Let_def split: option.split)
  next
    case True
    then obtain g where g: "calledFunction ?I ?v = Some g" by auto
    have v: "?v \<in> calls_of ?I" using True nth_block_insts [OF BB i] by (simp add: calls_of_def)
    have gok: "g \<noteq> 0" "isDeclaration ?I g \<or> entryBlock ?I g \<in> set (module_blocks ?I)"
      using call_facts(4) [OF env v] g by (auto simp: call_ok_def)
    obtain st1 where r: "isRecursive E g st = Some (cyclic E g, st1)" "st_ok E st1" "frame st st1"
      "callStack st1 = callStack st" "visits_left E st1 = visits_left E st"
      using isRecursive_finishes [OF env st gok(1)] by metis
    have enter: "finishes E (go (Loop (entryBlock ?I g) 0) (step + 1) (st1\<lparr>callStack := ?v # callStack st1\<rparr>)) st1"
      if "\<not> isDeclaration ?I g"
      using further [of "st1\<lparr>callStack := ?v # callStack st1\<rparr>" "entryBlock ?I g" 0] r(2,4,5) gok that v st
      by (auto simp: visits_left_def st_ok_def cache_ok_def)
    have debug: "finishes E (go (Loop BB (i + 1)) step st1) st1" if "isDebugFunction ?I g"
    proof -
      have "i + 1 \<noteq> length (insts ?I BB)"
      proof
        assume "i + 1 = length (insts ?I BB)"
        then have "last (insts ?I BB) = ?v" using i by (metis add_diff_cancel_right' last_conv_nth list.size(3) not_less0)
        then show False using block_okD [OF env BB] that g True by (auto simp: block_ok_def not_debug_call_def)
      qed
      then have "Suc (remaining E BB (i + 1)) = remaining E BB i" using i by (auto simp: remaining_def Let_def)
      then show ?thesis using fuel r BB step by (intro enoughD [OF go]) (auto simp: fuel_needed_def)
    qed
    have "finishes E (if \<not> cyclic E g \<and> \<not> isDeclaration ?I g
        then go (Loop (entryBlock ?I g) 0) (step + 1) (st1\<lparr>callStack := ?v # callStack st1\<rparr>)
        else if \<not> cyclic E g \<and> isDebugFunction ?I g then go (Loop BB (i + 1)) step st1
        else go (Loop BB (i + 1)) (step + 1) (eraseOOW ?v st1)) st1"
      using enter debug erase [OF r(2,5)] by auto
    then show ?thesis using finishes_frame [OF _ r(3)] True g r(1) by (simp add: inst_body_def Let_def)
  qed
qed

lemma site_body_finishes:
  assumes env: "env_ok E" and go: "enough n E go" and st: "st_ok E st"
    and cs: "set (cs # rest) \<subseteq> calls_of (module_ir E)" and step: "int step \<le> max 0 (windowSize E)"
    and fuel: "fuel_needed E (Sites (cs # rest)) step st \<le> Suc n"
  shows "finishes E (site_body E go cs rest step st) st"
proof -
  let ?I = "module_ir E"
  have c: "cs \<in> calls_of ?I" using cs by simp
  have "getFunction ?I cs \<noteq> 0"
    using block_okD [OF env call_facts(2) [OF env c]] by (simp add: block_ok_def getFunction_def)
  then obtain st1 where r: "isRecursive E (getFunction ?I cs) st = Some (cyclic E (getFunction ?I cs), st1)"
    "st_ok E st1" "frame st st1" "visits_left E st1 = visits_left E st"
    using isRecursive_finishes [OF env st] by metis
  have n: "visits_left E st1 * per_visit E + length rest + 2 \<le> n" using fuel r(4) by (simp add: fuel_needed_def)
  have rest: "finishes E (go (Sites rest) step st2) st2" if "st_ok E st2" "frame st1 st2" for st2
    using that n cs step fuel_frame [OF that(2), of E "Sites rest" step] by (intro enoughD [OF go]) auto
  have "finishes E (if kind ?I cs = KCall then go (Explore (after (findInstructionIterator ?I cs))) step st1
      else explore_both go (normalDest ?I cs) step (unwindDest ?I cs) step [] st1) st1"
    using explore_both_finishes [OF go r(2), of "[]" "normalDest ?I cs" "unwindDest ?I cs" step step]
      invoke_dests [OF env c] call_facts(2) [OF env c] r(2) step n
      enoughD [OF go, of "Explore (after (findInstructionIterator ?I cs))" step st1]
    by (auto simp: fuel_needed_def after_def findInstructionIterator_def)
  then have "finishes E (Option.bind (if kind ?I cs = KCall then go (Explore (after (findInstructionIterator ?I cs))) step st1
      else explore_both go (normalDest ?I cs) step (unwindDest ?I cs) step [] st1)
      (\<lambda>(_, st2). go (Sites rest) step (st2\<lparr>callStack := []\<rparr>))) st1"
  proof (rule finishes_bind)
    fix s2 st2
    assume "st_ok E st2" "frame st1 st2"
    then show "finishes E (case (s2, st2) of (_, st2) \<Rightarrow> go (Sites rest) step (st2\<lparr>callStack := []\<rparr>)) st2"
      using rest [of "st2\<lparr>callStack := []\<rparr>"] by simp
  qed
  then have "finishes E (if cyclic E (getFunction ?I cs) then go (Sites rest) step st1
      else Option.bind (if kind ?I cs = KCall then go (Explore (after (findInstructionIterator ?I cs))) step st1
        else explore_both go (normalDest ?I cs) step (unwindDest ?I cs) step [] st1)
        (\<lambda>(_, st2). go (Sites rest) step (st2\<lparr>callStack := []\<rparr>))) st1"
    using rest [OF r(2)] by simp
  then show ?thesis using finishes_frame [OF _ r(3)] r(1) by (simp add: site_body_def Let_def)
qed

lemma explore_body_finishes:
  assumes env: "env_ok E" and go: "enough n E go" and st: "st_ok E st"
    and p: "fst p \<in> set (module_blocks (module_ir E))" and step: "int step \<le> max 0 (windowSize E)"
    and fuel: "visits_left E st * per_visit E + 1 \<le> Suc n"
  shows "finishes E (explore_body E go p step st) st"
proof -
  let ?k = "(inst_at (module_ir E) p, step)"
  let ?st = "st\<lparr>visitedInstructions := insert ?k (visitedInstructions st)\<rparr>"
  have "inst_at (module_ir E) p \<in> insert 0 (set (block_insts (module_ir E)))"
    using nth_block_insts [OF p] by (auto simp: inst_at_def)
  then have k: "?k \<in> visit_keys E" using step by (auto simp: visit_keys_def)
  show ?thesis
  proof (cases "?k \<in> visitedInstructions st")
    case True
    then show ?thesis using st by (simp add: explore_body_def Let_def)
  next
    case False
    have ok: "st_ok E ?st" using st k by (auto simp: st_ok_def cache_ok_def)
    have "visits_left E ?st < visits_left E st"
      using fresh_decreases [OF finite_keys k False] by (simp add: visits_left_def)
    then have "Suc (visits_left E ?st) * per_visit E \<le> visits_left E st * per_visit E" by (intro mult_right_mono) auto
    then have v: "visits_left E ?st * per_visit E + per_visit E \<le> n" using fuel by simp
    have "window_left E step \<le> (nat (windowSize E) + 1) * (size_bound E + 2)"
      unfolding window_left_def by (intro mult_right_mono) auto
    then have "task_fuel E (Loop (fst p) (snd p)) step \<le> per_visit E"
      using remaining_bound [OF p, of "snd p"] by (simp add: per_visit_def)
    then have "finishes E (go (Loop (fst p) (snd p)) step ?st) ?st"
      using v ok p step by (intro enoughD [OF go]) (auto simp: fuel_needed_def)
    moreover have "frame st ?st" by (auto simp: frame_def)
    ultimately show ?thesis using False finishes_frame by (auto simp: explore_body_def Let_def)
  qed
qed

lemma task_body_finishes:
  assumes env: "env_ok E" and go: "enough n E go"
  shows "enough (Suc n) E (task_body E go)"
  unfolding enough_def
proof (intro allI impI)
  fix t step st
  assume t: "task_ok E t step" and st: "st_ok E st" and fuel: "fuel_needed E t step st \<le> Suc n"
  show "finishes E (task_body E go t step st) st"
  proof (cases t)
    case (Explore p)
    then show ?thesis using explore_body_finishes [OF env go st] t fuel by (simp add: task_body_def fuel_needed_def)
  next
    case (Loop BB i)
    consider "\<not> int step < windowSize E" | "int step < windowSize E" "length (insts (module_ir E) BB) \<le> i"
      | "int step < windowSize E" "i < length (insts (module_ir E) BB)" by linarith
    then show ?thesis
    proof cases
      case 1
      then show ?thesis using Loop st by (simp add: task_body_def loop_body_def)
    next
      case 2
      then have "finishes E (end_body E go BB step st) st"
        using end_body_finishes [OF env go st] t fuel Loop by (auto simp: fuel_needed_def remaining_def Let_def)
      then show ?thesis using 2 Loop by (simp add: task_body_def loop_body_def)
    next
      case 3
      then have "finishes E (inst_body E go BB i step st) st"
        using inst_body_finishes [OF env go st] t fuel Loop by auto
      then show ?thesis using 3 Loop by (simp add: task_body_def loop_body_def)
    qed
  next
    case (Sites cs)
    then show ?thesis using site_body_finishes [OF env go st] t fuel st
      by (cases cs) (auto simp: task_body_def sites_body_def)
  qed
qed

lemma run_enough: "env_ok E \<Longrightarrow> enough n E (run n E)"
proof (induction n)
  case 0
  have "fuel_needed E t step st \<noteq> 0" for t step st by (cases t) (simp_all add: fuel_needed_def)
  then show ?case unfolding enough_def by (metis le_zero_eq)
next
  case (Suc n)
  then show ?case using task_body_finishes [of E n "run n E"] by simp
qed

text \<open>The fuel for one exploration: every visit key may start one more while loop.\<close>

definition explore_fuel :: "oow_env \<Rightarrow> nat" where
  "explore_fuel E = card (visit_keys E) * per_visit E + 1"

lemma explore_finishes:
  assumes "env_ok E" and "st_ok E st" and "fst p \<in> set (module_blocks (module_ir E))"
    and "int step \<le> max 0 (windowSize E)" and "explore_fuel E \<le> n"
  shows "finishes E (explore n E p step st) st"
  unfolding explore_def
proof (rule enoughD [OF run_enough [OF assms(1)]])
  have "visits_left E st \<le> card (visit_keys E)" unfolding visits_left_def by (intro card_mono) auto
  then have "visits_left E st * per_visit E \<le> card (visit_keys E) * per_visit E" by (rule mult_right_mono) simp
  then have "visits_left E st * per_visit E + 1 \<le> explore_fuel E" unfolding explore_fuel_def by (rule add_right_mono)
  then show "fuel_needed E (Explore p) step st \<le> n" using assms(5) unfolding fuel_needed_def task_fuel.simps by (rule le_trans)
qed (use assms in auto)

text \<open>
  C34: In a well-formed module every exploration returns: the fuel \<open>explore_fuel\<close>, computed from the number of
  instructions and the window, suffices from every well-formed state, more fuel does not hurt, and
  the state stays well formed.  The analysis only removes instructions from the out-of-window set.
\<close>

theorem explore_terminates:
  assumes "env_ok E" and "st_ok E st" and "fst p \<in> set (module_blocks (module_ir E))"
    and "int step \<le> max 0 (windowSize E)" and "explore_fuel E \<le> n"
  shows "\<exists>step' st'. explore n E p step st = Some (step', st') \<and> st_ok E st' \<and>
    OOWInstructions st' \<subseteq> OOWInstructions st"
  using explore_finishes [OF assms] by (auto simp: finishes_def frame_def)

subsection \<open>The whole analysis\<close>

definition settles :: "oow_env \<Rightarrow> OOWPass option \<Rightarrow> OOWPass \<Rightarrow> bool" where
  "settles E r st \<longleftrightarrow> (\<exists>st'. r = Some st' \<and> st_ok E st' \<and> frame st st')"

lemma settles_now [simp]: "st_ok E st \<Longrightarrow> settles E (Some st) st"
  by (auto simp: settles_def)

lemma settles_frame: "settles E r st1 \<Longrightarrow> frame st st1 \<Longrightarrow> settles E r st"
  unfolding settles_def using frame_trans by blast

lemma settles_bind:
  assumes "finishes E r st" and "\<And>step' st'. st_ok E st' \<Longrightarrow> frame st st' \<Longrightarrow> settles E (f (step', st')) st'"
  shows "settles E (Option.bind r f) st"
proof -
  obtain step' st' where r: "r = Some (step', st')" "st_ok E st'" "frame st st'" using assms(1) by (auto simp: finishes_def)
  show ?thesis using settles_frame [OF assms(2) [OF r(2,3)] r(3)] r(1) by simp
qed

lemma explore_calls_settles:
  assumes env: "env_ok E" and n: "explore_fuel E \<le> n"
  shows "list_all (\<lambda>p. fst p \<in> set (module_blocks (module_ir E)) \<and> snd p < length (insts (module_ir E) (fst p))) ps \<Longrightarrow>
    st_ok E st \<Longrightarrow> settles E (explore_calls n E ps st) st"
proof (induction ps arbitrary: st)
  case (Cons p ps)
  let ?I = "module_ir E" and ?v = "inst_at (module_ir E) p"
  have p: "fst p \<in> set (module_blocks ?I)" "snd p < length (insts ?I (fst p))" using Cons.prems(1) by auto
  have go: "settles E (Option.bind (explore n E p 0 st0) (\<lambda>(_, st2). explore_calls n E ps st2)) st0" if "st_ok E st0" for st0
    using explore_finishes [OF env that p(1) _ n, of 0] Cons.IH Cons.prems(1) by (intro settles_bind) auto
  show ?case
  proof (cases "isCallBase ?I ?v \<and> calledFunction ?I ?v \<noteq> None")
    case True
    then obtain f where f: "calledFunction ?I ?v = Some f" by auto
    have "?v \<in> calls_of ?I" using True nth_block_insts [OF p] p(2) by (simp add: calls_of_def inst_at_def)
    then have "f \<noteq> 0" using call_facts(4) [OF env, of ?v] f by (auto simp: call_ok_def)
    then obtain st1 where r: "isRecursive E f st = Some (cyclic E f, st1)" "st_ok E st1" "frame st st1"
      using isRecursive_finishes [OF env Cons.prems(2)] by metis
    have "settles E (if cyclic E f then Option.bind (explore n E p 0 st1) (\<lambda>(_, st2). explore_calls n E ps st2)
        else explore_calls n E ps st1) st1"
      using go [OF r(2)] Cons.IH [OF _ r(2)] Cons.prems(1) by simp
    then show ?thesis using settles_frame [OF _ r(3)] True f r(1) by (simp add: Let_def)
  next
    case False
    then show ?thesis using go [OF Cons.prems(2)] Cons by (auto simp: Let_def)
  qed
qed simp

lemma explore_blocks_settles:
  assumes env: "env_ok E" and n: "explore_fuel E \<le> n"
  shows "set bs \<subseteq> set (module_blocks (module_ir E)) \<Longrightarrow> st_ok E st \<Longrightarrow> settles E (explore_blocks n E bs st) st"
proof (induction bs arbitrary: st)
  case (Cons b bs)
  have "settles E (explore_blocks n E bs (st1\<lparr>callStack := []\<rparr>)) st1" if "st_ok E st1" for st1
    using Cons.IH [of "st1\<lparr>callStack := []\<rparr>"] Cons.prems(1) that by (simp add: settles_def)
  then show ?case using explore_finishes [OF env Cons.prems(2) _ _ n, of "(b, 0)" 0] Cons.prems(1)
    unfolding explore_blocks.simps by (intro settles_bind) auto
qed simp

lemma analyzeFunction_settles:
  assumes env: "env_ok E" and n: "explore_fuel E \<le> n" and st: "st_ok E st" and f: "f \<in> set (moduleFunctions (module_ir E))"
  shows "settles E (analyzeFunction n E f st) st"
proof -
  let ?I = "module_ir E"
  have b: "set (blocks ?I f) \<subseteq> set (module_blocks ?I)" using f by (auto simp: module_blocks_def)
  have pos: "list_all (\<lambda>p. fst p \<in> set (module_blocks ?I) \<and> snd p < length (insts ?I (fst p))) (positions ?I f)"
    using b by (auto simp: positions_def list_all_iff)
  have "set (branchTargets ?I x) \<subseteq> set (module_blocks ?I)" if "x \<in> set (blocks ?I f)" for x
  proof -
    have "set (successors ?I x) \<subseteq> set (module_blocks ?I)" using block_okD [OF env] b that by (auto simp: block_ok_def)
    moreover have "set (tl xs) \<subseteq> set xs" for xs :: "vid list" by (cases xs) auto
    ultimately show ?thesis unfolding branchTargets_def Let_def by (auto split: if_splits)
  qed
  then have targets: "set (concat (map (branchTargets ?I) (blocks ?I f))) \<subseteq> set (module_blocks ?I)" by auto
  obtain st1 where s1: "explore_calls n E (positions ?I f) st = Some st1" "st_ok E st1" "frame st st1"
    using explore_calls_settles [OF env n pos st] by (auto simp: settles_def)
  have "settles E (explore_blocks n E (concat (map (branchTargets ?I) (blocks ?I f))) st1) st1"
    by (rule explore_blocks_settles [OF env n targets s1(2)])
  then show ?thesis using settles_frame [OF _ s1(3)] s1(1) st by (simp add: analyzeFunction_def Let_def)
qed

lemma called_in_module:
  assumes "env_ok E" and "f \<in> set (moduleFunctions (module_ir E))"
  shows "set (calledFunctions (module_ir E) f) \<subseteq> set (moduleFunctions (module_ir E))"
proof
  fix g
  assume "g \<in> set (calledFunctions (module_ir E) f)"
  then obtain v where v: "v \<in> set (instructions (module_ir E) f)" "isCallBase (module_ir E) v" "calledFunction (module_ir E) v = Some g"
    by (auto simp: calledFunctions_def map_filter_def split: if_splits)
  then have "v \<in> calls_of (module_ir E)"
    using assms(2) by (auto simp: calls_of_def block_insts_def module_blocks_def instructions_def)
  then show "g \<in> set (moduleFunctions (module_ir E))"
    using call_facts(4) [OF assms(1), of v] v(3) by (auto simp: call_ok_def)
qed

lemma st_ok_visited [simp]: "st_ok E (st\<lparr>visitedFunctions := S\<rparr>) \<longleftrightarrow> st_ok E st"
  by (simp add: st_ok_def cache_ok_def)

lemma functions_loop_reaches:
  assumes env: "env_ok E" and n: "explore_fuel E \<le> n"
  shows "st_ok E st \<Longrightarrow> visitedFunctions st \<union> set q \<subseteq> set (moduleFunctions (module_ir E)) \<Longrightarrow>
    closed_upto (calledFunctions (module_ir E)) q (visitedFunctions st) \<Longrightarrow>
    \<exists>st'. functions_loop n E q st = Some st' \<and> OOWInstructions st' \<subseteq> OOWInstructions st \<and>
      visitedFunctions st' = reach (calledFunctions (module_ir E)) (visitedFunctions st \<union> set q)"
proof (induction "(st, q)" arbitrary: st q rule: wf_induct_rule [OF wf_measures [of
    "[\<lambda>(st, q). card (set (moduleFunctions (module_ir E)) - visitedFunctions st),
      \<lambda>(st, q). length (filter (\<lambda>f. f \<in> visitedFunctions st) q)]"]])
  case (1 st q)
  let ?I = "module_ir E" and ?V = "visitedFunctions st"
  show ?case
  proof (cases q)
    case Nil
    then show ?thesis using "1.prems"(3) reach_closed [of ?V "calledFunctions ?I"]
      by (simp add: functions_loop.simps closed_upto_def)
  next
    case (Cons F rest)
    have F: "F \<in> set (moduleFunctions ?I)" using "1.prems"(2) Cons by simp
    let ?new = "filter (\<lambda>f. f \<notin> insert F ?V) (calledFunctions ?I F)"
    obtain st1 where s1: "analyzeFunction n E F (st\<lparr>visitedFunctions := insert F ?V\<rparr>) = Some st1" "st_ok E st1"
      "frame (st\<lparr>visitedFunctions := insert F ?V\<rparr>) st1"
      using analyzeFunction_settles [OF env n, of "st\<lparr>visitedFunctions := insert F ?V\<rparr>" F] F "1.prems"(1) by (auto simp: settles_def)
    have v1: "visitedFunctions st1 = insert F ?V" "OOWInstructions st1 \<subseteq> OOWInstructions st"
      using s1(3) by (auto simp: frame_def)
    have run: "functions_loop n E q st = functions_loop n E (rest @ ?new) st1"
      using s1(1) v1(1) Cons by (subst functions_loop.simps) simp
    have set_new: "insert F ?V \<union> set (rest @ ?new) = insert F ?V \<union> set rest \<union> set (calledFunctions ?I F)" by auto
    have closed: "closed_upto (calledFunctions ?I) (rest @ ?new) (visitedFunctions st1)"
      using "1.prems"(3) unfolding closed_upto_def v1(1) set_new Cons by auto
    have sub: "visitedFunctions st1 \<union> set (rest @ ?new) \<subseteq> set (moduleFunctions ?I)"
      unfolding v1(1) set_new using "1.prems"(2) Cons F called_in_module [OF env F] by auto
    have less: "((st1, rest @ ?new), (st, q)) \<in> measures [\<lambda>(st, q). card (set (moduleFunctions ?I) - visitedFunctions st),
        \<lambda>(st, q). length (filter (\<lambda>f. f \<in> visitedFunctions st) q)]"
    proof (cases "F \<in> ?V")
      case True
      then have "visitedFunctions st1 = ?V" "filter (\<lambda>f. f \<in> ?V) ?new = []" using v1(1) by (auto simp: filter_empty_conv)
      then show ?thesis using True Cons by simp
    next
      case False
      then show ?thesis using fresh_decreases [of "set (moduleFunctions ?I)" F ?V] F v1(1) by simp
    qed
    have "reach (calledFunctions ?I) (insert F ?V \<union> set (rest @ ?new)) = reach (calledFunctions ?I) (?V \<union> set q)"
    proof -
      have "insert F ?V \<union> set (rest @ ?new) = (?V \<union> set q) \<union> set (calledFunctions ?I F)" using Cons by auto
      then show ?thesis using reach_step [of F "?V \<union> set q" "calledFunctions ?I"] Cons by simp
    qed
    then show ?thesis using "1.hyps" [OF less s1(2) sub closed] run v1 by auto
  qed
qed

lemma scan_inst_fields:
  "visitedFunctions (scan_inst I v st) = visitedFunctions st"
  "OOWInstructions (scan_inst I v st) = OOWInstructions st \<union> (if kind I v = KGEP then {v} else {})"
  by (auto simp: scan_inst_def Let_def split: option.split)

lemma st_ok_scan_inst:
  assumes "st_ok E st" and "v \<in> set (block_insts (module_ir E))"
  shows "st_ok E (scan_inst (module_ir E) v st)"
proof -
  have "v \<in> calls_of (module_ir E)" if "isCallBase (module_ir E) v" using that assms(2) by (simp add: calls_of_def)
  then show ?thesis using assms(1)
    by (auto simp: scan_inst_def Let_def st_ok_def cache_ok_def map_of_update split: option.split if_splits)
qed

lemma scan_fold:
  "st_ok E st \<Longrightarrow> set vs \<subseteq> set (block_insts (module_ir E)) \<Longrightarrow>
     st_ok E (fold (scan_inst (module_ir E)) vs st) \<and>
     visitedFunctions (fold (scan_inst (module_ir E)) vs st) = visitedFunctions st \<and>
     OOWInstructions (fold (scan_inst (module_ir E)) vs st) =
       OOWInstructions st \<union> set (filter (\<lambda>v. kind (module_ir E) v = KGEP) vs)"
proof (induction vs arbitrary: st)
  case (Cons v vs)
  then show ?case using Cons.IH [of "scan_inst (module_ir E) v st"] st_ok_scan_inst [of E st v]
    by (auto simp: scan_inst_fields)
qed simp

lemma set_module_insts: "set (module_insts I) = set (block_insts I)"
  by (auto simp: module_insts_def block_insts_def module_blocks_def instructions_def)

lemma find_SomeD: "find P xs = Some x \<Longrightarrow> x \<in> set xs"
  by (auto simp: find_Some_iff)

text \<open>
  C31: On a well-formed module with an entry function, the analysis returns; the functions it has
  analysed are exactly those reachable from the entry by direct calls, and the out-of-window set it
  reports consists of address computations of the module.
\<close>

theorem runOnModule_analyses_reachable_functions:
  assumes "env_ok E" and "explore_fuel E \<le> n"
    and "find (\<lambda>f. valueName (module_ir E) f = entry) (moduleFunctions (module_ir E)) = Some mainFunction"
  shows "\<exists>st'. runOnModule n E entry new_pass = Some st' \<and>
    visitedFunctions st' = reach (calledFunctions (module_ir E)) {mainFunction} \<and>
    OOWInstructions st' \<subseteq> memoryOpSet (module_ir E)"
proof -
  let ?I = "module_ir E"
  let ?st = "scan_module ?I (new_pass\<lparr>recursionCache := [], visitedInstructions := {}\<rparr>)"
  have init: "st_ok E (new_pass\<lparr>recursionCache := [], visitedInstructions := {}\<rparr>)"
    by (simp add: st_ok_def cache_ok_def new_pass_def)
  have st: "st_ok E ?st" "visitedFunctions ?st = {}" "OOWInstructions ?st = memoryOpSet ?I"
    using scan_fold [OF init, of "module_insts ?I"] set_module_insts [of ?I]
    by (auto simp: scan_module_def memoryOpSet_def new_pass_def)
  have "mainFunction \<in> set (moduleFunctions ?I)" using find_SomeD [OF assms(3)] .
  then have "\<exists>st'. functions_loop n E [mainFunction] ?st = Some st' \<and> OOWInstructions st' \<subseteq> OOWInstructions ?st \<and>
      visitedFunctions st' = reach (calledFunctions ?I) (visitedFunctions ?st \<union> set [mainFunction])"
    using functions_loop_reaches [OF assms(1,2) st(1), of "[mainFunction]"] st(2) by (simp add: closed_upto_def)
  then show ?thesis using assms(3) st by (auto simp: runOnModule_def Let_def)
qed

text \<open>An example module: \<open>main\<close> (function 1, block 3) calls function 2 (block 4).\<close>

definition module_example :: oow_env where
  "module_example = \<lparr>module_ir = empty_ir\<lparr>moduleFunctions := [1, 2], blocks := (\<lambda>f. if f = 1 then [3] else if f = 2 then [4] else []),
       insts := (\<lambda>b. if b = 3 then [10, 11] else if b = 4 then [12, 13] else []),
       parentBB := (\<lambda>v. if v \<in> {10, 11} then 3 else 4), parentFn := (\<lambda>b. if b = 3 then 1 else 2),
       kind := (\<lambda>v. if v = 10 then KCall else if v = 12 then KGEP else KReturn),
       calledFunction := (\<lambda>v. if v = 10 then Some 2 else None),
       valueName := (\<lambda>v. if v = 1 then ''main'' else ''f'')\<rparr>,
     callees = (\<lambda>f. if f = 1 then [2] else []), windowSize = 3\<rparr>"

lemma module_example_ok: "env_ok module_example"
  by (auto simp: module_example_def env_ok_def callgraph_ok_def module_blocks_def block_ok_def call_ok_def
      entryBlock_def empty_ir_def)

theorem runOnModule_analyses_reachable_functions_witness:
  "\<exists>st'. runOnModule (explore_fuel module_example) module_example ''main'' new_pass = Some st' \<and>
    visitedFunctions st' = reach (calledFunctions (module_ir module_example)) {1} \<and>
    OOWInstructions st' \<subseteq> memoryOpSet (module_ir module_example)"
  by (rule runOnModule_analyses_reachable_functions [OF module_example_ok]) (simp_all add: module_example_def)

theorem explore_terminates_witness:
  "\<exists>step' st'. explore (explore_fuel module_example) module_example (3, 0) 0 new_pass = Some (step', st') \<and>
    st_ok module_example st' \<and> OOWInstructions st' \<subseteq> OOWInstructions new_pass"
  by (rule explore_terminates [OF module_example_ok])
    (simp_all add: st_ok_def cache_ok_def new_pass_def module_example_def module_blocks_def empty_ir_def)

end
