(* ===== verification/PTA_Wrapper.thy ===== *)
theory PTA_Wrapper
  imports LLVM_IR
begin

text \<open>
  The wrapper around the pointer analysis (\<^verbatim>\<open>program-dependence-graph/src/PTAWrapper.cpp\<close>).  The
  analysis itself is SVF, a library: the record \<open>pta\<close> lists the queries the wrapper makes of the
  solved program assignment graph.  Points-to sets are lists of node numbers in increasing order, the
  order in which the source iterates them.  A failed assertion has the result \<open>None\<close>.
\<close>

datatype pag_node = ValVar | FIObjVar | GepObjVar nat | DummyObjVar | OtherVar

record pta =
  valueNode :: "vid \<Rightarrow> nat option"
  solvedPts :: "nat \<Rightarrow> nat list"
  expandFIObjs :: "nat list \<Rightarrow> nat list"
  getBaseObj :: "nat \<Rightarrow> nat"
  nodeKind :: "nat \<Rightarrow> pag_node"
  isHeapMem :: "nat \<Rightarrow> bool"
  isStackMem :: "nat \<Rightarrow> bool"
  isGlobalMem :: "nat \<Rightarrow> bool"
  nodeValue :: "nat \<Rightarrow> vid option"
  pagNodes :: "nat list"
  memType :: "nat \<Rightarrow> ty"
  numFlattenElements :: "ty \<Rightarrow> nat"
  byteSize :: "ty \<Rightarrow> nat"

definition is_ObjVar :: "pag_node \<Rightarrow> bool" where
  "is_ObjVar k \<longleftrightarrow> k \<noteq> ValVar \<and> k \<noteq> OtherVar"

subsection \<open>Points-to sets\<close>

definition getValueNode :: "pta \<Rightarrow> vid \<Rightarrow> nat" where
  "getValueNode P v = (case valueNode P v of Some n \<Rightarrow> n | None \<Rightarrow> 0)"

definition hasValueNode :: "pta \<Rightarrow> vid \<Rightarrow> bool" where
  "hasValueNode P v \<longleftrightarrow> valueNode P v \<noteq> None"

definition getPts :: "pta \<Rightarrow> vid \<Rightarrow> nat list" where
  "getPts P v = solvedPts P (getValueNode P v)"

definition getExpandedFIPts :: "pta \<Rightarrow> vid \<Rightarrow> nat list" where
  "getExpandedFIPts P v = expandFIObjs P (getPts P v)"

definition getBaseObjectId :: "pta \<Rightarrow> nat \<Rightarrow> nat" where
  "getBaseObjectId P n = getBaseObj P n"

subsection \<open>Kinds of objects\<close>

definition isHeapObject :: "pta \<Rightarrow> nat \<Rightarrow> bool option" where
  "isHeapObject P n = (if is_ObjVar (nodeKind P n) then Some (isHeapMem P n) else None)"

definition isStackObject :: "pta \<Rightarrow> nat \<Rightarrow> bool option" where
  "isStackObject P n = (if is_ObjVar (nodeKind P n) then Some (isStackMem P n) else None)"

definition isGlobalObject :: "pta \<Rightarrow> nat \<Rightarrow> bool option" where
  "isGlobalObject P n = (if is_ObjVar (nodeKind P n) then Some (isGlobalMem P n) else None)"

definition getNumOfObjects :: "pta \<Rightarrow> nat" where
  "getNumOfObjects P = length (filter (\<lambda>n. nodeKind P n = FIObjVar) (pagNodes P))"

subsection \<open>The allocation behind an object\<close>

text \<open>The null pointer is \<open>0\<close>; \<open>None\<close> is the failed assertion of \<open>getAlloca\<close>.\<close>

definition value_of :: "pta \<Rightarrow> nat \<Rightarrow> vid" where
  "value_of P n = (case nodeValue P n of Some v \<Rightarrow> v | None \<Rightarrow> 0)"

definition getAlloca :: "ir \<Rightarrow> pta \<Rightarrow> nat \<Rightarrow> vid option" where
  "getAlloca I P n = (let val = value_of P n in if kind I val = KAlloca then Some val else None)"

definition getMalloc :: "ir \<Rightarrow> pta \<Rightarrow> nat \<Rightarrow> vid" where
  "getMalloc I P n =
     (if nodeKind P n = DummyObjVar then 0
      else let val = value_of P n in if isCallBase I val then val else 0)"

definition getGlobal :: "ir \<Rightarrow> pta \<Rightarrow> nat \<Rightarrow> vid" where
  "getGlobal I P n = (let val = value_of P n in if kind I val = KGlobalVariable then val else 0)"

definition getLLVMValue :: "pta \<Rightarrow> nat \<Rightarrow> vid" where
  "getLLVMValue P n = value_of P n"

subsection \<open>Unsafe objects\<close>

definition insertUnsafePts :: "pta \<Rightarrow> vid \<Rightarrow> nat set \<Rightarrow> int \<times> nat set" where
  "insertUnsafePts P v unsafeObjSet =
     (let new = fold (\<lambda>n s. insert (getBaseObj P n) s) (getExpandedFIPts P v) unsafeObjSet
      in (int (card new) - int (card unsafeObjSet), new))"

fun gep_base :: "pag_node \<Rightarrow> nat option" where
  "gep_base (GepObjVar b) = Some b"
| "gep_base _ = None"

definition with_gep_bases :: "pta \<Rightarrow> nat list \<Rightarrow> nat set" where
  "with_gep_bases P ns = set ns \<union> set (List.map_filter (\<lambda>n. gep_base (nodeKind P n)) ns)"

definition isPointToUnsafeObjects :: "pta \<Rightarrow> nat set \<Rightarrow> vid \<Rightarrow> bool" where
  "isPointToUnsafeObjects P unsafeObjSet v \<longleftrightarrow> with_gep_bases P (getExpandedFIPts P v) \<inter> unsafeObjSet \<noteq> {}"

subsection \<open>The size of what a value points to\<close>

text \<open>\<open>Some None\<close>: the objects have different types.\<close>

fun commonType :: "pta \<Rightarrow> nat list \<Rightarrow> ty option \<Rightarrow> ty option option" where
  "commonType P [] t = Some t"
| "commonType P (n # ns) t =
     (if is_ObjVar (nodeKind P n)
      then (case t of None \<Rightarrow> commonType P ns (Some (memType P n))
            | Some u \<Rightarrow> if u \<noteq> memType P n then None else commonType P ns t)
      else commonType P ns t)"

definition sizeOfType :: "pta \<Rightarrow> ty \<Rightarrow> int" where
  "sizeOfType P t0 =
     (let t = getElementType t0
      in case t of
           ArrayTy _ e \<Rightarrow> int (numFlattenElements P t) * int (byteSize P e)
         | StructTy _ \<Rightarrow> int (byteSize P t)
         | _ \<Rightarrow> - 1)"

definition getSizeForValue :: "pta \<Rightarrow> vid \<Rightarrow> int" where
  "getSizeForValue P v =
     (case commonType P (getExpandedFIPts P v) None of
        None \<Rightarrow> - 1
      | Some None \<Rightarrow> - 1
      | Some (Some t) \<Rightarrow> sizeOfType P t)"

subsection \<open>Properties\<close>

lemma fold_insert_base: "fold (\<lambda>n s. insert (g n) s) ns S = S \<union> g ` set ns"
  by (induction ns arbitrary: S) auto

text \<open>What SVF documents of base objects: a field object's base node is its base object, any other object is its own.\<close>

definition bases_ok :: "pta \<Rightarrow> bool" where
  "bases_ok P \<longleftrightarrow> (\<forall>n. getBaseObj P n = (case gep_base (nodeKind P n) of Some b \<Rightarrow> b | None \<Rightarrow> n))"

lemma base_in_pts: "bases_ok P \<Longrightarrow> n \<in> set ns \<Longrightarrow> getBaseObj P n \<in> with_gep_bases P ns"
  by (cases "gep_base (nodeKind P n)") (auto simp: bases_ok_def with_gep_bases_def map_filter_def image_iff)

text \<open>
  Marking the objects of a value as unsafe is complete for sharing: afterwards every value that may
  point into a marked object, or into a field of one, is reported as pointing to unsafe objects, and
  the returned number is the number of objects that were added.
\<close>

theorem unsafe_objects_shared:
  assumes "bases_ok P" and "finite S" and "n \<in> set (getExpandedFIPts P v)" and "m \<in> set (getExpandedFIPts P w)"
    and "getBaseObj P n = getBaseObj P m"
  shows "isPointToUnsafeObjects P (snd (insertUnsafePts P v S)) w \<and>
    fst (insertUnsafePts P v S) = int (card (getBaseObj P ` set (getExpandedFIPts P v) - S))"
proof -
  let ?N = "getBaseObj P ` set (getExpandedFIPts P v)"
  have new: "snd (insertUnsafePts P v S) = S \<union> ?N"
    by (simp add: insertUnsafePts_def Let_def fold_insert_base)
  have "card (S \<union> ?N) = card S + card (?N - S)"
    using card_Un_disjoint [of S "?N - S"] assms(2) by (simp add: Un_Diff_cancel)
  then have "fst (insertUnsafePts P v S) = int (card (?N - S))"
    by (simp add: insertUnsafePts_def Let_def fold_insert_base)
  moreover have "getBaseObj P m \<in> with_gep_bases P (getExpandedFIPts P w)" using base_in_pts assms(1,4) .
  moreover have "getBaseObj P m \<in> ?N" using assms(3,5) by (metis image_eqI)
  ultimately show ?thesis using new by (auto simp: isPointToUnsafeObjects_def)
qed

definition pta_example :: pta where
  "pta_example = \<lparr>valueNode = Some, solvedPts = (\<lambda>n. if n = 1 then [10] else if n = 2 then [11] else []),
     expandFIObjs = (\<lambda>ns. ns), getBaseObj = (\<lambda>n. if n = 11 then 10 else n),
     nodeKind = (\<lambda>n. if n = 11 then GepObjVar 10 else FIObjVar), isHeapMem = (\<lambda>_. True), isStackMem = (\<lambda>_. False),
     isGlobalMem = (\<lambda>_. False), nodeValue = (\<lambda>_. None), pagNodes = [1, 2, 10, 11], memType = (\<lambda>_. StructTy 0),
     numFlattenElements = (\<lambda>_. 1), byteSize = (\<lambda>_. 8)\<rparr>"

theorem unsafe_objects_shared_witness:
  "isPointToUnsafeObjects pta_example (snd (insertUnsafePts pta_example 1 {})) 2 \<and>
    fst (insertUnsafePts pta_example 1 {}) = int (card (getBaseObj pta_example ` set (getExpandedFIPts pta_example 1) - {}))"
  by (rule unsafe_objects_shared [where n = 10 and m = 11])
    (simp_all add: pta_example_def bases_ok_def getExpandedFIPts_def getPts_def getValueNode_def)

end
