(* ===== verification/Taint_Pass.thy ===== *)
theory Taint_Pass
  imports Search PTA_Wrapper Analysis_State
begin

text \<open>
  The interprocedural taint analysis (\<^verbatim>\<open>Taint.cpp\<close>).  It collects the address computations that an earlier
  pass has marked as unsafe, follows each of them forward to the first memory operations, spreads
  taint from these operations over the module, and splits the marked computations into those that
  taint reaches (second stage) and the others, whose markers are removed.  The set \<open>ReachableGEPs\<close> and
  the queue \<open>Worklist\<close> are members of the pass; a \<^verbatim>\<open>std::set\<close> is iterated in the order of addresses.
\<close>

subsection \<open>Collecting the marked address computations\<close>

definition module_instructions :: "ir \<Rightarrow> vid list" where
  "module_instructions I = concat (map (instructions I) (moduleFunctions I))"

definition marked_gep :: "ir \<Rightarrow> vid \<Rightarrow> vid option" where
  "marked_gep I v =
     (if kind I v = KCall \<and> inlineAsm I (calledOperand I v) = Some MAGIC_ASM_END
      then (case getPrevNode I v of Some p \<Rightarrow> if kind I p = KGEP then Some p else None | None \<Rightarrow> None)
      else None)"

definition dgUnsafeGEPs :: "ir \<Rightarrow> vid list" where
  "dgUnsafeGEPs I = sorted_list_of_set (set (List.map_filter (marked_gep I) (module_instructions I)))"

subsection \<open>Propagation targets\<close>

text \<open>The formal arguments that receive \<open>current\<close> in a call of a defined function.\<close>

definition call_targets :: "ir \<Rightarrow> vid \<Rightarrow> vid \<Rightarrow> vid list" where
  "call_targets I callBase current =
     (case calledFunction I callBase of
        None \<Rightarrow> []
      | Some f \<Rightarrow>
          (if isDeclaration I f then []
           else map (\<lambda>i. formals I f ! i)
             (filter (\<lambda>i. callArgs I callBase ! i = current \<and> i < length (formals I f)) [0..<length (callArgs I callBase)])))"

definition return_targets :: "ir \<Rightarrow> vid \<Rightarrow> vid list" where
  "return_targets I returnInst =
     (if operands I returnInst \<noteq> [] then filter (isCallBase I) (users I (getFunction I returnInst)) else [])"

text \<open>The values the first fixpoint propagates to from one user of \<open>current\<close>.\<close>

definition first_targets :: "ir \<Rightarrow> vid \<Rightarrow> vid \<Rightarrow> vid list" where
  "first_targets I current U =
     (if \<not> isInstruction I U then []
      else if kind I U = KLoad \<or> kind I U = KStore then []
      else if isCallBase I U then call_targets I U current
      else if kind I U = KReturn then return_targets I U
      else [U])"

definition first_succs :: "ir \<Rightarrow> vid \<Rightarrow> vid list" where
  "first_succs I current = filter (\<lambda>v. v \<noteq> 0) (concat (map (first_targets I current) (users I current)))"

text \<open>The memory operations recorded at one value, and whether it is the address of a store.\<close>

definition first_memops :: "ir \<Rightarrow> vid \<Rightarrow> vid list" where
  "first_memops I current =
     filter (\<lambda>U. kind I U = KLoad \<or> (kind I U = KStore \<and> storePointer I U \<noteq> current)) (users I current)"

definition stored_through :: "ir \<Rightarrow> vid \<Rightarrow> bool" where
  "stored_through I current \<longleftrightarrow> list_ex (\<lambda>U. kind I U = KStore \<and> storePointer I U = current) (users I current)"

subsection \<open>First memory operations\<close>

text \<open>The state of the loop: visited values, memory operations found, whether the address is stored through.\<close>

partial_function (option) first_loop ::
    "ir \<Rightarrow> vid list \<Rightarrow> vid set \<Rightarrow> vid set \<Rightarrow> bool \<Rightarrow> (vid set \<times> vid set \<times> bool) option" where
  "first_loop I worklist visited memops reached =
     (case worklist of
        [] \<Rightarrow> Some (visited, memops, reached)
      | current # rest \<Rightarrow>
          (let acc = fold enqueue (first_succs I current) (visited, rest)
           in first_loop I (snd acc) (fst acc) (memops \<union> set (first_memops I current))
                (reached \<or> stored_through I current)))"

record first_state =
  fs_visited :: "vid set"
  firstMemOpMap :: "(vid, vid set) dict"
  fs_reachable :: "vid set"

definition first_gep :: "ir \<Rightarrow> vid \<Rightarrow> first_state \<Rightarrow> first_state option" where
  "first_gep I gep st =
     (let acc = enqueue gep (fs_visited st, [])
      in map_option (\<lambda>(visited, memops, reached).
           \<lparr>fs_visited = visited, firstMemOpMap = AList.update gep memops (firstMemOpMap st),
            fs_reachable = (if reached then insert gep (fs_reachable st) else fs_reachable st)\<rparr>)
         (first_loop I (snd acc) (fst acc) {} False))"

fun first_geps :: "ir \<Rightarrow> vid list \<Rightarrow> first_state \<Rightarrow> first_state option" where
  "first_geps I [] st = Some st"
| "first_geps I (gep # geps) st = Option.bind (first_gep I gep st) (first_geps I geps)"

definition first_init :: first_state where
  "first_init = \<lparr>fs_visited = {}, firstMemOpMap = [], fs_reachable = {}\<rparr>"

definition sources :: "first_state \<Rightarrow> vid list" where
  "sources st = rev (remdups (rev (concat (map (\<lambda>(_, ops). sorted_list_of_set ops)
     (sort_key fst (firstMemOpMap st))))))"

subsection \<open>Spreading taint\<close>

definition object_targets :: "ir \<Rightarrow> pta \<Rightarrow> nat \<Rightarrow> vid list option" where
  "object_targets I P obj =
     (let base = getBaseObjectId P obj
      in Option.bind (isHeapObject P base) (\<lambda>heap. if heap then Some [getMalloc I P base]
         else Option.bind (isStackObject P base) (\<lambda>stack. if stack then map_option (\<lambda>a. [a]) (getAlloca I P base)
         else Option.bind (isGlobalObject P base) (\<lambda>global. Some (if global then [getGlobal I P base] else [])))))"

fun concat_options :: "'a list option list \<Rightarrow> 'a list option" where
  "concat_options [] = Some []"
| "concat_options (None # _) = None"
| "concat_options (Some xs # rest) = map_option (\<lambda>ys. xs @ ys) (concat_options rest)"

definition handleStoreInst :: "ir \<Rightarrow> pta \<Rightarrow> vid \<Rightarrow> vid \<Rightarrow> vid list option" where
  "handleStoreInst I P storeInst current =
     (if storeValue I storeInst = current
      then concat_options (map (object_targets I P) (getPts P (storePointer I storeInst)))
      else Some [])"

definition handleCallInst :: "ir \<Rightarrow> vid \<Rightarrow> vid \<Rightarrow> vid list" where
  "handleCallInst I callBase current = call_targets I callBase current"

definition handleLoadInst :: "vid \<Rightarrow> vid list" where
  "handleLoadInst loadInst = [loadInst]"

definition handleReturnInst :: "ir \<Rightarrow> vid \<Rightarrow> vid list" where
  "handleReturnInst I returnInst = return_targets I returnInst"

definition taint_targets :: "ir \<Rightarrow> pta \<Rightarrow> vid \<Rightarrow> vid \<Rightarrow> vid list option" where
  "taint_targets I P current U =
     (if \<not> isInstruction I U then Some []
      else if isCallBase I U then Some (handleCallInst I U current)
      else if kind I U = KLoad then Some (handleLoadInst U)
      else if kind I U = KStore then handleStoreInst I P U current
      else if kind I U = KReturn then Some (handleReturnInst I U)
      else Some [U])"

definition taint_succs :: "ir \<Rightarrow> pta \<Rightarrow> vid \<Rightarrow> vid list option" where
  "taint_succs I P current =
     map_option (filter (\<lambda>v. v \<noteq> 0)) (concat_options (map (taint_targets I P current) (users I current)))"

partial_function (option) taint_loop :: "(vid \<Rightarrow> vid list option) \<Rightarrow> vid list \<Rightarrow> vid set \<Rightarrow> vid set option" where
  "taint_loop targets worklist reachable =
     (case worklist of
        [] \<Rightarrow> Some reachable
      | current # rest \<Rightarrow>
          (case targets current of
             None \<Rightarrow> None
           | Some vs \<Rightarrow>
               (let acc = fold enqueue vs (reachable, rest)
                in taint_loop targets (snd acc) (fst acc))))"

subsection \<open>The result\<close>

record taint_result =
  ReachableGEPs :: "vid set"
  firstStageGEPs :: "vid set"
  secondStageGEPs :: "vid set"
  branches :: "vid set"
  hardenedBB :: "vid set"
  toBeRemoved :: "vid option set"

definition taint_report :: "ir \<Rightarrow> vid list \<Rightarrow> vid set \<Rightarrow> taint_result" where
  "taint_report I geps reachable =
     (let first = {g \<in> set geps. g \<notin> reachable}; second = {g \<in> set geps. g \<in> reachable};
          brs = {v \<in> reachable. is_Br_k (kind I v)}; mis = set (module_instructions I)
      in \<lparr>ReachableGEPs = reachable, firstStageGEPs = first, secondStageGEPs = second, branches = brs,
          hardenedBB = parentBB I ` {v \<in> mis. v \<in> second \<or> v \<in> brs},
          toBeRemoved = getPrevNode I ` {v \<in> mis. v \<in> first} \<union> getNextNode I ` {v \<in> mis. v \<in> first}\<rparr>)"

definition runTaint :: "ir \<Rightarrow> pta \<Rightarrow> taint_result option" where
  "runTaint I P =
     Option.bind (first_geps I (dgUnsafeGEPs I) first_init) (\<lambda>st.
       map_option (taint_report I (dgUnsafeGEPs I)) (taint_loop (taint_succs I P) (sources st) (fs_reachable st)))"

subsection \<open>The loops as searches\<close>

definition collect_first :: "ir \<Rightarrow> vid \<Rightarrow> vid set \<times> bool \<Rightarrow> vid set \<times> bool" where
  "collect_first I v a = (fst a \<union> set (first_memops I v), snd a \<or> stored_through I v)"

interpretation first_search: push_search "\<lambda>q V a. first_loop I q V (fst a) (snd a)" "first_succs I" "collect_first I" for I
proof unfold_locales
  show "first_loop I (x # q) V (fst a) (snd a) =
      first_loop I (snd (fold enqueue (first_succs I x) (V, q))) (fst (fold enqueue (first_succs I x) (V, q)))
        (fst (collect_first I x a)) (snd (collect_first I x a))" for x q V a
    by (subst first_loop.simps) (simp add: Let_def collect_first_def)
qed (simp add: first_loop.simps)

lemma fold_collect_first:
  "fold (collect_first I) xs a = (fst a \<union> (\<Union>v \<in> set xs. set (first_memops I v)), snd a \<or> list_ex (stored_through I) xs)"
  by (induction xs arbitrary: a) (auto simp: collect_first_def)

text \<open>A module whose use lists and argument lists stay within a finite set of values.\<close>

definition values_closed :: "vid set \<Rightarrow> ('v \<Rightarrow> vid list) \<Rightarrow> 'v set \<Rightarrow> bool" where
  "values_closed U succ S \<longleftrightarrow> (\<forall>x \<in> S. set (succ x) \<subseteq> U)"

definition first_reach :: "ir \<Rightarrow> vid set \<Rightarrow> vid \<Rightarrow> vid set" where
  "first_reach I V gep = insert gep ((unmarked (first_succs I) (insert gep V))\<^sup>+ `` {gep})"

text \<open>
  The search from one marked address computation that has not been visited before returns; the
  memory operations it records are those of all values reached from the address without passing
  through values of earlier searches, and the address counts as reachable exactly if one of these
  values is used as the address of a store.
\<close>

theorem first_memory_operations_exact:
  assumes "finite U" and "values_closed U (first_succs I) U" and "gep \<in> U" and "gep \<notin> fs_visited st"
  shows "first_gep I gep st = Some
    \<lparr>fs_visited = fs_visited st \<union> first_reach I (fs_visited st) gep,
     firstMemOpMap = AList.update gep (\<Union>v \<in> first_reach I (fs_visited st) gep. set (first_memops I v)) (firstMemOpMap st),
     fs_reachable = (if \<exists>v \<in> first_reach I (fs_visited st) gep. stored_through I v
       then insert gep (fs_reachable st) else fs_reachable st)\<rparr>"
proof -
  let ?V = "insert gep (fs_visited st)" and ?R = "first_reach I (fs_visited st) gep"
  have "\<exists>xs. first_loop I [gep] ?V {} False =
      Some (?V \<union> (unmarked (first_succs I) ?V)\<^sup>+ `` {gep}, fold (collect_first I) xs ({}, False)) \<and>
      set xs = {gep} \<union> (unmarked (first_succs I) ?V)\<^sup>+ `` {gep}"
    using first_search.run_marks [OF assms(1), of I "[gep]" ?V "({}, False)"] assms(2,3) by (simp add: values_closed_def)
  then obtain xs where xs: "first_loop I [gep] ?V {} False =
      Some (?V \<union> (unmarked (first_succs I) ?V)\<^sup>+ `` {gep}, fold (collect_first I) xs ({}, False))" "set xs = ?R"
    by (auto simp: first_reach_def)
  have "?V \<union> (unmarked (first_succs I) ?V)\<^sup>+ `` {gep} = fs_visited st \<union> ?R" by (auto simp: first_reach_def)
  moreover have "list_ex (stored_through I) xs \<longleftrightarrow> (\<exists>v \<in> ?R. stored_through I v)" using xs(2) by (simp add: list_ex_iff)
  ultimately show ?thesis using assms(4) xs by (simp add: first_gep_def enqueue_def fold_collect_first)
qed

definition taint_example :: ir where
  "taint_example = empty_ir\<lparr>kind := (\<lambda>v. if v = 1 then KGEP else if v = 2 then KCast BitCast else if v = 3 then KStore
       else if v = 4 then KLoad else KArgument),
     operands := (\<lambda>v. if v = 3 then [7, 2] else if v = 4 then [1] else []),
     users := (\<lambda>v. if v = 1 then [2, 4] else if v = 2 then [3] else [])\<rparr>"

theorem first_memory_operations_exact_witness:
  "first_gep taint_example 1 first_init = Some
    \<lparr>fs_visited = fs_visited first_init \<union> first_reach taint_example (fs_visited first_init) 1,
     firstMemOpMap = AList.update 1 (\<Union>v \<in> first_reach taint_example (fs_visited first_init) 1. set (first_memops taint_example v))
       (firstMemOpMap first_init),
     fs_reachable = (if \<exists>v \<in> first_reach taint_example (fs_visited first_init) 1. stored_through taint_example v
       then insert 1 (fs_reachable first_init) else fs_reachable first_init)\<rparr>"
  by (rule first_memory_operations_exact [where U = "{1, 2, 3, 4}"])
    (simp_all add: values_closed_def first_succs_def first_targets_def taint_example_def empty_ir_def first_init_def)

text \<open>
  An address computation that an earlier search has visited gets no memory operations and is not
  marked as reachable, even when it is used as the address of a store: the visited set is shared
  between the searches.
\<close>

theorem visited_gep_is_skipped:
  assumes "gep \<in> fs_visited st"
  shows "first_gep I gep st = Some (st\<lparr>firstMemOpMap := AList.update gep {} (firstMemOpMap st)\<rparr>)"
  using assms by (simp add: first_gep_def enqueue_def first_loop.simps)

theorem visited_gep_is_skipped_witness:
  "first_gep taint_example 1 (first_init\<lparr>fs_visited := {1}\<rparr>) = Some (first_init\<lparr>fs_visited := {1},
     firstMemOpMap := AList.update 1 {} (firstMemOpMap (first_init\<lparr>fs_visited := {1}\<rparr>))\<rparr>)"
  by (subst visited_gep_is_skipped) simp_all

subsection \<open>Spreading taint, as a search\<close>

interpretation taint_search: push_search
  "\<lambda>q V (u :: unit). map_option (\<lambda>r. (r, u)) (taint_loop (\<lambda>v. Some (succ v)) q V)" succ "\<lambda>_ u. u" for succ
proof unfold_locales
  show "map_option (\<lambda>r. (r, u)) (taint_loop (\<lambda>v. Some (succ v)) (x # q) V) =
      map_option (\<lambda>r. (r, u)) (taint_loop (\<lambda>v. Some (succ v)) (snd (fold enqueue (succ x) (V, q)))
        (fst (fold enqueue (succ x) (V, q))))" for x q V and u :: unit
    by (subst taint_loop.simps) (simp add: Let_def)
qed (simp add: taint_loop.simps)

text \<open>What the pass relies on of the pointer analysis: base objects are objects, and the value of a stack object is an alloca.\<close>

definition objects_ok :: "ir \<Rightarrow> pta \<Rightarrow> bool" where
  "objects_ok I P \<longleftrightarrow> (\<forall>n. is_ObjVar (nodeKind P (getBaseObj P n)) \<and>
     (isStackMem P (getBaseObj P n) \<longrightarrow> kind I (value_of P (getBaseObj P n)) = KAlloca))"

definition taint_edges :: "ir \<Rightarrow> pta \<Rightarrow> vid \<Rightarrow> vid list" where
  "taint_edges I P v = (case taint_succs I P v of Some vs \<Rightarrow> vs | None \<Rightarrow> [])"

lemma concat_options_Some: "list_all (\<lambda>x. x \<noteq> None) xs \<Longrightarrow> concat_options xs \<noteq> None"
  by (induction xs rule: concat_options.induct) auto

lemma object_targets_Some: "objects_ok I P \<Longrightarrow> object_targets I P n \<noteq> None"
  by (auto simp: object_targets_def objects_ok_def getBaseObjectId_def isHeapObject_def isStackObject_def
      isGlobalObject_def getAlloca_def Let_def)

lemma taint_succs_edges: "objects_ok I P \<Longrightarrow> taint_succs I P = (\<lambda>v. Some (taint_edges I P v))"
proof
  fix v
  assume ok: "objects_ok I P"
  have "handleStoreInst I P U v \<noteq> None" for U
    unfolding handleStoreInst_def
    using concat_options_Some [of "map (object_targets I P) (getPts P (storePointer I U))"] object_targets_Some [OF ok]
    by (auto simp: list_all_iff)
  then have "taint_targets I P v U \<noteq> None" for U by (simp add: taint_targets_def)
  then have "concat_options (map (taint_targets I P v) (users I v)) \<noteq> None"
    by (intro concat_options_Some) (auto simp: list_all_iff)
  then show "taint_succs I P v = Some (taint_edges I P v)" by (auto simp: taint_edges_def taint_succs_def)
qed

lemma taint_loop_marks:
  assumes "objects_ok I P" and "finite U" and "values_closed U (taint_edges I P) U" and "set q \<subseteq> U"
  shows "taint_loop (taint_succs I P) q V = Some (V \<union> (unmarked (taint_edges I P) V)\<^sup>+ `` set q)"
  using taint_search.run_marks [OF assms(2), of "taint_edges I P" q "()" V] assms(3,4)
  by (auto simp: values_closed_def taint_succs_edges [OF assms(1)])

text \<open>
  The flow of taint from a value to another, as a relation on the module: from an argument to the parameter of the called function,
  to a load through the value, from a stored value to the allocations of the objects it may be stored to, from a returned value to the
  calls of the function, and from an operand to any other instruction that uses it.
\<close>

definition allocation_of :: "ir \<Rightarrow> pta \<Rightarrow> nat \<Rightarrow> vid" where
  "allocation_of I P obj =
     (if isHeapMem P obj then getMalloc I P obj else if isStackMem P obj then value_of P obj
      else if isGlobalMem P obj then getGlobal I P obj else 0)"

inductive taint_flow :: "ir \<Rightarrow> pta \<Rightarrow> vid \<Rightarrow> vid \<Rightarrow> bool" for I P v where
  flow_argument: "U \<in> set (users I v) \<Longrightarrow> isCallBase I U \<Longrightarrow> calledFunction I U = Some f \<Longrightarrow> \<not> isDeclaration I f \<Longrightarrow>
    i < length (callArgs I U) \<Longrightarrow> callArgs I U ! i = v \<Longrightarrow> i < length (formals I f) \<Longrightarrow> formals I f ! i \<noteq> 0 \<Longrightarrow> taint_flow I P v (formals I f ! i)"
| flow_load: "U \<in> set (users I v) \<Longrightarrow> kind I U = KLoad \<Longrightarrow> U \<noteq> 0 \<Longrightarrow> taint_flow I P v U"
| flow_store: "U \<in> set (users I v) \<Longrightarrow> kind I U = KStore \<Longrightarrow> storeValue I U = v \<Longrightarrow> n \<in> set (getPts P (storePointer I U)) \<Longrightarrow>
    allocation_of I P (getBaseObj P n) \<noteq> 0 \<Longrightarrow> taint_flow I P v (allocation_of I P (getBaseObj P n))"
| flow_return: "U \<in> set (users I v) \<Longrightarrow> kind I U = KReturn \<Longrightarrow> operands I U \<noteq> [] \<Longrightarrow> c \<in> set (users I (getFunction I U)) \<Longrightarrow>
    isCallBase I c \<Longrightarrow> c \<noteq> 0 \<Longrightarrow> taint_flow I P v c"
| flow_use: "U \<in> set (users I v) \<Longrightarrow> isInstruction I U \<Longrightarrow> \<not> isCallBase I U \<Longrightarrow> kind I U \<notin> {KLoad, KStore, KReturn} \<Longrightarrow> U \<noteq> 0 \<Longrightarrow> taint_flow I P v U"

inductive_cases taint_flowE: "taint_flow I P v w"

lemma concat_options_set: "concat_options xs = Some ys \<Longrightarrow> set ys = (\<Union>zs \<in> {zs. Some zs \<in> set xs}. set zs)"
  by (induction xs arbitrary: ys rule: concat_options.induct) auto

lemma object_targets_allocation:
  "objects_ok I P \<Longrightarrow> \<exists>zs. object_targets I P n = Some zs \<and> (\<forall>z. z \<noteq> 0 \<longrightarrow> z \<in> set zs \<longleftrightarrow> z = allocation_of I P (getBaseObj P n))"
  by (auto simp: object_targets_def objects_ok_def getBaseObjectId_def isHeapObject_def isStackObject_def isGlobalObject_def getAlloca_def
      allocation_of_def Let_def)

lemma store_targets:
  assumes "objects_ok I P"
  shows "\<exists>zs. concat_options (map (object_targets I P) ns) = Some zs \<and>
    (\<forall>z. z \<noteq> 0 \<longrightarrow> z \<in> set zs \<longleftrightarrow> (\<exists>n \<in> set ns. z = allocation_of I P (getBaseObj P n)))"
proof (induction ns)
  case (Cons n ns)
  then obtain zs where "concat_options (map (object_targets I P) ns) = Some zs"
    "\<forall>z. z \<noteq> 0 \<longrightarrow> z \<in> set zs \<longleftrightarrow> (\<exists>n \<in> set ns. z = allocation_of I P (getBaseObj P n))" by blast
  moreover obtain ys where "object_targets I P n = Some ys" "\<forall>z. z \<noteq> 0 \<longrightarrow> z \<in> set ys \<longleftrightarrow> z = allocation_of I P (getBaseObj P n)"
    using object_targets_allocation [OF assms] by blast
  ultimately show ?case by simp
qed simp

lemma instruction_kinds: "isCallBase I U \<Longrightarrow> isInstruction I U" "kind I U = KLoad \<Longrightarrow> isInstruction I U" "kind I U = KStore \<Longrightarrow> isInstruction I U"
  "kind I U = KReturn \<Longrightarrow> isInstruction I U"
  by (cases "kind I U"; simp)+

lemma taint_targets_flow:
  assumes "objects_ok I P" and "U \<in> set (users I v)"
  shows "\<exists>zs. taint_targets I P v U = Some zs \<and> (\<forall>z \<in> set zs. z \<noteq> 0 \<longrightarrow> taint_flow I P v z)"
proof (cases "kind I U = KStore")
  case True
  obtain zs where zs: "concat_options (map (object_targets I P) (getPts P (storePointer I U))) = Some zs"
    "\<forall>z. z \<noteq> 0 \<longrightarrow> z \<in> set zs \<longleftrightarrow> (\<exists>n \<in> set (getPts P (storePointer I U)). z = allocation_of I P (getBaseObj P n))"
    using store_targets [OF assms(1)] by blast
  have "taint_targets I P v U = (if storeValue I U = v then Some zs else Some [])"
    using True zs(1) instruction_kinds(3) [OF True] by (simp add: taint_targets_def handleStoreInst_def)
  then show ?thesis using zs(2) flow_store [OF assms(2) True] by auto
next
  case False
  then show ?thesis
    using assms(2) by (auto simp: taint_targets_def handleCallInst_def call_targets_def handleLoadInst_def handleReturnInst_def return_targets_def
        split: option.split intro: taint_flow.intros)
qed

lemma flow_taint_targets:
  assumes "objects_ok I P" and "taint_flow I P v w"
  shows "w \<noteq> 0 \<and> (\<exists>U \<in> set (users I v). \<exists>zs. taint_targets I P v U = Some zs \<and> w \<in> set zs)"
  using assms(2)
proof (cases rule: taint_flow.cases)
  case (flow_argument U f i)
  have "w \<in> set (call_targets I U v)" using flow_argument by (auto simp: call_targets_def)
  moreover have "taint_targets I P v U = Some (call_targets I U v)"
    using flow_argument instruction_kinds(1) [OF flow_argument(3)] by (simp add: taint_targets_def handleCallInst_def)
  ultimately show ?thesis using flow_argument(1,2,9) by blast
next
  case flow_load
  then show ?thesis using instruction_kinds(2) [OF flow_load(2)] by (intro conjI bexI [of _ w]) (simp_all add: taint_targets_def handleLoadInst_def)
next
  case (flow_store U n)
  obtain zs where zs: "concat_options (map (object_targets I P) (getPts P (storePointer I U))) = Some zs"
    "\<forall>z. z \<noteq> 0 \<longrightarrow> z \<in> set zs \<longleftrightarrow> (\<exists>n \<in> set (getPts P (storePointer I U)). z = allocation_of I P (getBaseObj P n))"
    using store_targets [OF assms(1)] by blast
  have "taint_targets I P v U = Some zs"
    using flow_store zs(1) instruction_kinds(3) [OF flow_store(3)] by (simp add: taint_targets_def handleStoreInst_def)
  moreover have "w \<in> set zs" "w \<noteq> 0" using zs(2) flow_store by auto
  ultimately show ?thesis using flow_store(2) by blast
next
  case (flow_return U)
  have "taint_targets I P v U = Some (return_targets I U)"
    using flow_return instruction_kinds(4) [OF flow_return(2)] by (simp add: taint_targets_def handleReturnInst_def)
  moreover have "w \<in> set (return_targets I U)" using flow_return by (simp add: return_targets_def)
  ultimately show ?thesis using flow_return by blast
next
  case flow_use
  then show ?thesis by (intro conjI bexI [of _ w]) (simp_all add: taint_targets_def)
qed

lemma taint_edges_flow:
  assumes "objects_ok I P"
  shows "w \<in> set (taint_edges I P v) \<longleftrightarrow> taint_flow I P v w"
proof -
  obtain ys where ys: "concat_options (map (taint_targets I P v) (users I v)) = Some ys" "taint_edges I P v = filter (\<lambda>v. v \<noteq> 0) ys"
    using fun_cong [OF taint_succs_edges [OF assms], of v] by (auto simp: taint_succs_def taint_edges_def)
  have "w \<in> set ys \<longleftrightarrow> (\<exists>U \<in> set (users I v). \<exists>zs. taint_targets I P v U = Some zs \<and> w \<in> set zs)"
    unfolding concat_options_set [OF ys(1)] by (auto simp: image_iff) (metis, metis)
  moreover have "taint_flow I P v w" if "U \<in> set (users I v)" "taint_targets I P v U = Some zs" "w \<in> set zs" "w \<noteq> 0" for U zs
    using taint_targets_flow [OF assms that(1)] that by auto
  ultimately show ?thesis using flow_taint_targets [OF assms, of v w] ys(2) by auto
qed

text \<open>
  C32: When no assertion of the pointer analysis fails, spreading taint from a list \<open>q\<close> of memory operations returns on a finite set of values
  that is closed under the flow of taint.  The set \<open>V\<close> of values marked by the first search grows exactly by the values to
  which a path of one or more flow steps leads from \<open>q\<close> without entering \<open>V\<close>: a value that the first search has marked
  is not expanded again, so that taint does not flow on through it.
\<close>

theorem taint_reaches_exactly:
  assumes "objects_ok I P" and "finite U" and "\<And>v w. v \<in> U \<Longrightarrow> taint_flow I P v w \<Longrightarrow> w \<in> U" and "set q \<subseteq> U"
  shows "taint_loop (taint_succs I P) q V = Some (V \<union> {(v, w). taint_flow I P v w \<and> w \<notin> V}\<^sup>+ `` set q)"
proof -
  have "unmarked (taint_edges I P) V = {(v, w). taint_flow I P v w \<and> w \<notin> V}" by (simp add: unmarked_def taint_edges_flow [OF assms(1)])
  moreover have "values_closed U (taint_edges I P) U" using assms(3) by (auto simp: values_closed_def taint_edges_flow [OF assms(1)])
  ultimately show ?thesis using taint_loop_marks [OF assms(1,2) _ assms(4)] by simp
qed

text \<open>An example: a load 4 used by an addition 5 and an address computation 1, which are used by 9 and by 7; 1 is marked already.\<close>

definition taint_flow_example :: ir where
  "taint_flow_example = empty_ir\<lparr>kind := (\<lambda>v. if v = 1 then KGEP else if v = 4 then KLoad else if v = 5 \<or> v = 7 \<or> v = 9 then KBinary Add else KArgument),
     users := (\<lambda>v. if v = 4 then [5, 1] else if v = 5 then [9] else if v = 1 then [7] else [])\<rparr>"

lemma pta_example_objects: "objects_ok taint_flow_example pta_example"
  by (simp add: objects_ok_def pta_example_def is_ObjVar_def)

lemma taint_flow_example_flow: "taint_flow taint_flow_example pta_example v w \<longleftrightarrow> (v, w) \<in> {(4, 5), (4, 1), (5, 9), (1, 7)}"
proof -
  have "taint_flow taint_flow_example pta_example v w \<longleftrightarrow> w \<in> set (taint_edges taint_flow_example pta_example v)"
    by (rule taint_edges_flow [OF pta_example_objects, symmetric])
  also have "\<dots> \<longleftrightarrow> (v, w) \<in> {(4, 5), (4, 1), (5, 9), (1, 7)}"
    by (auto simp: taint_edges_def taint_succs_def taint_targets_def taint_flow_example_def empty_ir_def)
  finally show ?thesis .
qed

theorem taint_reaches_exactly_witness:
  "taint_loop (taint_succs taint_flow_example pta_example) [4] {1} = Some {1, 5, 9}"
proof -
  have "taint_loop (taint_succs taint_flow_example pta_example) [4] {1} =
      Some ({1} \<union> {(v, w). taint_flow taint_flow_example pta_example v w \<and> w \<notin> {1}}\<^sup>+ `` set [4])"
    by (rule taint_reaches_exactly [OF pta_example_objects, where U = "{1, 4, 5, 7, 9}"]) (auto simp: taint_flow_example_flow)
  moreover have "{(v, w). taint_flow taint_flow_example pta_example v w \<and> w \<notin> {1}} = {(4, 5), (5, 9), (1, 7)}" by (auto simp: taint_flow_example_flow)
  moreover have "{(4, 5), (5, 9), (1, 7)}\<^sup>+ `` {4} = {5, 9 :: vid}"
  proof
    have "w \<in> {5, 9}" if "(v, w) \<in> {(4, 5), (5, 9), (1, 7 :: vid)}\<^sup>+" "v = 4" for v w
      using that by (induction rule: trancl_induct) auto
    then show "{(4, 5), (5, 9), (1, 7)}\<^sup>+ `` {4} \<subseteq> {5, 9 :: vid}" by blast
    show "{5, 9 :: vid} \<subseteq> {(4, 5), (5, 9), (1, 7)}\<^sup>+ `` {4}" by (auto intro: trancl_into_trancl)
  qed
  ultimately show ?thesis by auto
qed

text \<open>
  The two stages partition the marked address computations; the second stage consists of those that
  taint reaches, the hardened blocks are the blocks of second-stage computations and tainted branches,
  and only instructions next to first-stage computations are removed.
\<close>

theorem stages_partition:
  "let r = taint_report I geps reachable
   in firstStageGEPs r \<union> secondStageGEPs r = set geps \<and> firstStageGEPs r \<inter> secondStageGEPs r = {} \<and>
      secondStageGEPs r = set geps \<inter> reachable \<and>
      parentBB I ` (secondStageGEPs r \<inter> set (module_instructions I)) \<subseteq> hardenedBB r \<and>
      toBeRemoved r = getPrevNode I ` (firstStageGEPs r \<inter> set (module_instructions I)) \<union>
        getNextNode I ` (firstStageGEPs r \<inter> set (module_instructions I))"
  by (auto simp: taint_report_def Let_def)

end
