(* ===== verification/UMS_Pass.thy ===== *)
theory UMS_Pass
  imports Analysis_State PTA_Wrapper PDG_Graph "HOL-Library.Sublist" "HOL-Library.Char_ord" "HOL-Library.List_Lexorder"
begin

text \<open>
  The driver (\<^verbatim>\<open>UnifiedMemSafe.cpp\<close>): it registers the globals of the module, classifies every pointer by a
  pass over all instructions (one handler per kind of instruction) and re-analyses instructions that
  alias uses of reclassified globals.  What the handlers ask of LLVM beyond the module itself is the record
  \<open>ums_env\<close>: sizes and offsets of \<^verbatim>\<open>ObjectSizeOffsetEvaluator\<close>, \<^verbatim>\<open>accumulateConstantOffset\<close>, folding of
  constant expressions that are no integers, and the unset fields of a \<^verbatim>\<open>new VariableInfo\<close>.  A result
  \<open>None\<close> is a null dereference, a failed assertion, or a chain of operands without end.
\<close>

record ums_env =
  objSize :: "vid \<Rightarrow> sizeval option"
  objOffset :: "vid \<Rightarrow> sizeval option"
  constantOffset :: "vid \<Rightarrow> apint option"
  typeStoreSize :: "ty \<Rightarrow> nat"
  isSized :: "ty \<Rightarrow> bool"
  isGEPExpr :: "vid \<Rightarrow> bool"
  foldMul :: "sizeval \<Rightarrow> sizeval \<Rightarrow> sizeval"
  foldSub :: "sizeval \<Rightarrow> sizeval \<Rightarrow> sizeval"
  foldZExt :: "sizeval \<Rightarrow> sizeval"
  junkInfo :: VariableInfo

abbreviation varinfo_of :: "ums_env \<Rightarrow> ir \<Rightarrow> AnalysisState \<Rightarrow> vid \<Rightarrow> info_ptr option" where
  "varinfo_of E I st v \<equiv> GetPointerVariableInfo I (junkInfo E) st v"

subsection \<open>Types\<close>

fun countIndirections :: "ty \<Rightarrow> nat" where
  "countIndirections (PointerTy t) = countIndirections t + 1"
| "countIndirections _ = 0"

fun unwrapPointer :: "ty \<Rightarrow> ty" where
  "unwrapPointer (PointerTy t) = unwrapPointer t"
| "unwrapPointer t = t"

subsection \<open>Sizes\<close>

definition MySizeConst :: "int \<Rightarrow> sizeval" where
  "MySizeConst n = SConst (mk 64 n)"

definition UnknownSizeConstInt :: sizeval where
  "UnknownSizeConstInt = MySizeConst 10000000"

text \<open>What \<^verbatim>\<open>dyn_cast<ConstantInt>\<close> and \<^verbatim>\<open>dyn_cast<Constant>\<close> see of a size.\<close>

definition sizeInt :: "ir \<Rightarrow> sizeval \<Rightarrow> apint option" where
  "sizeInt I s = (case s of SNull \<Rightarrow> None | SConst c \<Rightarrow> Some c | SVal v \<Rightarrow> constantInt I v)"

definition sizeIsConstant :: "ir \<Rightarrow> sizeval \<Rightarrow> bool" where
  "sizeIsConstant I s = (case s of SNull \<Rightarrow> False | SConst c \<Rightarrow> True | SVal v \<Rightarrow> isConstant I v)"

definition ums_getSizeForValue :: "ums_env \<Rightarrow> ir \<Rightarrow> pta \<Rightarrow> vid \<Rightarrow> sizeval" where
  "ums_getSizeForValue E I P v =
     (case objSize E v of
        Some s \<Rightarrow> s
      | None \<Rightarrow>
          (let t = getElementType (typeOf I v)
           in case t of
                ArrayTy n e \<Rightarrow> SConst (ap_mul (mk 64 (int n)) (mk 64 (int (typeAllocSize I e))))
              | FunctionTy _ _ \<Rightarrow> MySizeConst 8
              | _ \<Rightarrow>
                  (if isCallBase I v \<and> isPointerTy (typeOf I v) then UnknownSizeConstInt
                   else if kind I v = KArgument then MySizeConst (getSizeForValue P v)
                   else if isSized E t then MySizeConst (int (typeAllocSize I t))
                   else MySizeConst 0)))"

subsection \<open>Offsets of address computations\<close>

text \<open>The result \<open>-1\<close> stands for an index that cannot be resolved.\<close>

definition getLastConstantStore :: "ir \<Rightarrow> vid \<Rightarrow> vid \<Rightarrow> int" where
  "getLastConstantStore I L AI =
     (if getFunction I L \<noteq> getFunction I AI then - 1
      else case rev (filter (\<lambda>s. kind I s = KStore \<and> storePointer I s = AI)
               (takeWhile (\<lambda>v. v \<noteq> L) (instructions I (getFunction I L)))) of
             [] \<Rightarrow> - 1
           | lastStore # _ \<Rightarrow> (case constantInt I (storeValue I lastStore) of Some c \<Rightarrow> getSExtValue c | None \<Rightarrow> - 1))"

fun uniqueStore :: "ir \<Rightarrow> vid list \<Rightarrow> vid option \<Rightarrow> vid option" where
  "uniqueStore I [] unique = unique"
| "uniqueStore I (U # Us) unique =
     (if kind I U = KStore
      then (if unique \<noteq> None \<and> unique \<noteq> Some U then None else uniqueStore I Us (Some U))
      else uniqueStore I Us unique)"

definition resolveAllocaStore :: "ir \<Rightarrow> vid \<Rightarrow> vid \<Rightarrow> int" where
  "resolveAllocaStore I L AI =
     (case uniqueStore I (users I AI) None of
        None \<Rightarrow> getLastConstantStore I L AI
      | Some SI \<Rightarrow>
          (if storePointer I SI = AI
           then (case constantInt I (storeValue I SI) of Some c \<Rightarrow> getSExtValue c | None \<Rightarrow> getLastConstantStore I L AI)
           else getLastConstantStore I L AI))"

partial_function (option) resolveConstantIndex :: "ir \<Rightarrow> vid \<Rightarrow> int option" where
  "resolveConstantIndex I V =
     (case constantInt I V of
        Some c \<Rightarrow> Some (getSExtValue c)
      | None \<Rightarrow>
          (if kind I V = KLoad \<and> kind I (loadPointer I V) = KAlloca then Some (resolveAllocaStore I V (loadPointer I V))
           else if isCastInst I V then resolveConstantIndex I (getOperand I V 0)
           else Some (- 1)))"

fun manualOffset :: "ir \<Rightarrow> nat \<Rightarrow> vid list \<Rightarrow> int \<Rightarrow> sizeval option" where
  "manualOffset I typeSize [] totalOffset = Some (MySizeConst totalOffset)"
| "manualOffset I typeSize (Idx # Idxs) totalOffset =
     Option.bind (resolveConstantIndex I Idx) (\<lambda>cVal.
       if cVal = - 1 then Some UnknownSizeConstInt
       else manualOffset I typeSize Idxs (totalOffset + cVal * int typeSize))"

definition isVectorTy :: "ty \<Rightarrow> bool" where
  "isVectorTy t = (case t of VectorTy _ _ \<Rightarrow> True | _ \<Rightarrow> False)"

definition getOffsetForGEPInst :: "ums_env \<Rightarrow> ir \<Rightarrow> vid \<Rightarrow> sizeval option" where
  "getOffsetForGEPInst E I GEPInstr =
     (if isVectorTy (typeOf I GEPInstr) then Some UnknownSizeConstInt
      else case objOffset E GEPInstr of
             Some off \<Rightarrow> Some off
           | None \<Rightarrow>
               (case constantOffset E GEPInstr of
                  Some Off \<Rightarrow> Some (SConst Off)
                | None \<Rightarrow> manualOffset I (typeStoreSize E (getElementType (typeOf I GEPInstr))) (tl (operands I GEPInstr)) 0))"

subsection \<open>Globals used by an instruction\<close>

definition isGEPOperator :: "ums_env \<Rightarrow> ir \<Rightarrow> vid \<Rightarrow> bool" where
  "isGEPOperator E I v \<longleftrightarrow> kind I v = KGEP \<or> kind I v = KConstantExpr \<and> isGEPExpr E v"

definition addDependent :: "ir \<Rightarrow> vid \<Rightarrow> vid \<Rightarrow> AnalysisState \<Rightarrow> AnalysisState" where
  "addDependent I v GV st =
     (if kind I GV = KGlobalVariable
      then modify_info GV (\<lambda>i. i\<lparr>dependentFunctions := insert (valueName I (getFunction I v)) (dependentFunctions i)\<rparr>) st
      else st)"

definition processGlobalVariables :: "ums_env \<Rightarrow> ir \<Rightarrow> vid \<Rightarrow> AnalysisState \<Rightarrow> AnalysisState" where
  "processGlobalVariables E I v st =
     fold (\<lambda>U st.
         if kind I U = KGlobalVariable then addDependent I v U st
         else if isGEPOperator E I U then fold (addDependent I v) (tl (operands I U)) (addDependent I v (gepPointer I U) st)
         else st)
       (operands I v) st"

subsection \<open>Handlers\<close>

definition processAllocaInst :: "ir \<Rightarrow> ums_env \<Rightarrow> vid \<Rightarrow> AnalysisState \<Rightarrow> AnalysisState" where
  "processAllocaInst I E II st =
     (let allocated = getElementType (typeOf I II); arraysize = getOperand I II 0
      in if isPointerTy allocated then RegisterVariable II st
         else if isConstant I arraysize
         then (case constantInt I arraysize of
                 Some n \<Rightarrow> SetSizeForPointerVariable II (SConst (ap_mul n (mk (width n) (int (typeAllocSize I allocated))))) st
               | None \<Rightarrow> SetSizeForPointerVariable II (foldMul E (SVal arraysize) (MySizeConst (int (typeAllocSize I allocated)))) st)
         else SetSizeForPointerVariable II (MySizeConst 10000) st)"

partial_function (option) propagateFreedSize :: "ir \<Rightarrow> vid \<Rightarrow> AnalysisState \<Rightarrow> AnalysisState option" where
  "propagateFreedSize I var st =
     (if kind I var = KLoad \<or> kind I var = KCast BitCast
      then (let var' = getOperand I var 0 in propagateFreedSize I var' (SetSizeForPointerVariable var' SNull st))
      else Some st)"

fun classifyReturns :: "ums_env \<Rightarrow> ir \<Rightarrow> vid \<Rightarrow> vid list \<Rightarrow> AnalysisState \<Rightarrow> AnalysisState option" where
  "classifyReturns E I II [] st = Some st"
| "classifyReturns E I II (RI # rest) st =
     (if kind I RI \<noteq> KReturn then classifyReturns E I II rest st
      else if operands I RI = [] then None
      else case varinfo_of E I st (getOperand I RI 0) of
             None \<Rightarrow> classifyReturns E I II rest st
           | Some varinfo \<Rightarrow>
               classifyReturns E I II rest (ClassifyPointerVariable II (classification (deref st varinfo)) st))"

definition functionNamed :: "ir \<Rightarrow> string \<Rightarrow> vid option" where
  "functionNamed I name = find (\<lambda>f. valueName I f = name) (moduleFunctions I)"

definition updateRewrittenFunctionCall :: "ums_env \<Rightarrow> ir \<Rightarrow> vid \<Rightarrow> AnalysisState \<Rightarrow> AnalysisState option" where
  "updateRewrittenFunctionCall E I II st =
     (case calledFunction I II of
        None \<Rightarrow> Some st
      | Some calledFunc \<Rightarrow>
          (case functionNamed I (valueName I calledFunc @ ''_UnifiedMemSafe'') of
             None \<Rightarrow> Some st
           | Some rewrittenFunc \<Rightarrow> classifyReturns E I II (instructions I rewrittenFunc) st))"

definition getArgOperand :: "ir \<Rightarrow> vid \<Rightarrow> nat \<Rightarrow> vid" where
  "getArgOperand I II n = (if n < length (callArgs I II) then callArgs I II ! n else 0)"

definition callSize :: "ums_env \<Rightarrow> ir \<Rightarrow> pta \<Rightarrow> vid \<Rightarrow> vid \<Rightarrow> AnalysisState \<Rightarrow> AnalysisState option" where
  "callSize E I P II f st =
     (let funcName = valueName I f; arg_size = length (formals I f)
      in if sublist ''malloc'' funcName \<and> arg_size = 1 then Some (SetSizeForPointerVariable II (SVal (getArgOperand I II 0)) st)
         else if sublist ''realloc'' funcName \<and> arg_size = 2 then Some (SetSizeForPointerVariable II (SVal (getArgOperand I II 1)) st)
         else if sublist ''free'' funcName \<and> arg_size = 1
         then propagateFreedSize I (getArgOperand I II 0) (SetSizeForPointerVariable (getArgOperand I II 0) SNull st)
         else Some (if isPointerTy (typeOf I II) then SetSizeForPointerVariable II (ums_getSizeForValue E I P II) st else st))"

definition processCallInst :: "ums_env \<Rightarrow> ir \<Rightarrow> pta \<Rightarrow> vid \<Rightarrow> AnalysisState \<Rightarrow> AnalysisState option" where
  "processCallInst E I P II st =
     (case calledFunction I II of
        None \<Rightarrow> Some st
      | Some f \<Rightarrow> Option.bind (callSize E I P II f st) (updateRewrittenFunctionCall E I II))"

text \<open>The entry of a pointer, created with its own size if there is none.\<close>

definition ensureSize :: "ums_env \<Rightarrow> ir \<Rightarrow> pta \<Rightarrow> vid \<Rightarrow> AnalysisState \<Rightarrow> info_ptr \<times> AnalysisState" where
  "ensureSize E I P v st =
     (case varinfo_of E I st v of
        Some varinfo \<Rightarrow> (varinfo, st)
      | None \<Rightarrow> (Entry v, SetSizeForPointerVariable v (ums_getSizeForValue E I P v) st))"

definition ensureInstantiated :: "ums_env \<Rightarrow> ir \<Rightarrow> pta \<Rightarrow> vid \<Rightarrow> AnalysisState \<Rightarrow> AnalysisState" where
  "ensureInstantiated E I P v st =
     (case varinfo_of E I st v of
        Some varinfo \<Rightarrow> st
      | None \<Rightarrow> SetInstantiatedExplicitSizeVariable v True (SetSizeForPointerVariable v (ums_getSizeForValue E I P v) st))"

definition processStoreInst :: "ums_env \<Rightarrow> ir \<Rightarrow> pta \<Rightarrow> vid \<Rightarrow> AnalysisState \<Rightarrow> AnalysisState" where
  "processStoreInst E I P II st =
     (if isPointerTy (typeOf I (storeValue I II))
      then (let (varinfo, st1) = ensureSize E I P (storeValue I II) st;
                st2 = ClassifyPointerVariable (storePointer I II) (classification (deref st1 varinfo)) st1
            in SetSizeForPointerVariable (storePointer I II) (sizeOf (deref st2 varinfo)) st2)
      else ensureInstantiated E I P (storePointer I II) st)"

definition explicitSizeStale :: "ir \<Rightarrow> vid \<Rightarrow> VariableInfo \<Rightarrow> bool option" where
  "explicitSizeStale I II i =
     (if \<not> hasExplicitSizeVariable i then Some False
      else if \<not> instantiatedExplicitSizeVariable i then Some True
      else case sizeOf i of
             SNull \<Rightarrow> None
           | SConst _ \<Rightarrow> Some False
           | SVal s \<Rightarrow> Some (isInstruction I s \<and> parentBB I s \<noteq> parentBB I II))"

definition loadInfo :: "ums_env \<Rightarrow> ir \<Rightarrow> pta \<Rightarrow> vid \<Rightarrow> AnalysisState \<Rightarrow> (info_ptr option \<times> AnalysisState)" where
  "loadInfo E I P ptr st =
     (if varinfo_of E I st ptr = None \<and> isConstant I ptr
      then (Some (Entry ptr), SetSizeForPointerVariable ptr (ums_getSizeForValue E I P ptr) st)
      else (varinfo_of E I st ptr, st))"

definition processLoadInst :: "ums_env \<Rightarrow> ir \<Rightarrow> pta \<Rightarrow> vid \<Rightarrow> AnalysisState \<Rightarrow> AnalysisState option" where
  "processLoadInst E I P II st =
     (let ptr = loadPointer I II
      in if isPointerTy (typeOf I II)
         then (case loadInfo E I P ptr st of
                 (None, st1) \<Rightarrow> Some st1
               | (Some varinfo, st1) \<Rightarrow>
                   map_option (\<lambda>stale.
                       let st2 = (if stale
                             then SetInstantiatedExplicitSizeVariable ptr True
                               (SetSizeForPointerVariable ptr (explicitSizeVariable (deref st1 varinfo)) st1)
                             else st1);
                           st3 = ClassifyPointerVariable II (classification (deref st2 varinfo)) st2
                       in SetSizeForPointerVariable II (sizeOf (deref st3 varinfo)) st3)
                     (explicitSizeStale I II (deref st1 varinfo)))
         else Some (ensureInstantiated E I P ptr st))"

text \<open>A recorded size of zero is replaced by the size of the array type or of the value.\<close>

definition gepBaseSize :: "ums_env \<Rightarrow> ir \<Rightarrow> pta \<Rightarrow> vid \<Rightarrow> sizeval \<Rightarrow> AnalysisState \<Rightarrow> (sizeval \<times> AnalysisState) option" where
  "gepBaseSize E I P II otherSize st =
     (let Ptr = gepPointer I II
      in if otherSize = SNull then None
         else case sizeInt I otherSize of
                None \<Rightarrow> Some (otherSize, st)
              | Some c \<Rightarrow>
                  (if is_zero c
                   then (let s = (case getElementType (typeOf I Ptr) of
                                    ArrayTy n e \<Rightarrow> MySizeConst (int n * int (typeAllocSize I e))
                                  | _ \<Rightarrow> ums_getSizeForValue E I P Ptr)
                         in Some (s, SetSizeForPointerVariable Ptr s st))
                   else Some (otherSize, st)))"

definition toInt64 :: "ums_env \<Rightarrow> ir \<Rightarrow> sizeval \<Rightarrow> sizeval option" where
  "toInt64 E I s =
     (case sizeInt I s of
        Some c \<Rightarrow> (if width c = 64 then Some s else if width c < 64 then Some (SConst (mk 64 (bits c))) else None)
      | None \<Rightarrow> Some (case s of SVal v \<Rightarrow> if typeOf I v = IntegerTy 64 then s else foldZExt E s | _ \<Rightarrow> s))"

definition constantSub :: "ums_env \<Rightarrow> ir \<Rightarrow> sizeval \<Rightarrow> sizeval \<Rightarrow> sizeval" where
  "constantSub E I a b =
     (case (sizeInt I a, sizeInt I b) of (Some x, Some y) \<Rightarrow> SConst (ap_sub x y) | _ \<Rightarrow> foldSub E a b)"

definition remainingSize :: "ums_env \<Rightarrow> ir \<Rightarrow> sizeval \<Rightarrow> sizeval \<Rightarrow> sizeval option" where
  "remainingSize E I otherSize offset =
     (if sizeIsConstant I offset \<and> sizeIsConstant I otherSize
      then Option.bind (toInt64 E I offset) (\<lambda>o64. map_option (\<lambda>s64. constantSub E I s64 o64) (toInt64 E I otherSize))
      else Some otherSize)"

definition gepResultSize :: "ums_env \<Rightarrow> ir \<Rightarrow> vid \<Rightarrow> sizeval \<Rightarrow> sizeval \<Rightarrow> sizeval option" where
  "gepResultSize E I II recorded otherSize =
     (if hasAllZeroIndices I II then Some otherSize
      else Option.bind (getOffsetForGEPInst E I II) (\<lambda>offset.
        if recorded = SNull \<or> offset = SNull then None else remainingSize E I otherSize offset))"

text \<open>An access at an offset other than zero makes both pointers \<open>Seq\<close>.\<close>

definition registerGEP :: "ir \<Rightarrow> vid \<Rightarrow> AnalysisState \<Rightarrow> AnalysisState" where
  "registerGEP I II st =
     RegisterVariable II
       (if hasAllZeroIndices I II then st
        else ClassifyPointerVariable II Seq (ClassifyPointerVariable (gepPointer I II) Seq st))"

definition processGetElementPtrInst :: "ums_env \<Rightarrow> ir \<Rightarrow> pta \<Rightarrow> vid \<Rightarrow> AnalysisState \<Rightarrow> AnalysisState option" where
  "processGetElementPtrInst E I P II st =
     (let Ptr = gepPointer I II; st2 = registerGEP I II st
      in if isPointerTy (getElementType (typeOf I II)) then Some st2
         else case varinfo_of E I st2 Ptr of
                None \<Rightarrow> Some st2
              | Some varinfo \<Rightarrow>
                  Option.bind (gepBaseSize E I P II (sizeOf (deref st2 varinfo)) st2) (\<lambda>(otherSize, st3).
                    map_option (\<lambda>s. SetSizeForPointerVariable II s st3)
                      (gepResultSize E I II (sizeOf (deref st3 varinfo)) otherSize)))"

subsection \<open>Casts\<close>

definition isCastOfInterest :: "ty \<Rightarrow> ty \<Rightarrow> ty \<Rightarrow> ty \<Rightarrow> bool" where
  "isCastOfInterest srcT dstT innerSrcT innerDstT \<longleftrightarrow>
     countIndirections srcT \<noteq> countIndirections dstT \<or> \<not> isIntegerTy innerSrcT \<or> \<not> isIntegerTy innerDstT"

definition classifyBoth :: "ir \<Rightarrow> vid \<Rightarrow> VariableStates \<Rightarrow> AnalysisState \<Rightarrow> AnalysisState" where
  "classifyBoth I II c st = ClassifyPointerVariable II Dyn (ClassifyPointerVariable (getOperand I II 0) c st)"

definition couldChangeValue :: "ir \<Rightarrow> vid \<Rightarrow> bool" where
  "couldChangeValue I v =
     (let srcType = typeOf I (getOperand I v 0); dstType = typeOf I v
      in if kind I v = KCast ZExt then False
         else if kind I v = KCast SExt then isIntegerTy srcType \<and> isIntegerTy dstType
         else if kind I v = KCast Trunc then
           (case (intWidth srcType, intWidth dstType) of
              (Some srcBitWidth, Some dstBitWidth) \<Rightarrow>
                dstBitWidth < srcBitWidth \<and>
                (let operand = getOperand I v 0
                 in if kind I operand = KLoad then list_ex (\<lambda>user. kind I user = KStore) (users I (loadPointer I operand)) else True)
            | _ \<Rightarrow> False)
         else False)"

definition classifyExtOrTruncInst :: "ir \<Rightarrow> vid \<Rightarrow> AnalysisState \<Rightarrow> AnalysisState" where
  "classifyExtOrTruncInst I v st = (if couldChangeValue I v then classifyBoth I v Dyn st else st)"

definition processCallOperand :: "ums_env \<Rightarrow> ir \<Rightarrow> pta \<Rightarrow> vid \<Rightarrow> info_ptr \<Rightarrow> AnalysisState \<Rightarrow> AnalysisState option" where
  "processCallOperand E I P II varinfo st =
     (let s = sizeOf (deref st varinfo)
      in if kind I II = KCast BitCast \<and> s = SNull then None
         else Some (classifyBoth I II Dyn
           (if kind I II = KCast BitCast \<and> map_option getZExtValue (sizeInt I s) = Some 1
            then SetSizeForPointerVariable (getOperand I II 0) (ums_getSizeForValue E I P II) st else st)))"

definition processCastOperands :: "ums_env \<Rightarrow> ir \<Rightarrow> pta \<Rightarrow> vid \<Rightarrow> info_ptr \<Rightarrow> AnalysisState \<Rightarrow> AnalysisState option" where
  "processCastOperands E I P II varinfo st =
     (let k = kind I (getOperand I II 0)
      in if k = KLoad then Some (classifyBoth I II Dyn st)
         else if k = KGEP then Some (classifyBoth I II Seq st)
         else if is_Cast_k k then Some (classifyBoth I II Dyn st)
         else if k = KCall then processCallOperand E I P II varinfo st
         else Some st)"

definition propagateSizeMetadata :: "vid \<Rightarrow> info_ptr \<Rightarrow> AnalysisState \<Rightarrow> AnalysisState" where
  "propagateSizeMetadata II varinfo st = SetSizeForPointerVariable II (sizeOf (deref st varinfo)) st"

definition processCastInst :: "ums_env \<Rightarrow> ir \<Rightarrow> pta \<Rightarrow> vid \<Rightarrow> AnalysisState \<Rightarrow> AnalysisState option" where
  "processCastInst E I P II st =
     (let operand = getOperand I II 0; srcT = typeOf I operand; dstT = typeOf I II
      in if varinfo_of E I st operand = None \<and> \<not> isPointerTy srcT then Some st
         else let (varinfo, st1) = ensureSize E I P operand st
              in if \<not> isCastOfInterest srcT dstT (unwrapPointer srcT) (unwrapPointer dstT) then Some st1
                 else if \<not> isPointerTy srcT then Some (classifyExtOrTruncInst I II st1)
                 else map_option (propagateSizeMetadata II varinfo) (processCastOperands E I P II varinfo st1))"

subsection \<open>Instructions, functions, the module\<close>

definition processInstruction :: "ums_env \<Rightarrow> ir \<Rightarrow> pta \<Rightarrow> vid \<Rightarrow> AnalysisState \<Rightarrow> AnalysisState option" where
  "processInstruction E I P v st0 =
     (let st = processGlobalVariables E I v st0
      in case kind I v of
           KAlloca \<Rightarrow> Some (processAllocaInst I E v st)
         | KCall \<Rightarrow> processCallInst E I P v st
         | KStore \<Rightarrow> Some (processStoreInst E I P v st)
         | KLoad \<Rightarrow> processLoadInst E I P v st
         | KGEP \<Rightarrow> processGetElementPtrInst E I P v st
         | KCast _ \<Rightarrow> processCastInst E I P v st
         | _ \<Rightarrow> Some st)"

definition ums_analyzeFunction :: "ums_env \<Rightarrow> ir \<Rightarrow> pta \<Rightarrow> vid \<Rightarrow> AnalysisState \<Rightarrow> AnalysisState option" where
  "ums_analyzeFunction E I P F st = fold_option (processInstruction E I P) (instructions I F) (RegisterFunction st)"

definition registerGlobal :: "ums_env \<Rightarrow> ir \<Rightarrow> pta \<Rightarrow> vid \<Rightarrow> AnalysisState \<Rightarrow> AnalysisState" where
  "registerGlobal E I P gv st =
     (let st1 = modify_info gv (\<lambda>i. i\<lparr>isGlobal := True\<rparr>) (RegisterVariable gv st)
      in if isPointerTy (typeOf I gv) then SetSizeForPointerVariable gv (ums_getSizeForValue E I P gv) st1 else st1)"

definition registerGlobals :: "ums_env \<Rightarrow> ir \<Rightarrow> pta \<Rightarrow> AnalysisState \<Rightarrow> AnalysisState" where
  "registerGlobals E I P st = fold (registerGlobal E I P) (moduleGlobals I) st"

definition runtime_functions :: "string list" where
  "runtime_functions = [''printCheck'', ''printErrorLine'', ''printFaultInjectionExecuted'',
     ''setMetadataTableEntry'', ''lookupMetadataTableEntry'', ''findMetadataTableEntry'']"

definition collectFunctionsToAnalyze :: "ir \<Rightarrow> vid list" where
  "collectFunctionsToAnalyze I =
     filter (\<lambda>F. \<not> isDeclaration I F \<and> valueName I F \<notin> set runtime_functions) (moduleFunctions I)"

definition analyzeAllFunctions :: "ums_env \<Rightarrow> ir \<Rightarrow> pta \<Rightarrow> vid list \<Rightarrow> AnalysisState \<Rightarrow> AnalysisState option" where
  "analyzeAllFunctions E I P fs st = fold_option (ums_analyzeFunction E I P) fs st"

subsection \<open>Re-analysis after a global was reclassified\<close>

text \<open>
  The entries of the store are in a hash table; \<open>order\<close> is the order in which its iterator visits them.
  The graph gives the instructions that alias a use of a global.
\<close>

definition reanalyzeAliases :: "ums_env \<Rightarrow> ir \<Rightarrow> pta \<Rightarrow> node_heap \<Rightarrow> nid \<Rightarrow> AnalysisState \<Rightarrow> AnalysisState option" where
  "reanalyzeAliases E I P h node st =
     fold_option (\<lambda>alias st.
         let v = node_val (h alias)
         in if v = 0 then None else if isInstruction I v then processInstruction E I P v st else Some st)
       (sorted_list_of_set (getInNeighborsWithDepType h node DATA_ALIAS)) st"

definition rescanUse ::
    "ums_env \<Rightarrow> ir \<Rightarrow> pta \<Rightarrow> GenericGraph \<Rightarrow> node_heap \<Rightarrow> vid \<Rightarrow> vid \<Rightarrow> vid \<Rightarrow> AnalysisState \<Rightarrow> AnalysisState option" where
  "rescanUse E I P G h global i U st =
     (if kind I U = KGlobalVariable \<and> U = global
      then (case getNode G i of None \<Rightarrow> Some st | Some node \<Rightarrow> reanalyzeAliases E I P h node st)
      else Some st)"

definition rescanFunction ::
    "ums_env \<Rightarrow> ir \<Rightarrow> pta \<Rightarrow> GenericGraph \<Rightarrow> node_heap \<Rightarrow> vid \<Rightarrow> string \<Rightarrow> AnalysisState \<Rightarrow> AnalysisState option" where
  "rescanFunction E I P G h global funcName st =
     (case functionNamed I funcName of
        None \<Rightarrow> Some st
      | Some F \<Rightarrow>
          fold_option (\<lambda>i. fold_option (rescanUse E I P G h global i) (operands I i)) (instructions I F) st)"

definition propagateGlobal ::
    "ums_env \<Rightarrow> ir \<Rightarrow> pta \<Rightarrow> GenericGraph \<Rightarrow> node_heap \<Rightarrow> vid \<Rightarrow> AnalysisState \<Rightarrow> AnalysisState option" where
  "propagateGlobal E I P G h v st =
     (let i = lookup_info st v
      in if isGlobal i \<and> didClassificationChange i
         then fold_option (rescanFunction E I P G h v) (sorted_list_of_set (dependentFunctions i))
           (modify_info v (\<lambda>i. i\<lparr>didClassificationChange := False\<rparr>) st)
         else Some st)"

definition classificationPropagation ::
    "ums_env \<Rightarrow> ir \<Rightarrow> pta \<Rightarrow> GenericGraph \<Rightarrow> node_heap \<Rightarrow> vid list \<Rightarrow> AnalysisState \<Rightarrow> AnalysisState option" where
  "classificationPropagation E I P G h order st = fold_option (propagateGlobal E I P G h) order st"

definition classifyModule ::
    "ums_env \<Rightarrow> ir \<Rightarrow> pta \<Rightarrow> GenericGraph \<Rightarrow> node_heap \<Rightarrow> (AnalysisState \<Rightarrow> vid list) \<Rightarrow> AnalysisState option" where
  "classifyModule E I P G h order =
     Option.bind (analyzeAllFunctions E I P (collectFunctionsToAnalyze I) (registerGlobals E I P (SetSizeType 64 init_state)))
       (\<lambda>st. classificationPropagation E I P G h (order st) st)"

subsection \<open>What the pass relies on\<close>

definition good_size :: "ir \<Rightarrow> sizeval \<Rightarrow> bool" where
  "good_size I s \<longleftrightarrow> s \<noteq> SNull \<and> (case sizeInt I s of Some c \<Rightarrow> width c \<le> 64 | None \<Rightarrow> True)"

definition entry_ok :: "ir \<Rightarrow> VariableInfo \<Rightarrow> bool" where
  "entry_ok I i \<longleftrightarrow> good_size I (sizeOf i) \<and> (explicitSizeVariable i = SNull \<or> good_size I (explicitSizeVariable i))"

text \<open>The operand chains that the pass follows through loads and casts end.\<close>

definition operand_chain :: "ir \<Rightarrow> (vid \<times> vid) set" where
  "operand_chain I = {(getOperand I v 0, v) | v. kind I v = KLoad \<or> isCastInst I v}"

definition module_ok :: "ir \<Rightarrow> bool" where
  "module_ok I \<longleftrightarrow> (\<forall>v. kind I v = KGlobalVariable \<longrightarrow> v \<in> set (moduleGlobals I)) \<and>
     (\<forall>v c. kind I v = KConstantInt c \<longrightarrow> width c \<le> 64) \<and> wf (operand_chain I) \<and>
     (\<forall>f \<in> set (moduleFunctions I). suffix ''_UnifiedMemSafe'' (valueName I f) \<longrightarrow>
        (\<forall>r \<in> set (instructions I f). kind I r = KReturn \<longrightarrow> operands I r \<noteq> []))"

definition env_ok :: "ums_env \<Rightarrow> ir \<Rightarrow> bool" where
  "env_ok E I \<longleftrightarrow> (\<forall>v s. objSize E v = Some s \<longrightarrow> good_size I s) \<and> (\<forall>v s. objOffset E v = Some s \<longrightarrow> good_size I s) \<and>
     (\<forall>v c. constantOffset E v = Some c \<longrightarrow> width c \<le> 64) \<and>
     (\<forall>a b. good_size I (foldMul E a b) \<and> good_size I (foldSub E a b) \<and> good_size I (foldZExt E a)) \<and>
     (explicitSizeVariable (junkInfo E) = SNull \<or> good_size I (explicitSizeVariable (junkInfo E)))"

text \<open>The invariant of the store while the pass runs, and how the store may change.\<close>

definition pass_inv :: "ir \<Rightarrow> AnalysisState \<Rightarrow> bool" where
  "pass_inv I st \<longleftrightarrow> dict_ok (Variables st) \<and> sizetype st = 64 \<and>
     (\<forall>v. contains (Variables st) v \<longrightarrow> entry_ok I (lookup_info st v)) \<and>
     (\<forall>g \<in> set (moduleGlobals I). contains (Variables st) g)"

definition grows :: "AnalysisState \<Rightarrow> AnalysisState \<Rightarrow> bool" where
  "grows st st' \<longleftrightarrow> (\<forall>v. unsafe_class (class_of st v) \<longrightarrow> unsafe_class (class_of st' v)) \<and>
     (\<forall>v. contains (Variables st) v \<longrightarrow> contains (Variables st') v)"

subsection \<open>The store operations keep the invariant and only grow\<close>

lemma grows_refl [simp]: "grows st st"
  by (simp add: grows_def)

lemma grows_trans: "grows a b \<Longrightarrow> grows b c \<Longrightarrow> grows a c"
  by (simp add: grows_def)

lemma grows_modify [simp]:
  "(\<And>i. classification (f i) = classification i) \<Longrightarrow> grows s t \<Longrightarrow> grows s (modify_info v f t)"
  by (simp add: grows_def class_of_modify_keep contains_modify)

lemma grows_Register [simp]: "grows s t \<Longrightarrow> grows s (RegisterVariable v t)"
  by (simp add: grows_def contains_Register)

lemma contains_Classify: "contains (Variables (ClassifyPointerVariable v c st)) w \<longleftrightarrow> w = v \<or> contains (Variables st) w"
  by (auto simp: ClassifyPointerVariable_def Let_def state_simps)

lemma contains_SetSize: "contains (Variables (SetSizeForPointerVariable v s st)) w \<longleftrightarrow> w = v \<or> contains (Variables st) w"
  by (auto simp: SetSizeForPointerVariable_def Let_def state_simps)

lemma grows_Classify [simp]: "grows s t \<Longrightarrow> grows s (ClassifyPointerVariable v c t)"
  by (simp add: grows_def class_of_Classify unsafe_ums_move contains_Classify)

lemma grows_SetSize [simp]: "grows s t \<Longrightarrow> grows s (SetSizeForPointerVariable v z t)"
  by (simp add: grows_def contains_SetSize)

lemma grows_SetInstantiated [simp]: "grows s t \<Longrightarrow> grows s (SetInstantiatedExplicitSizeVariable v b t)"
  by (simp add: SetInstantiatedExplicitSizeVariable_def)

lemma grows_RegisterFunction [simp]: "grows s t \<Longrightarrow> grows s (RegisterFunction t)"
  by (simp add: grows_def) (simp add: RegisterFunction_def)

lemma pass_inv_modify:
  "pass_inv I st \<Longrightarrow> entry_ok I (f (lookup_info st v)) \<Longrightarrow> pass_inv I (modify_info v f st)"
proof -
  assume a: "pass_inv I st" "entry_ok I (f (lookup_info st v))"
  then have "dict_ok (Variables (modify_info v f st))" by (simp add: pass_inv_def modify_info_def)
  then show ?thesis using a by (auto simp: pass_inv_def state_simps)
qed

lemma good_size_small: "w \<le> 64 \<Longrightarrow> good_size I (SConst (mk w n))"
  by (simp add: good_size_def sizeInt_def mk_def)

lemma good_MySizeConst [simp]: "good_size I (MySizeConst n)"
  by (simp add: MySizeConst_def good_size_small)

lemma size_zero_good [simp]: "pass_inv I st \<Longrightarrow> good_size I (size_zero st)"
  by (simp add: size_zero_def pass_inv_def good_size_small)

lemma pass_inv_Register [simp]: "pass_inv I st \<Longrightarrow> pass_inv I (RegisterVariable v st)"
  by (auto simp: RegisterVariable_def entry_ok_def lookup_absent fresh_info_def intro!: pass_inv_modify)

lemma registered_entry [simp]: "pass_inv I st \<Longrightarrow> entry_ok I (lookup_info (RegisterVariable v st) v)"
  using pass_inv_Register [of I st v] by (simp add: pass_inv_def contains_Register)

lemma entry_ok_reclassify [simp]: "entry_ok I (reclassify c i) \<longleftrightarrow> entry_ok I i"
  by (simp add: entry_ok_def reclassify_def Let_def)

lemma pass_inv_Classify [simp]: "pass_inv I st \<Longrightarrow> pass_inv I (ClassifyPointerVariable v c st)"
  by (simp add: ClassifyPointerVariable_def Let_def pass_inv_modify)

lemma entry_ok_resized: "entry_ok I i \<Longrightarrow> good_size I s \<Longrightarrow> entry_ok I (i\<lparr>sizeOf := s\<rparr>)"
  by (simp add: entry_ok_def)

lemma pass_inv_SetSize [simp]: "pass_inv I st \<Longrightarrow> s = SNull \<or> good_size I s \<Longrightarrow> pass_inv I (SetSizeForPointerVariable v s st)"
  by (auto simp: SetSizeForPointerVariable_def Let_def intro!: pass_inv_modify entry_ok_resized)

lemma pass_inv_SetInstantiated [simp]: "pass_inv I st \<Longrightarrow> pass_inv I (SetInstantiatedExplicitSizeVariable v b st)"
  unfolding SetInstantiatedExplicitSizeVariable_def
  by (rule pass_inv_modify) (use registered_entry in \<open>auto simp: entry_ok_def\<close>)

lemma pass_inv_RegisterFunction [simp]: "pass_inv I (RegisterFunction st) \<longleftrightarrow> pass_inv I st"
  by (simp add: pass_inv_def RegisterFunction_def lookup_info_def)

subsection \<open>Sizes and pointers into the store\<close>

lemma good_getSizeForValue [simp]: "env_ok E I \<Longrightarrow> good_size I (ums_getSizeForValue E I P v)"
  by (auto simp: ums_getSizeForValue_def Let_def env_ok_def UnknownSizeConstInt_def good_size_small ap_mul_def
      simp flip: MySizeConst_def split: option.splits ty.splits)

definition ptr_ok :: "ir \<Rightarrow> AnalysisState \<Rightarrow> info_ptr \<Rightarrow> bool" where
  "ptr_ok I st p = (case p of NewInfo i \<Rightarrow> entry_ok I i | Entry v \<Rightarrow> contains (Variables st) v)"

lemma ptr_ok_varinfo: "pass_inv I st \<Longrightarrow> env_ok E I \<Longrightarrow> varinfo_of E I st v = Some p \<Longrightarrow> ptr_ok I st p"
  by (auto simp: GetPointerVariableInfo_def ptr_ok_def entry_ok_def env_ok_def split: if_splits)

lemma deref_ok: "ptr_ok I st p \<Longrightarrow> grows st t \<Longrightarrow> pass_inv I t \<Longrightarrow> entry_ok I (deref t p)"
  by (cases p) (auto simp: ptr_ok_def pass_inv_def grows_def)

lemma deref_size: "ptr_ok I st p \<Longrightarrow> grows st t \<Longrightarrow> pass_inv I t \<Longrightarrow> good_size I (sizeOf (deref t p))"
  using deref_ok by (auto simp: entry_ok_def)

definition stable_step :: "ir \<Rightarrow> AnalysisState \<Rightarrow> AnalysisState \<Rightarrow> bool" where
  "stable_step I st st' \<longleftrightarrow> pass_inv I st' \<and> grows st st'"

lemma stable_stepI: "pass_inv I st' \<Longrightarrow> grows st st' \<Longrightarrow> stable_step I st st'"
  by (simp add: stable_step_def)

lemma stable_step_trans: "stable_step I a b \<Longrightarrow> stable_step I b c \<Longrightarrow> stable_step I a c"
  by (auto simp: stable_step_def intro: grows_trans)

definition succeeds :: "ir \<Rightarrow> (AnalysisState \<Rightarrow> AnalysisState option) \<Rightarrow> bool" where
  "succeeds I f \<longleftrightarrow> (\<forall>st. pass_inv I st \<longrightarrow> (\<exists>st'. f st = Some st' \<and> stable_step I st st'))"

lemma succeedsI: "(\<And>st. pass_inv I st \<Longrightarrow> \<exists>st'. f st = Some st' \<and> stable_step I st st') \<Longrightarrow> succeeds I f"
  by (simp add: succeeds_def)

lemma succeeds_bind: "succeeds I f \<Longrightarrow> succeeds I g \<Longrightarrow> succeeds I (\<lambda>st. Option.bind (f st) g)"
  unfolding succeeds_def by (metis Option.bind.bind_lunit stable_step_def stable_step_trans)

lemma succeeds_Some: "(\<And>st. pass_inv I st \<Longrightarrow> pass_inv I (f st)) \<Longrightarrow> (\<And>st. grows st (f st)) \<Longrightarrow> succeeds I (\<lambda>st. Some (f st))"
  by (simp add: succeeds_def stable_step_def)

lemma succeeds_fold: "(\<And>x. x \<in> set xs \<Longrightarrow> succeeds I (f x)) \<Longrightarrow> succeeds I (fold_option f xs)"
proof (induction xs)
  case Nil
  then show ?case by (simp add: succeeds_def stable_step_def)
next
  case (Cons x xs)
  then have "succeeds I (\<lambda>st. Option.bind (f x st) (fold_option f xs))" by (intro succeeds_bind) auto
  moreover have "(\<lambda>st. Option.bind (f x st) (fold_option f xs)) = fold_option f (x # xs)" by (simp add: fun_eq_iff)
  ultimately show ?case by simp
qed

subsection \<open>Every handler returns and keeps the invariant\<close>

lemma pass_inv_addDependent: "module_ok I \<Longrightarrow> pass_inv I st \<Longrightarrow> pass_inv I (addDependent I v gv st)"
proof -
  assume a: "module_ok I" "pass_inv I st"
  then have "entry_ok I (lookup_info st gv)" if "kind I gv = KGlobalVariable"
    using that by (auto simp: module_ok_def pass_inv_def)
  then show ?thesis using a(2) by (auto simp: addDependent_def entry_ok_def intro!: pass_inv_modify)
qed

lemma grows_addDependent [simp]: "grows s t \<Longrightarrow> grows s (addDependent I v gv t)"
  by (simp add: addDependent_def)

lemma addDependents:
  assumes "module_ok I" and "pass_inv I st"
  shows "pass_inv I (fold (addDependent I v) gs st)" "grows st (fold (addDependent I v) gs st)"
proof -
  have "pass_inv I (fold (addDependent I v) gs st) \<and> grows st (fold (addDependent I v) gs st)"
    using assms(2)
  proof (induction gs arbitrary: st)
    case (Cons g gs)
    then show ?case using pass_inv_addDependent [OF assms(1), of st v g] grows_addDependent [of st st I v g] by (auto intro: grows_trans [of st "addDependent I v g st"])
  qed simp
  then show "pass_inv I (fold (addDependent I v) gs st)" "grows st (fold (addDependent I v) gs st)" by auto
qed

lemma processGlobalVariables_ok:
  assumes "module_ok I" and "pass_inv I st"
  shows "stable_step I st (processGlobalVariables E I v st)"
proof -
  define f where "f = (\<lambda>U st. if kind I U = KGlobalVariable then addDependent I v U st
    else if isGEPOperator E I U then fold (addDependent I v) (tl (operands I U)) (addDependent I v (gepPointer I U) st) else st)"
  have one: "stable_step I st (f U st)" if "pass_inv I st" for U st
    using that addDependents [OF assms(1), of "addDependent I v (gepPointer I U) st" v "tl (operands I U)"]
    by (auto simp: f_def stable_step_def pass_inv_addDependent [OF assms(1)] intro: grows_trans [OF grows_addDependent [OF grows_refl]])
  have "stable_step I st (fold f Us st)" if "pass_inv I st" for Us st
    using that
  proof (induction Us arbitrary: st)
    case (Cons U Us)
    have "pass_inv I (f U st)" using one [OF Cons.prems] by (simp add: stable_step_def)
    from stable_step_trans [OF one [OF Cons.prems] Cons.IH [OF this]] show ?case by simp
  qed (simp add: stable_step_def)
  then show ?thesis using assms(2) by (simp add: processGlobalVariables_def f_def)
qed

lemma good_ap [simp]: "width a \<le> 64 \<Longrightarrow> good_size I (SConst (ap_mul a b))" "width a \<le> 64 \<Longrightarrow> good_size I (SConst (ap_sub a b))"
  by (simp_all add: ap_mul_def ap_sub_def good_size_small)

lemma module_const: "module_ok I \<Longrightarrow> constantInt I v = Some c \<Longrightarrow> width c \<le> 64"
  by (auto simp: module_ok_def constantInt_def split: vkind.splits)

lemma env_fold [simp]:
  "env_ok E I \<Longrightarrow> good_size I (foldMul E a b)" "env_ok E I \<Longrightarrow> good_size I (foldSub E a b)"
  "env_ok E I \<Longrightarrow> good_size I (foldZExt E a)"
  by (simp_all add: env_ok_def)

lemma good_SVal: "module_ok I \<Longrightarrow> good_size I (SVal v)"
  by (auto simp: good_size_def sizeInt_def dest: module_const split: option.splits)

lemma good_sizeInt: "good_size I s \<Longrightarrow> sizeInt I s = Some c \<Longrightarrow> width c \<le> 64"
  by (simp add: good_size_def)

lemma processAllocaInst_ok: "module_ok I \<Longrightarrow> env_ok E I \<Longrightarrow> pass_inv I st \<Longrightarrow> stable_step I st (processAllocaInst I E v st)"
  by (auto simp: processAllocaInst_def Let_def stable_step_def dest: module_const split: option.splits)

lemma propagateFreedSize_ok:
  assumes "module_ok I" and "pass_inv I st"
  shows "\<exists>st'. propagateFreedSize I var st = Some st' \<and> stable_step I st st'"
proof -
  have "wf (operand_chain I)" using assms(1) by (simp add: module_ok_def)
  then show ?thesis using assms(2)
  proof (induction var arbitrary: st rule: wf_induct_rule)
    case (less var)
    let ?op = "getOperand I var 0"
    show ?case
    proof (cases "kind I var = KLoad \<or> kind I var = KCast BitCast")
      case True
      then have "(?op, var) \<in> operand_chain I" by (auto simp: operand_chain_def)
      moreover have st: "stable_step I st (SetSizeForPointerVariable ?op SNull st)" using less.prems by (simp add: stable_step_def)
      ultimately obtain st' where "propagateFreedSize I ?op (SetSizeForPointerVariable ?op SNull st) = Some st'"
        "stable_step I (SetSizeForPointerVariable ?op SNull st) st'" using less.IH less.prems by (meson stable_step_def)
      then show ?thesis using True st by (subst propagateFreedSize.simps) (auto simp: Let_def intro: stable_step_trans)
    next
      case False
      then show ?thesis using less.prems by (subst propagateFreedSize.simps) (simp add: stable_step_def)
    qed
  qed
qed

lemma classifyReturns_ok:
  "list_all (\<lambda>r. kind I r = KReturn \<longrightarrow> operands I r \<noteq> []) rs \<Longrightarrow> pass_inv I st \<Longrightarrow>
   \<exists>st'. classifyReturns E I v rs st = Some st' \<and> stable_step I st st'"
proof (induction E I v rs st rule: classifyReturns.induct)
  case (2 E I v r rs st)
  show ?case
  proof (cases "kind I r = KReturn")
    case False
    then show ?thesis using 2 by simp
  next
    case True
    then have ne: "operands I r \<noteq> []" using 2 by simp
    show ?thesis
    proof (cases "varinfo_of E I st (getOperand I r 0)")
      case None
      then show ?thesis using 2 True ne by simp
    next
      case (Some p)
      let ?st = "ClassifyPointerVariable v (classification (deref st p)) st"
      have "stable_step I st ?st" using 2(5) by (simp add: stable_step_def)
      moreover have "\<exists>st'. classifyReturns E I v rs ?st = Some st' \<and> stable_step I ?st st'"
        using 2(3) [OF _ ne Some] True 2(4,5) by simp
      ultimately show ?thesis using True ne Some by (auto intro: stable_step_trans)
    qed
  qed
qed (simp add: stable_step_def)

lemma updateRewrittenFunctionCall_ok:
  assumes "module_ok I" and "pass_inv I st"
  shows "\<exists>st'. updateRewrittenFunctionCall E I v st = Some st' \<and> stable_step I st st'"
proof (cases "calledFunction I v")
  case None
  then show ?thesis using assms by (simp add: updateRewrittenFunctionCall_def stable_step_def)
next
  case (Some f)
  let ?name = "valueName I f @ ''_UnifiedMemSafe''"
  show ?thesis
  proof (cases "functionNamed I ?name")
    case None
    then show ?thesis using Some assms by (simp add: updateRewrittenFunctionCall_def stable_step_def)
  next
    case (Some F)
    then have F: "F \<in> set (moduleFunctions I)" "valueName I F = ?name" by (auto simp: functionNamed_def find_Some_iff)
    then have "suffix ''_UnifiedMemSafe'' (valueName I F)" by (simp add: suffix_def)
    then have "list_all (\<lambda>r. kind I r = KReturn \<longrightarrow> operands I r \<noteq> []) (instructions I F)"
      using assms(1) F(1) by (auto simp: module_ok_def list_all_iff)
    from classifyReturns_ok [OF this assms(2)] show ?thesis using Some \<open>calledFunction I v = Some f\<close>
      by (auto simp: updateRewrittenFunctionCall_def)
  qed
qed

lemma processCallInst_ok:
  assumes "module_ok I" and "env_ok E I" and "pass_inv I st"
  shows "\<exists>st'. processCallInst E I P v st = Some st' \<and> stable_step I st st'"
proof (cases "calledFunction I v")
  case None
  then show ?thesis using assms by (simp add: processCallInst_def stable_step_def)
next
  case (Some f)
  let ?freed = "SetSizeForPointerVariable (getArgOperand I v 0) SNull st"
  have fr: "stable_step I st ?freed" using assms by (simp add: stable_step_def)
  then have "\<exists>st'. propagateFreedSize I (getArgOperand I v 0) ?freed = Some st' \<and> stable_step I st st'"
    using propagateFreedSize_ok [OF assms(1), of ?freed] by (meson stable_step_def stable_step_trans)
  then have "\<exists>st1. callSize E I P v f st = Some st1 \<and> stable_step I st st1"
    using assms by (auto simp: callSize_def Let_def good_SVal intro!: stable_stepI)
  then obtain st1 where st1: "callSize E I P v f st = Some st1" "stable_step I st st1" by auto
  then obtain st2 where "updateRewrittenFunctionCall E I v st1 = Some st2" "stable_step I st1 st2"
    using updateRewrittenFunctionCall_ok [OF assms(1), of st1 E v] by (auto simp: stable_step_def)
  then show ?thesis using Some st1 by (auto simp: processCallInst_def intro: stable_step_trans)
qed

lemma ensureSize_ok:
  assumes "env_ok E I" and "pass_inv I st" and "ensureSize E I P v st = (p, st1)"
  shows "stable_step I st st1 \<and> ptr_ok I st1 p"
  using assms ptr_ok_varinfo [OF assms(2,1), of v]
  by (auto simp: ensureSize_def stable_step_def ptr_ok_def contains_SetSize split: option.splits)

lemma ensureInstantiated_ok: "env_ok E I \<Longrightarrow> pass_inv I st \<Longrightarrow> stable_step I st (ensureInstantiated E I P v st)"
  by (simp add: ensureInstantiated_def stable_step_def split: option.splits)

lemma processStoreInst_ok:
  assumes "env_ok E I" and "pass_inv I st"
  shows "stable_step I st (processStoreInst E I P v st)"
proof (cases "isPointerTy (typeOf I (storeValue I v))")
  case True
  obtain p st1 where e: "ensureSize E I P (storeValue I v) st = (p, st1)" by fastforce
  let ?st2 = "ClassifyPointerVariable (storePointer I v) (classification (deref st1 p)) st1"
  have s: "stable_step I st st1" "ptr_ok I st1 p" using ensureSize_ok [OF assms e] by auto
  then have "good_size I (sizeOf (deref ?st2 p))" by (intro deref_size [OF s(2)]) (auto simp: stable_step_def)
  then have "stable_step I st (SetSizeForPointerVariable (storePointer I v) (sizeOf (deref ?st2 p)) ?st2)"
    using s(1) by (simp add: stable_step_def)
  then show ?thesis using True e by (simp add: processStoreInst_def Let_def)
qed (use assms in \<open>simp add: processStoreInst_def ensureInstantiated_ok\<close>)

lemma loadInfo_ok:
  assumes "env_ok E I" and "pass_inv I st" and "loadInfo E I P v st = (p, st1)"
  shows "stable_step I st st1 \<and> (\<forall>q. p = Some q \<longrightarrow> ptr_ok I st1 q)"
  using assms ptr_ok_varinfo [OF assms(2,1), of v]
  by (auto simp: loadInfo_def stable_step_def ptr_ok_def contains_SetSize split: if_splits)

lemma explicitSizeStale_ok: "entry_ok I i \<Longrightarrow> explicitSizeStale I v i \<noteq> None"
  by (auto simp: explicitSizeStale_def entry_ok_def good_size_def split: sizeval.splits)

lemma processLoadInst_ok:
  assumes "env_ok E I" and "pass_inv I st"
  shows "\<exists>st'. processLoadInst E I P v st = Some st' \<and> stable_step I st st'"
proof (cases "isPointerTy (typeOf I v)")
  case False
  then show ?thesis using assms by (simp add: processLoadInst_def Let_def ensureInstantiated_ok)
next
  case True
  let ?ptr = "loadPointer I v"
  obtain q st1 where l: "loadInfo E I P ?ptr st = (q, st1)" by fastforce
  note s = loadInfo_ok [OF assms l]
  show ?thesis
  proof (cases q)
    case None
    then show ?thesis using True l s by (simp add: processLoadInst_def Let_def)
  next
    case (Some p)
    have inv: "pass_inv I st1" "grows st st1" "ptr_ok I st1 p" using s Some by (auto simp: stable_step_def)
    then have e: "entry_ok I (deref st1 p)" by (auto intro: deref_ok)
    then obtain stale where stale: "explicitSizeStale I v (deref st1 p) = Some stale" using explicitSizeStale_ok by fastforce
    define st2 where "st2 = (if stale then SetInstantiatedExplicitSizeVariable ?ptr True
        (SetSizeForPointerVariable ?ptr (explicitSizeVariable (deref st1 p)) st1) else st1)"
    define st3 where "st3 = ClassifyPointerVariable v (classification (deref st2 p)) st2"
    have "pass_inv I st2" "grows st1 st2" using inv e by (auto simp: st2_def entry_ok_def)
    then have st3: "pass_inv I st3" "grows st1 st3" by (auto simp: st3_def)
    then have "good_size I (sizeOf (deref st3 p))" using inv by (auto intro: deref_size)
    then have "stable_step I st (SetSizeForPointerVariable v (sizeOf (deref st3 p)) st3)"
      using st3 inv grows_trans by (auto simp: stable_step_def)
    then show ?thesis using True l Some stale by (simp add: processLoadInst_def Let_def st2_def st3_def)
  qed
qed

subsection \<open>Address computations and casts\<close>

lemma resolveConstantIndex_ok:
  assumes "module_ok I"
  shows "\<exists>n. resolveConstantIndex I v = Some n"
proof -
  have "wf (operand_chain I)" using assms by (simp add: module_ok_def)
  then show ?thesis
  proof (induction v rule: wf_induct_rule)
    case (less v)
    have "isCastInst I v \<Longrightarrow> (getOperand I v 0, v) \<in> operand_chain I" by (auto simp: operand_chain_def)
    then show ?case using less by (subst resolveConstantIndex.simps) (auto split: option.splits)
  qed
qed

lemma manualOffset_ok: "module_ok I \<Longrightarrow> \<exists>s. manualOffset I n idxs t = Some s \<and> good_size I s"
proof (induction idxs arbitrary: t)
  case (Cons x xs)
  obtain c where "resolveConstantIndex I x = Some c" using resolveConstantIndex_ok [OF Cons.prems] by blast
  then show ?case using Cons by (auto simp: UnknownSizeConstInt_def)
qed simp

lemma getOffsetForGEPInst_ok:
  assumes "module_ok I" and "env_ok E I"
  shows "\<exists>s. getOffsetForGEPInst E I v = Some s \<and> good_size I s"
proof -
  have o: "good_size I s" if "objOffset E v = Some s" for s using assms(2) that unfolding env_ok_def by blast
  have c: "good_size I (SConst c)" if "constantOffset E v = Some c" for c
    using assms(2) that unfolding env_ok_def by (auto simp: good_size_def sizeInt_def)
  show ?thesis
    using manualOffset_ok [OF assms(1), of "typeStoreSize E (getElementType (typeOf I v))" "tl (operands I v)" 0]
    by (cases "objOffset E v"; cases "constantOffset E v")
      (auto simp: getOffsetForGEPInst_def UnknownSizeConstInt_def dest: o c)
qed

lemma toInt64_ok: "env_ok E I \<Longrightarrow> good_size I s \<Longrightarrow> \<exists>t. toInt64 E I s = Some t \<and> good_size I t"
  by (auto simp: toInt64_def good_size_small dest: good_sizeInt split: option.splits sizeval.splits)

lemma remainingSize_ok:
  assumes "env_ok E I" and "good_size I s" and "good_size I off"
  shows "\<exists>t. remainingSize E I s off = Some t \<and> good_size I t"
proof -
  obtain s1 o1 where "toInt64 E I s = Some s1" "good_size I s1" "toInt64 E I off = Some o1" "good_size I o1"
    using toInt64_ok assms by metis
  then show ?thesis using assms
    by (auto simp: remainingSize_def constantSub_def dest: good_sizeInt split: option.splits)
qed

lemma gepResultSize_ok:
  assumes "module_ok I" and "env_ok E I" and "good_size I r" and "good_size I s"
  shows "\<exists>t. gepResultSize E I v r s = Some t \<and> good_size I t"
proof -
  obtain off where "getOffsetForGEPInst E I v = Some off" "good_size I off" using getOffsetForGEPInst_ok [OF assms(1,2)] by blast
  then show ?thesis using assms remainingSize_ok [OF assms(2,4), of off] by (auto simp: gepResultSize_def good_size_def)
qed

lemma gepBaseSize_ok:
  assumes "env_ok E I" and "pass_inv I st" and "good_size I s"
  shows "\<exists>s1 st1. gepBaseSize E I P v s st = Some (s1, st1) \<and> good_size I s1 \<and> stable_step I st st1"
proof -
  let ?n = "case getElementType (typeOf I (gepPointer I v)) of ArrayTy n e \<Rightarrow> MySizeConst (int n * int (typeAllocSize I e))
    | _ \<Rightarrow> ums_getSizeForValue E I P (gepPointer I v)"
  have "good_size I ?n" using assms by (simp split: ty.splits)
  then show ?thesis using assms by (auto simp: gepBaseSize_def Let_def stable_step_def good_size_def split: option.splits)
qed

lemma registerGEP_ok: "pass_inv I st \<Longrightarrow> stable_step I st (registerGEP I v st)"
  by (simp add: registerGEP_def stable_step_def)

lemma processGetElementPtrInst_after:
  assumes "module_ok I" and "env_ok E I" and "pass_inv I st"
  shows "\<exists>st'. processGetElementPtrInst E I P v st = Some st' \<and> stable_step I (registerGEP I v st) st'"
proof -
  define st2 where "st2 = registerGEP I v st"
  have st2: "pass_inv I st2" using registerGEP_ok [OF assms(3)] by (simp add: st2_def stable_step_def)
  show ?thesis
  proof (cases "isPointerTy (getElementType (typeOf I v)) \<or> varinfo_of E I st2 (gepPointer I v) = None")
    case True
    then show ?thesis using st2 by (auto simp: processGetElementPtrInst_def Let_def st2_def stable_step_def)
  next
    case False
    then obtain p where p: "varinfo_of E I st2 (gepPointer I v) = Some p" by auto
    have "ptr_ok I st2 p" using ptr_ok_varinfo [OF st2 assms(2) p] .
    then have good: "good_size I (sizeOf (deref t p))" if "grows st2 t" "pass_inv I t" for t using deref_size that by blast
    obtain s1 st3 where b: "gepBaseSize E I P v (sizeOf (deref st2 p)) st2 = Some (s1, st3)" "good_size I s1" "stable_step I st2 st3"
      using gepBaseSize_ok [OF assms(2) st2 good [OF grows_refl st2]] by blast
    then obtain t where t: "gepResultSize E I v (sizeOf (deref st3 p)) s1 = Some t" "good_size I t"
      using gepResultSize_ok [OF assms(1,2) good b(2)] by (auto simp: stable_step_def)
    have "stable_step I st2 (SetSizeForPointerVariable v t st3)" using b(3) t(2) by (simp add: stable_step_def)
    then show ?thesis using False p b(1) t(1) by (simp add: processGetElementPtrInst_def Let_def st2_def)
  qed
qed

lemma processGetElementPtrInst_ok:
  "module_ok I \<Longrightarrow> env_ok E I \<Longrightarrow> pass_inv I st \<Longrightarrow>
   \<exists>st'. processGetElementPtrInst E I P v st = Some st' \<and> stable_step I st st'"
  using processGetElementPtrInst_after registerGEP_ok stable_step_trans by meson

lemma classifyBoth_ok: "pass_inv I t \<Longrightarrow> grows st t \<Longrightarrow> stable_step I st (classifyBoth I v c t)"
  by (simp add: classifyBoth_def stable_step_def)

lemma processCastOperands_ok:
  assumes "env_ok E I" and "pass_inv I st" and "ptr_ok I st p"
  shows "\<exists>st'. processCastOperands E I P v p st = Some st' \<and> stable_step I st st'"
proof -
  have "sizeOf (deref st p) \<noteq> SNull" using deref_size [OF assms(3) grows_refl assms(2)] by (simp add: good_size_def)
  moreover have "stable_step I st (SetSizeForPointerVariable (getOperand I v 0) (ums_getSizeForValue E I P v) st)"
    using assms by (simp add: stable_step_def)
  ultimately have "\<exists>st'. processCallOperand E I P v p st = Some st' \<and> stable_step I st st'"
    using assms(2) by (auto simp: processCallOperand_def Let_def stable_step_def intro!: classifyBoth_ok [unfolded stable_step_def])
  then show ?thesis using classifyBoth_ok [OF assms(2) grows_refl] assms(2)
    by (auto simp: processCastOperands_def Let_def stable_step_def)
qed

lemma processCastInst_ok:
  assumes "env_ok E I" and "pass_inv I st"
  shows "\<exists>st'. processCastInst E I P v st = Some st' \<and> stable_step I st st'"
proof -
  let ?op = "getOperand I v 0"
  obtain p st1 where e: "ensureSize E I P ?op st = (p, st1)" by fastforce
  have s: "stable_step I st st1" "pass_inv I st1" "ptr_ok I st1 p" using ensureSize_ok [OF assms e] by (auto simp: stable_step_def)
  obtain st2 where st2: "processCastOperands E I P v p st1 = Some st2" "stable_step I st1 st2"
    using processCastOperands_ok [OF assms(1) s(2,3)] by blast
  then have "good_size I (sizeOf (deref st2 p))" using s(3) by (auto simp: stable_step_def intro: deref_size)
  then have "stable_step I st2 (propagateSizeMetadata v p st2)" using st2(2) by (simp add: propagateSizeMetadata_def stable_step_def)
  then have fin: "stable_step I st (propagateSizeMetadata v p st2)" using s(1) st2(2) stable_step_trans by blast
  have ext: "stable_step I st1 (classifyExtOrTruncInst I v st1)"
    using classifyBoth_ok [OF s(2) grows_refl] s(2) by (simp add: classifyExtOrTruncInst_def stable_step_def)
  have "stable_step I st st" using assms(2) by (simp add: stable_step_def)
  then show ?thesis using e st2(1) s(1) fin stable_step_trans [OF s(1) ext]
    by (auto simp: processCastInst_def Let_def)
qed

subsection \<open>Instructions and functions\<close>

abbreviation llvm_ok :: "ums_env \<Rightarrow> ir \<Rightarrow> bool" where
  "llvm_ok E I \<equiv> module_ok I \<and> env_ok E I"

lemma processInstruction_ok:
  assumes "llvm_ok E I" and "pass_inv I st"
  shows "\<exists>st'. processInstruction E I P v st = Some st' \<and> stable_step I st st'"
proof -
  let ?g = "processGlobalVariables E I v st"
  have g: "stable_step I st ?g" "pass_inv I ?g" using processGlobalVariables_ok assms by (auto simp: stable_step_def)
  have "\<exists>st'. processInstruction E I P v st = Some st' \<and> stable_step I ?g st'"
  proof (cases "kind I v")
    case KAlloca
    then show ?thesis using processAllocaInst_ok [of I E ?g v] assms(1) g(2) by (simp add: processInstruction_def)
  next
    case KCall
    then show ?thesis using processCallInst_ok [of I E ?g P v] assms(1) g(2) by (simp add: processInstruction_def)
  next
    case KStore
    then show ?thesis using processStoreInst_ok [of E I ?g P v] assms(1) g(2) by (simp add: processInstruction_def)
  next
    case KLoad
    then show ?thesis using processLoadInst_ok [of E I ?g P v] assms(1) g(2) by (simp add: processInstruction_def)
  next
    case KGEP
    then show ?thesis using processGetElementPtrInst_ok [of I E ?g P v] assms(1) g(2) by (simp add: processInstruction_def)
  next
    case (KCast c)
    then show ?thesis using processCastInst_ok [of E I ?g P v] assms(1) g(2) by (simp add: processInstruction_def)
  qed (use g(2) in \<open>simp_all add: processInstruction_def stable_step_def\<close>)
  then show ?thesis using g(1) stable_step_trans by blast
qed

interpretation inst_steps: total_steps "processInstruction E I P" "\<lambda>_. llvm_ok E I" "pass_inv I" grows for E I P
  by unfold_locales (use processInstruction_ok in \<open>auto simp: stable_step_def intro: grows_trans\<close>)

lemma ums_analyzeFunction_ok:
  "llvm_ok E I \<Longrightarrow> pass_inv I st \<Longrightarrow> \<exists>st'. ums_analyzeFunction E I P F st = Some st' \<and> pass_inv I st' \<and> grows st st'"
  using inst_steps.loop_total [where E = E and I = I and P = P and xs = "instructions I F" and s = "RegisterFunction st"]
    grows_trans [of st "RegisterFunction st"]
  by (auto simp: ums_analyzeFunction_def list_all_iff)

interpretation function_steps: total_steps "ums_analyzeFunction E I P" "\<lambda>_. llvm_ok E I" "pass_inv I" grows for E I P
  by unfold_locales (use ums_analyzeFunction_ok in \<open>auto intro: grows_trans\<close>)

subsection \<open>The whole module\<close>

lemma succeeds_processInstruction: "llvm_ok E I \<Longrightarrow> succeeds I (processInstruction E I P v)"
  by (rule succeedsI) (rule processInstruction_ok)

lemma succeeds_Some_id: "succeeds I Some"
  by (simp add: succeeds_def stable_step_def)

text \<open>A node of the dependence graph that stands for a value has one.\<close>

definition graph_ok :: "node_heap \<Rightarrow> bool" where
  "graph_ok h \<longleftrightarrow> (\<forall>n. list_all (\<lambda>a. node_val (h a) \<noteq> 0) (sorted_list_of_set (getInNeighborsWithDepType h n DATA_ALIAS)))"

lemma succeeds_reanalyze:
  assumes "llvm_ok E I" and "graph_ok h"
  shows "succeeds I (reanalyzeAliases E I P h n)"
proof -
  have "succeeds I (\<lambda>st. let v = node_val (h a)
      in if v = 0 then None else if isInstruction I v then processInstruction E I P v st else Some st)"
    if "a \<in> set (sorted_list_of_set (getInNeighborsWithDepType h n DATA_ALIAS))" for a
  proof -
    have "node_val (h a) \<noteq> 0" using that assms(2) unfolding graph_ok_def list_all_iff by blast
    then show ?thesis using succeeds_processInstruction [OF assms(1), of P "node_val (h a)"] succeeds_Some_id [of I]
      by (auto simp: succeeds_def Let_def)
  qed
  then show ?thesis unfolding reanalyzeAliases_def by (rule succeeds_fold)
qed

lemma succeeds_rescan:
  assumes "llvm_ok E I" and "graph_ok h"
  shows "succeeds I (rescanFunction E I P G h g name)"
proof -
  have "succeeds I (rescanUse E I P G h g i U)" for i U
    using succeeds_reanalyze [OF assms] succeeds_Some_id [of I]
    by (auto simp: succeeds_def rescanUse_def split: option.splits)
  then have "succeeds I (fold_option (\<lambda>i. fold_option (rescanUse E I P G h g i) (operands I i)) xs)" for xs
    by (intro succeeds_fold)
  then show ?thesis using succeeds_Some_id [of I] by (auto simp: succeeds_def rescanFunction_def split: option.splits)
qed

lemma propagateGlobal_ok:
  assumes "llvm_ok E I \<and> graph_ok h \<and> g \<in> W" and "pass_inv I st \<and> (\<forall>w \<in> W. contains (Variables st) w)"
  shows "\<exists>st'. propagateGlobal E I P G h g st = Some st' \<and> (pass_inv I st' \<and> (\<forall>w \<in> W. contains (Variables st') w)) \<and> grows st st'"
proof -
  let ?st = "modify_info g (\<lambda>i. i\<lparr>didClassificationChange := False\<rparr>) st"
  have "entry_ok I (lookup_info st g)" using assms by (auto simp: pass_inv_def)
  then have st: "stable_step I st ?st" using assms(2) by (auto simp: stable_step_def entry_ok_def intro: pass_inv_modify)
  have "succeeds I (fold_option (rescanFunction E I P G h g) xs)" for xs
    by (rule succeeds_fold) (use succeeds_rescan assms(1) in blast)
  then obtain st' where "fold_option (rescanFunction E I P G h g) (sorted_list_of_set (dependentFunctions (lookup_info st g))) ?st = Some st'"
    "stable_step I ?st st'" using st unfolding succeeds_def stable_step_def by metis
  then have "\<exists>st'. propagateGlobal E I P G h g st = Some st' \<and> stable_step I st st'"
    using assms(2) stable_step_trans [OF st] by (auto simp: propagateGlobal_def Let_def stable_step_def)
  then show ?thesis using assms(2) by (auto simp: stable_step_def grows_def)
qed

interpretation global_steps: total_steps "propagateGlobal E I P G h" "\<lambda>g. llvm_ok E I \<and> graph_ok h \<and> g \<in> W"
    "\<lambda>st. pass_inv I st \<and> (\<forall>w \<in> W. contains (Variables st) w)" grows for E I P G h W
  by unfold_locales (use propagateGlobal_ok in \<open>auto intro: grows_trans\<close>)

lemma pass_inv_globals:
  "pass_inv I st \<longleftrightarrow> pass_inv (I\<lparr>moduleGlobals := []\<rparr>) st \<and> (\<forall>g \<in> set (moduleGlobals I). contains (Variables st) g)"
proof -
  have "sizeInt (I\<lparr>moduleGlobals := []\<rparr>) s = sizeInt I s" for s by (simp add: sizeInt_def constantInt_def split: sizeval.splits)
  then have "good_size (I\<lparr>moduleGlobals := []\<rparr>) = good_size I" by (simp add: good_size_def fun_eq_iff)
  then show ?thesis by (simp add: pass_inv_def entry_ok_def)
qed

lemma registerGlobals_ok:
  assumes "env_ok E I"
  shows "pass_inv I (registerGlobals E I P (SetSizeType 64 init_state))"
proof -
  let ?J = "I\<lparr>moduleGlobals := []\<rparr>"
  have one: "pass_inv ?J (registerGlobal E I P g st)" if "pass_inv ?J st" for g st
  proof -
    have J: "I\<lparr>moduleGlobals := []\<rparr>\<lparr>moduleGlobals := []\<rparr> = I\<lparr>moduleGlobals := []\<rparr>" by simp
    have "pass_inv ?J (modify_info g (\<lambda>i. i\<lparr>isGlobal := True\<rparr>) (RegisterVariable g st))"
      by (rule pass_inv_modify) (use registered_entry [OF that, of g] that in \<open>auto simp: entry_ok_def\<close>)
    moreover have "good_size ?J (ums_getSizeForValue E I P g)"
      using good_getSizeForValue [OF assms, of P g] by (simp add: good_size_def sizeInt_def constantInt_def split: sizeval.splits)
    ultimately show ?thesis by (simp add: registerGlobal_def Let_def)
  qed
  have new: "contains (Variables (registerGlobal E I P g st)) w \<longleftrightarrow> w = g \<or> contains (Variables st) w" for g w st
    by (auto simp: registerGlobal_def Let_def contains_SetSize contains_modify contains_Register)
  have "pass_inv ?J (fold (registerGlobal E I P) gs st) \<and>
      (\<forall>w. contains (Variables (fold (registerGlobal E I P) gs st)) w \<longleftrightarrow> w \<in> set gs \<or> contains (Variables st) w)"
    if "pass_inv ?J st" for gs st
    using that by (induction gs arbitrary: st) (auto simp: one new)
  moreover have "pass_inv ?J (SetSizeType 64 init_state)" by (simp add: pass_inv_def SetSizeType_def init_state_def)
  ultimately show ?thesis by (subst pass_inv_globals) (simp add: registerGlobals_def)
qed

lemma analyzeAllFunctions_ok:
  "llvm_ok E I \<Longrightarrow> pass_inv I st \<Longrightarrow> \<exists>st'. analyzeAllFunctions E I P fs st = Some st' \<and> pass_inv I st' \<and> grows st st'"
  using function_steps.loop_total [where E = E and I = I and P = P and xs = fs and s = st]
  by (simp add: analyzeAllFunctions_def list_all_iff)

lemma classificationPropagation_ok:
  assumes "llvm_ok E I" and "graph_ok h" and "pass_inv I st" and "set order \<subseteq> keys (Variables st)"
  shows "\<exists>st'. classificationPropagation E I P G h order st = Some st' \<and> pass_inv I st' \<and> grows st st'"
proof -
  have "list_all (\<lambda>g. llvm_ok E I \<and> graph_ok h \<and> g \<in> keys (Variables st)) order" using assms by (auto simp: list_all_iff)
  from global_steps.loop_total [OF this, of st P G] show ?thesis
    using assms(3) by (auto simp: classificationPropagation_def keys_iff)
qed

lemma classifyModule_ok:
  assumes "llvm_ok E I" and "graph_ok h" and "\<And>st. set (order st) \<subseteq> keys (Variables st)"
  obtains st1 st2 where
    "analyzeAllFunctions E I P (collectFunctionsToAnalyze I) (registerGlobals E I P (SetSizeType 64 init_state)) = Some st1"
    "classifyModule E I P G h order = Some st2" "pass_inv I st1" "pass_inv I st2" "grows st1 st2"
proof -
  obtain st1 where st1: "analyzeAllFunctions E I P (collectFunctionsToAnalyze I) (registerGlobals E I P (SetSizeType 64 init_state)) = Some st1"
    "pass_inv I st1" using analyzeAllFunctions_ok [OF assms(1) registerGlobals_ok] assms(1) by meson
  obtain st2 where "classificationPropagation E I P G h (order st1) st1 = Some st2" "pass_inv I st2" "grows st1 st2"
    using classificationPropagation_ok [OF assms(1,2) st1(2) assms(3)] by meson
  then show ?thesis using that [of st1 st2] st1 by (simp add: classifyModule_def)
qed

text \<open>
  C3: The classification of a module runs to its end and never reads a null size: on a module whose
  operand chains end, with whatever order of the hash table, the pass returns a store whose keys are
  distinct and whose entries all have a size of at most 64 bits; every global of the module has an entry.
\<close>

theorem classification_succeeds:
  assumes "module_ok I" and "env_ok E I" and "graph_ok h" and "\<And>st. set (order st) \<subseteq> keys (Variables st)"
  shows "\<exists>st. classifyModule E I P G h order = Some st \<and> state_ok st \<and>
    (\<forall>v. contains (Variables st) v \<longrightarrow> good_size I (sizeOf (lookup_info st v))) \<and>
    set (moduleGlobals I) \<subseteq> keys (Variables st)"
proof -
  obtain st where st: "classifyModule E I P G h order = Some st" "pass_inv I st"
    using classifyModule_ok [where E = E and I = I and h = h and order = order and P = P and G = G] assms by metis
  then have "state_ok st" by (auto simp: pass_inv_def state_ok_alt entry_ok_def good_size_def)
  then show ?thesis using st by (auto simp: pass_inv_def entry_ok_def keys_iff)
qed

text \<open>A module for the examples: function 2 with block 3; an indexed access 5 into the alloca 4 and a cast 6 of the loaded pointer 8.\<close>

definition ums_example :: ir where
  "ums_example = empty_ir\<lparr>
     kind := (\<lambda>v. if v = 4 then KAlloca else if v = 5 then KGEP else if v = 6 then KCast BitCast else if v = 7 then KConstantInt (mk 64 3)
       else if v = 8 then KLoad else if v = 2 then KFunction else KArgument),
     typeOf := (\<lambda>v. if v = 5 then PointerTy (IntegerTy 8) else if v = 6 then PointerTy (PointerTy (IntegerTy 8))
       else if v = 7 then IntegerTy 64 else PointerTy (IntegerTy 32)),
     operands := (\<lambda>v. if v = 5 then [4, 7] else if v = 6 then [8] else if v = 8 then [4] else []),
     insts := (\<lambda>b. if b = 3 then [4, 5, 8, 6] else []), blocks := (\<lambda>f. if f = 2 then [3] else []),
     valueName := (\<lambda>v. if v = 2 then ''main'' else ''''), moduleFunctions := [2]\<rparr>"

definition ums_example_env :: ums_env where
  "ums_example_env = \<lparr>objSize = (\<lambda>_. None), objOffset = (\<lambda>_. None), constantOffset = (\<lambda>_. None), typeStoreSize = (\<lambda>_. 8),
     isSized = (\<lambda>_. True), isGEPExpr = (\<lambda>_. False), foldMul = (\<lambda>_ _. MySizeConst 0), foldSub = (\<lambda>_ _. MySizeConst 0),
     foldZExt = (\<lambda>_. MySizeConst 0), junkInfo = fresh_info\<rparr>"

definition ums_example_heap :: node_heap where
  "ums_example_heap = (\<lambda>_. new_Node INST)"

definition ums_example_graph :: GenericGraph where
  "ums_example_graph = \<lparr>val_node_map = [], node_set = {}, is_build = True\<rparr>"

lemma ums_example_chain: "wf (operand_chain ums_example)"
proof (rule wf_subset)
  show "wf (inv_image less_than (\<lambda>v :: vid. if v = 8 then 5 else v))" by simp
  show "operand_chain ums_example \<subseteq> inv_image less_than (\<lambda>v :: vid. if v = 8 then 5 else v)"
    by (auto simp: operand_chain_def ums_example_def getOperand_def split: if_splits)
qed

lemma ums_example_ok: "module_ok ums_example" "env_ok ums_example_env ums_example" "graph_ok ums_example_heap"
proof -
  show "module_ok ums_example"
    using ums_example_chain unfolding module_ok_def by (simp add: ums_example_def empty_ir_def suffix_def mk_def)
  show "env_ok ums_example_env ums_example" by (simp add: env_ok_def ums_example_env_def fresh_info_def)
  show "graph_ok ums_example_heap"
    by (simp add: graph_ok_def getInNeighborsWithDepType_def new_Node_def ums_example_heap_def)
qed

theorem classification_succeeds_witness:
  "classifyModule ums_example_env ums_example pta_example ums_example_graph ums_example_heap (\<lambda>st. map fst (Variables st)) \<noteq> None"
  using classification_succeeds [OF ums_example_ok, of "\<lambda>st. map fst (Variables st)" pta_example ums_example_graph]
  by (auto simp: keys_def)

text \<open>
  What the pass must classify as unsafe: an address computation with an index other than zero together
  with its base, and a pointer cast of interest applied to a load, an address computation, a cast or
  a call, together with its operand.
\<close>

definition indexed_access :: "ir \<Rightarrow> vid \<Rightarrow> bool" where
  "indexed_access I v \<longleftrightarrow> kind I v = KGEP \<and> \<not> hasAllZeroIndices I v"

definition computed_pointer_cast :: "ir \<Rightarrow> vid \<Rightarrow> bool" where
  "computed_pointer_cast I v \<longleftrightarrow> isCastInst I v \<and>
     (let k = kind I (getOperand I v 0); srcT = typeOf I (getOperand I v 0); dstT = typeOf I v
      in isPointerTy srcT \<and> (k = KLoad \<or> k = KGEP \<or> is_Cast_k k \<or> k = KCall) \<and>
         isCastOfInterest srcT dstT (unwrapPointer srcT) (unwrapPointer dstT))"

definition both_unsafe :: "AnalysisState \<Rightarrow> vid \<Rightarrow> vid \<Rightarrow> bool" where
  "both_unsafe st v w \<longleftrightarrow> unsafe_class (class_of st v) \<and> unsafe_class (class_of st w)"

lemma both_unsafe_grows: "grows st t \<Longrightarrow> both_unsafe st v w \<Longrightarrow> both_unsafe t v w"
  by (simp add: grows_def both_unsafe_def)

lemma unsafe_Classify: "unsafe_class (class_of (ClassifyPointerVariable v c st) w) \<longleftrightarrow>
    unsafe_class (class_of st w) \<or> w = v \<and> unsafe_class c"
  by (simp add: class_of_Classify unsafe_ums_move)

lemma registerGEP_unsafe: "\<not> hasAllZeroIndices I v \<Longrightarrow> both_unsafe (registerGEP I v st) v (gepPointer I v)"
  by (simp add: registerGEP_def both_unsafe_def unsafe_Classify) (simp add: unsafe_class_def)

lemma classifyBoth_unsafe: "unsafe_class c \<Longrightarrow> both_unsafe (classifyBoth I v c st) v (getOperand I v 0)"
  by (simp add: classifyBoth_def both_unsafe_def unsafe_Classify) (simp add: unsafe_class_def)

lemma computed_pointer_cast_unsafe:
  assumes "computed_pointer_cast I v" and "processCastInst E I P v st = Some st'"
  shows "both_unsafe st' v (getOperand I v 0)"
proof -
  let ?op = "getOperand I v 0"
  obtain p st1 where e: "ensureSize E I P ?op st = (p, st1)" by fastforce
  have "isPointerTy (typeOf I ?op)" using assms(1) by (simp add: computed_pointer_cast_def Let_def)
  then obtain st2 where st2: "processCastOperands E I P v p st1 = Some st2" "st' = propagateSizeMetadata v p st2"
    using assms e by (auto simp: processCastInst_def computed_pointer_cast_def Let_def)
  have u: "unsafe_class Dyn" "unsafe_class Seq" by (simp_all add: unsafe_class_def)
  have "both_unsafe st2 v ?op"
    using assms(1) st2(1) classifyBoth_unsafe [OF u(1)] classifyBoth_unsafe [OF u(2)]
    by (auto simp: processCastOperands_def processCallOperand_def computed_pointer_cast_def Let_def split: if_splits)
  then show ?thesis using st2(2) by (simp add: propagateSizeMetadata_def both_unsafe_def)
qed

lemma processInstruction_unsafe:
  assumes "llvm_ok E I" and "pass_inv I st" and "processInstruction E I P v st = Some st'"
    and "indexed_access I v \<or> computed_pointer_cast I v"
  shows "both_unsafe st' v (getOperand I v 0)"
proof (cases "indexed_access I v")
  case True
  let ?g = "processGlobalVariables E I v st"
  have "pass_inv I ?g" using processGlobalVariables_ok assms(1,2) by (auto simp: stable_step_def)
  moreover have "processGetElementPtrInst E I P v ?g = Some st'"
    using True assms(3) by (simp add: processInstruction_def indexed_access_def Let_def)
  ultimately have "grows (registerGEP I v ?g) st'"
    using processGetElementPtrInst_after [of I E ?g P v] assms(1) by (auto simp: stable_step_def)
  then show ?thesis using registerGEP_unsafe [of I v ?g] True both_unsafe_grows by (auto simp: indexed_access_def gepPointer_def)
next
  case False
  then have "computed_pointer_cast I v" using assms(4) by simp
  then show ?thesis using assms(3) computed_pointer_cast_unsafe
    by (cases "kind I v") (auto simp: processInstruction_def computed_pointer_cast_def Let_def)
qed

text \<open>
  C2: After the classification of a module, an address computation with an index other than zero and its base are
  unsafe (\<open>Seq\<close> or \<open>Dyn\<close>), and so are a pointer cast of interest whose operand is a load, an address
  computation, a cast or a call, and that operand. This holds for every analysed function, whatever the other
  instructions and the re-analysis of globals do. Casts of other operands (stack slots, arguments, phi nodes,
  globals) are not classified by the code: \<open>casts_of_other_operands_not_classified\<close> below.
\<close>

theorem dangerous_uses_are_unsafe:
  assumes "module_ok I" and "env_ok E I" and "graph_ok h" and "\<And>st. set (order st) \<subseteq> keys (Variables st)"
    and "F \<in> set (collectFunctionsToAnalyze I)" and "v \<in> set (instructions I F)"
    and "indexed_access I v \<or> computed_pointer_cast I v" and "classifyModule E I P G h order = Some st"
  shows "unsafe_class (class_of st v) \<and> unsafe_class (class_of st (getOperand I v 0))"
proof -
  have ok: "llvm_ok E I" using assms by simp
  let ?st0 = "registerGlobals E I P (SetSizeType 64 init_state)"
  obtain st1 where st1: "analyzeAllFunctions E I P (collectFunctionsToAnalyze I) ?st0 = Some st1" "grows st1 st"
    using classifyModule_ok [OF ok assms(3,4), where P = P and G = G] assms(8) by (metis option.sel)
  have fn: "both_unsafe t' v (getOperand I v 0)" if "pass_inv I t" "ums_analyzeFunction E I P F t = Some t'" for t t'
    using inst_steps.loop_establishes [where E = E and I = I and P = P and xs = "instructions I F" and s = "RegisterFunction t" and s' = t'
        and i = v and Q = "\<lambda>s. both_unsafe s v (getOperand I v 0)"]
      that ok assms(6,7) processInstruction_unsafe [OF ok] both_unsafe_grows
    by (auto simp: ums_analyzeFunction_def list_all_iff)
  have "both_unsafe st1 v (getOperand I v 0)"
    using function_steps.loop_establishes [where E = E and I = I and P = P and xs = "collectFunctionsToAnalyze I" and s = ?st0 and s' = st1
        and i = F and Q = "\<lambda>s. both_unsafe s v (getOperand I v 0)"]
      fn st1(1) ok assms(5) registerGlobals_ok [OF assms(2)] both_unsafe_grows
    by (auto simp: analyzeAllFunctions_def list_all_iff)
  then show ?thesis using both_unsafe_grows [OF st1(2)] by (simp add: both_unsafe_def)
qed

theorem dangerous_uses_are_unsafe_witness:
  "\<exists>st. classifyModule ums_example_env ums_example pta_example ums_example_graph ums_example_heap (\<lambda>st. []) = Some st \<and>
     unsafe_class (class_of st 5) \<and> unsafe_class (class_of st 4)"
proof -
  obtain st where st: "classifyModule ums_example_env ums_example pta_example ums_example_graph ums_example_heap (\<lambda>st. []) = Some st"
    using classifyModule_ok [where E = ums_example_env and I = ums_example and h = ums_example_heap and order = "\<lambda>_. []"] ums_example_ok
    by (metis empty_set empty_subsetI)
  have "unsafe_class (class_of st 5) \<and> unsafe_class (class_of st (getOperand ums_example 5 0))"
    by (rule dangerous_uses_are_unsafe [OF ums_example_ok, where F = 2, OF _ _ _ _ st])
      (simp_all add: ums_example_def empty_ir_def collectFunctionsToAnalyze_def runtime_functions_def instructions_def indexed_access_def
        hasAllZeroIndices_def constantInt_def is_zero_def mk_def)
  moreover have "getOperand ums_example 5 0 = 4" by (simp add: ums_example_def getOperand_def)
  ultimately show ?thesis using st by simp
qed

text \<open>
  A cast whose operand is none of the four kinds changes no class at all, also when it is a cast of
  interest: only the size of the operand is handed on.
\<close>

lemma casts_of_other_operands_not_classified:
  assumes "kind I (getOperand I v 0) \<notin> {KLoad, KGEP, KCall}" and "\<not> is_Cast_k (kind I (getOperand I v 0))"
    and "isPointerTy (typeOf I (getOperand I v 0))" and "processCastInst E I P v st = Some st'"
  shows "class_of st' w = class_of st w"
proof -
  obtain p st1 where e: "ensureSize E I P (getOperand I v 0) st = (p, st1)" by fastforce
  then have "class_of st1 w = class_of st w" by (auto simp: ensureSize_def split: option.splits)
  moreover have "st' = st1 \<or> st' = propagateSizeMetadata v p st1"
    using assms e by (auto simp: processCastInst_def processCastOperands_def Let_def split: if_splits)
  ultimately show ?thesis by (auto simp: propagateSizeMetadata_def)
qed

text \<open>
  The classification of sign extensions and truncations never takes effect: for an integer source the
  cast is not of interest, and for any other source the test for a changed value fails, so that no
  class changes.
\<close>

theorem integer_casts_never_classified:
  assumes "kind I v = KCast ZExt \<or> kind I v = KCast SExt \<or> kind I v = KCast Trunc"
    and "\<not> isPointerTy (typeOf I (getOperand I v 0))" and "processCastInst E I P v st = Some st'"
  shows "class_of st' w = class_of st w"
proof -
  let ?src = "typeOf I (getOperand I v 0)" and ?dst = "typeOf I v"
  obtain p st1 where e: "ensureSize E I P (getOperand I v 0) st = (p, st1)" by fastforce
  have src: "unwrapPointer ?src = ?src" "countIndirections ?src = 0" using assms(2) by (cases ?src; simp)+
  have "\<not> couldChangeValue I v" if "isCastOfInterest ?src ?dst (unwrapPointer ?src) (unwrapPointer ?dst)"
    using that assms(1) src
    by (cases ?src; cases ?dst) (auto simp: isCastOfInterest_def couldChangeValue_def Let_def)
  then have "st' = st \<or> st' = st1"
    using assms(2,3) e by (auto simp: processCastInst_def Let_def classifyExtOrTruncInst_def split: if_splits)
  moreover have "class_of st1 w = class_of st w" using e by (auto simp: ensureSize_def split: option.splits)
  ultimately show ?thesis by auto
qed

definition trunc_example :: ir where
  "trunc_example = empty_ir\<lparr>kind := (\<lambda>v. if v = 5 then KCast Trunc else KArgument),
     typeOf := (\<lambda>v. if v = 5 then IntegerTy 8 else IntegerTy 64), operands := (\<lambda>v. if v = 5 then [4] else [])\<rparr>"

theorem integer_casts_never_classified_witness:
  "class_of (SetSizeForPointerVariable 4 (MySizeConst 8) init_state) 5 = Safe"
proof -
  let ?st = "SetSizeForPointerVariable 4 (MySizeConst 8) init_state"
  have "contains (Variables ?st) 4" by (simp add: contains_SetSize)
  then have "processCastInst ums_example_env trunc_example pta_example 5 ?st = Some ?st"
    by (simp add: processCastInst_def trunc_example_def empty_ir_def getOperand_def ensureSize_def GetPointerVariableInfo_def
        isCastOfInterest_def)
  from integer_casts_never_classified [OF _ _ this, of 5] show ?thesis by (simp add: trunc_example_def getOperand_def)
qed

end
