(* ===== verification/Forward_Dataflow.thy ===== *)
theory Forward_Dataflow
  imports Range_Transfer
begin

text \<open>
  The interprocedural dataflow engine: the templates \<^verbatim>\<open>WorkList\<close> and \<^verbatim>\<open>ForwardDataflowAnalysis\<close> of
  \<^verbatim>\<open>DataflowAnalysis.h\<close>.  The template parameters (the abstract value with its meet, and the transfer
  function) are a record \<open>policy\<close>; the analysis of value ranges is the instance \<open>range_policy\<close>.  An
  execution has the type \<open>exec\<close>: \<open>None\<close> when it does not return, \<open>Crashed\<close> when an assertion fails or a
  missing entry is dereferenced.  References into the tables are modelled as look-ups in the
  state, so that aliasing between \<open>results\<close> and \<open>allResults\<close> is visible; the two levels of
  \<open>allResults\<close> are one table with pairs as keys.  Hash tables are iterated in the order of insertion.
  The recursion over calls has the fuel \<open>n\<close>; \<open>depth_bound\<close> is enough (\<open>dataflow_terminates\<close>).
\<close>

subsection \<open>Executions\<close>

datatype 'a outcome = Returned 'a | Crashed

type_synonym 'a exec = "'a outcome option"

definition exec_bind :: "'a exec \<Rightarrow> ('a \<Rightarrow> 'b exec) \<Rightarrow> 'b exec" where
  "exec_bind m f = Option.bind m (\<lambda>r. case r of Returned x \<Rightarrow> f x | Crashed \<Rightarrow> Some Crashed)"

definition lift :: "'a option \<Rightarrow> 'a exec" where
  "lift m = Some (case m of Some x \<Rightarrow> Returned x | None \<Rightarrow> Crashed)"

lemma exec_bind_simps [simp]:
  "exec_bind (Some (Returned x)) f = f x"
  "exec_bind (Some Crashed) f = Some Crashed"
  "exec_bind None f = None"
  by (simp_all add: exec_bind_def)

lemma lift_simps [simp]: "lift (Some x) = Some (Returned x)" "lift None = Some Crashed"
  by (simp_all add: lift_def)

lemma exec_bind_Returned:
  "exec_bind m f = Some (Returned y) \<longleftrightarrow> (\<exists>x. m = Some (Returned x) \<and> f x = Some (Returned y))"
  by (cases m; cases "the m") (auto simp: exec_bind_def)

lemma lift_Returned [simp]: "lift m = Some (Returned x) \<longleftrightarrow> m = Some x"
  by (cases m) auto

lemma exec_bind_mono [partial_function_mono]:
  assumes "mono_option B" and "\<And>y. mono_option (\<lambda>f. C y f)"
  shows "mono_option (\<lambda>f. exec_bind (B f) (\<lambda>y. C y f))"
  unfolding exec_bind_def
proof (rule bind_mono [OF assms(1)])
  fix r
  show "mono_option (\<lambda>f. case r of Returned x \<Rightarrow> C x f | Crashed \<Rightarrow> Some Crashed)"
    by (cases r) (auto intro: assms(2) option.const_mono)
qed

subsection \<open>Work lists\<close>

record 'a WorkList =
  inList :: "'a set"
  work :: "'a list"

definition worklist_of :: "'a list \<Rightarrow> 'a WorkList" where
  "worklist_of xs = \<lparr>inList = set xs, work = xs\<rparr>"

text \<open>\<^verbatim>\<open>add\<close> looks an element up in \<open>inList\<close>, but does not insert it there.\<close>

definition wl_add :: "'a \<Rightarrow> 'a WorkList \<Rightarrow> 'a WorkList" where
  "wl_add elt w = (if elt \<in> inList w then w else w\<lparr>work := work w @ [elt]\<rparr>)"

definition wl_take :: "'a WorkList \<Rightarrow> ('a \<times> 'a WorkList) option" where
  "wl_take w = (case work w of [] \<Rightarrow> None | x # xs \<Rightarrow> Some (x, w\<lparr>work := xs, inList := inList w - {x}\<rparr>))"

subsection \<open>Tables\<close>

text \<open>The comparison of tables: equal sizes, and every entry of the first found equal in the second.\<close>

definition dict_keys :: "('k, 'v) dict \<Rightarrow> 'k list" where
  "dict_keys s = remdups (map fst s)"

fun entries_eq :: "('v \<Rightarrow> 'v \<Rightarrow> bool option) \<Rightarrow> ('k, 'v) dict \<Rightarrow> ('k, 'v) dict \<Rightarrow> 'k list \<Rightarrow> bool option" where
  "entries_eq eq s1 s2 [] = Some True"
| "entries_eq eq s1 s2 (k # ks) =
     (case (map_of s2 k, map_of s1 k) of
        (Some found, Some v) \<Rightarrow> Option.bind (eq found v) (\<lambda>b. if b then entries_eq eq s1 s2 ks else Some False)
      | _ \<Rightarrow> Some False)"

definition dict_eq :: "('v \<Rightarrow> 'v \<Rightarrow> bool option) \<Rightarrow> ('k, 'v) dict \<Rightarrow> ('k, 'v) dict \<Rightarrow> bool option" where
  "dict_eq eq s1 s2 =
     (if length (dict_keys s1) \<noteq> length (dict_keys s2) then Some False
      else entries_eq eq s1 s2 (dict_keys s1))"

text \<open>\<open>FindAndConstruct\<close>, and the indexing operator as an expression that is read: a missing entry is inserted.\<close>

definition construct :: "'k \<Rightarrow> 'v \<Rightarrow> ('k, 'v) dict \<Rightarrow> ('k, 'v) dict" where
  "construct k v0 m = (if contains m k then m else AList.update k v0 m)"

definition get_or :: "'v \<Rightarrow> ('k, 'v) dict \<Rightarrow> 'k \<Rightarrow> 'v" where
  "get_or v0 m k = (case map_of m k of Some v \<Rightarrow> v | None \<Rightarrow> v0)"

subsection \<open>The template parameters and the state of the analysis\<close>

type_synonym 'a abs_state = "(vid, 'a) dict"

type_synonym 'a function_results = "(vid, 'a abs_state) dict"

type_synonym ctx = "vid list"

record 'a policy =
  defaultValue :: 'a
  meetValues :: "'a list \<Rightarrow> 'a option"
  meetIntersection :: "'a \<Rightarrow> 'a \<Rightarrow> 'a option"
  valueEq :: "'a \<Rightarrow> 'a \<Rightarrow> bool option"
  transferOn :: "vid \<Rightarrow> 'a abs_state \<Rightarrow> 'a abs_state option"
  branchValue :: "vid \<Rightarrow> apint \<Rightarrow> bool \<Rightarrow> bool \<Rightarrow> 'a"
  usePC :: bool

record 'a analysis =
  allResults :: "(ctx \<times> vid, 'a function_results) dict"
  contextWork :: "(ctx \<times> vid) WorkList"
  callersOf :: "(ctx \<times> vid, (ctx \<times> vid) list) dict"
  activeSet :: "(ctx \<times> vid) set"

text \<open>\<^verbatim>\<open>ForwardDataflowAnalysis(m, entryPoints)\<close>; the parameter is the length of a context.\<close>

definition new_analysis :: "nat \<Rightarrow> vid list \<Rightarrow> 'a analysis" where
  "new_analysis contextSize entryPoints =
     \<lparr>allResults = [], contextWork = fold (\<lambda>e. wl_add (replicate contextSize 0, e)) entryPoints \<lparr>inList = {}, work = []\<rparr>,
      callersOf = [], activeSet = {}\<rparr>"

definition function_results :: "'a analysis \<Rightarrow> ctx \<times> vid \<Rightarrow> 'a function_results" where
  "function_results A key = get_or [] (allResults A) key"

definition set_results :: "ctx \<times> vid \<Rightarrow> 'a function_results \<Rightarrow> 'a analysis \<Rightarrow> 'a analysis" where
  "set_results key r A = A\<lparr>allResults := AList.update key r (allResults A)\<rparr>"

text \<open>Reading and writing \<open>results[v]\<close> for the results of a context and function; \<open>touch\<close> is the insertion by a read.\<close>

definition results_at :: "'a analysis \<Rightarrow> ctx \<times> vid \<Rightarrow> vid \<Rightarrow> 'a abs_state" where
  "results_at A key v = get_or [] (function_results A key) v"

definition put :: "ctx \<times> vid \<Rightarrow> vid \<Rightarrow> 'a abs_state \<Rightarrow> 'a analysis \<Rightarrow> 'a analysis" where
  "put key v s A = set_results key (AList.update v s (function_results A key)) A"

definition touch :: "ctx \<times> vid \<Rightarrow> vid \<Rightarrow> 'a analysis \<Rightarrow> 'a analysis" where
  "touch key v A = set_results key (construct v [] (function_results A key)) A"

subsection \<open>Merging states\<close>

definition meet2 :: "'a policy \<Rightarrow> 'a \<Rightarrow> 'a \<Rightarrow> 'a option" where
  "meet2 Q a b = meetValues Q [a, b]"

fun merge_entries :: "'a policy \<Rightarrow> bool \<Rightarrow> 'a abs_state \<Rightarrow> 'a abs_state \<Rightarrow> 'a abs_state option" where
  "merge_entries Q balanced destination [] = Some destination"
| "merge_entries Q balanced destination ((k, v) # rest) =
     (case map_of destination k of
        Some old \<Rightarrow> Option.bind (meet2 Q old v) (\<lambda>m. merge_entries Q balanced (AList.update k m destination) rest)
      | None \<Rightarrow> merge_entries Q balanced (AList.update k (if balanced then defaultValue Q else v) destination) rest)"

definition mergeInState :: "'a policy \<Rightarrow> 'a abs_state \<Rightarrow> 'a abs_state \<Rightarrow> bool \<Rightarrow> 'a abs_state option" where
  "mergeInState Q destination toMerge balanced =
     merge_entries Q balanced
       (if balanced then map (\<lambda>(k, v). (k, if contains toMerge k then v else defaultValue Q)) destination
        else destination) toMerge"

fun merge_predecessors :: "'a policy \<Rightarrow> 'a abs_state \<Rightarrow> 'a abs_state list \<Rightarrow> 'a abs_state option" where
  "merge_predecessors Q s [] = Some s"
| "merge_predecessors Q s (p # ps) = Option.bind (mergeInState Q s p True) (\<lambda>s1. merge_predecessors Q s1 ps)"

text \<open>The exit states of the predecessors, in order; the first one is merged unbalanced.\<close>

definition mergeStateFromPredecessors :: "'a policy \<Rightarrow> 'a abs_state \<Rightarrow> 'a abs_state list \<Rightarrow> 'a abs_state option" where
  "mergeStateFromPredecessors Q own exits =
     Option.bind (mergeInState Q [] own False) (\<lambda>mergedState.
     Option.bind (case exits of [] \<Rightarrow> Some [] | e # es \<Rightarrow>
         Option.bind (mergeInState Q [] e False) (\<lambda>s. merge_predecessors Q s es)) (\<lambda>state.
     mergeInState Q mergedState state False))"

subsection \<open>Branch conditions\<close>

definition getSinglePredecessor :: "ir \<Rightarrow> vid \<Rightarrow> vid option" where
  "getSinglePredecessor I bb = (case predecessors I bb of [p] \<Rightarrow> Some p | _ \<Rightarrow> None)"

text \<open>
  The constant and the variable side of a comparison, and whether the variable comes first; operand 0
  of a conditional branch is its condition, its first successor the true branch.
\<close>

definition compared :: "ir \<Rightarrow> vid \<Rightarrow> (apint \<times> vid \<times> bool) option" where
  "compared I cmp =
     (let op0 = getOperand I cmp 0; op1 = getOperand I cmp 1
      in if isConstant I op0 \<and> \<not> isConstant I op1 then map_option (\<lambda>c. (c, op1, False)) (constantInt I op0)
         else if isConstant I op1 \<and> \<not> isConstant I op0 then map_option (\<lambda>c. (c, op0, True)) (constantInt I op1)
         else None)"

fun is_ICmp_k :: "vkind \<Rightarrow> bool" where
  "is_ICmp_k (KICmp _) = True"
| "is_ICmp_k _ = False"

definition constrainValuesByCondition :: "ir \<Rightarrow> 'a policy \<Rightarrow> vid \<Rightarrow> 'a abs_state" where
  "constrainValuesByCondition I Q bb =
     (case getSinglePredecessor I bb of
        None \<Rightarrow> []
      | Some pred \<Rightarrow>
          (let branch = terminator I pred; cmp = getOperand I branch 0
           in if is_CondBr_k (kind I branch) \<and> is_ICmp_k (kind I cmp) then
                (case compared I cmp of
                   None \<Rightarrow> []
                 | Some (c, var, isVariableOpFirst) \<Rightarrow>
                     (let isTrueBranch = (successors I pred \<noteq> [] \<and> hd (successors I pred) = bb);
                          r = branchValue Q cmp c isTrueBranch isVariableOpFirst;
                          ptr = loadPointer I var
                      in if kind I var = KLoad \<and> kind I (stripPointerCasts I ptr) = KAlloca
                         then [(var, r), (ptr, r)] else [(var, r)]))
              else []))"

fun apply_constraints :: "'a policy \<Rightarrow> 'a abs_state \<Rightarrow> 'a abs_state \<Rightarrow> 'a abs_state option" where
  "apply_constraints Q s [] = Some s"
| "apply_constraints Q s ((k, v) # rest) =
     (case map_of s k of
        None \<Rightarrow> apply_constraints Q (AList.update k v s) rest
      | Some old \<Rightarrow> Option.bind (meetIntersection Q old v) (\<lambda>m. apply_constraints Q (AList.update k m s) rest))"

subsection \<open>Instructions\<close>

text \<open>A value that is not in the state is transferred first; an entry still missing then is dereferenced.\<close>

definition find_or_transfer :: "'a policy \<Rightarrow> vid \<Rightarrow> 'a abs_state \<Rightarrow> ('a \<times> 'a abs_state) option" where
  "find_or_transfer Q v s =
     (case map_of s v of
        Some a \<Rightarrow> Some (a, s)
      | None \<Rightarrow> Option.bind (transferOn Q v s) (\<lambda>s1. map_option (\<lambda>a. (a, s1)) (map_of s1 v)))"

fun meetOverPHI :: "'a policy \<Rightarrow> vid list \<Rightarrow> 'a \<Rightarrow> 'a abs_state \<Rightarrow> ('a \<times> 'a abs_state) option" where
  "meetOverPHI Q [] phiValue s = Some (phiValue, s)"
| "meetOverPHI Q (v # vs) phiValue s =
     Option.bind (find_or_transfer Q v s) (\<lambda>(a, s1).
     Option.bind (meet2 Q phiValue a) (\<lambda>m. meetOverPHI Q vs m s1))"

definition applyTransfer :: "ir \<Rightarrow> 'a policy \<Rightarrow> vid \<Rightarrow> 'a abs_state \<Rightarrow> 'a abs_state option" where
  "applyTransfer I Q i s =
     (if kind I i = KPHI
      then map_option (\<lambda>(a, s1). AList.update i a s1) (meetOverPHI Q (operands I i) (defaultValue Q) s)
      else transferOn Q i s)"

definition isAnalyzableCall :: "ir \<Rightarrow> vid \<Rightarrow> bool" where
  "isAnalyzableCall I cs \<longleftrightarrow> isCallBase I cs \<and>
     (case calledFunction I cs of None \<Rightarrow> False | Some f \<Rightarrow> \<not> isDeclaration I f)"

subsection \<open>Calls\<close>

definition newContext :: "ctx \<Rightarrow> vid \<Rightarrow> ctx" where
  "newContext context cs = (if context = [] then [] else tl context @ [cs])"

text \<open>
  The loop over the formal arguments of the callee, paired with the operands passed; the results are
  the state, the summary of the callee and the flag \<open>needsUpdate\<close>.
\<close>

fun pass_args :: "'a policy \<Rightarrow> (vid \<times> vid) list \<Rightarrow> 'a abs_state \<Rightarrow> 'a abs_state \<Rightarrow> bool
    \<Rightarrow> ('a abs_state \<times> 'a abs_state \<times> bool) option" where
  "pass_args Q [] s summary needsUpdate = Some (s, summary, needsUpdate)"
| "pass_args Q ((functionArg, passedConcrete) # rest) s summary needsUpdate =
     Option.bind (find_or_transfer Q passedConcrete s) (\<lambda>(passedAbstract, s1).
     (let arg = get_or (defaultValue Q) summary functionArg
      in Option.bind (meet2 Q passedAbstract arg) (\<lambda>newState.
         Option.bind (valueEq Q newState arg) (\<lambda>same.
           pass_args Q rest s1 (AList.update functionArg newState summary) (needsUpdate \<or> \<not> same)))))"

type_synonym 'a analyzer = "vid \<Rightarrow> ctx \<Rightarrow> 'a analysis \<Rightarrow> 'a analysis exec"

definition analyzeCall :: "'a analyzer \<Rightarrow> ir \<Rightarrow> 'a policy \<Rightarrow> vid \<Rightarrow> ctx \<Rightarrow> 'a analysis \<Rightarrow> 'a abs_state
    \<Rightarrow> ('a analysis \<times> 'a abs_state) exec" where
  "analyzeCall call I Q cs context A s =
     (case calledFunction I cs of
        None \<Rightarrow> Some Crashed
      | Some callee \<Rightarrow>
          (let nc = newContext context cs; toCall = (nc, callee); toUpdate = (context, getFunction I cs);
               A1 = touch toCall callee A; summary = results_at A1 toCall callee
           in if length (callArgs I cs) < length (formals I callee) then Some Crashed
              else exec_bind (lift (pass_args Q (zip (formals I callee) (callArgs I cs)) s summary (summary = [])))
                (\<lambda>(s1, summary1, needsUpdate).
                  (let A2 = put toCall callee summary1 A1
                   in exec_bind (if toCall \<notin> activeSet A2 \<and> needsUpdate then call callee nc A2 else Some (Returned A2))
                     (\<lambda>A3. let summary2 = construct callee (defaultValue Q) (results_at A3 toCall callee);
                           A4 = put toCall callee summary2 A3
                       in Some (Returned
                         (A4\<lparr>callersOf := AList.update toCall (List.insert toUpdate (get_or [] (callersOf A4) toCall)) (callersOf A4)\<rparr>,
                          AList.update cs (get_or (defaultValue Q) summary2 callee) s1)))))))"

subsection \<open>Blocks\<close>

text \<open>What is recorded after an instruction that is not the last: the next instruction and its operands.\<close>

definition record_next :: "ir \<Rightarrow> vid \<Rightarrow> 'a abs_state \<Rightarrow> 'a abs_state \<Rightarrow> 'a abs_state" where
  "record_next I nextInst s recorded =
     fold (\<lambda>v m. case map_of s v of Some a \<Rightarrow> AList.update v a m | None \<Rightarrow> m)
       (nextInst # operands I nextInst) recorded"

fun process_insts :: "'a analyzer \<Rightarrow> ir \<Rightarrow> 'a policy \<Rightarrow> ctx \<times> vid \<Rightarrow> vid list \<Rightarrow> 'a analysis \<Rightarrow> 'a abs_state
    \<Rightarrow> ('a analysis \<times> 'a abs_state) exec" where
  "process_insts call I Q key [] A s = Some (Returned (A, s))"
| "process_insts call I Q key (i # rest) A s =
     exec_bind
       (if isAnalyzableCall I i then analyzeCall call I Q i (fst key) A s
        else lift (map_option (\<lambda>s1. (A, s1)) (applyTransfer I Q i s)))
       (\<lambda>(A1, s1).
         process_insts call I Q key rest
           (case rest of
              [] \<Rightarrow> put key i s1 A1
            | nextInst # _ \<Rightarrow> put key i (record_next I nextInst s1 (results_at A1 key i)) A1) s1)"

type_synonym blackmap = "(vid, nat) dict"

text \<open>The successors of a changed block: a block that was queued more than 100 times ends the loop.\<close>

fun push_successors :: "vid list \<Rightarrow> vid WorkList \<Rightarrow> blackmap \<Rightarrow> vid WorkList \<times> blackmap" where
  "push_successors [] w bm = (w, bm)"
| "push_successors (s # ss) w bm =
     (let n = get_or 0 bm s
      in if n > 100 then (w, AList.update s n bm)
         else push_successors ss (wl_add s w) (AList.update s (n + 1) bm))"

definition entry_state :: "ir \<Rightarrow> 'a policy \<Rightarrow> ctx \<times> vid \<Rightarrow> vid \<Rightarrow> 'a analysis \<Rightarrow> 'a abs_state option" where
  "entry_state I Q key bb A =
     Option.bind (mergeStateFromPredecessors Q (results_at A key bb)
         (map (\<lambda>p. results_at A key (terminator I p)) (predecessors I bb))) (\<lambda>s1.
     Option.bind (mergeInState Q s1 (results_at A key (snd key)) False) (\<lambda>s2.
     if usePC Q then apply_constraints Q s2 (constrainValuesByCondition I Q bb) else Some s2))"

definition touch_inputs :: "ir \<Rightarrow> ctx \<times> vid \<Rightarrow> vid \<Rightarrow> 'a analysis \<Rightarrow> 'a analysis" where
  "touch_inputs I key bb A =
     fold (touch key) ([bb, terminator I bb] @ map (terminator I) (predecessors I bb) @ [snd key]) A"

definition record_return :: "ir \<Rightarrow> 'a policy \<Rightarrow> ctx \<times> vid \<Rightarrow> vid \<Rightarrow> 'a abs_state \<Rightarrow> 'a analysis \<Rightarrow> 'a analysis option" where
  "record_return I Q key bb s A =
     (let ret = terminator I bb; f = snd key; summary = results_at A key f
      in if kind I ret = KReturn
         then map_option (\<lambda>m. put key f (AList.update f m summary) A)
           (meet2 Q (get_or (defaultValue Q) summary f) (get_or (defaultValue Q) s (getOperand I ret 0)))
         else Some A)"

definition block_step :: "'a analyzer \<Rightarrow> ir \<Rightarrow> 'a policy \<Rightarrow> ctx \<times> vid \<Rightarrow> vid \<Rightarrow> 'a analysis \<Rightarrow> vid WorkList \<Rightarrow> blackmap
    \<Rightarrow> ('a analysis \<times> vid WorkList \<times> blackmap) exec" where
  "block_step call I Q key bb A0 w bm =
     (let A = touch_inputs I key bb A0;
          oldEntryState = results_at A key bb; oldExitState = results_at A key (terminator I bb)
      in exec_bind (lift (entry_state I Q key bb A)) (\<lambda>state.
         exec_bind (lift (dict_eq (valueEq Q) state oldEntryState)) (\<lambda>same.
           if same \<and> state \<noteq> [] then Some (Returned (A, w, bm))
           else exec_bind (process_insts call I Q key (insts I bb) (put key bb state A) state) (\<lambda>(A1, state1).
             exec_bind (lift (dict_eq (valueEq Q) state1 oldExitState)) (\<lambda>same1.
               if same1 then Some (Returned (A1, w, bm))
               else let (w1, bm1) = push_successors (successors I bb) w bm
                 in exec_bind (lift (record_return I Q key bb state1 A1)) (\<lambda>A2.
                    Some (Returned (A2, w1, bm1))))))))"

partial_function (option) block_loop :: "'a analyzer \<Rightarrow> ir \<Rightarrow> 'a policy \<Rightarrow> ctx \<times> vid \<Rightarrow> 'a analysis \<Rightarrow> vid WorkList
    \<Rightarrow> blackmap \<Rightarrow> 'a analysis exec" where
  "block_loop call I Q key A w bm =
     (case wl_take w of
        None \<Rightarrow> Some (Returned A)
      | Some (bb, w1) \<Rightarrow>
          exec_bind (block_step call I Q key bb A w1 bm) (\<lambda>r.
            block_loop call I Q key (fst r) (fst (snd r)) (snd (snd r))))"

subsection \<open>Functions\<close>

text \<open>The first construction of the results of a function: only when the function itself has no entry.\<close>

definition construct_results :: "ir \<Rightarrow> vid \<Rightarrow> 'a function_results \<Rightarrow> 'a function_results" where
  "construct_results I f r =
     (if contains r f then r else fold (\<lambda>v. construct v []) (blocks I f @ instructions I f) r)"

definition results_eq :: "'a policy \<Rightarrow> 'a function_results \<Rightarrow> 'a function_results \<Rightarrow> bool option" where
  "results_eq Q = dict_eq (dict_eq (valueEq Q))"

text \<open>\<open>oldResults\<close> and \<open>results\<close> are references to the same table.\<close>

definition update_callers :: "'a policy \<Rightarrow> ctx \<times> vid \<Rightarrow> 'a analysis \<Rightarrow> 'a analysis option" where
  "update_callers Q key A =
     (let results = function_results A key; oldResults = function_results A key
      in map_option (\<lambda>same.
           if same then A
           else A\<lparr>contextWork := fold wl_add (get_or [] (callersOf A) key) (contextWork A)\<rparr>)
         (results_eq Q oldResults results))"

definition start_function :: "ir \<Rightarrow> vid \<Rightarrow> ctx \<Rightarrow> 'a analysis \<Rightarrow> 'a analysis" where
  "start_function I f context A =
     set_results (context, f) (construct_results I f (function_results A (context, f)))
       (A\<lparr>activeSet := insert (context, f) (activeSet A)\<rparr>)"

primrec computeFunction :: "nat \<Rightarrow> ir \<Rightarrow> 'a policy \<Rightarrow> 'a analyzer" where
  "computeFunction 0 = (\<lambda>I Q f context A. None)"
| "computeFunction (Suc n) = (\<lambda>I Q f context A.
     exec_bind (block_loop (computeFunction n I Q) I Q (context, f) (start_function I f context A)
         (worklist_of (reversePostOrder I f)) (map (\<lambda>b. (b, 0)) (reversePostOrder I f))) (\<lambda>A1.
     exec_bind (lift (update_callers Q (context, f) A1)) (\<lambda>A2.
     Some (Returned (A2\<lparr>activeSet := activeSet A2 - {(context, f)}\<rparr>)))))"

partial_function (option) computeForwardDataflow :: "nat \<Rightarrow> ir \<Rightarrow> 'a policy \<Rightarrow> 'a analysis \<Rightarrow> 'a analysis exec" where
  "computeForwardDataflow n I Q A =
     (case wl_take (contextWork A) of
        None \<Rightarrow> Some (Returned A)
      | Some ((context, f), w1) \<Rightarrow>
          exec_bind (computeFunction n I Q f context (A\<lparr>contextWork := w1\<rparr>)) (\<lambda>A1. computeForwardDataflow n I Q A1))"

definition getIncomingState :: "ir \<Rightarrow> 'a function_results \<Rightarrow> vid \<Rightarrow> 'a abs_state" where
  "getIncomingState I r i = get_or [] r (case getPrevNode I i of None \<Rightarrow> parentBB I i | Some p \<Rightarrow> p)"

subsection \<open>The instance for value ranges\<close>

definition range_branch :: "ir \<Rightarrow> vid \<Rightarrow> apint \<Rightarrow> bool \<Rightarrow> bool \<Rightarrow> RangeValue" where
  "range_branch I cmp c t f =
     (case kind I cmp of
        KICmp p \<Rightarrow> getRangeForConditionalBranch p (typeOf I (getOperand I cmp 0)) c t f
      | _ \<Rightarrow> infRange)"

definition range_policy :: "ir \<Rightarrow> bool \<Rightarrow> RangeValue policy" where
  "range_policy I pc =
     \<lparr>defaultValue = unknownRange, meetValues = Meet, meetIntersection = intersection, valueEq = range_eq,
      transferOn = transfer I, branchValue = range_branch I, usePC = pc\<rparr>"

subsection \<open>Termination\<close>

text \<open>
  \<open>exec_all P m\<close>: the execution \<open>m\<close> ends, and if it does not crash its result satisfies \<open>P\<close>.
\<close>

definition exec_all :: "('a \<Rightarrow> bool) \<Rightarrow> 'a exec \<Rightarrow> bool" where
  "exec_all P m \<longleftrightarrow> (case m of None \<Rightarrow> False | Some Crashed \<Rightarrow> True | Some (Returned x) \<Rightarrow> P x)"

lemma exec_all_simps [simp]:
  "exec_all P (Some (Returned x)) \<longleftrightarrow> P x" "exec_all P (Some Crashed)" "\<not> exec_all P None"
  by (simp_all add: exec_all_def)

lemma exec_all_bind:
  assumes "exec_all P m" and "\<And>x. P x \<Longrightarrow> exec_all R (f x)"
  shows "exec_all R (exec_bind m f)"
proof (cases m)
  case (Some r)
  then show ?thesis using assms by (cases r) auto
qed (use assms(1) in simp)

lemma exec_all_lift: "(\<And>x. m = Some x \<Longrightarrow> P x) \<Longrightarrow> exec_all P (lift m)"
  by (cases m) auto

lemma exec_all_mono: "exec_all P m \<Longrightarrow> (\<And>x. P x \<Longrightarrow> R x) \<Longrightarrow> exec_all R m"
  by (auto simp: exec_all_def split: option.splits outcome.splits)

text \<open>The parts of the state that the analysis of a function restores.\<close>

definition same_frame :: "'a analysis \<Rightarrow> 'a analysis \<Rightarrow> bool" where
  "same_frame A A' \<longleftrightarrow> activeSet A' = activeSet A \<and> contextWork A' = contextWork A"

lemma same_frame_trans: "same_frame A B \<Longrightarrow> same_frame B = same_frame A"
  by (auto simp: same_frame_def fun_eq_iff)

lemma same_frame_refl [simp]: "same_frame A A"
  by (simp add: same_frame_def)

lemma frame_simps [simp]:
  "activeSet (set_results key r A) = activeSet A" "contextWork (set_results key r A) = contextWork A"
  "activeSet (put key v s A) = activeSet A" "contextWork (put key v s A) = contextWork A"
  "activeSet (touch key v A) = activeSet A" "contextWork (touch key v A) = contextWork A"
  by (simp_all add: set_results_def put_def touch_def)

lemma frame_touch_inputs [simp]:
  "activeSet (touch_inputs I key bb A) = activeSet A" "contextWork (touch_inputs I key bb A) = contextWork A"
proof -
  have "activeSet (fold (touch key) vs A) = activeSet A \<and> contextWork (fold (touch key) vs A) = contextWork A" for vs and A :: "'a analysis"
    by (induction vs arbitrary: A) auto
  then show "activeSet (touch_inputs I key bb A) = activeSet A" "contextWork (touch_inputs I key bb A) = contextWork A"
    by (simp_all add: touch_inputs_def)
qed

text \<open>Modules whose blocks, branches and calls stay inside the module.\<close>

definition all_instructions :: "ir \<Rightarrow> vid list" where
  "all_instructions I = concat (map (instructions I) (moduleFunctions I))"

definition module_closed :: "ir \<Rightarrow> bool" where
  "module_closed I \<longleftrightarrow> list_all (\<lambda>f.
     list_all (\<lambda>b. b \<in> set (blocks I f)) (reversePostOrder I f) \<and>
     list_all (\<lambda>b. list_all (\<lambda>s. s \<in> set (blocks I f)) (successors I b) \<and>
       list_all (\<lambda>i. isAnalyzableCall I i \<longrightarrow> the (calledFunction I i) \<in> set (moduleFunctions I)) (insts I b))
       (blocks I f)) (moduleFunctions I)"

definition context_pairs :: "ir \<Rightarrow> nat \<Rightarrow> (ctx \<times> vid) set" where
  "context_pairs I K = {c. set c \<subseteq> insert 0 (set (all_instructions I)) \<and> length c = K} \<times> set (moduleFunctions I)"

definition depth_bound :: "ir \<Rightarrow> nat \<Rightarrow> nat" where
  "depth_bound I K = (length (all_instructions I) + 1) ^ K * length (moduleFunctions I)"

lemma finite_context_pairs [simp]: "finite (context_pairs I K)"
  by (simp add: context_pairs_def finite_lists_length_eq)

lemma card_context_pairs: "card (context_pairs I K) \<le> depth_bound I K"
proof -
  have "card (insert 0 (set (all_instructions I))) \<le> length (all_instructions I) + 1"
    using card_insert_le_m1 [of "length (all_instructions I) + 1" "set (all_instructions I)" 0] card_length [of "all_instructions I"]
    by simp
  then have "card {c. set c \<subseteq> insert 0 (set (all_instructions I)) \<and> length c = K} \<le> (length (all_instructions I) + 1) ^ K"
    by (subst card_lists_length_eq) (auto intro: power_mono)
  then show ?thesis
    unfolding context_pairs_def depth_bound_def card_cartesian_product by (intro mult_le_mono card_length)
qed

definition analyzer_ok :: "'a analyzer \<Rightarrow> ir \<Rightarrow> nat \<Rightarrow> (ctx \<times> vid) set \<Rightarrow> bool" where
  "analyzer_ok call I K S \<longleftrightarrow> (\<forall>f c A. activeSet A = S \<longrightarrow> (c, f) \<in> context_pairs I K - S \<longrightarrow>
     exec_all (same_frame A) (call f c A))"

lemma newContext_pairs:
  assumes "(c, f) \<in> context_pairs I K" and "cs \<in> set (all_instructions I)" and "g \<in> set (moduleFunctions I)"
  shows "(newContext c cs, g) \<in> context_pairs I K"
  using assms by (cases c) (auto simp: newContext_def context_pairs_def)

lemma analyzeCall_frame:
  assumes "analyzer_ok call I K (activeSet A)" and "(c, f) \<in> context_pairs I K"
    and "cs \<in> set (all_instructions I)" and "\<And>g. calledFunction I cs = Some g \<Longrightarrow> g \<in> set (moduleFunctions I)"
  shows "exec_all (\<lambda>r. same_frame A (fst r)) (analyzeCall call I Q cs c A s)"
proof (cases "calledFunction I cs")
  case (Some callee)
  have pair: "(newContext c cs, callee) \<in> context_pairs I K" using newContext_pairs [OF assms(2,3)] assms(4) Some by blast
  have called: "exec_all (same_frame A) (call callee (newContext c cs) A2)"
    if "same_frame A A2" and "(newContext c cs, callee) \<notin> activeSet A" for A2
  proof -
    have "activeSet A2 = activeSet A" using that(1) by (simp add: same_frame_def)
    then have "exec_all (same_frame A2) (call callee (newContext c cs) A2)"
      using assms(1) pair that(2) unfolding analyzer_ok_def by auto
    then show ?thesis unfolding same_frame_trans [OF that(1)] .
  qed
  have closing: "exec_all (\<lambda>r. same_frame A (fst r)) (exec_bind m
      (\<lambda>A3. Some (Returned ((put k v (t A3) A3)\<lparr>callersOf := cb A3\<rparr>, u A3))))" if "exec_all (same_frame A) m" for m k v t cb u
    using that by (rule exec_all_bind) (simp add: same_frame_def)
  show ?thesis
    unfolding analyzeCall_def Some option.case Let_def
    by (auto intro!: exec_all_bind [OF exec_all_lift [where P = "\<lambda>_. True"]] closing split: prod.splits)
      (auto intro!: called simp: same_frame_def)
qed (simp add: analyzeCall_def)

lemma process_insts_frame:
  assumes "(c, f) \<in> context_pairs I K" and "analyzer_ok call I K (activeSet A)" and "set is \<subseteq> set (all_instructions I)"
    and "\<And>i. i \<in> set is \<Longrightarrow> isAnalyzableCall I i \<Longrightarrow> the (calledFunction I i) \<in> set (moduleFunctions I)"
  shows "exec_all (\<lambda>r. same_frame A (fst r)) (process_insts call I Q (c, f) is A s)"
  using assms(2-)
proof (induction "is" arbitrary: A s)
  case (Cons i rest)
  have one: "exec_all (\<lambda>r. same_frame A (fst r)) (if isAnalyzableCall I i then analyzeCall call I Q i c A s
      else lift (map_option (\<lambda>s1. (A, s1)) (applyTransfer I Q i s)))"
  proof (cases "isAnalyzableCall I i")
    case True
    then have "g \<in> set (moduleFunctions I)" if "calledFunction I i = Some g" for g using Cons.prems(3) [of i] that by simp
    then show ?thesis using analyzeCall_frame [OF Cons.prems(1) assms(1)] Cons.prems(2) True by simp
  qed (auto intro!: exec_all_lift)
  have "exec_all (\<lambda>r. same_frame A (fst r)) (process_insts call I Q (c, f) rest A1 s1)" if "same_frame A A1" for A1 s1
    using Cons.IH [of A1 s1] Cons.prems that same_frame_trans [OF that] by (auto simp: same_frame_def)
  then show ?case
    unfolding process_insts.simps fst_conv
    by (intro exec_all_bind [OF one]) (auto simp: same_frame_def split: prod.splits list.splits)
qed simp

subsubsection \<open>The loop over the blocks\<close>

definition budget :: "vid set \<Rightarrow> vid WorkList \<Rightarrow> blackmap \<Rightarrow> nat" where
  "budget B w bm = length (work w) + (\<Sum>b \<in> B. 101 - get_or 0 bm b)"

lemma get_or_update [simp]: "get_or d (AList.update k v m) j = (if j = k then v else get_or d m j)"
  by (simp add: get_or_def dict)

lemma sum_increment:
  assumes "finite B" and "b \<in> B" and "get_or 0 bm b \<le> 100"
  shows "Suc (\<Sum>x \<in> B. 101 - get_or 0 (AList.update b (get_or 0 bm b + 1) bm) x) = (\<Sum>x \<in> B. 101 - get_or 0 bm x)"
proof -
  have "(\<Sum>x \<in> B - {b}. 101 - get_or 0 (AList.update b (get_or 0 bm b + 1) bm) x) = (\<Sum>x \<in> B - {b}. 101 - get_or 0 bm x)"
    by (rule sum.cong) auto
  then show ?thesis using assms by (simp add: sum.remove [of B b])
qed

lemma push_successors_budget:
  assumes "finite B" and "set ss \<subseteq> B" and "push_successors ss w bm = (w1, bm1)"
  shows "budget B w1 bm1 \<le> budget B w bm \<and> set (work w1) \<subseteq> set (work w) \<union> set ss"
  using assms(2-)
proof (induction ss arbitrary: w bm)
  case (Cons b ss)
  show ?case
  proof (cases "get_or 0 bm b > 100")
    case True
    then have "bm1 = AList.update b (get_or 0 bm b) bm" "w1 = w" using Cons.prems(2) by (auto simp: Let_def)
    then show ?thesis by (auto simp: budget_def intro!: sum_mono)
  next
    case False
    let ?bm = "AList.update b (get_or 0 bm b + 1) bm"
    have "budget B w1 bm1 \<le> budget B (wl_add b w) ?bm \<and> set (work w1) \<subseteq> set (work (wl_add b w)) \<union> set ss"
      using Cons.IH [of "wl_add b w" ?bm] Cons.prems False by (simp add: Let_def)
    moreover have "budget B (wl_add b w) ?bm \<le> budget B w bm"
      using sum_increment [OF assms(1), of b bm] Cons.prems(1) False by (simp add: budget_def wl_add_def)
    moreover have "set (work (wl_add b w)) \<subseteq> insert b (set (work w))" by (auto simp: wl_add_def)
    ultimately show ?thesis by auto
  qed
qed auto

lemma block_step_frame:
  assumes "module_closed I" and "(c, f) \<in> context_pairs I K" and "analyzer_ok call I K (activeSet A)" and "bb \<in> set (blocks I f)"
  shows "exec_all (\<lambda>(A1, w1, bm1). same_frame A A1 \<and> budget (set (blocks I f)) w1 bm1 \<le> budget (set (blocks I f)) w bm \<and>
    set (work w1) \<subseteq> set (work w) \<union> set (blocks I f)) (block_step call I Q (c, f) bb A w bm)"
proof -
  have f: "f \<in> set (moduleFunctions I)" using assms(2) by (simp add: context_pairs_def)
  have succs: "set (successors I bb) \<subseteq> set (blocks I f)"
    and calls: "\<And>i. i \<in> set (insts I bb) \<Longrightarrow> isAnalyzableCall I i \<Longrightarrow> the (calledFunction I i) \<in> set (moduleFunctions I)"
    using assms(1,4) f by (auto simp: module_closed_def list_all_iff)
  have "set (insts I bb) \<subseteq> set (all_instructions I)"
    using assms(4) f by (auto simp: all_instructions_def instructions_def)
  then have insts: "exec_all (\<lambda>r. same_frame A (fst r)) (process_insts call I Q (c, f) (insts I bb) A1 s)"
    if "same_frame A A1" for A1 s
    using process_insts_frame [OF assms(2), of call A1 "insts I bb" Q s] calls assms(3) that same_frame_trans [OF that]
    by (auto simp: same_frame_def)
  have push: "budget (set (blocks I f)) w1 bm1 \<le> budget (set (blocks I f)) w bm \<and>
      set (work w1) \<subseteq> set (work w) \<union> set (blocks I f)" if "push_successors (successors I bb) w bm = (w1, bm1)" for w1 bm1
    using push_successors_budget [OF _ succs that] succs by auto
  have ret: "exec_all (same_frame A) (lift (record_return I Q (c, f) bb s A1))" if "same_frame A A1" for A1 s
    using that by (auto intro!: exec_all_lift simp: record_return_def Let_def same_frame_def split: if_splits)
  show ?thesis
    unfolding block_step_def Let_def
    by (auto intro!: exec_all_bind [OF exec_all_lift [where P = "\<lambda>_. True"]] exec_all_bind [OF insts] exec_all_bind [OF ret]
        simp: same_frame_def split: prod.splits dest!: push)
qed

lemma block_loop_frame:
  assumes "module_closed I" and "(c, f) \<in> context_pairs I K" and "analyzer_ok call I K (activeSet A)"
    and "set (work w) \<subseteq> set (blocks I f)"
  shows "exec_all (same_frame A) (block_loop call I Q (c, f) A w bm)"
  using assms(3,4)
proof (induction "budget (set (blocks I f)) w bm" arbitrary: A w bm rule: less_induct)
  case less
  show ?case
  proof (cases "work w")
    case Nil
    then show ?thesis by (subst block_loop.simps) (simp add: wl_take_def)
  next
    case (Cons bb rest)
    let ?w = "w\<lparr>work := rest, inList := inList w - {bb}\<rparr>"
    have small: "budget (set (blocks I f)) ?w bm < budget (set (blocks I f)) w bm" by (simp add: budget_def Cons)
    have rest: "exec_all (same_frame A) (block_loop call I Q (c, f) A1 w1 bm1)"
      if "same_frame A A1" and "budget (set (blocks I f)) w1 bm1 \<le> budget (set (blocks I f)) ?w bm"
        and "set (work w1) \<subseteq> set (work ?w) \<union> set (blocks I f)" for A1 w1 bm1
      using less.hyps [of w1 bm1 A1] small that less.prems Cons same_frame_trans [OF that(1)] by (auto simp: same_frame_def)
    have bb: "bb \<in> set (blocks I f)" using less.prems(2) Cons by simp
    have "wl_take w = Some (bb, ?w)" by (simp add: wl_take_def Cons)
    then show ?thesis
      by (subst block_loop.simps)
        (auto intro!: exec_all_bind [OF block_step_frame [OF assms(1,2) less.prems(1) bb]] rest)
  qed
qed

subsubsection \<open>Functions and the module\<close>

lemma entries_eq_self:
  assumes "\<And>v. eq v v \<noteq> Some False" and "set ks \<subseteq> fst ` set m"
  shows "entries_eq eq m m ks \<noteq> Some False"
  using assms(2)
proof (induction ks)
  case (Cons k ks)
  then obtain v where "map_of m k = Some v" by (metis insert_subset list.set(2) map_of_eq_None_iff option.exhaust)
  then show ?case using Cons assms(1) [of v] by (cases "eq v v") auto
qed simp

lemma dict_eq_self: "(\<And>v. eq v v \<noteq> Some False) \<Longrightarrow> dict_eq eq m m \<noteq> Some False"
  using entries_eq_self [of eq "dict_keys m" m] by (simp add: dict_eq_def dict_keys_def)

lemma update_callers_frame:
  assumes "\<And>v. valueEq Q v v \<noteq> Some False" and "update_callers Q key A = Some A1"
  shows "A1 = A"
  using assms(2) dict_eq_self [of "dict_eq (valueEq Q)", OF dict_eq_self, OF assms(1), of "function_results A key"]
  by (auto simp: update_callers_def results_eq_def split: if_splits)

lemma computeFunction_frame:
  assumes "module_closed I" and "\<And>v. valueEq Q v v \<noteq> Some False"
    and "(c, f) \<in> context_pairs I K - activeSet A" and "card (context_pairs I K - activeSet A) \<le> n"
  shows "exec_all (same_frame A) (computeFunction n I Q f c A)"
  using assms(3,4)
proof (induction n arbitrary: A c f)
  case 0
  then show ?case by (metis card_eq_0_iff empty_iff finite_Diff finite_context_pairs le_zero_eq)
next
  case (Suc n)
  let ?A = "start_function I f c A"
  have active: "activeSet ?A = insert (c, f) (activeSet A)" "contextWork ?A = contextWork A"
    by (simp_all add: start_function_def)
  have "card (context_pairs I K - activeSet ?A) \<le> n"
  proof -
    have "context_pairs I K - activeSet ?A = (context_pairs I K - activeSet A) - {(c, f)}" using active by auto
    then show ?thesis using Suc.prems by simp
  qed
  then have "analyzer_ok (computeFunction n I Q) I K (activeSet ?A)" using Suc.IH by (auto simp: analyzer_ok_def)
  moreover have "set (work (worklist_of (reversePostOrder I f))) \<subseteq> set (blocks I f)"
    using assms(1) Suc.prems(1) by (auto simp: worklist_of_def context_pairs_def module_closed_def list_all_iff)
  ultimately have loop: "exec_all (same_frame ?A) (block_loop (computeFunction n I Q) I Q (c, f) ?A
      (worklist_of (reversePostOrder I f)) (map (\<lambda>b. (b, 0)) (reversePostOrder I f)))"
    using block_loop_frame [OF assms(1), of c f K] Suc.prems(1) by simp
  have upd: "exec_all (same_frame ?A) (lift (update_callers Q (c, f) A1))" if "same_frame ?A A1" for A1
    using update_callers_frame [OF assms(2)] that by (auto intro!: exec_all_lift)
  show ?case
    using Suc.prems(1) active
    by (auto intro!: exec_all_bind [OF loop] exec_all_bind [OF upd] simp: same_frame_def)
qed

lemma computeForwardDataflow_returns:
  assumes "module_closed I" and "\<And>v. valueEq Q v v \<noteq> Some False" and "depth_bound I K \<le> n"
    and "activeSet A = {}" and "set (work (contextWork A)) \<subseteq> context_pairs I K"
  shows "exec_all (\<lambda>A1. work (contextWork A1) = [] \<and> activeSet A1 = {}) (computeForwardDataflow n I Q A)"
  using assms(4,5)
proof (induction "length (work (contextWork A))" arbitrary: A)
  case 0
  then show ?case by (subst computeForwardDataflow.simps) (simp add: wl_take_def)
next
  case (Suc k)
  then obtain c f rest where w: "work (contextWork A) = (c, f) # rest" by (metis Suc_length_conv surj_pair)
  let ?w = "contextWork A\<lparr>work := rest, inList := inList (contextWork A) - {(c, f)}\<rparr>"
  let ?A = "A\<lparr>contextWork := ?w\<rparr>"
  have one: "exec_all (same_frame ?A) (computeFunction n I Q f c ?A)"
    using computeFunction_frame [OF assms(1,2), of c f K ?A n] Suc.prems w card_context_pairs [of I K] assms(3) by auto
  have "wl_take (contextWork A) = Some ((c, f), ?w)" by (simp add: wl_take_def w)
  moreover have "exec_all (\<lambda>A1. work (contextWork A1) = [] \<and> activeSet A1 = {}) (computeForwardDataflow n I Q A1)"
    if "same_frame ?A A1" for A1
    using Suc.hyps(1) [of A1] Suc.hyps(2) Suc.prems that w by (auto simp: same_frame_def)
  ultimately show ?case by (subst computeForwardDataflow.simps) (auto intro!: exec_all_bind [OF one])
qed

subsection \<open>The contract between the engine and an abstract domain\<close>

text \<open>
  A domain gives every abstract value a set of numbers.  The engine relies on a meet that
  loses nothing, on a default value that stands for everything, and on an intersection that keeps
  the common numbers of valid values.
\<close>

definition covered :: "('a \<Rightarrow> int set) \<Rightarrow> 'a abs_state \<Rightarrow> vid \<Rightarrow> int \<Rightarrow> bool" where
  "covered conc s k x \<longleftrightarrow> (\<exists>r. map_of s k = Some r \<and> x \<in> conc r)"

definition state_valid :: "('a \<Rightarrow> bool) \<Rightarrow> 'a abs_state \<Rightarrow> bool" where
  "state_valid valid s \<longleftrightarrow> list_all (\<lambda>(k, r). valid r) s"

lemma state_valid_update: "valid v \<Longrightarrow> state_valid valid s \<Longrightarrow> state_valid valid (AList.update k v s)"
  unfolding state_valid_def by (induction s) auto

lemma map_of_map_values: "map_of (map (\<lambda>(k, v). (k, f k v)) m) k = map_option (f k) (map_of m k)"
  by (induction m) auto

locale dataflow_domain =
  fixes Q :: "'a policy"
    and conc :: "'a \<Rightarrow> int set"
    and valid :: "'a \<Rightarrow> bool"
  assumes meet_upper: "meet2 Q a b = Some m \<Longrightarrow> conc a \<union> conc b \<subseteq> conc m \<and> valid m"
    and default_top: "conc (defaultValue Q) = UNIV"
    and default_valid: "valid (defaultValue Q)"
    and intersection_keeps: "valid a \<Longrightarrow> valid b \<Longrightarrow> meetIntersection Q a b = Some m \<Longrightarrow> conc a \<inter> conc b \<subseteq> conc m \<and> valid m"
    and equality_reflexive: "valueEq Q v v \<noteq> Some False"
begin

lemma covered_update: "covered conc (AList.update k v s) j x \<longleftrightarrow> (if j = k then x \<in> conc v else covered conc s j x)"
  by (simp add: covered_def dict)

lemma merge_entries_keeps: "merge_entries Q b d m = Some s \<Longrightarrow> covered conc d k x \<Longrightarrow> covered conc s k x"
proof (induction m arbitrary: d)
  case (Cons e rest)
  obtain j v where e: "e = (j, v)" by (cases e)
  show ?case
  proof (cases "map_of d j")
    case None
    then have "covered conc (AList.update j (if b then defaultValue Q else v) d) k x"
      using Cons.prems(2) by (auto simp: covered_def dict)
    then show ?thesis using Cons.IH [of "AList.update j (if b then defaultValue Q else v) d"] Cons.prems(1) None e by simp
  next
    case (Some old)
    then obtain m where m: "meet2 Q old v = Some m" "merge_entries Q b (AList.update j m d) rest = Some s"
      using Cons.prems(1) e by (auto split: bind_splits)
    then have "covered conc (AList.update j m d) k x"
      using meet_upper [OF m(1)] Cons.prems(2) Some by (auto simp: covered_def dict)
    then show ?thesis using Cons.IH m(2) by blast
  qed
qed simp

lemma merge_entries_adds:
  "merge_entries Q b d m = Some s \<Longrightarrow> (k, r) \<in> set m \<Longrightarrow> x \<in> conc r \<Longrightarrow> covered conc s k x"
proof (induction m arbitrary: d)
  case (Cons e rest)
  obtain j v where e: "e = (j, v)" by (cases e)
  obtain d1 where d1: "merge_entries Q b d1 rest = Some s" "(k, r) = e \<Longrightarrow> covered conc d1 k x"
  proof (cases "map_of d j")
    case None
    then show ?thesis
      by (intro that [of "AList.update j (if b then defaultValue Q else v) d"])
        (use Cons.prems e in \<open>auto simp: covered_update default_top\<close>)
  next
    case (Some old)
    then obtain m where "meet2 Q old v = Some m" "merge_entries Q b (AList.update j m d) rest = Some s"
      using Cons.prems(1) e by (auto split: bind_splits)
    then show ?thesis using that [of "AList.update j m d"] meet_upper [of old v m] Cons.prems(3) e by (auto simp: covered_update)
  qed
  then show ?case using Cons.IH [OF d1(1)] Cons.prems(2,3) merge_entries_keeps [OF d1(1)] by auto
qed simp

lemma merge_entries_valid:
  "merge_entries Q b d m = Some s \<Longrightarrow> state_valid valid d \<Longrightarrow> state_valid valid m \<Longrightarrow> state_valid valid s"
proof (induction m arbitrary: d)
  case (Cons e rest)
  obtain j v where e: "e = (j, v)" by (cases e)
  show ?case
  proof (cases "map_of d j")
    case None
    then show ?thesis
      using Cons.IH [of "AList.update j (if b then defaultValue Q else v) d"] Cons.prems e default_valid
      by (auto simp: state_valid_update state_valid_def [of valid "_ # _"] simp flip: state_valid_def)
  next
    case (Some old)
    then obtain m where m: "meet2 Q old v = Some m" "merge_entries Q b (AList.update j m d) rest = Some s"
      using Cons.prems(1) e by (auto split: bind_splits)
    then show ?thesis using Cons.IH [OF m(2)] Cons.prems meet_upper [OF m(1)]
      by (auto simp: state_valid_update state_valid_def [of valid "_ # _"] simp flip: state_valid_def)
  qed
qed simp

lemma mergeInState_covers:
  assumes "mergeInState Q d m b = Some s" and "covered conc d k x \<or> covered conc m k x"
  shows "covered conc s k x"
proof -
  let ?d = "if b then map (\<lambda>(j, v). (j, if contains m j then v else defaultValue Q)) d else d"
  have s: "merge_entries Q b ?d m = Some s" using assms(1) by (simp add: mergeInState_def)
  have "covered conc ?d k x" if "covered conc d k x"
    using that by (cases "contains m k") (auto simp: covered_def default_top map_of_map_values)
  then show ?thesis
    using assms(2) merge_entries_keeps [OF s] merge_entries_adds [OF s] map_of_SomeD by (fastforce simp: covered_def)
qed

lemma merge_predecessors_covers:
  "merge_predecessors Q s es = Some s' \<Longrightarrow> covered conc s k x \<or> (\<exists>e \<in> set es. covered conc e k x) \<Longrightarrow> covered conc s' k x"
proof (induction es arbitrary: s)
  case (Cons e es)
  then obtain s1 where s1: "mergeInState Q s e True = Some s1" "merge_predecessors Q s1 es = Some s'"
    by (auto split: bind_splits)
  then show ?case using Cons.IH [OF s1(2)] Cons.prems(2) mergeInState_covers [OF s1(1)] by auto
qed simp

lemma mergeStateFromPredecessors_covers:
  assumes "mergeStateFromPredecessors Q own es = Some s" and "e \<in> set es" and "covered conc e k x"
  shows "covered conc s k x"
proof -
  obtain e0 es0 where es: "es = e0 # es0" using assms(2) by (cases es) auto
  obtain m s0 s1 where m: "mergeInState Q [] e0 False = Some s0" "merge_predecessors Q s0 es0 = Some s1"
    "mergeInState Q m s1 False = Some s"
    using assms(1) es by (auto simp: mergeStateFromPredecessors_def split: bind_splits)
  have "covered conc s0 k x \<or> (\<exists>e \<in> set es0. covered conc e k x)"
    using assms(2,3) es mergeInState_covers [OF m(1)] by auto
  then show ?thesis using merge_predecessors_covers [OF m(2)] mergeInState_covers [OF m(3)] by blast
qed

lemma mergeInState_valid:
  assumes "mergeInState Q d m b = Some s" and "state_valid valid d" and "state_valid valid m"
  shows "state_valid valid s"
proof (rule merge_entries_valid [OF _ _ assms(3)])
  show "state_valid valid (if b then map (\<lambda>(j, v). (j, if contains m j then v else defaultValue Q)) d else d)"
    using assms(2) default_valid by (auto simp: state_valid_def list_all_iff)
qed (use assms(1) in \<open>simp add: mergeInState_def\<close>)

lemma merge_predecessors_valid:
  "merge_predecessors Q s es = Some s' \<Longrightarrow> state_valid valid s \<Longrightarrow> list_all (state_valid valid) es \<Longrightarrow> state_valid valid s'"
proof (induction es arbitrary: s)
  case (Cons e es)
  then obtain s1 where "mergeInState Q s e True = Some s1" "merge_predecessors Q s1 es = Some s'"
    by (auto split: bind_splits)
  then show ?case using Cons.IH Cons.prems mergeInState_valid by auto
qed simp

lemma mergeStateFromPredecessors_valid:
  assumes "mergeStateFromPredecessors Q own es = Some s" and "state_valid valid own" and "list_all (state_valid valid) es"
  shows "state_valid valid s"
proof -
  have nil: "state_valid valid []" by (simp add: state_valid_def)
  obtain m s1 where m: "mergeInState Q [] own False = Some m" "mergeInState Q m s1 False = Some s"
    and s1: "(case es of [] \<Rightarrow> Some [] | e # es \<Rightarrow> Option.bind (mergeInState Q [] e False) (\<lambda>s. merge_predecessors Q s es)) = Some s1"
    using assms(1) by (auto simp: mergeStateFromPredecessors_def split: bind_splits)
  have "state_valid valid s1"
    using s1 assms(3) nil by (cases es) (auto split: bind_splits intro: merge_predecessors_valid mergeInState_valid)
  then show ?thesis using m nil assms(2) mergeInState_valid by blast
qed

lemma apply_constraints_keeps:
  "apply_constraints Q s cs = Some s' \<Longrightarrow> state_valid valid s \<Longrightarrow> state_valid valid cs \<Longrightarrow>
   list_all (\<lambda>(j, c). j = k \<longrightarrow> x \<in> conc c) cs \<Longrightarrow> covered conc s k x \<Longrightarrow> covered conc s' k x"
proof (induction cs arbitrary: s)
  case (Cons e cs)
  obtain j c where e: "e = (j, c)" by (cases e)
  have c: "valid c" "state_valid valid cs" using Cons.prems(3) e by (simp_all add: state_valid_def)
  show ?case
  proof (cases "map_of s j")
    case None
    then show ?thesis
      using Cons.IH [of "AList.update j c s"] Cons.prems e c by (auto simp: state_valid_update covered_update)
  next
    case (Some old)
    then obtain m where m: "meetIntersection Q old c = Some m" "apply_constraints Q (AList.update j m s) cs = Some s'"
      using Cons.prems(1) e by (auto split: bind_splits)
    have "valid old" using Some Cons.prems(2) map_of_SomeD by (fastforce simp: state_valid_def list_all_iff)
    then have k: "conc old \<inter> conc c \<subseteq> conc m" "valid m" using intersection_keeps [OF _ c(1) m(1)] by auto
    then have "covered conc (AList.update j m s) k x" using Cons.prems(4,5) Some e by (auto simp: covered_def dict)
    then show ?thesis using Cons.IH [OF m(2)] Cons.prems(2,4) e c k by (simp add: state_valid_update)
  qed
qed simp

lemma entry_state_covers:
  assumes "entry_state I Q key bb A = Some s" and "p \<in> set (predecessors I bb)"
    and "covered conc (results_at A key (terminator I p)) k x" and "\<And>v. state_valid valid (results_at A key v)"
    and "state_valid valid (constrainValuesByCondition I Q bb)"
    and "list_all (\<lambda>(j, c). j = k \<longrightarrow> x \<in> conc c) (constrainValuesByCondition I Q bb)"
  shows "covered conc s k x"
proof -
  let ?es = "map (\<lambda>p. results_at A key (terminator I p)) (predecessors I bb)"
  obtain s1 s2 where s1: "mergeStateFromPredecessors Q (results_at A key bb) ?es = Some s1"
    and s2: "mergeInState Q s1 (results_at A key (snd key)) False = Some s2"
    and s: "(if usePC Q then apply_constraints Q s2 (constrainValuesByCondition I Q bb) else Some s2) = Some s"
    using assms(1) by (auto simp: entry_state_def split: bind_splits)
  have "covered conc s2 k x"
    using mergeInState_covers [OF s2] mergeStateFromPredecessors_covers [OF s1 _ assms(3)] assms(2) by auto
  moreover have "state_valid valid s2"
    using mergeInState_valid [OF s2 mergeStateFromPredecessors_valid [OF s1]] assms(4) by (simp add: list_all_iff)
  ultimately show ?thesis using s apply_constraints_keeps assms(5,6) by (auto split: if_splits)
qed

lemma dataflow_returns:
  assumes "module_closed I" and "depth_bound I K \<le> n" and "set entryPoints \<subseteq> set (moduleFunctions I)"
  shows "exec_all (\<lambda>A1. work (contextWork A1) = [] \<and> activeSet A1 = {}) (computeForwardDataflow n I Q (new_analysis K entryPoints))"
proof (rule computeForwardDataflow_returns [OF assms(1) equality_reflexive assms(2)])
  have "set (work (fold (\<lambda>e. wl_add (replicate K 0, e)) es w)) \<subseteq> set (work w) \<union> {replicate K 0} \<times> set es"
    for es :: "vid list" and w :: "(ctx \<times> vid) WorkList"
  proof (induction es arbitrary: w)
    case (Cons e es)
    show ?case using Cons [of "wl_add (replicate K 0, e) w"] by (auto simp: wl_add_def split: if_splits)
  qed simp
  moreover have "{replicate K 0} \<times> set entryPoints \<subseteq> context_pairs I K" using assms(3) by (auto simp: context_pairs_def)
  ultimately show "set (work (contextWork (new_analysis K entryPoints :: 'a analysis))) \<subseteq> context_pairs I K"
    by (fastforce simp: new_analysis_def)
qed (simp add: new_analysis_def)

end

subsection \<open>Value ranges are such a domain\<close>

lemma range_policy_sel [simp]:
  "defaultValue (range_policy I pc) = unknownRange" "usePC (range_policy I pc) = pc"
  "valueEq (range_policy I pc) = range_eq" "transferOn (range_policy I pc) = transfer I"
  by (simp_all add: range_policy_def)

lemma meet2_range [simp]: "meet2 (range_policy I pc) a b = Some unknownRange"
  by (simp add: meet2_def range_policy_def Meet_unknown)

lemma range_eq_self: "range_eq r r \<noteq> Some False"
  by (auto simp: range_eq_def split: option.splits prod.splits)

interpretation range_domain: dataflow_domain "range_policy I pc" gamma range_ok for I pc
proof unfold_locales
  show "gamma a \<union> gamma b \<subseteq> gamma m \<and> range_ok m" if "meet2 (range_policy I pc) a b = Some m" for a b m
    using that by (auto simp: gamma_def range_ok_def unknownRange_def)
  show "gamma a \<inter> gamma b \<subseteq> gamma m \<and> range_ok m" if "range_ok a" "range_ok b"
    and "meetIntersection (range_policy I pc) a b = Some m" for a b m
    using intersection_gamma [OF that(1,2)] that(3) by (auto simp: range_policy_def)
qed (simp_all add: range_policy_def gamma_def range_ok_def unknownRange_def range_eq_self)

lemma exec_all_iff: "exec_all P m \<longleftrightarrow> (\<exists>r. m = Some r \<and> (\<forall>x. r = Returned x \<longrightarrow> P x))"
  by (auto simp: exec_all_def split: option.splits outcome.splits)

text \<open>
  C4: The value-range analysis ends on every module whose blocks, branches and calls stay inside the
  module, for any number of entry points and any length of contexts, with a recursion no deeper than the
  number of pairs of a context and a function: recursion is cut by the set of active pairs, the loop over
  blocks by the limit on how often a block is queued.
\<close>

theorem dataflow_terminates:
  assumes "module_closed I" and "set entryPoints \<subseteq> set (moduleFunctions I)" and "depth_bound I K \<le> n"
  shows "\<exists>r. computeForwardDataflow n I (range_policy I pc) (new_analysis K entryPoints) = Some r \<and>
    (\<forall>A. r = Returned A \<longrightarrow> work (contextWork A) = [] \<and> activeSet A = {})"
  using range_domain.dataflow_returns [OF assms(1,3,2)] unfolding exec_all_iff .

text \<open>A module with a loop and a recursive call, for the examples: function 7, blocks 2 and 3, instructions from 4 on.\<close>

definition flow_example :: ir where
  "flow_example = empty_ir\<lparr>
     kind := (\<lambda>v. if v = 4 then KCall else if v = 5 then KBr False else if v = 6 then KBr False else KFunction),
     insts := (\<lambda>b. if b = 2 then [4, 5] else if b = 3 then [6] else []),
     blocks := (\<lambda>f. if f = 7 then [2, 3] else []), reversePostOrder := (\<lambda>f. if f = 7 then [2, 3] else []),
     successors := (\<lambda>b. if b = 2 then [3] else if b = 3 then [3] else []),
     predecessors := (\<lambda>b. if b = 3 then [2, 3] else []),
     calledFunction := (\<lambda>v. if v = 4 then Some 7 else None), moduleFunctions := [7]\<rparr>"

lemma flow_example_closed: "module_closed flow_example"
  by (simp add: module_closed_def flow_example_def empty_ir_def isAnalyzableCall_def)

theorem dataflow_terminates_witness:
  "computeForwardDataflow (depth_bound flow_example 1) flow_example (range_policy flow_example True) (new_analysis 1 [7]) \<noteq> None"
  using dataflow_terminates [OF flow_example_closed, of "[7]" 1 "depth_bound flow_example 1" True]
  by (auto simp: flow_example_def)

text \<open>
  No value is lost on the way into a block: a number that a variable may have at the end of a
  predecessor is still covered by the entry state of the block after merging all predecessors, the
  summary of the function and the condition of the branch, provided it satisfies that condition.
\<close>

theorem entry_state_sound:
  assumes "entry_state I (range_policy I pc) key bb A = Some s" and "p \<in> set (predecessors I bb)"
    and "map_of (results_at A key (terminator I p)) k = Some r" and "x \<in> gamma r"
    and "\<And>v. state_valid range_ok (results_at A key v)"
    and "state_valid range_ok (constrainValuesByCondition I (range_policy I pc) bb)"
    and "list_all (\<lambda>(j, c). j = k \<longrightarrow> x \<in> gamma c) (constrainValuesByCondition I (range_policy I pc) bb)"
  shows "\<exists>r'. map_of s k = Some r' \<and> x \<in> gamma r'"
  using range_domain.entry_state_covers [OF assms(1,2) _ assms(5,6,7)] assms(3,4) by (auto simp: covered_def)

definition flow_state :: "RangeValue analysis" where
  "flow_state = put ([0], 7) 5 [(4, makeRange (mk 32 1) (mk 32 5))] (new_analysis 1 [7])"

lemma flow_state_results: "results_at flow_state ([0], 7) v = (if v = 5 then [(4, makeRange (mk 32 1) (mk 32 5))] else [])"
  by (simp add: flow_state_def put_def set_results_def function_results_def results_at_def new_analysis_def get_or_def dict)

lemma flow_entry: "entry_state flow_example (range_policy flow_example True) ([0], 7) 3 flow_state = Some [(4, unknownRange)]"
  by (simp add: entry_state_def flow_state_results flow_example_def empty_ir_def terminator_def mergeStateFromPredecessors_def
      mergeInState_def contains_def constrainValuesByCondition_def getSinglePredecessor_def range_policy_def)

theorem entry_state_sound_witness: "\<exists>r'. map_of [(4 :: vid, unknownRange)] 4 = Some r' \<and> 3 \<in> gamma r'"
proof (rule entry_state_sound [OF flow_entry, where p = 2 and k = 4 and x = 3])
  show "map_of (results_at flow_state ([0], 7) (terminator flow_example 2)) 4 = Some (makeRange (mk 32 1) (mk 32 5))"
    by (simp add: flow_state_results flow_example_def terminator_def)
  show "state_valid range_ok (results_at flow_state ([0], 7) v)" for v
    by (simp add: flow_state_results state_valid_def range_ok_def makeRange_def)
qed (simp_all add: flow_example_def sval_def mk_def constrainValuesByCondition_def getSinglePredecessor_def state_valid_def)

text \<open>
  C40: The analysis of a function never queues the callers of the function again: the comparison that
  should detect changed results compares the table with itself, because both names refer to the same
  entry.
\<close>

theorem callers_never_queued:
  assumes "module_closed I" and "(c, f) \<in> context_pairs I K" and "activeSet A = {}" and "depth_bound I K \<le> n"
  shows "\<exists>r. computeFunction n I (range_policy I pc) f c A = Some r \<and> (\<forall>A1. r = Returned A1 \<longrightarrow> contextWork A1 = contextWork A)"
  using computeFunction_frame [where Q = "range_policy I pc", OF assms(1) range_domain.equality_reflexive, of c f K A n] assms(2-4) card_context_pairs [of I K]
  by (auto simp: exec_all_iff same_frame_def)

theorem callers_never_queued_witness:
  "computeFunction (depth_bound flow_example 1) flow_example (range_policy flow_example True) 7 [0] (new_analysis 1 []) \<noteq> None"
  using callers_never_queued [OF flow_example_closed, of "[0]" 7 1 "new_analysis 1 []" "depth_bound flow_example 1" True]
  by (auto simp: flow_example_def context_pairs_def new_analysis_def all_instructions_def)

subsection \<open>What survives a join\<close>

definition all_unknown :: "RangeState \<Rightarrow> bool" where
  "all_unknown s \<longleftrightarrow> (\<forall>k r. map_of s k = Some r \<longrightarrow> r = unknownRange)"

lemma merge_entries_contains:
  "merge_entries Q b d m = Some s \<Longrightarrow> contains s k \<longleftrightarrow> contains d k \<or> contains m k"
proof (induction m arbitrary: d)
  case (Cons e rest)
  obtain j v where e: "e = (j, v)" by (cases e)
  have m: "contains (e # rest) k \<longleftrightarrow> k = j \<or> contains rest k" by (auto simp: e contains_def)
  show ?case
  proof (cases "map_of d j")
    case None
    then show ?thesis using Cons.IH [of "AList.update j (if b then defaultValue Q else v) d"] Cons.prems e m by (auto simp: dict)
  next
    case (Some old)
    then obtain a where "merge_entries Q b (AList.update j a d) rest = Some s"
      using Cons.prems e by (auto split: bind_splits)
    then show ?thesis using Cons.IH [of "AList.update j a d"] m by (auto simp: dict)
  qed
qed simp

lemma merge_range_value:
  "merge_entries (range_policy I pc) b d m = Some s \<Longrightarrow>
   map_of d k = Some unknownRange \<or> (\<exists>r. map_of d k = Some r) \<and> contains m k \<or>
     contains m k \<and> (b \<or> (\<forall>r. (k, r) \<in> set m \<longrightarrow> r = unknownRange)) \<Longrightarrow>
   map_of s k = Some unknownRange"
proof (induction m arbitrary: d)
  case (Cons e rest)
  obtain j v where e: "e = (j, v)" by (cases e)
  let ?v = "case map_of d j of Some _ \<Rightarrow> unknownRange | None \<Rightarrow> if b then unknownRange else v"
  have step: "merge_entries (range_policy I pc) b (AList.update j ?v d) rest = Some s"
    using Cons.prems(1) e by (auto split: option.splits)
  show ?case
    by (rule Cons.IH [OF step]) (use Cons.prems(2) e in \<open>auto simp: dict contains_def split: option.splits if_splits\<close>)
qed auto

lemma mergeInState_balanced: "mergeInState (range_policy I pc) d m True = Some s \<Longrightarrow> all_unknown s"
  unfolding all_unknown_def
proof (intro allI impI)
  fix k r
  assume s: "mergeInState (range_policy I pc) d m True = Some s" "map_of s k = Some r"
  let ?d = "map (\<lambda>(j, v). (j, if contains m j then v else defaultValue (range_policy I pc))) d"
  have e: "merge_entries (range_policy I pc) True ?d m = Some s" using s(1) by (simp add: mergeInState_def)
  have "contains ?d k \<or> contains m k" using merge_entries_contains [OF e, of k] s(2) by (simp add: contains_def)
  then have "map_of ?d k = Some unknownRange \<or> contains m k"
    by (auto simp: contains_def map_of_map_values range_policy_def)
  then show "r = unknownRange" using merge_range_value [OF e, of k] s(2) by auto
qed

lemma merge_predecessors_unknown:
  "merge_predecessors (range_policy I pc) s es = Some s' \<Longrightarrow> es \<noteq> [] \<or> all_unknown s \<Longrightarrow> all_unknown s'"
proof (induction es arbitrary: s)
  case (Cons e es)
  then show ?case using mergeInState_balanced by (auto split: bind_splits)
qed simp

lemma merge_entries_ok: "merge_entries Q b d m = Some s \<Longrightarrow> dict_ok d \<Longrightarrow> dict_ok s"
proof (induction m arbitrary: d)
  case (Cons e rest)
  then show ?case by (cases e) (auto split: option.splits bind_splits)
qed simp

lemma mergeInState_shape:
  assumes "mergeInState Q d m b = Some s"
  shows "contains s k \<longleftrightarrow> contains d k \<or> contains m k" and "dict_ok d \<Longrightarrow> dict_ok s"
proof -
  let ?d = "if b then map (\<lambda>(j, v). (j, if contains m j then v else defaultValue Q)) d else d"
  have e: "merge_entries Q b ?d m = Some s" using assms by (simp add: mergeInState_def)
  have "contains ?d k \<longleftrightarrow> contains d k" by (simp add: contains_def map_of_map_values)
  then show "contains s k \<longleftrightarrow> contains d k \<or> contains m k" using merge_entries_contains [OF e, of k] by simp
  have "map fst ?d = map fst d" by (simp add: case_prod_beta comp_def)
  then show "dict_ok d \<Longrightarrow> dict_ok s" using merge_entries_ok [OF e] by (simp add: dict_ok_def del: map_map)
qed

lemma merge_predecessors_shape:
  "merge_predecessors Q s es = Some s' \<Longrightarrow>
    (contains s' k \<longleftrightarrow> contains s k \<or> (\<exists>e \<in> set es. contains e k)) \<and> (dict_ok s \<longrightarrow> dict_ok s')"
proof (induction es arbitrary: s)
  case (Cons e es)
  then obtain t where t: "mergeInState Q s e True = Some t" "merge_predecessors Q t es = Some s'"
    by (auto split: bind_splits)
  show ?case using Cons.IH [OF t(2)] mergeInState_shape(1) [OF t(1), of k] mergeInState_shape(2) [OF t(1)] by auto
qed simp

lemma mergeStateFromPredecessors_join:
  assumes "mergeStateFromPredecessors (range_policy I pc) own (e0 # e1 # es) = Some s"
    and "e \<in> set (e0 # e1 # es)" and "contains e k"
  shows "map_of s k = Some unknownRange"
proof -
  let ?Q = "range_policy I pc"
  obtain m s0 s1 where m: "mergeInState ?Q [] e0 False = Some s0" "merge_predecessors ?Q s0 (e1 # es) = Some s1"
    "mergeInState ?Q m s1 False = Some s"
    using assms(1) by (auto simp: mergeStateFromPredecessors_def split: bind_splits)
  have "all_unknown s1" using merge_predecessors_unknown [OF m(2)] by simp
  moreover have "dict_ok s1" "contains s1 k"
    using merge_predecessors_shape [OF m(2), of k] mergeInState_shape(1) [OF m(1), of k] mergeInState_shape(2) [OF m(1)] assms(2,3) by auto
  ultimately have "\<forall>r. (k, r) \<in> set s1 \<longrightarrow> r = unknownRange" using dict_ok_map_of by (fastforce simp: all_unknown_def)
  then show ?thesis using merge_range_value [of I pc False m s1 s k] m(3) \<open>contains s1 k\<close> by (simp add: mergeInState_def)
qed

lemma merge_range_total: "\<exists>s. merge_entries (range_policy I pc) b d m = Some s"
proof (induction m arbitrary: d)
  case (Cons e rest)
  then show ?case by (cases e) (auto split: option.split)
qed simp

lemma mergeInState_total: "\<exists>s. mergeInState (range_policy I pc) d m b = Some s"
  using merge_range_total by (simp add: mergeInState_def)

lemma merge_predecessors_total: "\<exists>s'. merge_predecessors (range_policy I pc) s es = Some s'"
proof (induction es arbitrary: s)
  case (Cons e es)
  obtain t where "mergeInState (range_policy I pc) s e True = Some t" using mergeInState_total by blast
  then show ?case using Cons.IH [of t] by simp
qed simp

lemma mergeStateFromPredecessors_total: "\<exists>s. mergeStateFromPredecessors (range_policy I pc) own es = Some s"
proof -
  let ?Q = "range_policy I pc"
  obtain s0 where "mergeInState ?Q [] own False = Some s0" using mergeInState_total by blast
  moreover obtain s1 where "(case es of [] \<Rightarrow> Some [] | e # es \<Rightarrow> Option.bind (mergeInState ?Q [] e False) (\<lambda>s. merge_predecessors ?Q s es)) = Some s1"
  proof (cases es)
    case (Cons e rest)
    obtain t where "mergeInState ?Q [] e False = Some t" using mergeInState_total by blast
    then show ?thesis using merge_predecessors_total [of I pc t rest] Cons that by auto
  qed simp
  ultimately show ?thesis using mergeInState_total [of I pc s0 s1 False] by (simp add: mergeStateFromPredecessors_def)
qed

text \<open>
  C33: No range survives a join: for a block with two or more predecessors the entry state is computed, and every value that has a range at
  the end of one of the predecessors is unknown in it, whatever the ranges were, also when all predecessors agree.
\<close>

theorem join_forgets_ranges:
  assumes "predecessors I bb = p0 # p1 # ps"
  shows "\<exists>s. entry_state I (range_policy I pc) key bb A = Some s \<and>
    (\<forall>p \<in> set (predecessors I bb). \<forall>k. contains (results_at A key (terminator I p)) k \<longrightarrow> map_of s k = Some unknownRange)"
proof -
  let ?Q = "range_policy I pc" and ?e = "\<lambda>p. results_at A key (terminator I p)"
  have c: "constrainValuesByCondition I ?Q bb = []" using assms by (simp add: constrainValuesByCondition_def getSinglePredecessor_def)
  obtain s1 where s1: "mergeStateFromPredecessors ?Q (results_at A key bb) (?e p0 # ?e p1 # map ?e ps) = Some s1"
    using mergeStateFromPredecessors_total by blast
  obtain s where s: "mergeInState ?Q s1 (results_at A key (snd key)) False = Some s" using mergeInState_total by blast
  have "entry_state I ?Q key bb A = Some s" using c s1 s unfolding entry_state_def by (cases pc) (simp_all add: assms)
  moreover have "map_of s k = Some unknownRange" if "p \<in> set (predecessors I bb)" "contains (?e p) k" for p k
  proof -
    have "map_of s1 k = Some unknownRange"
      by (rule mergeStateFromPredecessors_join [OF s1, where e = "?e p"]) (use assms that in auto)
    then show ?thesis using merge_range_value [of I pc False s1 _ s k] s by (simp add: mergeInState_def)
  qed
  ultimately show ?thesis by blast
qed

theorem join_forgets_ranges_witness:
  "\<exists>s. entry_state flow_example (range_policy flow_example True) ([0], 7) 3 flow_state = Some s \<and> map_of s 4 = Some unknownRange \<and>
     map_of (results_at flow_state ([0], 7) (terminator flow_example 2)) 4 = Some (makeRange (mk 32 1) (mk 32 5))"
proof -
  have p: "predecessors flow_example 3 = [2, 3]" "terminator flow_example 2 = 5" by (simp_all add: flow_example_def terminator_def)
  then show ?thesis
    using join_forgets_ranges [of flow_example 3 2 3 "[]" True "([0], 7)" flow_state] by (auto simp: flow_state_results contains_def)
qed

end
