(* ===== verification/Value_Range_Analysis.thy ===== *)
theory Value_Range_Analysis
  imports Forward_Dataflow Analysis_State PTA_Wrapper "HOL-Library.Sublist"
begin

text \<open>
  The consumers of the range analysis in \<^verbatim>\<open>ValueRange.cpp\<close>: \<^verbatim>\<open>valueRangeAnalysis\<close> decides which
  sequence pointers stay unsafe, filters them with the results of the other passes and brackets the
  address computations that remain with inline assembly, and \<^verbatim>\<open>tagOperationsForProtections\<close> attaches
  the metadata that later instrumentation reads.  Command line options are the record \<open>vr_options\<close>.
  A result \<open>None\<close> is a null dereference or a failed assertion.
\<close>

record vr_options =
  EntryFunction :: string
  EnableOOWAnalysis :: bool
  SFIOnly :: bool
  DiffOnly :: bool
  UseBaggy :: bool
  UsePC :: bool

subsection \<open>The verdict on one address computation\<close>

definition indexOperand :: "ir \<Rightarrow> vid \<Rightarrow> vid" where
  "indexOperand I gep = (if length (operands I gep) > 2 then getOperand I gep 2 else getOperand I gep 1)"

text \<open>A computation is only recorded as unsafe when the store has an entry for it.\<close>

definition registered :: "ir \<Rightarrow> AnalysisState \<Rightarrow> vid \<Rightarrow> bool" where
  "registered I st gep \<longleftrightarrow> GetPointerVariableInfo I fresh_info st gep \<noteq> None"

definition sizeConstant :: "ir \<Rightarrow> sizeval \<Rightarrow> apint option option" where
  "sizeConstant I s = (case s of SNull \<Rightarrow> None | SConst c \<Rightarrow> Some (Some c) | SVal v \<Rightarrow> Some (constantInt I v))"

text \<open>A pointer to a scalar: the recorded size is read into an \<^verbatim>\<open>int\<close> of 32 bits.\<close>

definition pointerVerdict :: "ir \<Rightarrow> AnalysisState \<Rightarrow> vid \<Rightarrow> bool option" where
  "pointerVerdict I st gep =
     (case GetPointerVariableInfo I fresh_info st gep of
        None \<Rightarrow> Some False
      | Some p \<Rightarrow>
          (case constantInt I (indexOperand I gep) of
             None \<Rightarrow> Some True
           | Some constant \<Rightarrow>
               map_option (\<lambda>sizeCI. case sizeCI of
                   None \<Rightarrow> False
                 | Some sz \<Rightarrow> \<not> (\<not> isNegative constant \<and> 0 < sval (mk 32 (getSExtValue sz))))
                 (sizeConstant I (sizeOf (deref st p)))))"

definition outsideRange :: "RangeValue \<Rightarrow> nat \<Rightarrow> bool" where
  "outsideRange r n \<longleftrightarrow> isUnknown r \<or> isInfinity r \<or>
     (case (lvalue r, rvalue r) of (Some a, Some b) \<Rightarrow> isNegative a \<or> uge b n | _ \<Rightarrow> True)"

definition arrayVerdict :: "ir \<Rightarrow> AnalysisState \<Rightarrow> RangeState \<Rightarrow> vid \<Rightarrow> nat \<Rightarrow> ty \<Rightarrow> bool" where
  "arrayVerdict I st state gep n elmtTy =
     (case constantInt I (indexOperand I gep) of
        Some constant \<Rightarrow>
          registered I st gep \<and>
          (if \<not> isNegative constant \<and> \<not> uge constant n
           then \<not> wrap64 (int (getLimitedValue constant) * int (typeAllocSize I elmtTy)) \<le> int (typeAllocSize I (ArrayTy n elmtTy))
           else True)
      | None \<Rightarrow> registered I st gep \<and> outsideRange (fst (at_state state (indexOperand I gep))) n)"

definition structVerdict :: "ir \<Rightarrow> AnalysisState \<Rightarrow> RangeState \<Rightarrow> vid \<Rightarrow> nat \<Rightarrow> bool" where
  "structVerdict I st state gep s =
     (let size = length (structElements I s)
      in case constantInt I (indexOperand I gep) of
           Some constant \<Rightarrow>
             registered I st gep \<and>
             (if getLimitedValue constant < size
              then \<not> isNegative constant \<and> \<not> uge constant size \<and>
                \<not> structOffset I s (getLimitedValue constant) \<le> typeAllocSize I (StructTy s)
              else True)
         | None \<Rightarrow>
             (let rangeValue = fst (at_state state (indexOperand I gep))
              in registered I st gep \<and> outsideRange rangeValue size \<and> (isInfinity rangeValue \<or> isUnknown rangeValue)))"

definition gepVerdict :: "ir \<Rightarrow> AnalysisState \<Rightarrow> RangeState \<Rightarrow> vid \<Rightarrow> bool option" where
  "gepVerdict I st state gep =
     (case getElementType (typeOf I (gepPointer I gep)) of
        ArrayTy n e \<Rightarrow> Some (arrayVerdict I st state gep n e)
      | StructTy s \<Rightarrow> Some (structVerdict I st state gep s)
      | _ \<Rightarrow> pointerVerdict I st gep)"

subsection \<open>All computations, in all contexts\<close>

definition examined :: "ir \<Rightarrow> (vid, VariableInfo) dict \<Rightarrow> RangeValue analysis \<Rightarrow> (RangeState \<times> vid) list" where
  "examined I heapSeqPointerSet A =
     [(getIncomingState I rangeStates v, v). (key, rangeStates) \<leftarrow> allResults A, (v, s) \<leftarrow> rangeStates,
        kind I v = KGEP, contains heapSeqPointerSet v]"

fun collectUnsafe :: "ir \<Rightarrow> AnalysisState \<Rightarrow> (RangeState \<times> vid) list \<Rightarrow> vid set option" where
  "collectUnsafe I st [] = Some {}"
| "collectUnsafe I st ((state, gep) # rest) =
     Option.bind (gepVerdict I st state gep) (\<lambda>unsafe.
       map_option (\<lambda>S. if unsafe then insert gep S else S) (collectUnsafe I st rest))"

definition filterOutOfWindow :: "vr_options \<Rightarrow> vid set \<Rightarrow> vid set \<Rightarrow> vid set" where
  "filterOutOfWindow opts oowResults S = (if EnableOOWAnalysis opts then S - oowResults else S)"

subsection \<open>Metadata for the protections\<close>

record tags =
  unsafeTag :: "vid set"
  dpOnlyTag :: "vid set"

definition no_tags :: tags where
  "no_tags = \<lparr>unsafeTag = {}, dpOnlyTag = {}\<rparr>"

definition unsafeObjects :: "ir \<Rightarrow> pta \<Rightarrow> vid list \<Rightarrow> nat set" where
  "unsafeObjects I P geps =
     fold (\<lambda>g S. if kind I g = KGEP then snd (insertUnsafePts P (gepPointer I g) S) else S) geps {}"

text \<open>The allocation to tag for an unsafe object; \<open>0\<close> is a null pointer, which is not tagged.\<close>

definition objectTag :: "ir \<Rightarrow> pta \<Rightarrow> nat \<Rightarrow> vid option" where
  "objectTag I P obj =
     Option.bind (isStackObject P obj) (\<lambda>stack.
       if stack then getAlloca I P obj
       else Option.bind (isHeapObject P obj) (\<lambda>heap.
         if heap then Some (getMalloc I P obj)
         else Option.bind (isGlobalObject P obj) (\<lambda>global. Some (if global then getGlobal I P obj else 0))))"

fun objectTags :: "ir \<Rightarrow> pta \<Rightarrow> nat list \<Rightarrow> vid set option" where
  "objectTags I P [] = Some {}"
| "objectTags I P (obj # objs) =
     Option.bind (objectTag I P obj) (\<lambda>v. map_option (\<lambda>S. if v = 0 then S else insert v S) (objectTags I P objs))"

fun onlyUsedInLoadStore :: "ir \<Rightarrow> vid \<Rightarrow> vid list \<Rightarrow> bool \<Rightarrow> bool" where
  "onlyUsedInLoadStore I gep [] flag = flag"
| "onlyUsedInLoadStore I gep (u # us) flag =
     (if kind I u = KLoad \<or> kind I u = KStore \<and> getOperand I u 1 = gep then onlyUsedInLoadStore I gep us True
      else False)"

definition tagInstruction :: "ir \<Rightarrow> pta \<Rightarrow> nat set \<Rightarrow> vid set \<Rightarrow> vid \<Rightarrow> tags \<Rightarrow> tags option" where
  "tagInstruction I P objs geps v t =
     (let unsafe = isPointToUnsafeObjects P objs; mark = t\<lparr>unsafeTag := insert v (unsafeTag t)\<rparr>
      in if isCallBase I v then Some t
         else if kind I v = KLoad then Some (if unsafe (loadPointer I v) then mark else t)
         else if kind I v = KStore then Some (if unsafe (storePointer I v) then mark else t)
         else if kind I v = KGEP then
           Some (if unsafe (gepPointer I v) \<and> v \<notin> geps \<and> \<not> onlyUsedInLoadStore I v (users I v) False
                 then t\<lparr>dpOnlyTag := insert v (dpOnlyTag t)\<rparr> else t)
         else if is_Cmp_k (kind I v) then
           (let op1 = getOperand I v 0; op2 = getOperand I v 1
            in if \<not> isPointerTy (typeOf I op1) then Some t
               else if \<not> isPointerTy (typeOf I op2) then None
               else Some (if unsafe op1 \<or> unsafe op2 then mark else t))
         else Some t)"

fun tagInstructions :: "ir \<Rightarrow> pta \<Rightarrow> nat set \<Rightarrow> vid set \<Rightarrow> vid list \<Rightarrow> tags \<Rightarrow> tags option" where
  "tagInstructions I P objs geps [] t = Some t"
| "tagInstructions I P objs geps (v # vs) t =
     Option.bind (tagInstruction I P objs geps v t) (\<lambda>t1. tagInstructions I P objs geps vs t1)"

definition tagOperationsForProtections :: "ir \<Rightarrow> pta \<Rightarrow> vid set \<Rightarrow> tags \<Rightarrow> tags option" where
  "tagOperationsForProtections I P unsafeSeqPointerSet t =
     (let geps = sorted_list_of_set unsafeSeqPointerSet; objs = unsafeObjects I P geps
      in Option.bind (objectTags I P (sorted_list_of_set objs)) (\<lambda>allocations.
           tagInstructions I P objs unsafeSeqPointerSet (all_instructions I)
             (t\<lparr>unsafeTag := unsafeTag t \<union> {g \<in> unsafeSeqPointerSet. kind I g = KGEP} \<union> allocations\<rparr>)))"

subsection \<open>Comparing with the computations a previous run has marked\<close>

definition bracketed :: "ir \<Rightarrow> string \<Rightarrow> vid \<Rightarrow> vid option" where
  "bracketed I asm v =
     (if kind I v = KCall \<and> inlineAsm I (calledOperand I v) = Some asm
      then (case getPrevNode I v of Some p \<Rightarrow> if kind I p = KGEP then Some p else None | None \<Rightarrow> None)
      else None)"

definition reportedGEPs :: "ir \<Rightarrow> vid set" where
  "reportedGEPs I = set (List.map_filter (bracketed I NORMAL_MAGIC_ASM_END) (all_instructions I))"

definition overlaps :: "ir \<Rightarrow> pta \<Rightarrow> nat set \<Rightarrow> vid \<Rightarrow> bool" where
  "overlaps I P objs gep \<longleftrightarrow> kind I gep = KGEP \<and> snd (insertUnsafePts P (gepPointer I gep) {}) \<inter> objs \<noteq> {}"

definition removeReported :: "ir \<Rightarrow> vr_options \<Rightarrow> pta \<Rightarrow> vid set \<Rightarrow> vid set" where
  "removeReported I opts P S =
     (let reported = reportedGEPs I
      in if UseBaggy opts then S - reported
         else {g \<in> S. \<not> overlaps I P (unsafeObjects I P (sorted_list_of_set reported)) g})"

subsection \<open>Bracketing\<close>

definition alreadyBracketed :: "ir \<Rightarrow> vid \<Rightarrow> bool" where
  "alreadyBracketed I gep =
     (case getNextNode I gep of
        None \<Rightarrow> False
      | Some nextInst \<Rightarrow>
          isCallBase I nextInst \<and>
          (case inlineAsm I (calledOperand I nextInst) of
             None \<Rightarrow> False
           | Some asm \<Rightarrow> sublist NORMAL_MAGIC_ASM_END asm \<or> sublist MAGIC_ASM_END asm))"

text \<open>
  A new instruction before or after another one.  The addresses of the two new calls and of the two
  assembly values are arguments; LLVM chooses them.
\<close>

fun insert_around :: "vid \<Rightarrow> vid \<Rightarrow> vid \<Rightarrow> vid list \<Rightarrow> vid list" where
  "insert_around before v behind [] = []"
| "insert_around before v behind (x # xs) =
     (if x = v then before # x # behind # xs else x # insert_around before v behind xs)"

record fresh_ids =
  callBefore :: vid
  callAfter :: vid
  asmBefore :: vid
  asmAfter :: vid

definition bracketGEP :: "vr_options \<Rightarrow> vid \<Rightarrow> fresh_ids \<Rightarrow> ir \<Rightarrow> ir" where
  "bracketGEP opts gep new I =
     (let bb = parentBB I gep;
          begin = (if UsePC opts then NORMAL_MAGIC_ASM_BEGIN else MAGIC_ASM_BEGIN);
          finish = (if UsePC opts then NORMAL_MAGIC_ASM_END else MAGIC_ASM_END)
      in I\<lparr>kind := (kind I)(callBefore new := KCall, callAfter new := KCall,
             asmBefore new := KInlineAsm begin, asmAfter new := KInlineAsm finish),
           calledOperand := (calledOperand I)(callBefore new := asmBefore new, callAfter new := asmAfter new),
           calledFunction := (calledFunction I)(callBefore new := None, callAfter new := None),
           parentBB := (parentBB I)(callBefore new := bb, callAfter new := bb),
           insts := (insts I)(bb := insert_around (callBefore new) gep (callAfter new) (insts I bb))\<rparr>)"

fun bracketGEPs :: "vr_options \<Rightarrow> (vid \<times> fresh_ids) list \<Rightarrow> ir \<Rightarrow> ir" where
  "bracketGEPs opts [] I = I"
| "bracketGEPs opts ((gep, new) # rest) I =
     bracketGEPs opts rest (if alreadyBracketed I gep then I else bracketGEP opts gep new I)"

subsection \<open>The analysis\<close>

text \<open>\<open>unsafeBB\<close> lists the blocks a call adds to the static set of that name.\<close>

record vr_result =
  heapUnsafeSeqPointerSet :: "vid set"
  safeSeqPointerSet :: "vid set"
  unsafeBB :: "vid set"
  unsafeObjectSet :: "nat set"
  vr_tags :: tags
  vr_ir :: ir

definition vr_empty :: "ir \<Rightarrow> tags \<Rightarrow> vr_result" where
  "vr_empty I t = \<lparr>heapUnsafeSeqPointerSet = {}, safeSeqPointerSet = {}, unsafeBB = {}, unsafeObjectSet = {},
     vr_tags = t, vr_ir = I\<rparr>"

text \<open>The steps after the set of unsafe computations is known; \<open>fresh\<close> gives the addresses of new instructions.\<close>

definition vr_finish :: "ir \<Rightarrow> vr_options \<Rightarrow> pta \<Rightarrow> (vid \<Rightarrow> fresh_ids) \<Rightarrow> (vid, VariableInfo) dict \<Rightarrow> vid set \<Rightarrow> vid set
    \<Rightarrow> tags \<Rightarrow> vr_result option" where
  "vr_finish I opts P fresh heapSeqPointerSet oowResults S0 t0 =
     (let S1 = filterOutOfWindow opts oowResults S0
      in Option.bind (if SFIOnly opts then tagOperationsForProtections I P S1 t0 else Some t0) (\<lambda>t1.
         Option.bind (if DiffOnly opts then tagOperationsForProtections I P (reportedGEPs I) t1 else Some t1) (\<lambda>t2.
         let S2 = (if DiffOnly opts then removeReported I opts P S1 else S1); geps = sorted_list_of_set S2
         in Some \<lparr>heapUnsafeSeqPointerSet = S2,
              safeSeqPointerSet = {v \<in> keys heapSeqPointerSet. kind I v = KGEP} - S2,
              unsafeBB = parentBB I ` S2, unsafeObjectSet = unsafeObjects I P geps, vr_tags = t2,
              vr_ir = bracketGEPs opts (map (\<lambda>g. (g, fresh g)) geps) I\<rparr>)))"

definition valueRangeAnalysis :: "nat \<Rightarrow> ir \<Rightarrow> vr_options \<Rightarrow> pta \<Rightarrow> (vid \<Rightarrow> fresh_ids) \<Rightarrow> (vid, VariableInfo) dict
    \<Rightarrow> AnalysisState \<Rightarrow> vid set \<Rightarrow> tags \<Rightarrow> vr_result exec" where
  "valueRangeAnalysis n I opts P fresh heapSeqPointerSet st oowResults t0 =
     (case find (\<lambda>f. valueName I f = EntryFunction opts) (moduleFunctions I) of
        None \<Rightarrow> Some (Returned (vr_empty I t0))
      | Some mainFunction \<Rightarrow>
          exec_bind (computeForwardDataflow n I (range_policy I (UsePC opts)) (new_analysis 1 [mainFunction])) (\<lambda>A.
          exec_bind (lift (collectUnsafe I st (examined I heapSeqPointerSet A))) (\<lambda>S0.
          lift (vr_finish I opts P fresh heapSeqPointerSet oowResults S0 t0))))"

subsection \<open>What an accepted array access guarantees\<close>

lemma sval_le_bits: "ap_ok a \<Longrightarrow> sval a \<le> bits a"
  by (auto simp: sval_def ap_ok_def)

lemma inside_constant:
  assumes "ap_ok c" and "\<not> isNegative c" and "\<not> uge c n"
  shows "0 \<le> sval c \<and> sval c < int n"
  using assms sval_le_bits [OF assms(1)] by (auto simp: isNegative_def uge_def)

lemma inside_range:
  assumes "range_ok r" and "x \<in> gamma r" and "\<not> outsideRange r n"
  shows "0 \<le> x \<and> x < int n"
proof -
  have "rkind r = constantK" using assms(3) by (cases "rkind r") (auto simp: outsideRange_def isUnknown_def isInfinity_def)
  then obtain a b where r: "lvalue r = Some a" "rvalue r = Some b" "ap_ok a" "ap_ok b" "sval a \<le> x" "x \<le> sval b"
    using assms(1,2) by (auto simp: range_ok_def gamma_def bounds_def)
  then show ?thesis using assms(3) sval_le_bits [OF r(4)] by (auto simp: outsideRange_def isNegative_def uge_def)
qed

lemma accepted_index:
  assumes "covers I state rho" and "getElementType (typeOf I (gepPointer I gep)) = ArrayTy n e"
    and "registered I st gep" and "gepVerdict I st state gep = Some False"
  shows "0 \<le> rho (indexOperand I gep) \<and> rho (indexOperand I gep) < int n"
proof (cases "constantInt I (indexOperand I gep)")
  case (Some c)
  then have "\<not> isNegative c \<and> \<not> uge c n"
    using assms(2-4) by (auto simp: gepVerdict_def arrayVerdict_def split: if_splits)
  then show ?thesis using inside_constant [of c n] assms(1) Some by (auto simp: covers_def)
next
  case None
  then have out: "\<not> outsideRange (fst (at_state state (indexOperand I gep))) n"
    using assms(2-4) by (simp add: gepVerdict_def arrayVerdict_def)
  then obtain r where "map_of state (indexOperand I gep) = Some r"
    by (auto simp: at_state_def outsideRange_def isUnknown_def unknownRange_def split: option.splits)
  then show ?thesis using inside_range [of r _ n] out assms(1) by (auto simp: covers_def at_state_def)
qed

text \<open>
  The offset, in bytes, of an address computation into an array of \<open>n\<close> elements of \<open>esz\<close> bytes: the first
  index steps over whole arrays and the second over elements.
\<close>

definition array_offset :: "ir \<Rightarrow> (vid \<Rightarrow> int) \<Rightarrow> vid \<Rightarrow> nat \<Rightarrow> int \<Rightarrow> int" where
  "array_offset I rho gep n esz =
     (case operands I gep of
        [p, i] \<Rightarrow> rho i * (int n * esz)
      | [p, z, i] \<Rightarrow> rho z * (int n * esz) + rho i * esz
      | _ \<Rightarrow> 0)"

lemma element_in_array: "0 \<le> x \<Longrightarrow> x < int n \<Longrightarrow> 0 < esz \<Longrightarrow> 0 \<le> x * esz \<and> x * esz + esz \<le> int n * esz"
proof -
  assume x: "0 \<le> x" "x < int n" "0 < esz"
  have "(x + 1) * esz \<le> int n * esz" using x by (intro mult_right_mono) simp_all
  then show ?thesis using x by (simp add: distrib_right)
qed

text \<open>
  C5: If the ranges cover the values at an address computation into an array that is registered in the
  store, and the verdict on it is not unsafe, then the index the analysis examines (operand 2, or operand 1 if there are
  only two operands) lies between zero and the number of elements. If moreover the computation has the usual form with a
  first index of zero and one index into the array, the whole element it addresses lies inside the array. The first
  index and indices behind the examined one are not checked by the code (\<open>first_index_not_examined\<close>,
  \<open>single_index_steps_over_arrays\<close>), so that nothing is claimed of the address in the other cases.
\<close>

theorem accepted_array_index_in_bounds:
  assumes "covers I state rho" and "getElementType (typeOf I (gepPointer I gep)) = ArrayTy n e"
    and "registered I st gep" and "gepVerdict I st state gep = Some False"
  shows "0 \<le> rho (indexOperand I gep) \<and> rho (indexOperand I gep) < int n \<and>
    (\<forall>p z i esz. operands I gep = [p, z, i] \<longrightarrow> rho z = 0 \<longrightarrow> 0 < esz \<longrightarrow>
       0 \<le> array_offset I rho gep n esz \<and> array_offset I rho gep n esz + esz \<le> int n * esz)"
proof -
  have b: "0 \<le> rho (indexOperand I gep) \<and> rho (indexOperand I gep) < int n" using accepted_index [OF assms] .
  moreover have "indexOperand I gep = i" if "operands I gep = [p, z, i]" for p z i
    using that by (simp add: indexOperand_def getOperand_def)
  ultimately show ?thesis using element_in_array by (auto simp: array_offset_def)
qed

definition array_example :: ir where
  "array_example = empty_ir\<lparr>kind := (\<lambda>v. if v = 1 then KGEP else KArgument),
     operands := (\<lambda>v. if v = 1 then [2, 3, 4] else []),
     typeOf := (\<lambda>v. if v = 2 then PointerTy (ArrayTy 10 (IntegerTy 32)) else IntegerTy 64)\<rparr>"

definition registered_example :: AnalysisState where
  "registered_example = RegisterVariable 1 (SetSizeType 64 init_state)"

definition index_values :: "vid \<Rightarrow> int" where
  "index_values v = (if v = 4 then 7 else 0)"

theorem accepted_array_index_in_bounds_witness:
  "index_values (indexOperand array_example 1) = 7 \<and> array_offset array_example index_values 1 10 4 = 28 \<and>
   0 \<le> array_offset array_example index_values 1 10 4 \<and> array_offset array_example index_values 1 10 4 + 4 \<le> int 10 * 4"
proof -
  have c: "covers array_example [(4, makeRange (mk 64 0) (mk 64 9))] index_values"
    by (auto simp: index_values_def covers_def array_example_def empty_ir_def constantInt_def range_ok_def makeRange_def gamma_def bounds_def
        sval_def mk_def ap_ok_def split: if_splits)
  have v: "gepVerdict array_example registered_example [(4, makeRange (mk 64 0) (mk 64 9))] 1 = Some False"
    by (simp add: gepVerdict_def arrayVerdict_def array_example_def empty_ir_def gepPointer_def getOperand_def indexOperand_def
        constantInt_def at_state_def outsideRange_def makeRange_def isUnknown_def isInfinity_def isNegative_def uge_def sval_def mk_def)
  have r: "getElementType (typeOf array_example (gepPointer array_example 1)) = ArrayTy 10 (IntegerTy 32)"
    "registered array_example registered_example 1"
    by (simp_all add: array_example_def empty_ir_def gepPointer_def getOperand_def registered_def registered_example_def
      GetPointerVariableInfo_def RegisterVariable_def modify_info_def contains_def SetSizeType_def init_state_def)
  have o: "operands array_example 1 = [2, 3, 4]" "index_values 3 = 0" by (simp_all add: array_example_def index_values_def)
  then have "index_values (indexOperand array_example 1) = 7" "array_offset array_example index_values 1 10 4 = 28"
    by (simp_all add: indexOperand_def getOperand_def index_values_def array_offset_def)
  then show ?thesis using accepted_array_index_in_bounds [OF c r v] o by auto
qed

text \<open>
  The first index is not examined: the verdict is the same whatever operand 1 is, and with a first index of
  one the address lies behind the array. With two operands the only index is compared with the number of
  elements although it steps over whole arrays.
\<close>

lemma first_index_not_examined:
  assumes "operands I gep = [p, z, i]" and "typeOf I p = PointerTy (ArrayTy n e)"
    and J: "J = I\<lparr>operands := (operands I)(gep := [p, z', i])\<rparr>"
  shows "gepVerdict J st state gep = gepVerdict I st state gep"
    and "rho z' = 1 \<Longrightarrow> 0 \<le> rho i \<Longrightarrow> 0 < esz \<Longrightarrow> int n * esz \<le> array_offset J rho gep n esz"
proof -
  have "registered J st gep = registered I st gep" "\<And>T. typeAllocSize J T = typeAllocSize I T"
    "indexOperand J gep = i" "indexOperand I gep = i"
    using assms(1) by (simp_all add: J registered_def GetPointerVariableInfo_def indexOperand_def getOperand_def)
  then show "gepVerdict J st state gep = gepVerdict I st state gep"
    using assms(1,2) by (cases "kind I i") (simp_all add: J gepVerdict_def arrayVerdict_def gepPointer_def getOperand_def constantInt_def)
qed (simp add: J array_offset_def)

lemma single_index_steps_over_arrays:
  assumes "operands I gep = [p, i]" and "0 < rho i" and "0 < esz"
  shows "indexOperand I gep = i" and "int n * esz \<le> array_offset I rho gep n esz"
proof -
  show "indexOperand I gep = i" using assms(1) by (simp add: indexOperand_def getOperand_def)
  have "1 * (int n * esz) \<le> rho i * (int n * esz)" using assms(2,3) by (intro mult_right_mono) simp_all
  then show "int n * esz \<le> array_offset I rho gep n esz" using assms(1) by (simp add: array_offset_def)
qed

text \<open>
  For a pointer to a scalar, a constant index that is not negative is accepted whenever some positive
  size is recorded: the index is not compared with the size.
\<close>

theorem scalar_index_not_compared:
  assumes "getElementType (typeOf I (gepPointer I gep)) = IntegerTy w" and "constantInt I (indexOperand I gep) = Some c"
    and "\<not> isNegative c" and "contains (Variables st) gep" and "kind I gep = KGEP"
    and "sizeOf (lookup_info st gep) = SConst sz" and "0 < sval (mk 32 (sval sz))"
  shows "gepVerdict I st state gep = Some False"
  using assms by (simp add: gepVerdict_def pointerVerdict_def GetPointerVariableInfo_def sizeConstant_def getSExtValue_def)

definition scalar_example :: ir where
  "scalar_example = empty_ir\<lparr>kind := (\<lambda>v. if v = 1 then KGEP else if v = 3 then KConstantInt (mk 64 1000) else KArgument),
     operands := (\<lambda>v. if v = 1 then [2, 3] else []), typeOf := (\<lambda>v. if v = 2 then PointerTy (IntegerTy 8) else IntegerTy 64)\<rparr>"

theorem scalar_index_not_compared_witness:
  "gepVerdict scalar_example (SetSizeForPointerVariable 1 (SConst (mk 64 4)) registered_example) [] 1 = Some False"
  by (rule scalar_index_not_compared [where w = 8 and c = "mk 64 1000" and sz = "mk 64 4"])
    (simp_all add: scalar_example_def empty_ir_def gepPointer_def getOperand_def indexOperand_def constantInt_def isNegative_def
      sval_def mk_def contains_def registered_example_def SetSizeForPointerVariable_def RegisterVariable_def modify_info_def
      SetSizeType_def init_state_def lookup_info_def Let_def)

text \<open>
  A variable index into a structure is accepted whenever its range is known, even when the range
  lies outside the elements of the structure.
\<close>

theorem struct_index_outside_accepted:
  assumes "getElementType (typeOf I (gepPointer I gep)) = StructTy s" and "constantInt I (indexOperand I gep) = None"
    and "map_of state (indexOperand I gep) = Some (makeRange l r)"
  shows "gepVerdict I st state gep = Some False"
  using assms by (simp add: gepVerdict_def structVerdict_def at_state_def makeRange_def isInfinity_def isUnknown_def)

theorem struct_index_outside_accepted_witness:
  "gepVerdict (array_example\<lparr>typeOf := \<lambda>_. PointerTy (StructTy 5)\<rparr>) registered_example [(4, makeRange (mk 64 90) (mk 64 99))] 1 = Some False"
  by (rule struct_index_outside_accepted)
    (simp_all add: array_example_def empty_ir_def gepPointer_def getOperand_def indexOperand_def constantInt_def)

subsection \<open>What is tagged\<close>

lemma tagInstruction_mono:
  "tagInstruction I P objs geps v t = Some t1 \<Longrightarrow> unsafeTag t \<subseteq> unsafeTag t1 \<and> dpOnlyTag t \<subseteq> dpOnlyTag t1"
  by (auto simp: tagInstruction_def Let_def split: if_splits)

lemma tagInstructions_mono:
  "tagInstructions I P objs geps vs t = Some t1 \<Longrightarrow> unsafeTag t \<subseteq> unsafeTag t1 \<and> dpOnlyTag t \<subseteq> dpOnlyTag t1"
proof (induction vs arbitrary: t)
  case (Cons v vs)
  then show ?case using tagInstruction_mono by (fastforce split: bind_splits)
qed simp

lemma tagInstructions_each:
  "tagInstructions I P objs geps vs t = Some t1 \<Longrightarrow> v \<in> set vs \<Longrightarrow>
   \<exists>ta tb. tagInstruction I P objs geps v ta = Some tb \<and> unsafeTag tb \<subseteq> unsafeTag t1 \<and> dpOnlyTag tb \<subseteq> dpOnlyTag t1"
proof (induction vs arbitrary: t)
  case (Cons u vs)
  then obtain t2 where t2: "tagInstruction I P objs geps u t = Some t2" "tagInstructions I P objs geps vs t2 = Some t1"
    by (auto split: bind_splits)
  show ?case
  proof (cases "v = u")
    case True
    then show ?thesis using t2 tagInstructions_mono [OF t2(2)] by blast
  next
    case False
    then show ?thesis using Cons.IH [OF t2(2)] Cons.prems(2) by simp
  qed
qed simp

lemma unsafeObjects_fold:
  "fold (\<lambda>g S. if kind I g = KGEP then snd (insertUnsafePts P (gepPointer I g) S) else S) geps S0 =
   S0 \<union> (\<Union>g \<in> {g \<in> set geps. kind I g = KGEP}. getBaseObj P ` set (getExpandedFIPts P (gepPointer I g)))"
  by (induction geps arbitrary: S0) (auto simp: insertUnsafePts_def Let_def fold_insert_base)

text \<open>The address an instruction dereferences.\<close>

definition accessedPointer :: "ir \<Rightarrow> vid \<Rightarrow> vid option" where
  "accessedPointer I v =
     (if kind I v = KLoad then Some (loadPointer I v) else if kind I v = KStore then Some (storePointer I v) else None)"

text \<open>
  C35: When the protections are tagged for a set of unsafe address computations, every computation of
  the set is tagged, and so is every load and store of the module that may access an object that one
  of the computations may point into.
\<close>

theorem tagging_covers_shared_objects:
  assumes "tagOperationsForProtections I P S t = Some t1" and "finite S" and "bases_ok P"
    and "g \<in> S" and "kind I g = KGEP" and "n \<in> set (getExpandedFIPts P (gepPointer I g))"
    and "v \<in> set (all_instructions I)" and "accessedPointer I v = Some p" and "m \<in> set (getExpandedFIPts P p)"
    and "getBaseObj P m = getBaseObj P n"
  shows "g \<in> unsafeTag t1 \<and> v \<in> unsafeTag t1"
proof -
  let ?objs = "unsafeObjects I P (sorted_list_of_set S)"
  obtain t0 where t0: "tagInstructions I P ?objs S (all_instructions I) t0 = Some t1" "g \<in> unsafeTag t0"
    using assms(1,4,5) by (auto simp: tagOperationsForProtections_def Let_def split: bind_splits)
  have "getBaseObj P m \<in> ?objs" using assms(2,4,5,6,10) by (auto simp: unsafeObjects_def unsafeObjects_fold)
  then have unsafe: "isPointToUnsafeObjects P ?objs p"
    using base_in_pts [OF assms(3,9)] by (auto simp: isPointToUnsafeObjects_def)
  obtain ta tb where tb: "tagInstruction I P ?objs S v ta = Some tb" "unsafeTag tb \<subseteq> unsafeTag t1"
    using tagInstructions_each [OF t0(1) assms(7)] by blast
  have "v \<in> unsafeTag tb"
    using tb(1) unsafe assms(8) by (auto simp: tagInstruction_def accessedPointer_def Let_def split: if_splits)
  then show ?thesis using tb(2) tagInstructions_mono [OF t0(1)] t0(2) by auto
qed

definition tag_example :: ir where
  "tag_example = empty_ir\<lparr>kind := (\<lambda>v. if v = 5 then KGEP else if v = 6 then KLoad else KArgument),
     operands := (\<lambda>v. if v = 5 then [1, 3] else if v = 6 then [2] else []),
     insts := (\<lambda>b. if b = 8 then [5, 6] else []), blocks := (\<lambda>f. if f = 7 then [8] else []), moduleFunctions := [7]\<rparr>"

lemma pta_example_pts: "getExpandedFIPts pta_example v = (if v = 1 then [10] else if v = 2 then [11] else [])"
  by (simp add: pta_example_def getExpandedFIPts_def getPts_def getValueNode_def)

lemma tag_example_tags:
  "tagOperationsForProtections tag_example pta_example {5} no_tags = Some \<lparr>unsafeTag = {6, 5}, dpOnlyTag = {}\<rparr>"
proof -
  have objs: "unsafeObjects tag_example pta_example [5] = {10}"
    by (simp add: unsafeObjects_def tag_example_def insertUnsafePts_def Let_def pta_example_pts gepPointer_def getOperand_def)
      (simp add: pta_example_def)
  have obj: "objectTags tag_example pta_example [10] = Some {}"
    by (simp add: objectTag_def isStackObject_def isHeapObject_def getMalloc_def value_of_def pta_example_def is_ObjVar_def tag_example_def)
  have unsafe: "isPointToUnsafeObjects pta_example {10} 2"
    by (simp add: isPointToUnsafeObjects_def with_gep_bases_def pta_example_pts map_filter_def) (simp add: pta_example_def)
  have one: "sorted_list_of_set {x} = [x]" for x :: nat by simp
  show ?thesis
    unfolding tagOperationsForProtections_def Let_def one objs obj
    using unsafe by (auto simp: tag_example_def all_instructions_def instructions_def tagInstruction_def no_tags_def loadPointer_def
        getOperand_def Let_def)
qed

theorem tagging_covers_shared_objects_witness:
  "5 \<in> unsafeTag \<lparr>unsafeTag = {6, 5}, dpOnlyTag = {}\<rparr> \<and> 6 \<in> unsafeTag \<lparr>unsafeTag = {6 :: vid, 5}, dpOnlyTag = {}\<rparr>"
  by (rule tagging_covers_shared_objects [OF tag_example_tags, where n = 10 and m = 11 and p = 2])
    (simp_all add: tag_example_def gepPointer_def getOperand_def pta_example_pts all_instructions_def instructions_def
      accessedPointer_def loadPointer_def bases_ok_def, simp_all add: pta_example_def)

end
