(* ===== verification/Alias_Sets.thy ===== *)
theory Alias_Sets
  imports PTA_Wrapper "HOL-Library.List_Lexorder"
begin

text \<open>
  Sets of values that may point to the same object.  \<^verbatim>\<open>Uriah.cpp\<close> and \<^verbatim>\<open>DataDependencyGraph.cpp\<close> contain the
  same code: a table from objects to the values that may point to them is filled, and the sets of the
  table are merged into a set of sets in which, roughly, only the largest survive.  A \<^verbatim>\<open>std::set\<close> of
  values is an increasing list, a \<^verbatim>\<open>std::set\<close> of such sets a list in lexicographic order.  A round of
  the merging loop drops at most one smaller set; what matters to the clients is that every set of the
  table stays covered (\<open>merged_covers\<close>) and that no other set appears (\<open>merged_subset\<close>).
\<close>

subsection \<open>The table and its merged sets\<close>

definition addToObject :: "vid \<Rightarrow> nat \<Rightarrow> (nat, vid list) dict \<Rightarrow> (nat, vid list) dict" where
  "addToObject v obj M =
     AList.update obj (let old = (case map_of M obj of None \<Rightarrow> [] | Some xs \<Rightarrow> xs) in if v \<in> set old then old else insort v old) M"

fun absorb :: "vid list \<Rightarrow> vid list list \<Rightarrow> bool \<times> vid list list" where
  "absorb s [] = (False, [])"
| "absorb s (t # ts) =
     (if set s \<subseteq> set t then (True, t # ts)
      else if set t \<subseteq> set s then (False, ts)
      else (fst (absorb s ts), t # snd (absorb s ts)))"

definition insertAliasSet :: "vid list \<Rightarrow> vid list list \<Rightarrow> vid list list" where
  "insertAliasSet s U =
     (if s \<in> set U then U
      else let (is_subset, U1) = absorb s U in if is_subset then U else insort s U1)"

definition object_calls :: "(nat, vid list) dict \<Rightarrow> nat \<Rightarrow> vid list" where
  "object_calls M obj = (case map_of M obj of None \<Rightarrow> [] | Some xs \<Rightarrow> xs)"

definition calls_ok :: "(nat, vid list) dict \<Rightarrow> bool" where
  "calls_ok M \<longleftrightarrow> dict_ok M \<and> (\<forall>obj. distinct (object_calls M obj))"

definition shares_object :: "pta \<Rightarrow> vid \<Rightarrow> vid \<Rightarrow> bool" where
  "shares_object P v w \<longleftrightarrow> set (getExpandedFIPts P v) \<inter> set (getExpandedFIPts P w) \<noteq> {}"

subsection \<open>What merging keeps\<close>

definition covers :: "vid list set \<Rightarrow> vid list set \<Rightarrow> bool" where
  "covers A B \<longleftrightarrow> (\<forall>s \<in> A. \<exists>t \<in> B. set s \<subseteq> set t)"

lemma covers_trans: "covers A B \<Longrightarrow> covers B C \<Longrightarrow> covers A C"
  unfolding covers_def by (meson subset_trans)

lemma covers_subset: "A \<subseteq> B \<Longrightarrow> covers A B"
  by (auto simp: covers_def)

lemma absorb_subset: "set (snd (absorb s U)) \<subseteq> set U"
  by (induction U) auto

lemma absorb_found: "fst (absorb s U) \<Longrightarrow> \<exists>t \<in> set U. set s \<subseteq> set t"
  by (induction U) (auto split: if_splits)

lemma absorb_kept: "\<not> fst (absorb s U) \<Longrightarrow> t \<in> set U \<Longrightarrow> t \<in> set (snd (absorb s U)) \<or> set t \<subseteq> set s"
  by (induction U) (auto split: if_splits)

lemma insertAliasSet_covers:
  "set (insertAliasSet s U) \<subseteq> insert s (set U)" "covers (insert s (set U)) (set (insertAliasSet s U))"
proof -
  have d: "insertAliasSet s U = (if s \<in> set U \<or> fst (absorb s U) then U else insort s (snd (absorb s U)))"
    by (simp add: insertAliasSet_def case_prod_beta)
  show "set (insertAliasSet s U) \<subseteq> insert s (set U)"
    using absorb_subset [of s U] by (auto simp: d set_insort_key)
  show "covers (insert s (set U)) (set (insertAliasSet s U))"
  proof (cases "s \<in> set U \<or> fst (absorb s U)")
    case True
    then have "insertAliasSet s U = U" by (simp add: d)
    moreover have "\<exists>t \<in> set U. set s \<subseteq> set t" using True absorb_found by blast
    ultimately show ?thesis by (auto simp: covers_def)
  next
    case False
    then have "set (insertAliasSet s U) = insert s (set (snd (absorb s U)))"
      by (auto simp: d set_insort_key)
    then show ?thesis using absorb_kept [of s U] False by (auto simp: covers_def)
  qed
qed

lemma merged_subset: "set (fold insertAliasSet ss U) \<subseteq> set ss \<union> set U"
proof (induction ss arbitrary: U)
  case (Cons s ss)
  show ?case using Cons.IH [of "insertAliasSet s U"] insertAliasSet_covers(1) [of s U] by simp blast
qed auto

lemma merged_covers: "covers (set ss \<union> set U) (set (fold insertAliasSet ss U))"
proof (induction ss arbitrary: U)
  case (Cons s ss)
  let ?F = "fold insertAliasSet ss (insertAliasSet s U)"
  have "covers (insert s (set U)) (set ?F)"
    using covers_trans [OF insertAliasSet_covers(2) covers_trans [OF covers_subset Cons.IH]] by blast
  moreover have "covers (set ss) (set ?F)" using covers_trans [OF covers_subset Cons.IH] by blast
  ultimately show ?case by (auto simp: covers_def)
qed (simp add: covers_subset)

lemma long_subset:
  assumes "distinct s" and "set s \<subseteq> set t" and "length s > 1"
  shows "length t > 1"
proof -
  have "length s = card (set s)" using assms(1) by (simp add: distinct_card)
  also have "\<dots> \<le> card (set t)" using assms(2) by (simp add: card_mono)
  also have "\<dots> \<le> length t" by (rule card_length)
  finally show ?thesis using assms(3) by simp
qed

lemma merged_long_sets:
  assumes "\<forall>s \<in> set ss. distinct s"
  shows "\<Union> (set ` set (filter (\<lambda>s. length s > 1) (fold insertAliasSet ss []))) = \<Union> (set ` set (filter (\<lambda>s. length s > 1) ss))"
proof (rule equalityI)
  show "\<Union> (set ` set (filter (\<lambda>s. length s > 1) (fold insertAliasSet ss []))) \<subseteq> \<Union> (set ` set (filter (\<lambda>s. length s > 1) ss))"
    using merged_subset [of ss "[]"] by auto
  show "\<Union> (set ` set (filter (\<lambda>s. length s > 1) ss)) \<subseteq> \<Union> (set ` set (filter (\<lambda>s. length s > 1) (fold insertAliasSet ss [])))"
  proof
    fix x assume "x \<in> \<Union> (set ` set (filter (\<lambda>s. length s > 1) ss))"
    then obtain s where s: "s \<in> set ss" "length s > 1" "x \<in> set s" by auto
    then obtain t where t: "t \<in> set (fold insertAliasSet ss [])" "set s \<subseteq> set t" using merged_covers [of ss "[]"] by (auto simp: covers_def)
    then have "length t > 1" using long_subset assms s by blast
    then show "x \<in> \<Union> (set ` set (filter (\<lambda>s. length s > 1) (fold insertAliasSet ss [])))" using s t by auto
  qed
qed

lemma object_calls_add:
  "set (object_calls (addToObject v obj M) o') = (if o' = obj then insert v (set (object_calls M obj)) else set (object_calls M o'))"
  by (auto simp: addToObject_def object_calls_def Let_def dict set_insort_key)

lemma calls_ok_add: "calls_ok M \<Longrightarrow> calls_ok (addToObject v obj M)"
  by (auto simp: calls_ok_def addToObject_def object_calls_def Let_def dict distinct_insort split: if_splits)

lemma fold_addToObject:
  "calls_ok M \<Longrightarrow> calls_ok (fold (addToObject v) objs M) \<and>
   (\<forall>o'. set (object_calls (fold (addToObject v) objs M) o') = set (object_calls M o') \<union> (if o' \<in> set objs then {v} else {}))"
proof (induction objs arbitrary: M)
  case (Cons obj objs)
  show ?case using Cons.IH [OF calls_ok_add [OF Cons.prems, of v obj]] by (auto simp: object_calls_add)
qed simp

lemma long_two: "distinct s \<Longrightarrow> length s > 1 \<and> v \<in> set s \<longleftrightarrow> v \<in> set s \<and> (\<exists>w \<in> set s. w \<noteq> v)"
proof
  assume d: "distinct s" and "length s > 1 \<and> v \<in> set s"
  have "\<not> set s \<subseteq> {v}"
  proof
    assume "set s \<subseteq> {v}"
    then have "card (set s) \<le> card {v}" by (intro card_mono) auto
    then show False using d \<open>length s > 1 \<and> v \<in> set s\<close> by (simp add: distinct_card)
  qed
  then show "v \<in> set s \<and> (\<exists>w \<in> set s. w \<noteq> v)" using \<open>length s > 1 \<and> v \<in> set s\<close> by auto
next
  assume d: "distinct s" and "v \<in> set s \<and> (\<exists>w \<in> set s. w \<noteq> v)"
  then obtain w where "v \<in> set s" "w \<in> set s" "w \<noteq> v" by blast
  then have "card {v, w} \<le> card (set s)" by (intro card_mono) auto
  then show "length s > 1 \<and> v \<in> set s" using \<open>w \<noteq> v\<close> \<open>v \<in> set s\<close> d by (simp add: distinct_card)
qed

lemma object_calls_long:
  assumes "calls_ok M"
  shows "v \<in> \<Union> (set ` set (filter (\<lambda>s. length s > 1) (map snd M))) \<longleftrightarrow>
    (\<exists>obj. v \<in> set (object_calls M obj) \<and> (\<exists>w \<in> set (object_calls M obj). w \<noteq> v))"
proof -
  have ok: "dict_ok M" "\<And>obj. distinct (object_calls M obj)" using assms by (auto simp: calls_ok_def)
  have "s \<in> set (map snd M) \<longleftrightarrow> (\<exists>obj. map_of M obj = Some s)" for s
  proof
    assume "s \<in> set (map snd M)"
    then show "\<exists>obj. map_of M obj = Some s" using dict_ok_map_of [OF ok(1)] by force
  next
    assume "\<exists>obj. map_of M obj = Some s"
    then show "s \<in> set (map snd M)" by (metis list.set_map map_of_SomeD image_eqI snd_conv)
  qed
  moreover have "map_of M obj = Some s \<Longrightarrow> object_calls M obj = s" for obj s by (simp add: object_calls_def)
  moreover have "v \<in> set (object_calls M obj) \<Longrightarrow> map_of M obj = Some (object_calls M obj)" for obj
    by (cases "map_of M obj") (simp_all add: object_calls_def)
  ultimately have "v \<in> \<Union> (set ` set (filter (\<lambda>s. length s > 1) (map snd M))) \<longleftrightarrow>
      (\<exists>obj. length (object_calls M obj) > 1 \<and> v \<in> set (object_calls M obj))"
    unfolding set_filter by (smt (verit) UN_iff mem_Collect_eq)
  then show ?thesis using long_two [OF ok(2)] by blast
qed

end
