(* ===== verification/Uriah_Pass.thy ===== *)
theory Uriah_Pass
  imports Value_Range_Analysis Compatible_Type PDG_Graph Alias_Sets
begin

text \<open>
  The heap analysis (\<^verbatim>\<open>Uriah.cpp\<close>): it selects the classified pointers that point to the heap, adds
  what may alias with them, determines the allocations that have no alias, and hands the pointers to the
  value-range and the compatible-type analysis.  \<^verbatim>\<open>isAllocationFn\<close> of LLVM is the parameter \<open>tli\<close>
  (\<open>None\<close>: no library information).  A \<^verbatim>\<open>std::map\<close> is a dictionary in the order of its keys; the hash
  tables are visited in the order of the list, on which no result depends.  A result \<open>None\<close> is a chain
  of operands or an iteration without end.
\<close>

subsection \<open>Pointers to the heap\<close>

definition callsAllocator :: "ir \<Rightarrow> vid \<Rightarrow> bool" where
  "callsAllocator I v \<longleftrightarrow> kind I v = KCall \<and>
     (case calledFunction I v of
        None \<Rightarrow> False
      | Some f \<Rightarrow> sublist ''alloc'' (valueName I f) \<or> sublist ''operator new'' (valueName I f) \<or>
          sublist ''operator new[]'' (valueName I f))"

fun heapOperand :: "ir \<Rightarrow> (vid \<Rightarrow> bool) \<Rightarrow> vid list \<Rightarrow> bool" where
  "heapOperand I allocFn [] = False"
| "heapOperand I allocFn (op # ops) =
     (if kind I op = KGlobalVariable then False
      else if allocFn op then True
      else if callsAllocator I op then True
      else heapOperand I allocFn ops)"

definition isPtrToHeap :: "ir \<Rightarrow> pta \<Rightarrow> (vid \<Rightarrow> bool) option \<Rightarrow> vid \<Rightarrow> bool" where
  "isPtrToHeap I P tli ssaVariable =
     (if \<not> isInstruction I ssaVariable then False
      else if \<not> hasValueNode P ssaVariable then False
      else case tli of
             Some allocFn \<Rightarrow>
               (if kind I ssaVariable = KGlobalVariable then False
                else if allocFn ssaVariable then True
                else if callsAllocator I ssaVariable then True
                else heapOperand I allocFn (operands I ssaVariable))
           | None \<Rightarrow> list_ex (isHeapMem P) (getPts P ssaVariable))"

subsection \<open>Aliasing by a common root\<close>

definition allocArgument :: "ir \<Rightarrow> vid \<Rightarrow> bool" where
  "allocArgument I v \<longleftrightarrow> kind I v = KCall \<and> callArgs I v \<noteq> [] \<and>
     (case calledFunction I v of None \<Rightarrow> False | Some f \<Rightarrow> sublist ''alloc'' (valueName I f))"

partial_function (option) getRootValue :: "ir \<Rightarrow> vid \<Rightarrow> vid option" where
  "getRootValue I v =
     (if kind I v = KGEP then getRootValue I (gepPointer I v)
      else if kind I v = KLoad then getRootValue I (loadPointer I v)
      else if kind I v = KAlloca then Some v
      else if kind I v = KCall then (if allocArgument I v then getRootValue I (hd (callArgs I v)) else Some v)
      else if isCastInst I v then getRootValue I (getOperand I v 0)
      else Some v)"

definition queryAliasing :: "ir \<Rightarrow> vid \<Rightarrow> vid \<Rightarrow> bool option" where
  "queryAliasing I v1 v2 = Option.bind (getRootValue I v1) (\<lambda>r1. map_option (\<lambda>r2. r1 = r2) (getRootValue I v2))"

subsection \<open>Collecting heap pointers\<close>

text \<open>The unset fields of a \<^verbatim>\<open>new VariableInfo\<close> are \<open>junk\<close>.\<close>

definition copyInfo :: "ir \<Rightarrow> VariableInfo \<Rightarrow> AnalysisState \<Rightarrow> vid \<Rightarrow> pointer_map \<Rightarrow> pointer_map" where
  "copyInfo I junk st v m =
     (case GetPointerVariableInfo I junk st v of None \<Rightarrow> m | Some p \<Rightarrow> ordered_update v (deref st p) m)"

definition aliasValues :: "node_heap \<Rightarrow> nid \<Rightarrow> vid list" where
  "aliasValues h node =
     filter (\<lambda>v. v \<noteq> 0) (map (\<lambda>n. node_val (h n)) (sorted_list_of_set (getInNeighborsWithDepType h node DATA_ALIAS)))"

fun addRootAliases :: "ir \<Rightarrow> pta \<Rightarrow> VariableInfo \<Rightarrow> AnalysisState \<Rightarrow> vid \<Rightarrow> vid list \<Rightarrow> pointer_map \<Rightarrow> pointer_map option" where
  "addRootAliases I P junk st heapPointer [] m = Some m"
| "addRootAliases I P junk st heapPointer (i # is) m =
     (if heapPointer = i \<or> \<not> hasValueNode P heapPointer \<or> \<not> hasValueNode P i
      then addRootAliases I P junk st heapPointer is m
      else Option.bind (queryAliasing I heapPointer i) (\<lambda>b.
        addRootAliases I P junk st heapPointer is (if b then copyInfo I junk st i m else m)))"

record collected =
  heapPointers :: pointer_map
  unsafeNode :: "nid set"

definition collectHeapPointer ::
    "ir \<Rightarrow> pta \<Rightarrow> (vid \<Rightarrow> bool) option \<Rightarrow> VariableInfo \<Rightarrow> GenericGraph \<Rightarrow> node_heap \<Rightarrow> EdgeType set \<Rightarrow> AnalysisState
      \<Rightarrow> vid \<times> VariableInfo \<Rightarrow> collected \<Rightarrow> collected option" where
  "collectHeapPointer I P tli junk G h edgeTypes st e c =
     (let v = fst e
      in if \<not> isInstruction I v \<or> \<not> isPtrToHeap I P tli v then Some c
         else let c1 = c\<lparr>heapPointers := ordered_update v (snd e) (heapPointers c)\<rparr>
           in case getNode G v of
                None \<Rightarrow> Some c1
              | Some node \<Rightarrow>
                  Option.bind (findNodesReachedByEdges h node edgeTypes False) (\<lambda>reachable.
                    map_option (\<lambda>m. \<lparr>heapPointers = m,
                        unsafeNode = unsafeNode c1 \<union> {n \<in> reachable. node_type (h n) = INST}\<rparr>)
                      (addRootAliases I P junk st v (instructions I (getFunction I v))
                        (fold (copyInfo I junk st) (aliasValues h node) (heapPointers c1)))))"

definition collectHeapPointers ::
    "ir \<Rightarrow> pta \<Rightarrow> (vid \<Rightarrow> bool) option \<Rightarrow> VariableInfo \<Rightarrow> GenericGraph \<Rightarrow> node_heap \<Rightarrow> EdgeType set \<Rightarrow> AnalysisState
      \<Rightarrow> collected \<Rightarrow> collected option" where
  "collectHeapPointers I P tli junk G h edgeTypes st c =
     fold_option (collectHeapPointer I P tli junk G h edgeTypes st) (Variables st) c"

subsection \<open>Classification of heap pointers\<close>

record heap_sets =
  heapPointerSet :: pointer_map
  heapSeqPointerSet :: pointer_map
  heapDynPointerSet :: pointer_map
  heapDynPtrSet :: pointer_map
  unsafeUniqueHeapPointerSet :: pointer_map
  unsafeAliasHeapPointerSet :: pointer_map
  unsafeHeapPointerSet :: pointer_map

definition heap_sets_of :: "pointer_map \<Rightarrow> heap_sets" where
  "heap_sets_of m = \<lparr>heapPointerSet = m, heapSeqPointerSet = [], heapDynPointerSet = [], heapDynPtrSet = [],
     unsafeUniqueHeapPointerSet = [], unsafeAliasHeapPointerSet = [], unsafeHeapPointerSet = []\<rparr>"

definition recordSeq :: "vid \<Rightarrow> VariableInfo \<Rightarrow> heap_sets \<Rightarrow> heap_sets" where
  "recordSeq v i S = S\<lparr>heapSeqPointerSet := ordered_update v i (heapSeqPointerSet S)\<rparr>"

definition recordDyn :: "ir \<Rightarrow> vid \<Rightarrow> VariableInfo \<Rightarrow> heap_sets \<Rightarrow> heap_sets" where
  "recordDyn I v i S =
     S\<lparr>heapDynPointerSet := ordered_update v i (heapDynPointerSet S),
       heapDynPtrSet := (if isCastInst I v then ordered_update v i (heapDynPtrSet S) else heapDynPtrSet S)\<rparr>"

definition recordUnique :: "vid \<Rightarrow> VariableInfo \<Rightarrow> heap_sets \<Rightarrow> heap_sets" where
  "recordUnique v i S = S\<lparr>unsafeUniqueHeapPointerSet := ordered_update v i (unsafeUniqueHeapPointerSet S)\<rparr>"

definition recordAlias :: "vid \<Rightarrow> VariableInfo \<Rightarrow> heap_sets \<Rightarrow> heap_sets" where
  "recordAlias v i S = S\<lparr>unsafeAliasHeapPointerSet := ordered_update v i (unsafeAliasHeapPointerSet S)\<rparr>"

definition recordUnsafe :: "vid \<Rightarrow> VariableInfo \<Rightarrow> heap_sets \<Rightarrow> heap_sets" where
  "recordUnsafe v i S = S\<lparr>unsafeHeapPointerSet := ordered_update v i (unsafeHeapPointerSet S)\<rparr>"

definition classifyHeapObject :: "ir \<Rightarrow> vid \<times> VariableInfo \<Rightarrow> heap_sets \<Rightarrow> heap_sets" where
  "classifyHeapObject I e S =
     (let v = fst e; i = snd e
      in if classification i = Dyn \<or> classification i = Seq
         then (let S1 = recordUnsafe v i (recordUnique v i S);
                   S2 = (if classification i = Seq then recordSeq v i S1 else S1)
               in if classification i = Dyn then recordDyn I v i S2 else S2)
         else S)"

definition identifyHeapObjectClassification :: "ir \<Rightarrow> heap_sets \<Rightarrow> heap_sets" where
  "identifyHeapObjectClassification I S = fold (classifyHeapObject I) (heapPointerSet S) S"

subsection \<open>Unsafe heap pointers by aliasing\<close>

fun rootAliases :: "ir \<Rightarrow> pta \<Rightarrow> vid \<Rightarrow> vid list \<Rightarrow> vid set \<Rightarrow> vid set option" where
  "rootAliases I P unsafePointer [] aliasSet = Some aliasSet"
| "rootAliases I P unsafePointer (i # is) aliasSet =
     (if unsafePointer = i \<or> i \<in> aliasSet \<or> \<not> hasValueNode P unsafePointer \<or> \<not> hasValueNode P i
      then rootAliases I P unsafePointer is aliasSet
      else Option.bind (queryAliasing I unsafePointer i) (\<lambda>b.
        rootAliases I P unsafePointer is (if b then insert i aliasSet else aliasSet)))"

definition recordAliasPointer :: "ir \<Rightarrow> VariableInfo \<Rightarrow> AnalysisState \<Rightarrow> vid \<Rightarrow> heap_sets \<Rightarrow> heap_sets" where
  "recordAliasPointer I junk st v S =
     (case GetPointerVariableInfo I junk st v of
        None \<Rightarrow> S
      | Some p \<Rightarrow>
          (let i = deref st p;
               S1 = (recordUnsafe v i S)\<lparr>heapPointerSet := ordered_update v i (heapPointerSet S)\<rparr>;
               S2 = (if classification i = Seq then recordSeq v i (recordUnique v i S1) else recordAlias v i S1)
           in if classification i = Dyn then recordDyn I v i (recordUnique v i S2) else recordAlias v i S2))"

definition unsafeAliases :: "ir \<Rightarrow> pta \<Rightarrow> GenericGraph \<Rightarrow> node_heap \<Rightarrow> vid \<Rightarrow> vid set option" where
  "unsafeAliases I P G h v =
     (if \<not> isInstruction I v then Some {}
      else case getNode G v of
             None \<Rightarrow> Some {}
           | Some node \<Rightarrow>
               rootAliases I P v (instructions I (getFunction I v)) (set (filter (isInstruction I) (aliasValues h node))))"

text \<open>The loop visits the growing map in the order of its keys; keys behind the current one are reached later.\<close>

partial_function (option) alias_loop ::
    "ir \<Rightarrow> pta \<Rightarrow> VariableInfo \<Rightarrow> AnalysisState \<Rightarrow> GenericGraph \<Rightarrow> node_heap \<Rightarrow> vid option \<Rightarrow> heap_sets \<Rightarrow> heap_sets option" where
  "alias_loop I P junk st G h it S =
     (case it of
        None \<Rightarrow> Some S
      | Some v \<Rightarrow>
          Option.bind (unsafeAliases I P G h v) (\<lambda>aliasSet.
            let S1 = fold (recordAliasPointer I junk st) (sorted_list_of_set aliasSet) S
            in alias_loop I P junk st G h (next_key (unsafeUniqueHeapPointerSet S1) v) S1))"

definition identifyAndClassifyUnsafeHeapObjects ::
    "ir \<Rightarrow> pta \<Rightarrow> VariableInfo \<Rightarrow> AnalysisState \<Rightarrow> GenericGraph \<Rightarrow> node_heap \<Rightarrow> heap_sets \<Rightarrow> heap_sets option" where
  "identifyAndClassifyUnsafeHeapObjects I P junk st G h S =
     alias_loop I P junk st G h (first_key (unsafeUniqueHeapPointerSet S)) S"

definition removeOverlap :: "heap_sets \<Rightarrow> heap_sets" where
  "removeOverlap S =
     S\<lparr>unsafeAliasHeapPointerSet := filter (\<lambda>(v, _). \<not> contains (unsafeUniqueHeapPointerSet S) v) (unsafeAliasHeapPointerSet S)\<rparr>"

subsection \<open>Allocations without alias\<close>

fun sharesRoot :: "ir \<Rightarrow> vid \<Rightarrow> vid list \<Rightarrow> bool option" where
  "sharesRoot I v [] = Some False"
| "sharesRoot I v (w # ws) =
     (if v = w then sharesRoot I v ws
      else Option.bind (queryAliasing I v w) (\<lambda>b. if b then Some True else sharesRoot I v ws))"

fun nonAliasedCalls :: "ir \<Rightarrow> pta \<Rightarrow> vid list \<Rightarrow> vid list \<Rightarrow> (vid set \<times> (nat, vid list) dict) \<Rightarrow> (vid set \<times> (nat, vid list) dict) option" where
  "nonAliasedCalls I P all [] acc = Some acc"
| "nonAliasedCalls I P all (v # vs) acc =
     (if kind I v \<noteq> KCall then nonAliasedCalls I P all vs acc
      else Option.bind (sharesRoot I v all) (\<lambda>b.
        nonAliasedCalls I P all vs
          (if b then fst acc - {v} else fst acc, fold (addToObject v) (getExpandedFIPts P v) (snd acc))))"

definition findNonAliasedAndRepresentativeHeapPointers :: "ir \<Rightarrow> pta \<Rightarrow> pointer_map \<Rightarrow> vid set option" where
  "findNonAliasedAndRepresentativeHeapPointers I P m =
     (let ks = map fst m
      in map_option (\<lambda>(NonAliasedHeapPointers, obj_to_instset_map).
           let unique_alias_inst_set = fold (\<lambda>(_, s). insertAliasSet s) obj_to_instset_map []
           in NonAliasedHeapPointers - \<Union> (set ` set (filter (\<lambda>s. length s > 1) unique_alias_inst_set)))
         (nonAliasedCalls I P ks ks (set (filter (isCallBase I) ks), [])))"

fun aliasedWith :: "ir \<Rightarrow> pta \<Rightarrow> GenericGraph \<Rightarrow> node_heap \<Rightarrow> vid \<Rightarrow> nid \<Rightarrow> vid list \<Rightarrow> bool option" where
  "aliasedWith I P G h ptr nodePtr [] = Some False"
| "aliasedWith I P G h ptr nodePtr (v # vs) =
     (if \<not> hasValueNode P v then aliasedWith I P G h ptr nodePtr vs
      else case getNode G v of
             None \<Rightarrow> aliasedWith I P G h ptr nodePtr vs
           | Some node \<Rightarrow>
               (if nodePtr \<in> getOutNeighborsWithDepType h node DATA_ALIAS then Some True
                else Option.bind (queryAliasing I ptr v) (\<lambda>b. if b then Some True else aliasedWith I P G h ptr nodePtr vs)))"

fun findAliasedAllocations :: "ir \<Rightarrow> pta \<Rightarrow> GenericGraph \<Rightarrow> node_heap \<Rightarrow> vid list \<Rightarrow> pointer_map \<Rightarrow> vid set \<Rightarrow> vid set option" where
  "findAliasedAllocations I P G h [] m AliasedResult = Some AliasedResult"
| "findAliasedAllocations I P G h (ptr # ptrs) m AliasedResult =
     (if \<not> hasValueNode P ptr then findAliasedAllocations I P G h ptrs m AliasedResult
      else case getNode G ptr of
             None \<Rightarrow> findAliasedAllocations I P G h ptrs m AliasedResult
           | Some nodePtr \<Rightarrow>
               Option.bind (aliasedWith I P G h ptr nodePtr (map fst m)) (\<lambda>b.
                 findAliasedAllocations I P G h ptrs m (if b then insert ptr AliasedResult else AliasedResult)))"

subsection \<open>The analysis\<close>

record uriah_result =
  uriah_sets :: heap_sets
  uriah_nonAliased :: "vid set"
  AliasedWithHeapSeqPointers :: "vid set"
  AliasedWithHeapDynPointers :: "vid set"
  uriah_ranges :: vr_result
  uriah_casts :: pointer_map

definition heap_edge_types :: "EdgeType set" where
  "heap_edge_types = {DATA_DEF_USE, DATA_RAW, DATA_READ, DATA_ALIAS}"

text \<open>The sets of heap pointers, before the value-range analysis.\<close>

definition heapPointerSets ::
    "ir \<Rightarrow> pta \<Rightarrow> (vid \<Rightarrow> bool) option \<Rightarrow> VariableInfo \<Rightarrow> GenericGraph \<Rightarrow> node_heap \<Rightarrow> AnalysisState \<Rightarrow> heap_sets option" where
  "heapPointerSets I P tli junk G h st =
     Option.bind (collectHeapPointers I P tli junk G h heap_edge_types st \<lparr>heapPointers = [], unsafeNode = {}\<rparr>) (\<lambda>c.
       map_option removeOverlap
         (identifyAndClassifyUnsafeHeapObjects I P junk st G h
           (identifyHeapObjectClassification I (heap_sets_of (heapPointers c)))))"

definition identifyDifferentKindsOfUnsafeHeapPointers ::
    "nat \<Rightarrow> ir \<Rightarrow> vr_options \<Rightarrow> pta \<Rightarrow> (vid \<Rightarrow> bool) option \<Rightarrow> VariableInfo \<Rightarrow> GenericGraph \<Rightarrow> node_heap
      \<Rightarrow> (vid \<Rightarrow> fresh_ids) \<Rightarrow> slot_layout \<Rightarrow> bool \<Rightarrow> AnalysisState \<Rightarrow> vid set \<Rightarrow> tags \<Rightarrow> uriah_result exec" where
  "identifyDifferentKindsOfUnsafeHeapPointers n I opts P tli junk G h fresh slotIs hasPTASetup st oowResults t =
     (if \<not> hasPTASetup
      then Some (Returned \<lparr>uriah_sets = heap_sets_of [], uriah_nonAliased = {}, AliasedWithHeapSeqPointers = {},
             AliasedWithHeapDynPointers = {}, uriah_ranges = vr_empty I t, uriah_casts = []\<rparr>)
      else Option.bind (heapPointerSets I P tli junk G h st) (\<lambda>S.
        Option.bind (findNonAliasedAndRepresentativeHeapPointers I P (heapPointerSet S)) (\<lambda>allocs.
        Option.bind (findAliasedAllocations I P G h (sorted_list_of_set allocs) (heapSeqPointerSet S) {}) (\<lambda>aliasedSeq.
        Option.bind (findAliasedAllocations I P G h (sorted_list_of_set allocs) (heapDynPointerSet S) {}) (\<lambda>aliasedDyn.
        exec_bind (valueRangeAnalysis n I opts P fresh (heapPointerSet S) st oowResults t) (\<lambda>r.
        lift (map_option (\<lambda>casts. \<lparr>uriah_sets = S, uriah_nonAliased = allocs, AliasedWithHeapSeqPointers = aliasedSeq,
                AliasedWithHeapDynPointers = aliasedDyn, uriah_ranges = r, uriah_casts = casts\<rparr>)
          (safeTypeCastAnalysis (vr_ir r) slotIs (heapDynPtrSet S)))))))))"

subsection \<open>Roots\<close>

definition rootStep :: "ir \<Rightarrow> vid \<Rightarrow> vid option" where
  "rootStep I v =
     (if kind I v = KGEP \<or> kind I v = KLoad \<or> isCastInst I v then Some (getOperand I v 0)
      else if allocArgument I v then Some (hd (callArgs I v)) else None)"

definition root_chain :: "ir \<Rightarrow> (vid \<times> vid) set" where
  "root_chain I = {(w, v). rootStep I v = Some w}"

definition root_of :: "ir \<Rightarrow> vid \<Rightarrow> vid" where
  "root_of I v = (case getRootValue I v of Some r \<Rightarrow> r | None \<Rightarrow> 0)"

lemma getRootValue_step: "getRootValue I v = (case rootStep I v of Some w \<Rightarrow> getRootValue I w | None \<Rightarrow> Some v)"
  by (subst getRootValue.simps) (auto simp: rootStep_def allocArgument_def gepPointer_def loadPointer_def)

lemma getRootValue_total: "wf (root_chain I) \<Longrightarrow> getRootValue I v = Some (root_of I v)"
proof (induction v rule: wf_induct_rule)
  case (less v)
  have "\<exists>r. getRootValue I v = Some r"
  proof (cases "rootStep I v")
    case None
    then show ?thesis by (subst getRootValue_step) simp
  next
    case (Some w)
    then have "(w, v) \<in> root_chain I" by (simp add: root_chain_def)
    then show ?thesis using less Some by (subst getRootValue_step) auto
  qed
  then show ?case by (auto simp: root_of_def)
qed

lemma queryAliasing_total: "wf (root_chain I) \<Longrightarrow> queryAliasing I v w = Some (root_of I v = root_of I w)"
  by (simp add: queryAliasing_def getRootValue_total)

lemma sharesRoot_total:
  "wf (root_chain I) \<Longrightarrow> sharesRoot I v ws = Some (\<exists>w \<in> set ws. w \<noteq> v \<and> root_of I w = root_of I v)"
  by (induction ws) (auto simp: queryAliasing_total)

subsection \<open>Allocations without alias, exactly\<close>

lemma nonAliasedCalls_total:
  assumes "wf (root_chain I)"
  shows "calls_ok (snd acc) \<Longrightarrow> \<exists>M. nonAliasedCalls I P all vs acc =
      Some (fst acc - {v \<in> set vs. kind I v = KCall \<and> (\<exists>w \<in> set all. w \<noteq> v \<and> root_of I w = root_of I v)}, M) \<and> calls_ok M \<and>
    (\<forall>obj. set (object_calls M obj) = set (object_calls (snd acc) obj) \<union> {v \<in> set vs. kind I v = KCall \<and> obj \<in> set (getExpandedFIPts P v)})"
proof (induction vs arbitrary: acc)
  case (Cons v vs)
  show ?case
  proof (cases "kind I v = KCall")
    case False
    then show ?thesis using Cons.IH [OF Cons.prems] by auto
  next
    case True
    let ?b = "\<exists>w \<in> set all. w \<noteq> v \<and> root_of I w = root_of I v"
    let ?acc = "(if ?b then fst acc - {v} else fst acc, fold (addToObject v) (getExpandedFIPts P v) (snd acc))"
    have m: "calls_ok (snd ?acc)" "\<And>obj. set (object_calls (snd ?acc) obj) =
        set (object_calls (snd acc) obj) \<union> (if obj \<in> set (getExpandedFIPts P v) then {v} else {})"
      using fold_addToObject [OF Cons.prems] by auto
    have step: "nonAliasedCalls I P all (v # vs) acc = nonAliasedCalls I P all vs ?acc"
      using True by (simp add: sharesRoot_total [OF assms])
    let ?R = "\<lambda>vs. {v \<in> set vs. kind I v = KCall \<and> (\<exists>w \<in> set all. w \<noteq> v \<and> root_of I w = root_of I v)}"
    obtain M where M: "nonAliasedCalls I P all vs ?acc = Some (fst ?acc - ?R vs, M)" "calls_ok M"
      "\<And>obj. set (object_calls M obj) = set (object_calls (snd ?acc) obj) \<union> {v \<in> set vs. kind I v = KCall \<and> obj \<in> set (getExpandedFIPts P v)}"
      using Cons.IH [OF m(1)] by blast
    have "fst ?acc - ?R vs = fst acc - ?R (v # vs)" using True by auto
    moreover have "set (object_calls M obj) = set (object_calls (snd acc) obj) \<union>
        {u \<in> set (v # vs). kind I u = KCall \<and> obj \<in> set (getExpandedFIPts P u)}" for obj
      using M(3) [of obj] m(2) [of obj] True by auto
    ultimately show ?thesis using step M(1,2) by (intro exI [of _ M] conjI) (simp_all only: simp_thms)
  qed
qed (auto intro: exI [of _ "snd acc" for acc])

lemma nonAliased_characterised:
  assumes "wf (root_chain I)"
  shows "findNonAliasedAndRepresentativeHeapPointers I P m =
    Some {v \<in> keys m. isCallBase I v \<and> (kind I v = KCall \<longrightarrow>
      (\<forall>w \<in> keys m. w \<noteq> v \<longrightarrow> root_of I w \<noteq> root_of I v \<and> \<not> (kind I w = KCall \<and> shares_object P v w)))}"
proof -
  let ?ks = "map fst m"
  have k: "set ?ks = keys m" by (simp add: keys_def)
  obtain M where M: "nonAliasedCalls I P ?ks ?ks (set (filter (isCallBase I) ?ks), []) =
      Some (set (filter (isCallBase I) ?ks) - {v \<in> keys m. kind I v = KCall \<and> (\<exists>w \<in> keys m. w \<noteq> v \<and> root_of I w = root_of I v)}, M)"
    "calls_ok M" "\<And>obj. set (object_calls M obj) = {v \<in> keys m. kind I v = KCall \<and> obj \<in> set (getExpandedFIPts P v)}"
    using nonAliasedCalls_total [OF assms, of "(set (filter (isCallBase I) ?ks), [])" P ?ks ?ks] unfolding k fst_conv snd_conv
    by (auto simp: calls_ok_def object_calls_def)
  have "\<forall>s \<in> set (map snd M). distinct s"
  proof
    fix s assume "s \<in> set (map snd M)"
    then obtain obj where "map_of M obj = Some s" using M(2) dict_ok_map_of by (force simp: calls_ok_def)
    then have "object_calls M obj = s" by (simp add: object_calls_def)
    then show "distinct s" using M(2) by (auto simp: calls_ok_def)
  qed
  moreover have "fold (\<lambda>(_, s). insertAliasSet s) M [] = fold insertAliasSet (map snd M) []"
    by (simp add: fold_map comp_def case_prod_beta')
  ultimately have merged: "\<Union> (set ` set (filter (\<lambda>s. length s > 1) (fold (\<lambda>(_, s). insertAliasSet s) M []))) =
      \<Union> (set ` set (filter (\<lambda>s. length s > 1) (map snd M)))" using merged_long_sets by metis
  have shared: "v \<in> \<Union> (set ` set (filter (\<lambda>s. length s > 1) (fold (\<lambda>(_, s). insertAliasSet s) M []))) \<longleftrightarrow>
      v \<in> keys m \<and> kind I v = KCall \<and> (\<exists>w \<in> keys m. w \<noteq> v \<and> kind I w = KCall \<and> shares_object P v w)" for v
    unfolding merged object_calls_long [OF M(2)] M(3) shares_object_def by blast
  have "findNonAliasedAndRepresentativeHeapPointers I P m =
      Some (set (filter (isCallBase I) ?ks) - {v \<in> keys m. kind I v = KCall \<and> (\<exists>w \<in> keys m. w \<noteq> v \<and> root_of I w = root_of I v)} -
        \<Union> (set ` set (filter (\<lambda>s. length s > 1) (fold (\<lambda>(_, s). insertAliasSet s) M []))))"
    using M(1) by (simp add: findNonAliasedAndRepresentativeHeapPointers_def Let_def)
  then show ?thesis using k shared by (auto simp del: One_nat_def UN_iff)
qed

text \<open>
  C16: The set of allocations without alias is determined exactly, whatever the order of the hash table: it contains the
  results of \<open>call\<close> instructions among the heap pointers for which no other heap pointer has the same root and no other call
  may return the same object, and the results of all invokes among them.  Invokes are put into the set with the calls and are
  never examined, so that they stay in it also when they do alias, as in the example below.
\<close>

theorem nonaliased_allocations_exact:
  assumes "wf (root_chain I)"
  shows "findNonAliasedAndRepresentativeHeapPointers I P m =
    Some {v \<in> keys m. isCallBase I v \<and> (kind I v = KCall \<longrightarrow>
      (\<forall>w \<in> keys m. w \<noteq> v \<longrightarrow> root_of I w \<noteq> root_of I v \<and> \<not> (kind I w = KCall \<and> shares_object P v w)))}"
  using assms by (rule nonAliased_characterised)

definition alloc_example :: ir where
  "alloc_example = empty_ir\<lparr>kind := (\<lambda>v. if v = 4 \<or> v = 5 then KCall else if v = 6 then KCast BitCast else KFunction),
     operands := (\<lambda>v. if v = 6 then [5] else []), calledFunction := (\<lambda>v. if v = 4 \<or> v = 5 then Some 2 else None),
     valueName := (\<lambda>v. if v = 2 then ''malloc'' else '''')\<rparr>"

lemma alloc_example_chain: "wf (root_chain alloc_example)"
proof (rule wf_subset)
  show "wf less_than" by simp
  show "root_chain alloc_example \<subseteq> less_than"
    by (auto simp: root_chain_def rootStep_def alloc_example_def empty_ir_def getOperand_def allocArgument_def split: if_splits)
qed

text \<open>A second example: in addition an invoke 7 and a cast 8 of its result.\<close>

definition invoke_example :: ir where
  "invoke_example = alloc_example\<lparr>kind := (\<lambda>v. if v = 7 then KInvoke else if v = 8 then KCast BitCast else kind alloc_example v),
     operands := (\<lambda>v. if v = 8 then [7] else operands alloc_example v)\<rparr>"

lemma invoke_example_chain: "wf (root_chain invoke_example)"
proof (rule wf_subset)
  show "wf less_than" by simp
  show "root_chain invoke_example \<subseteq> less_than"
    by (auto simp: root_chain_def rootStep_def invoke_example_def alloc_example_def empty_ir_def getOperand_def allocArgument_def split: if_splits)
qed

lemma invoke_example_roots: "root_of invoke_example 4 = 4" "root_of invoke_example 5 = 5" "root_of invoke_example 6 = 5"
  "root_of invoke_example 7 = 7" "root_of invoke_example 8 = 7"
  by (simp_all add: root_of_def, (subst getRootValue_step, simp add: rootStep_def invoke_example_def alloc_example_def empty_ir_def getOperand_def
      allocArgument_def)+)

theorem nonaliased_allocations_exact_witness:
  "findNonAliasedAndRepresentativeHeapPointers invoke_example pta_example
     [(4, fresh_info), (5, fresh_info), (6, fresh_info), (7, fresh_info), (8, fresh_info)] = Some {4, 7}"
proof -
  have "kind invoke_example 4 = KCall" "kind invoke_example 5 = KCall" "kind invoke_example 6 = KCast BitCast" "kind invoke_example 7 = KInvoke"
    "kind invoke_example 8 = KCast BitCast" by (simp_all add: invoke_example_def alloc_example_def)
  moreover have "\<not> shares_object pta_example 4 w" for w
    by (simp add: shares_object_def getExpandedFIPts_def getPts_def getValueNode_def pta_example_def)
  ultimately show ?thesis
    unfolding nonaliased_allocations_exact [OF invoke_example_chain] by (auto simp: keys_def invoke_example_roots)
qed

subsection \<open>The sets of heap pointers\<close>

definition heap_class :: "ir \<Rightarrow> AnalysisState \<Rightarrow> vid \<Rightarrow> VariableStates" where
  "heap_class I st v = (if kind I v = KConstantPointerNull then Unknown else class_of st v)"

definition map_ok :: "ir \<Rightarrow> AnalysisState \<Rightarrow> pointer_map \<Rightarrow> bool" where
  "map_ok I st m \<longleftrightarrow> map_sorted m \<and> (\<forall>e \<in> set m. classification (snd e) = heap_class I st (fst e))"

lemma class_deref: "GetPointerVariableInfo I junk st v = Some p \<Longrightarrow> classification (deref st p) = heap_class I st v"
  by (auto simp: GetPointerVariableInfo_def heap_class_def class_of_def split: if_splits)

lemma set_ordered_update: "set (ordered_update k v m) \<subseteq> insert (k, v) (set m)"
  by (induction k v m rule: ordered_update.induct) auto

lemma map_ok_update: "map_ok I st m \<Longrightarrow> classification i = heap_class I st v \<Longrightarrow> map_ok I st (ordered_update v i m)"
  using set_ordered_update [of v i m] by (auto simp: map_ok_def map_sorted_def sorted_ordered_update)

lemma copyInfo_ok: "map_ok I st m \<Longrightarrow> map_ok I st (copyInfo I junk st v m)" "keys m \<subseteq> keys (copyInfo I junk st v m)"
  by (auto simp: copyInfo_def class_deref dict intro!: map_ok_update split: option.splits)

lemma copyInfos_ok: "map_ok I st m \<Longrightarrow> map_ok I st (fold (copyInfo I junk st) vs m) \<and> keys m \<subseteq> keys (fold (copyInfo I junk st) vs m)"
proof (induction vs arbitrary: m)
  case (Cons v vs)
  show ?case using Cons.IH [OF copyInfo_ok(1) [OF Cons.prems]] copyInfo_ok(2) [of m I junk st v] by auto
qed simp

text \<open>What collecting a heap pointer adds: the pointer, and the registered values with an alias edge to it.\<close>

definition heap_related :: "GenericGraph \<Rightarrow> node_heap \<Rightarrow> AnalysisState \<Rightarrow> vid \<Rightarrow> vid \<Rightarrow> bool" where
  "heap_related G h st v w \<longleftrightarrow> w = v \<or>
     contains (Variables st) w \<and> (\<exists>node. getNode G v = Some node \<and> w \<in> set (aliasValues h node))"

lemma copyInfo_registered: "contains (Variables st) v \<Longrightarrow> v \<in> keys (copyInfo I junk st v m)"
  by (auto simp: copyInfo_def GetPointerVariableInfo_def dict)

lemma copyInfos_registered:
  "contains (Variables st) v \<Longrightarrow> v \<in> set vs \<Longrightarrow> v \<in> keys (fold (copyInfo I junk st) vs m)"
proof (induction vs arbitrary: m)
  case (Cons w vs)
  have mono: "keys m \<subseteq> keys (fold (copyInfo I junk st) us m)" for us m
  proof (induction us arbitrary: m)
    case (Cons u us)
    show ?case using Cons.IH [of "copyInfo I junk st u m"] copyInfo_ok(2) [of m I junk st u] by auto
  qed simp
  show ?case using Cons mono [of "copyInfo I junk st w m" vs] copyInfo_registered [of st v I junk m] by auto
qed simp

lemma addRootAliases_ok:
  assumes "wf (root_chain I)"
  shows "map_ok I st m \<Longrightarrow> \<exists>m'. addRootAliases I P junk st v is m = Some m' \<and> map_ok I st m' \<and> keys m \<subseteq> keys m'"
proof (induction "is" arbitrary: m)
  case (Cons i rest)
  let ?m = "if root_of I v = root_of I i then copyInfo I junk st i m else m"
  have "map_ok I st ?m" "keys m \<subseteq> keys ?m" using Cons.prems copyInfo_ok by auto
  then show ?case using Cons.IH [OF Cons.prems] Cons.IH [of ?m] by (auto simp: queryAliasing_total [OF assms])
qed simp

lemma reached_total: "\<exists>R. findNodesReachedByEdges h src ts b = Some R"
  by (simp add: findNodesReachedByEdges_def reachedByEdges_one_round Let_def)

lemma collectHeapPointer_ok:
  assumes "wf (root_chain I) \<and> dict_ok (Variables st) \<and> e \<in> set (Variables st)" and "map_ok I st (heapPointers c)"
  shows "\<exists>c'. collectHeapPointer I P tli junk G h ts st e c = Some c' \<and> map_ok I st (heapPointers c') \<and>
    keys (heapPointers c) \<subseteq> keys (heapPointers c') \<and> (isPtrToHeap I P tli (fst e) \<longrightarrow> {w. heap_related G h st (fst e) w} \<subseteq> keys (heapPointers c'))"
proof (cases "isInstruction I (fst e) \<and> isPtrToHeap I P tli (fst e)")
  case False
  then show ?thesis using assms by (auto simp: collectHeapPointer_def Let_def isPtrToHeap_def)
next
  case True
  let ?v = "fst e" let ?m = "ordered_update ?v (snd e) (heapPointers c)"
  have "map_of (Variables st) ?v = Some (snd e)" using assms(1) by (simp add: dict_ok_map_of)
  then have "classification (snd e) = heap_class I st ?v" using True by (auto simp: heap_class_def class_of_def lookup_info_def)
  then have m: "map_ok I st ?m" using map_ok_update assms(2) by blast
  show ?thesis
  proof (cases "getNode G ?v")
    case None
    then show ?thesis using True m by (auto simp: collectHeapPointer_def Let_def dict heap_related_def)
  next
    case (Some node)
    obtain R where R: "findNodesReachedByEdges h node ts False = Some R" using reached_total by blast
    note f = copyInfos_ok [OF m, of junk "aliasValues h node"]
    obtain m' where m': "addRootAliases I P junk st ?v (instructions I (getFunction I ?v))
        (fold (copyInfo I junk st) (aliasValues h node) ?m) = Some m'" "map_ok I st m'"
      "keys (fold (copyInfo I junk st) (aliasValues h node) ?m) \<subseteq> keys m'"
      using addRootAliases_ok assms(1) f by metis
    then have "insert ?v (keys (heapPointers c)) \<subseteq> keys m'" using f by (simp add: dict) blast
    moreover have "{w. heap_related G h st ?v w} \<subseteq> keys m'"
      using calculation m'(3) copyInfos_registered Some by (fastforce simp: heap_related_def)
    ultimately show ?thesis using True Some R m'(1,2) by (auto simp: collectHeapPointer_def Let_def)
  qed
qed

interpretation collect_steps: total_steps "collectHeapPointer I P tli junk G h ts st"
    "\<lambda>e. wf (root_chain I) \<and> dict_ok (Variables st) \<and> e \<in> set (Variables st)" "\<lambda>c. map_ok I st (heapPointers c)"
    "\<lambda>c c'. keys (heapPointers c) \<subseteq> keys (heapPointers c')" for I P tli junk G h ts st
proof unfold_locales
  show "\<exists>c'. collectHeapPointer I P tli junk G h ts st e c = Some c' \<and> map_ok I st (heapPointers c') \<and>
      keys (heapPointers c) \<subseteq> keys (heapPointers c')"
    if "wf (root_chain I) \<and> dict_ok (Variables st) \<and> e \<in> set (Variables st)" "map_ok I st (heapPointers c)" for e c
    using collectHeapPointer_ok [OF that] by blast
qed auto

lemma collectHeapPointers_ok:
  assumes "wf (root_chain I)" and "dict_ok (Variables st)"
  shows "\<exists>c. collectHeapPointers I P tli junk G h ts st \<lparr>heapPointers = [], unsafeNode = {}\<rparr> = Some c \<and> map_ok I st (heapPointers c) \<and>
    {w. \<exists>v \<in> keys (Variables st). isPtrToHeap I P tli v \<and> heap_related G h st v w} \<subseteq> keys (heapPointers c)"
proof -
  let ?c0 = "\<lparr>heapPointers = [], unsafeNode = {}\<rparr>" and ?step = "collectHeapPointer I P tli junk G h ts st"
  have ok: "list_all (\<lambda>e. wf (root_chain I) \<and> dict_ok (Variables st) \<and> e \<in> set (Variables st)) (Variables st)" using assms by (simp add: list_all_iff)
  have inv: "map_ok I st (heapPointers ?c0)" by (simp add: map_ok_def map_sorted_def)
  obtain c where c: "fold_option ?step (Variables st) ?c0 = Some c" "map_ok I st (heapPointers c)"
    using collect_steps.loop_total [OF ok inv] by blast
  have "{w. heap_related G h st v w} \<subseteq> keys (heapPointers c)" if v: "v \<in> keys (Variables st)" "isPtrToHeap I P tli v" for v
  proof -
    obtain i where e: "(v, i) \<in> set (Variables st)" using v(1) by (auto simp: keys_def)
    have one: "{w. heap_related G h st v w} \<subseteq> keys (heapPointers t')" if "map_ok I st (heapPointers t)" "?step (v, i) t = Some t'" for t t'
      using collectHeapPointer_ok [of I st "(v, i)" t P tli junk G h ts] assms e v(2) that by auto
    show ?thesis
      by (rule collect_steps.loop_establishes [OF ok inv c(1) e, where Q = "\<lambda>c. {w. heap_related G h st v w} \<subseteq> keys (heapPointers c)"])
        (use one in blast)+
  qed
  then show ?thesis using c by (auto simp: collectHeapPointers_def)
qed

definition sets_ok :: "ir \<Rightarrow> AnalysisState \<Rightarrow> heap_sets \<Rightarrow> bool" where
  "sets_ok I st S \<longleftrightarrow>
     keys (heapSeqPointerSet S) = {v \<in> keys (heapPointerSet S). heap_class I st v = Seq} \<and>
     keys (heapDynPointerSet S) = {v \<in> keys (heapPointerSet S). heap_class I st v = Dyn} \<and>
     keys (heapDynPtrSet S) = {v \<in> keys (heapDynPointerSet S). isCastInst I v} \<and>
     keys (unsafeUniqueHeapPointerSet S) = keys (heapSeqPointerSet S) \<union> keys (heapDynPointerSet S) \<and>
     keys (unsafeHeapPointerSet S) = keys (unsafeUniqueHeapPointerSet S) \<union> keys (unsafeAliasHeapPointerSet S)"

lemmas record_defs = recordSeq_def recordDyn_def recordUnique_def recordAlias_def recordUnsafe_def

lemma classifyHeapObjects_keys:
  assumes "\<forall>e \<in> set es. classification (snd e) = heap_class I st (fst e)"
  shows "keys (heapSeqPointerSet (fold (classifyHeapObject I) es S)) = keys (heapSeqPointerSet S) \<union> {v \<in> keys es. heap_class I st v = Seq}"
    "keys (heapDynPointerSet (fold (classifyHeapObject I) es S)) = keys (heapDynPointerSet S) \<union> {v \<in> keys es. heap_class I st v = Dyn}"
    "keys (heapDynPtrSet (fold (classifyHeapObject I) es S)) = keys (heapDynPtrSet S) \<union> {v \<in> keys es. heap_class I st v = Dyn \<and> isCastInst I v}"
    "keys (unsafeUniqueHeapPointerSet (fold (classifyHeapObject I) es S)) =
       keys (unsafeUniqueHeapPointerSet S) \<union> {v \<in> keys es. unsafe_class (heap_class I st v)}"
    "keys (unsafeHeapPointerSet (fold (classifyHeapObject I) es S)) =
       keys (unsafeHeapPointerSet S) \<union> {v \<in> keys es. unsafe_class (heap_class I st v)}"
    "heapPointerSet (fold (classifyHeapObject I) es S) = heapPointerSet S"
    "unsafeAliasHeapPointerSet (fold (classifyHeapObject I) es S) = unsafeAliasHeapPointerSet S"
  using assms
proof (induction es arbitrary: S)
  case (Cons e es)
  note d = classifyHeapObject_def Let_def record_defs dict unsafe_class_def
  have k: "keys (e # es) = insert (fst e) (keys es)" by (simp add: keys_def)
  { case 1 then show ?case using Cons.IH(1) by (auto simp: d k) }
  { case 2 then show ?case using Cons.IH(2) by (auto simp: d k) }
  { case 3 then show ?case using Cons.IH(3) by (auto simp: d k) }
  { case 4 then show ?case using Cons.IH(4) by (auto simp: d k) }
  { case 5 then show ?case using Cons.IH(5) by (auto simp: d k) }
  { case 6 then show ?case using Cons.IH(6) by (auto simp: d k) }
  { case 7 then show ?case using Cons.IH(7) by (auto simp: d k) }
qed simp_all

lemma classified_sets_ok:
  assumes "map_ok I st m"
  shows "sets_ok I st (identifyHeapObjectClassification I (heap_sets_of m))"
proof -
  have "\<forall>e \<in> set m. classification (snd e) = heap_class I st (fst e)" using assms by (simp add: map_ok_def)
  from classifyHeapObjects_keys [OF this] show ?thesis
    by (auto simp: sets_ok_def identifyHeapObjectClassification_def heap_sets_of_def unsafe_class_def)
qed

lemma recordAliasPointer_keys:
  assumes "GetPointerVariableInfo I junk st v = Some p"
  shows "heapPointerSet (recordAliasPointer I junk st v S) = ordered_update v (deref st p) (heapPointerSet S)"
    "keys (heapSeqPointerSet (recordAliasPointer I junk st v S)) = keys (heapSeqPointerSet S) \<union> {w. w = v \<and> heap_class I st v = Seq}"
    "keys (heapDynPointerSet (recordAliasPointer I junk st v S)) = keys (heapDynPointerSet S) \<union> {w. w = v \<and> heap_class I st v = Dyn}"
    "keys (heapDynPtrSet (recordAliasPointer I junk st v S)) = keys (heapDynPtrSet S) \<union> {w. w = v \<and> heap_class I st v = Dyn \<and> isCastInst I v}"
    "keys (unsafeUniqueHeapPointerSet (recordAliasPointer I junk st v S)) =
       keys (unsafeUniqueHeapPointerSet S) \<union> {w. w = v \<and> unsafe_class (heap_class I st v)}"
    "keys (unsafeAliasHeapPointerSet (recordAliasPointer I junk st v S)) = insert v (keys (unsafeAliasHeapPointerSet S))"
    "keys (unsafeHeapPointerSet (recordAliasPointer I junk st v S)) = insert v (keys (unsafeHeapPointerSet S))"
  using assms class_deref [OF assms]
  by (cases "heap_class I st v"; auto simp: recordAliasPointer_def Let_def record_defs dict unsafe_class_def)+

lemma recordAliasPointer_ok:
  assumes "sets_ok I st S"
  shows "sets_ok I st (recordAliasPointer I junk st v S)"
    "keys (heapPointerSet S) \<subseteq> keys (heapPointerSet (recordAliasPointer I junk st v S))"
    "keys (unsafeUniqueHeapPointerSet (recordAliasPointer I junk st v S)) \<subseteq> keys (unsafeUniqueHeapPointerSet S) \<union> keys (Variables st)"
proof -
  have "sets_ok I st (recordAliasPointer I junk st v S) \<and>
      keys (heapPointerSet S) \<subseteq> keys (heapPointerSet (recordAliasPointer I junk st v S)) \<and>
      keys (unsafeUniqueHeapPointerSet (recordAliasPointer I junk st v S)) \<subseteq> keys (unsafeUniqueHeapPointerSet S) \<union> keys (Variables st)"
  proof (cases "GetPointerVariableInfo I junk st v")
    case None
    then show ?thesis using assms by (simp add: recordAliasPointer_def)
  next
    case (Some p)
    have "unsafe_class (heap_class I st v) \<Longrightarrow> v \<in> keys (Variables st)"
      using Some by (auto simp: GetPointerVariableInfo_def heap_class_def unsafe_class_def keys_iff split: if_splits)
    then show ?thesis using assms
      by (auto simp: sets_ok_def recordAliasPointer_keys [OF Some] dict unsafe_class_def)
  qed
  then show "sets_ok I st (recordAliasPointer I junk st v S)"
    "keys (heapPointerSet S) \<subseteq> keys (heapPointerSet (recordAliasPointer I junk st v S))"
    "keys (unsafeUniqueHeapPointerSet (recordAliasPointer I junk st v S)) \<subseteq> keys (unsafeUniqueHeapPointerSet S) \<union> keys (Variables st)"
    by blast+
qed

lemma recordAliasPointers_ok:
  assumes "sets_ok I st S" and "keys (unsafeUniqueHeapPointerSet S) \<subseteq> W" and "keys (Variables st) \<subseteq> W"
  shows "sets_ok I st (fold (recordAliasPointer I junk st) vs S) \<and>
    keys (heapPointerSet S) \<subseteq> keys (heapPointerSet (fold (recordAliasPointer I junk st) vs S)) \<and>
    keys (unsafeUniqueHeapPointerSet (fold (recordAliasPointer I junk st) vs S)) \<subseteq> W"
  using assms
proof (induction vs arbitrary: S)
  case (Cons v vs)
  note one = recordAliasPointer_ok [OF Cons.prems(1), of junk v]
  show ?case using Cons.IH [OF one(1)] one(2,3) Cons.prems(2,3) by auto
qed simp

lemma rootAliases_total: "wf (root_chain I) \<Longrightarrow> \<exists>A. rootAliases I P v is A0 = Some A"
  by (induction "is" arbitrary: A0) (auto simp: queryAliasing_total)

lemma unsafeAliases_total: "wf (root_chain I) \<Longrightarrow> \<exists>A. unsafeAliases I P G h v = Some A"
  using rootAliases_total by (auto simp: unsafeAliases_def split: option.splits)

lemma alias_loop_total:
  assumes "wf (root_chain I)" and "finite W" and "keys (Variables st) \<subseteq> W"
  shows "sets_ok I st S \<Longrightarrow> keys (unsafeUniqueHeapPointerSet S) \<subseteq> W \<Longrightarrow> (\<forall>v. it = Some v \<longrightarrow> v \<in> W) \<Longrightarrow>
    \<exists>S'. alias_loop I P junk st G h it S = Some S' \<and> sets_ok I st S' \<and> keys (heapPointerSet S) \<subseteq> keys (heapPointerSet S')"
proof (induction "case it of None \<Rightarrow> 0 | Some v \<Rightarrow> Suc (card {k \<in> W. v < k})" arbitrary: it S rule: less_induct)
  case less
  show ?case
  proof (cases it)
    case None
    then show ?thesis using less.prems by (subst alias_loop.simps) simp
  next
    case (Some v)
    obtain A where A: "unsafeAliases I P G h v = Some A" using unsafeAliases_total [OF assms(1)] by blast
    define S1 where "S1 = fold (recordAliasPointer I junk st) (sorted_list_of_set A) S"
    define it1 where "it1 = next_key (unsafeUniqueHeapPointerSet S1) v"
    have S1: "sets_ok I st S1" "keys (heapPointerSet S) \<subseteq> keys (heapPointerSet S1)" "keys (unsafeUniqueHeapPointerSet S1) \<subseteq> W"
      using recordAliasPointers_ok [OF less.prems(1,2) assms(3)] by (auto simp: S1_def)
    have it1: "v < k \<and> k \<in> W" if "it1 = Some k" for k
      using next_keyD that S1(3) by (auto simp: it1_def simp flip: keys_iff)
    have "card {k \<in> W. k1 < k} < card {k \<in> W. v < k}" if "it1 = Some k1" for k1
      using it1 [OF that] assms(2) by (intro psubset_card_mono) auto
    then have "(case it1 of None \<Rightarrow> 0 | Some v \<Rightarrow> Suc (card {k \<in> W. v < k})) < (case it of None \<Rightarrow> 0 | Some v \<Rightarrow> Suc (card {k \<in> W. v < k}))"
      using Some by (simp split: option.splits)
    from less.hyps [OF this S1(1,3)] it1 obtain S' where "alias_loop I P junk st G h it1 S1 = Some S'" "sets_ok I st S'"
      "keys (heapPointerSet S1) \<subseteq> keys (heapPointerSet S')" by blast
    then show ?thesis using Some A S1(2) by (subst alias_loop.simps) (auto simp: Let_def S1_def it1_def)
  qed
qed

lemma heapPointerSets_characterised:
  assumes "wf (root_chain I)" and "state_ok st"
  shows "\<exists>S. heapPointerSets I P tli junk G h st = Some S \<and>
    {w. \<exists>v \<in> keys (Variables st). isPtrToHeap I P tli v \<and> heap_related G h st v w} \<subseteq> keys (heapPointerSet S) \<and>
    keys (heapSeqPointerSet S) = {v \<in> keys (heapPointerSet S). heap_class I st v = Seq} \<and>
    keys (heapDynPointerSet S) = {v \<in> keys (heapPointerSet S). heap_class I st v = Dyn} \<and>
    keys (heapDynPtrSet S) = {v \<in> keys (heapDynPointerSet S). isCastInst I v} \<and>
    keys (unsafeUniqueHeapPointerSet S) = keys (heapSeqPointerSet S) \<union> keys (heapDynPointerSet S) \<and>
    keys (unsafeHeapPointerSet S) = keys (unsafeUniqueHeapPointerSet S) \<union> keys (unsafeAliasHeapPointerSet S) \<and>
    keys (unsafeUniqueHeapPointerSet S) \<inter> keys (unsafeAliasHeapPointerSet S) = {}"
proof -
  have ok: "dict_ok (Variables st)" using assms(2) by (simp add: state_ok_def)
  obtain c where c: "collectHeapPointers I P tli junk G h heap_edge_types st \<lparr>heapPointers = [], unsafeNode = {}\<rparr> = Some c"
    "map_ok I st (heapPointers c)" "{w. \<exists>v \<in> keys (Variables st). isPtrToHeap I P tli v \<and> heap_related G h st v w} \<subseteq> keys (heapPointers c)"
    using collectHeapPointers_ok [OF assms(1) ok] by blast
  define S0 where "S0 = identifyHeapObjectClassification I (heap_sets_of (heapPointers c))"
  have S0: "sets_ok I st S0" using classified_sets_ok [OF c(2)] by (simp add: S0_def)
  have h0: "heapPointerSet S0 = heapPointers c"
    using classifyHeapObjects_keys(6) [of "heapPointers c" I st] c(2) by (simp add: S0_def identifyHeapObjectClassification_def heap_sets_of_def map_ok_def)
  let ?W = "keys (Variables st) \<union> keys (unsafeUniqueHeapPointerSet S0)"
  have "\<forall>v. first_key (unsafeUniqueHeapPointerSet S0) = Some v \<longrightarrow> v \<in> ?W" using first_keyD by (auto simp: keys_iff)
  moreover have "finite ?W" by (simp add: keys_def)
  ultimately have "\<exists>S1. identifyAndClassifyUnsafeHeapObjects I P junk st G h S0 = Some S1 \<and> sets_ok I st S1 \<and>
      keys (heapPointerSet S0) \<subseteq> keys (heapPointerSet S1)"
    unfolding identifyAndClassifyUnsafeHeapObjects_def by (intro alias_loop_total [OF assms(1), of ?W, OF _ _ S0]) auto
  then obtain S1 where S1: "identifyAndClassifyUnsafeHeapObjects I P junk st G h S0 = Some S1" "sets_ok I st S1"
    "keys (heapPointerSet S0) \<subseteq> keys (heapPointerSet S1)" by blast
  have f: "keys (filter (\<lambda>(v, _). \<not> Q v) m) = keys m - {v. Q v}" for Q and m :: pointer_map by (auto simp: keys_def)
  have "heapPointerSets I P tli junk G h st = Some (removeOverlap S1)" using c(1) S1(1) by (simp add: heapPointerSets_def S0_def)
  moreover have "{w. \<exists>v \<in> keys (Variables st). isPtrToHeap I P tli v \<and> heap_related G h st v w} \<subseteq> keys (heapPointerSet S1)"
    using subset_trans [OF c(3)] S1(3) h0 by simp
  ultimately show ?thesis using S1(2) by (auto simp: removeOverlap_def sets_ok_def f keys_iff)
qed

lemma heap_related_collected:
  assumes "wf (root_chain I)" and "state_ok st"
  shows "\<exists>S. heapPointerSets I P tli junk G h st = Some S \<and>
    {w. \<exists>v \<in> keys (Variables st). isPtrToHeap I P tli v \<and> heap_related G h st v w} \<subseteq> keys (heapPointerSet S)"
  using heapPointerSets_characterised [OF assms, of P tli junk G h] by (elim exE conjE) (intro exI conjI)

text \<open>
  C15: The heap analysis returns, and its sets are consistent: every classified pointer that points to the heap is
  collected; the \<open>Seq\<close> and \<open>Dyn\<close> sets are exactly the collected pointers of that class, also those
  found by aliasing while the map was being iterated; the casts among the \<open>Dyn\<close> pointers go to the
  compatible-type analysis; and the pointers that are unsafe by themselves and those that only alias one
  are disjoint and together all unsafe pointers.
\<close>

theorem heap_sets_consistent:
  assumes "wf (root_chain I)" and "state_ok st"
  shows "\<exists>S. heapPointerSets I P tli junk G h st = Some S \<and>
    {v \<in> keys (Variables st). isPtrToHeap I P tli v} \<subseteq> keys (heapPointerSet S) \<and>
    keys (heapSeqPointerSet S) = {v \<in> keys (heapPointerSet S). heap_class I st v = Seq} \<and>
    keys (heapDynPointerSet S) = {v \<in> keys (heapPointerSet S). heap_class I st v = Dyn} \<and>
    keys (heapDynPtrSet S) = {v \<in> keys (heapDynPointerSet S). isCastInst I v} \<and>
    keys (unsafeUniqueHeapPointerSet S) = keys (heapSeqPointerSet S) \<union> keys (heapDynPointerSet S) \<and>
    keys (unsafeHeapPointerSet S) = keys (unsafeUniqueHeapPointerSet S) \<union> keys (unsafeAliasHeapPointerSet S) \<and>
    keys (unsafeUniqueHeapPointerSet S) \<inter> keys (unsafeAliasHeapPointerSet S) = {}"
proof -
  have sub: "{v \<in> keys (Variables st). isPtrToHeap I P tli v} \<subseteq>
      {w. \<exists>v \<in> keys (Variables st). isPtrToHeap I P tli v \<and> heap_related G h st v w}" by (auto simp: heap_related_def)
  show ?thesis using heapPointerSets_characterised [OF assms, of P tli junk G h]
  proof (elim exE conjE)
    fix S assume "heapPointerSets I P tli junk G h st = Some S" and
      "{w. \<exists>v \<in> keys (Variables st). isPtrToHeap I P tli v \<and> heap_related G h st v w} \<subseteq> keys (heapPointerSet S)"
    then show ?thesis if "keys (heapSeqPointerSet S) = {v \<in> keys (heapPointerSet S). heap_class I st v = Seq}"
      "keys (heapDynPointerSet S) = {v \<in> keys (heapPointerSet S). heap_class I st v = Dyn}"
      "keys (heapDynPtrSet S) = {v \<in> keys (heapDynPointerSet S). isCastInst I v}"
      "keys (unsafeUniqueHeapPointerSet S) = keys (heapSeqPointerSet S) \<union> keys (heapDynPointerSet S)"
      "keys (unsafeHeapPointerSet S) = keys (unsafeUniqueHeapPointerSet S) \<union> keys (unsafeAliasHeapPointerSet S)"
      "keys (unsafeUniqueHeapPointerSet S) \<inter> keys (unsafeAliasHeapPointerSet S) = {}"
      using that subset_trans [OF sub] by (intro exI [of _ S] conjI)
  qed
qed

definition alloc_store :: AnalysisState where
  "alloc_store = ClassifyPointerVariable 4 Seq (SetSizeType 64 init_state)"

lemma alloc_store_ok: "state_ok alloc_store" "contains (Variables alloc_store) 4" "class_of alloc_store 4 = Seq"
proof -
  have "state_ok (SetSizeType 64 init_state)" by (simp add: state_ok_def SetSizeType_def init_state_def)
  then show "state_ok alloc_store" by (simp add: alloc_store_def)
  show "contains (Variables alloc_store) 4" "class_of alloc_store 4 = Seq"
    by (simp_all add: alloc_store_def ClassifyPointerVariable_def Let_def state_simps class_of_def SetSizeType_def init_state_def
        fresh_info_def VariableStates_order)
qed

definition alloc_graph :: GenericGraph where
  "alloc_graph = \<lparr>val_node_map = [], node_set = {}, is_build = True\<rparr>"

theorem heap_sets_consistent_witness:
  "\<exists>S. heapPointerSets alloc_example pta_example (Some (\<lambda>v. v = 4)) fresh_info alloc_graph (\<lambda>_. new_Node INST) alloc_store = Some S \<and>
     4 \<in> keys (heapSeqPointerSet S)"
proof -
  have "isPtrToHeap alloc_example pta_example (Some (\<lambda>v. v = 4)) 4"
    by (simp add: isPtrToHeap_def alloc_example_def hasValueNode_def pta_example_def)
  moreover have "heap_class alloc_example alloc_store 4 = Seq" using alloc_store_ok by (simp add: heap_class_def alloc_example_def)
  moreover have "4 \<in> keys (Variables alloc_store)" using alloc_store_ok(2) by (simp add: keys_iff)
  ultimately show ?thesis
    using heap_sets_consistent [OF alloc_example_chain alloc_store_ok(1), of pta_example "Some (\<lambda>v. v = 4)" fresh_info alloc_graph "\<lambda>_. new_Node INST"]
    by blast
qed

end
