(* ===== verification/Data_Guard.thy ===== *)
theory Data_Guard
  imports Value_Range_Analysis Compatible_Type
begin

text \<open>
  The stack analysis (\<^verbatim>\<open>DataGuard.cpp\<close>): it selects from the classified pointers those that point to the
  stack, splits the unsafe ones into \<open>Seq\<close> and \<open>Dyn\<close>, hands the former to the value-range analysis and
  the casts among the latter to the compatible-type analysis.  \<^verbatim>\<open>isAllocationFn\<close> of LLVM is the
  parameter \<open>allocFn\<close>; the entries of the store are visited in the order of the list, on which no
  result depends.
\<close>

subsection \<open>Selecting stack pointers\<close>

definition doesPointToStack :: "ir \<Rightarrow> (vid \<Rightarrow> bool) \<Rightarrow> vid \<Rightarrow> bool" where
  "doesPointToStack I allocFn V \<longleftrightarrow> isInstruction I V \<and>
     \<not> list_ex (\<lambda>op. allocFn op \<or> kind I op = KGlobalVariable) (operands I V) \<and> \<not> allocFn V"

definition heapNodeIdSet :: "pta \<Rightarrow> (vid, VariableInfo) dict \<Rightarrow> nat set" where
  "heapNodeIdSet P heapPointerSet =
     set (map (\<lambda>(v, _). getValueNode P v) (filter (\<lambda>(v, _). hasValueNode P v) heapPointerSet))"

record stack_sets =
  totalStackPointerSet :: "vid set"
  unsafeStackPointerSet :: "vid set"
  stackSeqPointerSet :: "(vid, VariableInfo) dict"
  stackDynPointerSet :: "(vid, VariableInfo) dict"
  stackDynPtrSet :: "(vid, VariableInfo) dict"

definition no_stack_pointers :: stack_sets where
  "no_stack_pointers = \<lparr>totalStackPointerSet = {}, unsafeStackPointerSet = {}, stackSeqPointerSet = [],
     stackDynPointerSet = [], stackDynPtrSet = []\<rparr>"

definition countStackPointer ::
    "ir \<Rightarrow> pta \<Rightarrow> (vid \<Rightarrow> bool) \<Rightarrow> (vid, VariableInfo) dict \<Rightarrow> vid \<times> VariableInfo \<Rightarrow> stack_sets \<Rightarrow> stack_sets" where
  "countStackPointer I P allocFn heapPointerSet e S =
     (let v = fst e
      in if isInstruction I v \<and> hasValueNode P v \<and> doesPointToStack I allocFn v \<and>
           getValueNode P v \<notin> heapNodeIdSet P heapPointerSet
         then S\<lparr>totalStackPointerSet := insert v (totalStackPointerSet S)\<rparr> else S)"

definition classifyStackPointer :: "ir \<Rightarrow> (vid \<Rightarrow> bool) \<Rightarrow> vid \<times> VariableInfo \<Rightarrow> stack_sets \<Rightarrow> stack_sets" where
  "classifyStackPointer I allocFn e S =
     (let v = fst e; i = snd e
      in if classification i = Dyn \<or> classification i = Seq
         then (if isInstruction I v \<and> doesPointToStack I allocFn v
               then (let S1 = S\<lparr>unsafeStackPointerSet := insert v (unsafeStackPointerSet S)\<rparr>
                     in if classification i = Seq
                        then S1\<lparr>stackSeqPointerSet := ordered_update v i (stackSeqPointerSet S1)\<rparr>
                        else let S2 = S1\<lparr>stackDynPointerSet := ordered_update v i (stackDynPointerSet S1)\<rparr>
                          in if isCastInst I v then S2\<lparr>stackDynPtrSet := ordered_update v i (stackDynPtrSet S2)\<rparr> else S2)
               else S)
         else S)"

definition stackPointers ::
    "ir \<Rightarrow> pta \<Rightarrow> (vid \<Rightarrow> bool) \<Rightarrow> (vid, VariableInfo) dict \<Rightarrow> AnalysisState \<Rightarrow> stack_sets" where
  "stackPointers I P allocFn heapPointerSet st =
     fold (classifyStackPointer I allocFn) (Variables st)
       (fold (countStackPointer I P allocFn heapPointerSet) (Variables st) no_stack_pointers)"

record guard_result =
  guard_sets :: stack_sets
  guard_ranges :: vr_result
  guard_casts :: "(vid, VariableInfo) dict"

definition identifyDifferentKindsOfUnsafeStackPointers ::
    "nat \<Rightarrow> ir \<Rightarrow> vr_options \<Rightarrow> pta \<Rightarrow> (vid \<Rightarrow> bool) \<Rightarrow> (vid \<Rightarrow> fresh_ids) \<Rightarrow> slot_layout \<Rightarrow> bool
      \<Rightarrow> (vid, VariableInfo) dict \<Rightarrow> AnalysisState \<Rightarrow> vid set \<Rightarrow> tags \<Rightarrow> guard_result exec" where
  "identifyDifferentKindsOfUnsafeStackPointers n I opts P allocFn fresh slotIs hasPTASetup heapPointerSet st oowResults t =
     (if \<not> hasPTASetup
      then Some (Returned \<lparr>guard_sets = no_stack_pointers, guard_ranges = vr_empty I t, guard_casts = []\<rparr>)
      else let S = stackPointers I P allocFn heapPointerSet st
        in exec_bind (valueRangeAnalysis n I opts P fresh (stackSeqPointerSet S) st oowResults t) (\<lambda>r.
           lift (map_option (\<lambda>casts. \<lparr>guard_sets = S, guard_ranges = r, guard_casts = casts\<rparr>)
             (safeTypeCastAnalysis (vr_ir r) slotIs (stackDynPtrSet S)))))"

subsection \<open>What is selected\<close>

definition unsafe_stack :: "ir \<Rightarrow> (vid \<Rightarrow> bool) \<Rightarrow> vid \<times> VariableInfo \<Rightarrow> bool" where
  "unsafe_stack I allocFn e \<longleftrightarrow> unsafe_class (classification (snd e)) \<and> doesPointToStack I allocFn (fst e)"

lemma fold_total:
  "totalStackPointerSet (fold (countStackPointer I P allocFn h) es S) = totalStackPointerSet S \<union>
     {v \<in> fst ` set es. hasValueNode P v \<and> doesPointToStack I allocFn v \<and> getValueNode P v \<notin> heapNodeIdSet P h}"
  "stackSeqPointerSet (fold (countStackPointer I P allocFn h) es S) = stackSeqPointerSet S"
  "stackDynPointerSet (fold (countStackPointer I P allocFn h) es S) = stackDynPointerSet S"
  "stackDynPtrSet (fold (countStackPointer I P allocFn h) es S) = stackDynPtrSet S"
  "unsafeStackPointerSet (fold (countStackPointer I P allocFn h) es S) = unsafeStackPointerSet S"
  by (induction es arbitrary: S) (auto simp: countStackPointer_def Let_def doesPointToStack_def)

lemma fold_unsafe:
  "unsafeStackPointerSet (fold (classifyStackPointer I allocFn) es S) =
     unsafeStackPointerSet S \<union> {v. \<exists>i. (v, i) \<in> set es \<and> unsafe_stack I allocFn (v, i)}"
  "totalStackPointerSet (fold (classifyStackPointer I allocFn) es S) = totalStackPointerSet S"
  "keys (stackSeqPointerSet (fold (classifyStackPointer I allocFn) es S)) =
     keys (stackSeqPointerSet S) \<union> {v. \<exists>i. (v, i) \<in> set es \<and> classification i = Seq \<and> doesPointToStack I allocFn v}"
  "keys (stackDynPointerSet (fold (classifyStackPointer I allocFn) es S)) =
     keys (stackDynPointerSet S) \<union> {v. \<exists>i. (v, i) \<in> set es \<and> classification i = Dyn \<and> doesPointToStack I allocFn v}"
  "keys (stackDynPtrSet (fold (classifyStackPointer I allocFn) es S)) =
     keys (stackDynPtrSet S) \<union> {v. \<exists>i. (v, i) \<in> set es \<and> classification i = Dyn \<and> isCastInst I v \<and> doesPointToStack I allocFn v}"
proof (induction es arbitrary: S)
  case (Cons e es)
  obtain v i where e: "e = (v, i)" by fastforce
  note d = e classifyStackPointer_def Let_def dict unsafe_stack_def unsafe_class_def doesPointToStack_def
  { case 1 show ?case using Cons.IH(1) by (auto simp: d) }
  { case 2 show ?case using Cons.IH(2) by (auto simp: d) }
  { case 3 show ?case using Cons.IH(3) by (auto simp: d) }
  { case 4 show ?case using Cons.IH(4) by (auto simp: d) }
  { case 5 show ?case using Cons.IH(5) by (auto simp: d) }
qed (simp_all add: keys_def)

lemma lookup_set: "dict_ok (Variables st) \<Longrightarrow> (v, i) \<in> set (Variables st) \<longleftrightarrow> contains (Variables st) v \<and> i = lookup_info st v"
  by (auto simp: lookup_info_def contains_map_of dest: map_of_SomeD dict_ok_map_of)

lemma stackPointers_sets:
  assumes "dict_ok (Variables st)"
  shows "keys (stackSeqPointerSet (stackPointers I P allocFn h st)) =
      {v. contains (Variables st) v \<and> class_of st v = Seq \<and> doesPointToStack I allocFn v}"
    "keys (stackDynPointerSet (stackPointers I P allocFn h st)) =
      {v. contains (Variables st) v \<and> class_of st v = Dyn \<and> doesPointToStack I allocFn v}"
    "keys (stackDynPtrSet (stackPointers I P allocFn h st)) =
      {v. contains (Variables st) v \<and> class_of st v = Dyn \<and> isCastInst I v \<and> doesPointToStack I allocFn v}"
    "unsafeStackPointerSet (stackPointers I P allocFn h st) =
      {v. contains (Variables st) v \<and> unsafe_class (class_of st v) \<and> doesPointToStack I allocFn v}"
    "totalStackPointerSet (stackPointers I P allocFn h st) =
      {v. contains (Variables st) v \<and> hasValueNode P v \<and> doesPointToStack I allocFn v \<and> getValueNode P v \<notin> heapNodeIdSet P h}"
proof -
  have k: "v \<in> fst ` set (Variables st) \<longleftrightarrow> contains (Variables st) v" for v by (metis keys_def keys_iff)
  show "keys (stackSeqPointerSet (stackPointers I P allocFn h st)) =
      {v. contains (Variables st) v \<and> class_of st v = Seq \<and> doesPointToStack I allocFn v}"
    "keys (stackDynPointerSet (stackPointers I P allocFn h st)) =
      {v. contains (Variables st) v \<and> class_of st v = Dyn \<and> doesPointToStack I allocFn v}"
    "keys (stackDynPtrSet (stackPointers I P allocFn h st)) =
      {v. contains (Variables st) v \<and> class_of st v = Dyn \<and> isCastInst I v \<and> doesPointToStack I allocFn v}"
    "unsafeStackPointerSet (stackPointers I P allocFn h st) =
      {v. contains (Variables st) v \<and> unsafe_class (class_of st v) \<and> doesPointToStack I allocFn v}"
    using lookup_set [OF assms]
    by (auto simp: stackPointers_def fold_unsafe fold_total no_stack_pointers_def class_of_def unsafe_stack_def)
  show "totalStackPointerSet (stackPointers I P allocFn h st) =
      {v. contains (Variables st) v \<and> hasValueNode P v \<and> doesPointToStack I allocFn v \<and> getValueNode P v \<notin> heapNodeIdSet P h}"
    by (auto simp: stackPointers_def fold_unsafe(2) fold_total(1) no_stack_pointers_def k)
qed

text \<open>
  The stack analysis selects exactly: the pointers it hands to the value-range analysis are the \<open>Seq\<close>
  pointers to the stack, those it hands to the compatible-type analysis are the \<open>Dyn\<close> casts among them,
  and the two sets it reports, \<open>Seq\<close> and \<open>Dyn\<close>, partition the unsafe stack pointers.
\<close>

theorem stack_selection_exact:
  assumes "state_ok st"
  shows "let S = stackPointers I P allocFn h st
    in keys (stackSeqPointerSet S) = {v. contains (Variables st) v \<and> class_of st v = Seq \<and> doesPointToStack I allocFn v} \<and>
       keys (stackDynPtrSet S) = {v \<in> keys (stackDynPointerSet S). isCastInst I v} \<and>
       keys (stackSeqPointerSet S) \<union> keys (stackDynPointerSet S) = unsafeStackPointerSet S \<and>
       keys (stackSeqPointerSet S) \<inter> keys (stackDynPointerSet S) = {}"
proof -
  have "dict_ok (Variables st)" using assms by (simp add: state_ok_def)
  from stackPointers_sets [OF this] show ?thesis by (auto simp: Let_def unsafe_class_def)
qed

definition guard_example :: ir where
  "guard_example = empty_ir\<lparr>kind := (\<lambda>v. if v = 4 then KAlloca else if v = 5 then KGEP else KArgument),
     operands := (\<lambda>v. if v = 5 then [4] else [])\<rparr>"

definition guard_store :: AnalysisState where
  "guard_store = ClassifyPointerVariable 5 Dyn (RegisterVariable 4 (SetSizeType 64 init_state))"

lemma guard_store_ok: "state_ok guard_store"
proof -
  have "state_ok (SetSizeType 64 init_state)" by (simp add: state_ok_def SetSizeType_def init_state_def)
  then show ?thesis by (simp add: guard_store_def)
qed

lemma guard_store_gep: "contains (Variables guard_store) 5" "class_of guard_store 5 = Dyn"
  by (simp_all add: guard_store_def ClassifyPointerVariable_def Let_def state_simps class_of_def SetSizeType_def init_state_def
      fresh_info_def VariableStates_order)

theorem stack_selection_exact_witness:
  "keys (stackSeqPointerSet (stackPointers guard_example pta_example (\<lambda>_. False) [] guard_store)) =
    {v. contains (Variables guard_store) v \<and> class_of guard_store v = Seq \<and> doesPointToStack guard_example (\<lambda>_. False) v}"
  using stack_selection_exact [OF guard_store_ok, of guard_example pta_example "\<lambda>_. False" "[]"] by (simp add: Let_def)

text \<open>
  An address computation on the stack that is classified as \<open>Dyn\<close> is reported as unsafe, but no
  analysis validates it: it is neither among the \<open>Seq\<close> pointers nor, not being a cast, among the
  pointers for the compatible-type analysis.
\<close>

theorem dyn_address_computation_not_validated:
  assumes "state_ok st" and "contains (Variables st) v" and "class_of st v = Dyn" and "kind I v = KGEP"
    and "doesPointToStack I allocFn v"
  shows "let S = stackPointers I P allocFn h st
    in v \<in> unsafeStackPointerSet S \<and> v \<notin> keys (stackSeqPointerSet S) \<and> v \<notin> keys (stackDynPtrSet S)"
proof -
  have "dict_ok (Variables st)" using assms by (simp add: state_ok_def)
  from stackPointers_sets [OF this] show ?thesis using assms by (auto simp: Let_def unsafe_class_def)
qed

theorem dyn_address_computation_not_validated_witness:
  "5 \<in> unsafeStackPointerSet (stackPointers guard_example pta_example (\<lambda>_. False) [] guard_store)"
  using dyn_address_computation_not_validated [OF guard_store_ok guard_store_gep, of guard_example "\<lambda>_. False" pta_example "[]"]
  by (simp add: Let_def guard_example_def doesPointToStack_def)

end
