(* ===== verification/Marker_Protocol.thy ===== *)
theory Marker_Protocol
  imports Value_Range_Analysis Taint_Pass
begin

text \<open>
  The protocol between two passes that run after each other: the value-range analysis brackets unsafe
  address computations with inline assembly (\<^verbatim>\<open>ValueRange.cpp\<close>), the taint analysis finds them again by
  this assembly (\<^verbatim>\<open>Taint.cpp\<close>).
\<close>

subsection \<open>Neighbours after an insertion\<close>

lemma set_insert_around: "g \<in> set xs \<Longrightarrow> set (insert_around b g a xs) = insert b (insert a (set xs))"
  by (induction xs) auto

lemma distinct_insert_around:
  "distinct xs \<Longrightarrow> b \<notin> set xs \<Longrightarrow> a \<notin> set xs \<Longrightarrow> a \<noteq> b \<Longrightarrow> distinct (insert_around b g a xs)"
proof (induction xs)
  case (Cons x xs)
  have "set (insert_around b g a xs) \<subseteq> insert b (insert a (set xs))" by (induction xs) auto
  then show ?case using Cons by auto
qed simp

lemma prev_in_Cons: "prev_in (x # xs) v = (case xs of [] \<Rightarrow> None | y # ys \<Rightarrow> if y = v then Some x else prev_in xs v)"
  by (cases xs) auto

lemma next_in_Cons: "next_in (x # xs) v = (case xs of [] \<Rightarrow> None | y # ys \<Rightarrow> if x = v then Some y else next_in xs v)"
  by (cases xs) auto

lemma prev_in_mem: "prev_in xs v = Some p \<Longrightarrow> v \<in> set xs \<and> p \<in> set xs"
  by (induction xs v rule: prev_in.induct) (auto split: if_splits)

lemma prev_in_absent: "v \<notin> set xs \<Longrightarrow> prev_in xs v = None"
  by (metis not_None_eq prev_in_mem)

lemma next_in_mem: "next_in xs v = Some p \<Longrightarrow> v \<in> set xs \<and> p \<in> set xs"
  by (induction xs v rule: next_in.induct) (auto split: if_splits)

lemma next_of_prev: "distinct xs \<Longrightarrow> prev_in xs v = Some g \<Longrightarrow> next_in xs g = Some v"
proof (induction xs)
  case (Cons x xs)
  then show ?case using prev_in_mem [of xs v g] by (cases xs) (auto split: if_splits)
qed simp

lemma insert_around_append: "g \<notin> set ps \<Longrightarrow> insert_around b g a (ps @ g # qs) = ps @ b # g # a # qs"
  by (induction ps) simp_all

lemma prev_in_append:
  "distinct (ps @ x # qs) \<Longrightarrow> prev_in (ps @ x # qs) v =
     (if v \<in> set ps then prev_in ps v else if v = x then (if ps = [] then None else Some (last ps)) else prev_in (x # qs) v)"
proof (induction ps)
  case Nil
  then show ?case by (auto simp: prev_in_absent prev_in_Cons split: list.splits)
next
  case (Cons p ps)
  then have IH: "prev_in (ps @ x # qs) v = (if v \<in> set ps then prev_in ps v else if v = x then (if ps = [] then None else Some (last ps))
     else prev_in (x # qs) v)" by simp
  show ?case
  proof (cases ps)
    case Nil
    then show ?thesis using Cons.prems by (auto simp: prev_in_absent prev_in_Cons split: list.splits)
  next
    case (Cons y ys)
    show ?thesis
    proof (cases "y = v")
      case True
      then show ?thesis using Cons by simp
    next
      case False
      have "prev_in ((p # ps) @ x # qs) v = prev_in (ps @ x # qs) v" using Cons False by simp
      moreover have "prev_in (p # ps) v = prev_in ps v" using Cons False by simp
      moreover have "v = p \<Longrightarrow> prev_in (ps @ x # qs) v = None" using Cons.prems by (simp add: prev_in_absent)
      moreover have "v = p \<Longrightarrow> prev_in ps v = None" using Cons.prems by (simp add: prev_in_absent)
      ultimately show ?thesis using IH \<open>ps = y # ys\<close> by (cases "v = p") simp_all
    qed
  qed
qed

lemma prev_in_insert_around:
  assumes "distinct xs" and "g \<in> set xs" and "a \<notin> set xs" and "b \<notin> set xs" and "a \<noteq> b" and "v \<noteq> b"
  shows "prev_in (insert_around b g a xs) v =
    (if v = a then Some g else if v = g then Some b else if prev_in xs v = Some g then Some a else prev_in xs v)"
proof -
  obtain ps qs where xs: "xs = ps @ g # qs" using assms(2) by (meson split_list)
  have d: "distinct (ps @ b # g # a # qs)" "distinct (ps @ g # qs)" "g \<notin> set ps" using assms xs by auto
  have "prev_in ps v \<noteq> Some g" "prev_in qs v \<noteq> Some g" using prev_in_mem d by fastforce+
  then show ?thesis
    using assms(3-6) d xs
    by (cases qs) (simp_all add: insert_around_append prev_in_append prev_in_absent)
qed

lemma next_in_insert_around:
  assumes "distinct xs" and "a \<notin> set xs" and "b \<notin> set xs" and "v \<noteq> g" and "v \<noteq> a" and "v \<noteq> b"
  shows "next_in (insert_around b g a xs) v = (if next_in xs v = Some g then Some b else next_in xs v)"
  using assms(1-3)
proof (induction xs)
  case (Cons x xs)
  show ?case
  proof (cases "x = g")
    case True
    then show ?thesis using Cons.prems assms(4-6) next_in_mem [of xs v g] by (cases xs) auto
  next
    case False
    then show ?thesis using Cons assms(4-6) by (cases xs) (auto simp: next_in_Cons)
  qed
qed simp

subsection \<open>One insertion\<close>

definition blocks_wf :: "ir \<Rightarrow> bool" where
  "blocks_wf I \<longleftrightarrow> list_all (\<lambda>f. list_all (\<lambda>b. distinct (insts I b) \<and> list_all (\<lambda>v. parentBB I v = b) (insts I b)) (blocks I f))
     (moduleFunctions I)"

definition marks :: "ir \<Rightarrow> vid set" where
  "marks I = {p. \<exists>v \<in> set (module_instructions I). marked_gep I v = Some p}"

lemma set_map_filter_iff: "y \<in> set (List.map_filter f xs) \<longleftrightarrow> (\<exists>x \<in> set xs. f x = Some y)"
  by (induction xs) (auto simp: map_filter_simps split: option.splits)

lemma dgUnsafeGEPs_marks: "set (dgUnsafeGEPs I) = marks I"
  by (simp add: dgUnsafeGEPs_def marks_def set_eq_iff set_map_filter_iff)

lemma in_module_instructions:
  "v \<in> set (module_instructions I) \<longleftrightarrow> (\<exists>f \<in> set (moduleFunctions I). \<exists>b \<in> set (blocks I f). v \<in> set (insts I b))"
  by (auto simp: module_instructions_def instructions_def)

text \<open>
  The addresses of new values: the calls are new instructions; the assembly values are no
  instructions, and an address that is already called holds the same text, since LLVM shares equal
  assembly values.
\<close>

abbreviation beginAsm :: "vr_options \<Rightarrow> string" where
  "beginAsm opts \<equiv> if UsePC opts then NORMAL_MAGIC_ASM_BEGIN else MAGIC_ASM_BEGIN"

abbreviation endAsm :: "vr_options \<Rightarrow> string" where
  "endAsm opts \<equiv> if UsePC opts then NORMAL_MAGIC_ASM_END else MAGIC_ASM_END"

abbreviation called_values :: "ir \<Rightarrow> vid set" where
  "called_values I \<equiv> calledOperand I ` set (module_instructions I)"

definition asm_slot :: "ir \<Rightarrow> string \<Rightarrow> vid \<Rightarrow> bool" where
  "asm_slot I s a \<longleftrightarrow> a \<notin> set (module_instructions I) \<and> (a \<in> called_values I \<longrightarrow> kind I a = KInlineAsm s)"

definition new_calls :: "fresh_ids \<Rightarrow> vid set" where
  "new_calls new = {callBefore new, callAfter new}"

definition call_slots :: "ir \<Rightarrow> fresh_ids \<Rightarrow> bool" where
  "call_slots I new \<longleftrightarrow> callBefore new \<noteq> callAfter new \<and>
     new_calls new \<inter> (set (module_instructions I) \<union> called_values I) = {}"

definition bracket_ok :: "vr_options \<Rightarrow> ir \<Rightarrow> vid \<Rightarrow> fresh_ids \<Rightarrow> bool" where
  "bracket_ok opts I g new \<longleftrightarrow> blocks_wf I \<and> g \<in> set (module_instructions I) \<and> kind I g = KGEP \<and> call_slots I new \<and>
     asm_slot I (beginAsm opts) (asmBefore new) \<and> asm_slot I (endAsm opts) (asmAfter new) \<and>
     asmBefore new \<noteq> asmAfter new \<and> {asmBefore new, asmAfter new} \<inter> new_calls new = {}"

lemma wf_parent:
  "blocks_wf I \<Longrightarrow> v \<in> set (module_instructions I) \<Longrightarrow> w \<in> set (insts I (parentBB I v)) \<Longrightarrow>
   parentBB I w = parentBB I v \<and> w \<in> set (module_instructions I)"
  by (fastforce simp: in_module_instructions blocks_wf_def list_all_iff)

lemma wf_block:
  "blocks_wf I \<Longrightarrow> v \<in> set (module_instructions I) \<Longrightarrow> v \<in> set (insts I (parentBB I v)) \<and> distinct (insts I (parentBB I v))"
  by (fastforce simp: in_module_instructions blocks_wf_def list_all_iff)

lemma bracketGEP_fields [simp]:
  "moduleFunctions (bracketGEP opts g new I) = moduleFunctions I" "blocks (bracketGEP opts g new I) = blocks I"
  "insts (bracketGEP opts g new I) =
     (insts I)(parentBB I g := insert_around (callBefore new) g (callAfter new) (insts I (parentBB I g)))"
  "kind (bracketGEP opts g new I) = (kind I)(callBefore new := KCall, callAfter new := KCall,
     asmBefore new := KInlineAsm (beginAsm opts), asmAfter new := KInlineAsm (endAsm opts))"
  "calledOperand (bracketGEP opts g new I) = (calledOperand I)(callBefore new := asmBefore new, callAfter new := asmAfter new)"
  "parentBB (bracketGEP opts g new I) = (parentBB I)(callBefore new := parentBB I g, callAfter new := parentBB I g)"
  by (simp_all add: bracketGEP_def Let_def)

lemma bracket_lists:
  assumes "bracket_ok opts I g new"
  shows "distinct (insts I (parentBB I g))" "g \<in> set (insts I (parentBB I g))"
    "callAfter new \<notin> set (insts I (parentBB I g))" "callBefore new \<notin> set (insts I (parentBB I g))" "callAfter new \<noteq> callBefore new"
proof -
  have wf: "blocks_wf I" "g \<in> set (module_instructions I)" "call_slots I new" using assms by (auto simp: bracket_ok_def)
  show "distinct (insts I (parentBB I g))" "g \<in> set (insts I (parentBB I g))" "callAfter new \<noteq> callBefore new"
    using wf wf_block by (auto simp: call_slots_def)
  show "callAfter new \<notin> set (insts I (parentBB I g))" "callBefore new \<notin> set (insts I (parentBB I g))"
    using wf wf_parent [OF wf(1,2)] by (auto simp: call_slots_def new_calls_def)
qed

lemma bracketGEP_instructions:
  assumes "bracket_ok opts I g new"
  shows "set (module_instructions (bracketGEP opts g new I)) = new_calls new \<union> set (module_instructions I)"
proof -
  obtain f where f: "f \<in> set (moduleFunctions I)" "parentBB I g \<in> set (blocks I f)"
    using assms by (fastforce simp: bracket_ok_def in_module_instructions blocks_wf_def list_all_iff)
  have s: "set (insert_around (callBefore new) g (callAfter new) (insts I (parentBB I g))) =
      new_calls new \<union> set (insts I (parentBB I g))"
    using set_insert_around [OF bracket_lists(2) [OF assms]] by (simp add: new_calls_def)
  have "v \<in> set (insts (bracketGEP opts g new I) c) \<longleftrightarrow> v \<in> set (insts I c) \<or> c = parentBB I g \<and> v \<in> new_calls new" for c v
    using s by auto
  then show ?thesis using f unfolding set_eq_iff Un_iff by (auto simp: in_module_instructions)
qed

lemma bracketGEP_wf:
  assumes "bracket_ok opts I g new"
  shows "blocks_wf (bracketGEP opts g new I)"
proof -
  let ?bb = "parentBB I g" and ?ia = "insert_around (callBefore new) g (callAfter new)"
  have "distinct (?ia (insts I ?bb))" by (rule distinct_insert_around) (use bracket_lists [OF assms] in auto)
  moreover have "set (?ia (insts I ?bb)) = new_calls new \<union> set (insts I ?bb)"
    using set_insert_around [OF bracket_lists(2) [OF assms]] by (simp add: new_calls_def)
  moreover have "v \<notin> new_calls new" if "f \<in> set (moduleFunctions I)" "b \<in> set (blocks I f)" "v \<in> set (insts I b)" for f b v
  proof -
    have "v \<in> set (module_instructions I)" using that by (auto simp: in_module_instructions)
    then show ?thesis using assms by (auto simp: bracket_ok_def call_slots_def)
  qed
  ultimately show ?thesis using assms
    by (fastforce simp: bracket_ok_def blocks_wf_def list_all_iff new_calls_def)
qed

lemma bracketGEP_old:
  assumes "bracket_ok opts I g new" and "v \<in> set (module_instructions I)"
  shows "v \<noteq> callBefore new" "v \<noteq> callAfter new" "kind (bracketGEP opts g new I) v = kind I v"
    "inlineAsm (bracketGEP opts g new I) (calledOperand I v) = inlineAsm I (calledOperand I v)"
    "calledOperand (bracketGEP opts g new I) v = calledOperand I v"
proof -
  have c: "calledOperand I v \<in> called_values I" using assms(2) by simp
  then have n: "v \<noteq> callBefore new" "v \<noteq> callAfter new" "calledOperand I v \<noteq> callBefore new" "calledOperand I v \<noteq> callAfter new"
    using assms unfolding bracket_ok_def call_slots_def new_calls_def by blast+
  show "v \<noteq> callBefore new" "v \<noteq> callAfter new" by fact+
  then show "calledOperand (bracketGEP opts g new I) v = calledOperand I v" by simp
  show "kind (bracketGEP opts g new I) v = kind I v" using assms n by (auto simp: bracket_ok_def asm_slot_def)
  have "calledOperand I v = asmBefore new \<Longrightarrow> kind I (calledOperand I v) = KInlineAsm (beginAsm opts)"
    "calledOperand I v = asmAfter new \<Longrightarrow> kind I (calledOperand I v) = KInlineAsm (endAsm opts)"
    using assms(1) c unfolding bracket_ok_def asm_slot_def by metis+
  then show "inlineAsm (bracketGEP opts g new I) (calledOperand I v) = inlineAsm I (calledOperand I v)"
    using n(3,4) by (auto simp: inlineAsm_def)
qed

lemma bracketGEP_prev:
  assumes "bracket_ok opts I g new" and "v \<in> set (module_instructions I)"
  shows "getPrevNode (bracketGEP opts g new I) v =
    (if v = g then Some (callBefore new) else if getPrevNode I v = Some g then Some (callAfter new) else getPrevNode I v)"
proof (cases "parentBB I v = parentBB I g")
  case True
  then show ?thesis
    using prev_in_insert_around [OF bracket_lists [OF assms(1)], of v] bracketGEP_old(1,2) [OF assms]
    by (simp add: getPrevNode_def)
next
  case False
  have "getPrevNode I v \<noteq> Some g"
  proof
    assume "getPrevNode I v = Some g"
    then have "g \<in> set (insts I (parentBB I v))" using prev_in_mem by (fastforce simp: getPrevNode_def)
    then show False using wf_parent [OF _ assms(2)] assms(1) False by (auto simp: bracket_ok_def)
  qed
  then show ?thesis using False bracketGEP_old(1,2) [OF assms] by (auto simp: getPrevNode_def)
qed

lemma bracketGEP_next:
  assumes "bracket_ok opts I g new" and "v \<in> set (module_instructions I)" and "v \<noteq> g"
  shows "getNextNode (bracketGEP opts g new I) v = (if getNextNode I v = Some g then Some (callBefore new) else getNextNode I v)"
proof (cases "parentBB I v = parentBB I g")
  case True
  then show ?thesis
    using next_in_insert_around [OF bracket_lists(1,3,4) [OF assms(1)], of v] bracketGEP_old(1,2) [OF assms(1,2)] assms(3)
    by (simp add: getNextNode_def)
next
  case False
  have "getNextNode I v \<noteq> Some g"
  proof
    assume "getNextNode I v = Some g"
    then have "g \<in> set (insts I (parentBB I v))" using next_in_mem by (fastforce simp: getNextNode_def)
    then show False using wf_parent [OF _ assms(2)] assms(1) False by (auto simp: bracket_ok_def)
  qed
  then show ?thesis using False bracketGEP_old(1,2) [OF assms(1,2)] by (auto simp: getNextNode_def)
qed

subsection \<open>What one insertion marks\<close>

declare bracketGEP_fields [simp del]

lemma end_not_begin: "\<not> sublist MAGIC_ASM_END MAGIC_ASM_BEGIN" "\<not> sublist NORMAL_MAGIC_ASM_END MAGIC_ASM_BEGIN"
  "\<not> sublist MAGIC_ASM_END NORMAL_MAGIC_ASM_BEGIN" "\<not> sublist NORMAL_MAGIC_ASM_END NORMAL_MAGIC_ASM_BEGIN"
  "MAGIC_ASM_BEGIN \<noteq> MAGIC_ASM_END" "NORMAL_MAGIC_ASM_BEGIN \<noteq> MAGIC_ASM_END" "NORMAL_MAGIC_ASM_END \<noteq> MAGIC_ASM_END"
  by code_simp+

lemma bracketGEP_calls:
  assumes "bracket_ok opts I g new"
  shows "inlineAsm (bracketGEP opts g new I) (calledOperand (bracketGEP opts g new I) (callBefore new)) = Some (beginAsm opts)"
    "inlineAsm (bracketGEP opts g new I) (calledOperand (bracketGEP opts g new I) (callAfter new)) = Some (endAsm opts)"
    "kind (bracketGEP opts g new I) (callBefore new) = KCall" "kind (bracketGEP opts g new I) (callAfter new) = KCall"
    "getPrevNode (bracketGEP opts g new I) (callAfter new) = Some g"
proof -
  have n: "callBefore new \<noteq> callAfter new" "asmBefore new \<noteq> asmAfter new" "callBefore new \<noteq> asmBefore new" "callBefore new \<noteq> asmAfter new"
    "callAfter new \<noteq> asmBefore new" "callAfter new \<noteq> asmAfter new"
    using assms by (auto simp: bracket_ok_def call_slots_def new_calls_def)
  then show "inlineAsm (bracketGEP opts g new I) (calledOperand (bracketGEP opts g new I) (callBefore new)) = Some (beginAsm opts)"
    "inlineAsm (bracketGEP opts g new I) (calledOperand (bracketGEP opts g new I) (callAfter new)) = Some (endAsm opts)"
    "kind (bracketGEP opts g new I) (callBefore new) = KCall" "kind (bracketGEP opts g new I) (callAfter new) = KCall"
    by (simp_all add: inlineAsm_def bracketGEP_fields)
  show "getPrevNode (bracketGEP opts g new I) (callAfter new) = Some g"
    using prev_in_insert_around [OF bracket_lists [OF assms], of "callAfter new"] n by (simp add: getPrevNode_def bracketGEP_fields)
qed

lemma marked_old:
  assumes "bracket_ok opts I g new" and "\<not> alreadyBracketed I g" and "v \<in> set (module_instructions I)"
  shows "marked_gep (bracketGEP opts g new I) v = marked_gep I v"
proof (cases "kind I v = KCall \<and> inlineAsm I (calledOperand I v) = Some MAGIC_ASM_END")
  case False
  then show ?thesis using bracketGEP_old [OF assms(1,3)] by (auto simp: marked_gep_def)
next
  case True
  have "v \<noteq> g" using True assms(1) by (auto simp: bracket_ok_def)
  have "getPrevNode I v \<noteq> Some g"
  proof
    assume p: "getPrevNode I v = Some g"
    have wf: "blocks_wf I" using assms(1) by (simp add: bracket_ok_def)
    have "getNextNode I g = Some v"
    proof -
      have "parentBB I g = parentBB I v" using p wf_parent [OF wf assms(3)] prev_in_mem by (fastforce simp: getPrevNode_def)
      then show ?thesis using p wf_block [OF wf assms(3)] by (auto simp: getPrevNode_def getNextNode_def intro: next_of_prev)
    qed
    then show False using assms(2) True by (simp add: alreadyBracketed_def)
  qed
  moreover have "p \<in> set (module_instructions I)" if "getPrevNode I v = Some p" for p
    using that wf_parent [OF _ assms(3)] assms(1) prev_in_mem by (fastforce simp: getPrevNode_def bracket_ok_def)
  ultimately show ?thesis
    using True \<open>v \<noteq> g\<close> bracketGEP_old [OF assms(1,3)] bracketGEP_prev [OF assms(1,3)] bracketGEP_old(3) [OF assms(1)]
    by (auto simp: marked_gep_def split: option.splits)
qed

lemma marks_bracketGEP:
  assumes "bracket_ok opts I g new" and "\<not> alreadyBracketed I g"
  shows "marks (bracketGEP opts g new I) = (if UsePC opts then {} else {g}) \<union> marks I"
proof -
  have "kind (bracketGEP opts g new I) g = KGEP" using bracketGEP_old(3) [OF assms(1), of g] assms(1) by (simp add: bracket_ok_def)
  then have "marked_gep (bracketGEP opts g new I) (callBefore new) = None"
    "marked_gep (bracketGEP opts g new I) (callAfter new) = (if UsePC opts then None else Some g)"
    using bracketGEP_calls [OF assms(1)] by (simp_all add: marked_gep_def end_not_begin)
  then show ?thesis using marked_old [OF assms(1,2)]
    by (auto simp: marks_def bracketGEP_instructions [OF assms(1)] new_calls_def)
qed

lemma alreadyBracketed_other:
  assumes "bracket_ok opts I g new" and "h \<in> set (module_instructions I)" and "h \<noteq> g"
  shows "alreadyBracketed (bracketGEP opts g new I) h = alreadyBracketed I h"
proof (cases "getNextNode I h = Some g")
  case True
  then show ?thesis
    using bracketGEP_next [OF assms(1-3)] bracketGEP_calls [OF assms(1)] assms(1)
    by (simp add: alreadyBracketed_def end_not_begin bracket_ok_def)
next
  case False
  have "n \<in> set (module_instructions I)" if "getNextNode I h = Some n" for n
    using that wf_parent [OF _ assms(2)] assms(1) next_in_mem by (fastforce simp: getNextNode_def bracket_ok_def)
  then show ?thesis
    using False bracketGEP_next [OF assms(1-3)] bracketGEP_old [OF assms(1)] by (auto simp: alreadyBracketed_def split: option.splits)
qed

subsection \<open>All insertions\<close>

text \<open>The addresses chosen for a list of computations: new calls everywhere, begin and end assembly never share an address.\<close>

definition slots_ok :: "vr_options \<Rightarrow> (vid \<times> fresh_ids) list \<Rightarrow> ir \<Rightarrow> bool" where
  "slots_ok opts gs I \<longleftrightarrow>
     list_all (\<lambda>(g, n). g \<in> set (module_instructions I) \<and> kind I g = KGEP \<and> call_slots I n \<and>
       asm_slot I (beginAsm opts) (asmBefore n) \<and> asm_slot I (endAsm opts) (asmAfter n) \<and>
       list_all (\<lambda>(_, n'). asmBefore n \<noteq> asmAfter n' \<and> {asmBefore n, asmAfter n} \<inter> new_calls n' = {}) gs) gs \<and>
     distinct (map fst gs) \<and> pairwise (\<lambda>x y. new_calls (snd x) \<inter> new_calls (snd y) = {}) (set gs)"

lemma slots_ok_head: "blocks_wf I \<Longrightarrow> slots_ok opts ((g, new) # gs) I \<Longrightarrow> bracket_ok opts I g new"
  by (simp add: slots_ok_def bracket_ok_def)

lemma slots_ok_tail: "slots_ok opts ((g, new) # gs) I \<Longrightarrow> slots_ok opts gs I"
  by (auto simp: slots_ok_def list_all_iff pairwise_insert)

lemma called_after:
  assumes "bracket_ok opts I g new"
  shows "called_values (bracketGEP opts g new I) = {asmBefore new, asmAfter new} \<union> called_values I"
proof -
  have "calledOperand (bracketGEP opts g new I) ` set (module_instructions I) = called_values I"
    using bracketGEP_old(5) [OF assms] by (auto intro!: image_cong)
  moreover have "callBefore new \<noteq> callAfter new" using bracket_lists(5) [OF assms] by simp
  ultimately show ?thesis by (auto simp: bracketGEP_instructions [OF assms] new_calls_def image_Un bracketGEP_fields(5))
qed

lemma slots_ok_step:
  assumes wf: "blocks_wf I" and ok: "slots_ok opts ((g, new) # gs) I"
  shows "slots_ok opts gs (bracketGEP opts g new I)"
proof -
  let ?J = "bracketGEP opts g new I"
  note br = slots_ok_head [OF wf ok]
  have "h \<in> set (module_instructions ?J) \<and> kind ?J h = KGEP \<and> call_slots ?J n \<and>
      asm_slot ?J (beginAsm opts) (asmBefore n) \<and> asm_slot ?J (endAsm opts) (asmAfter n)" if hn: "(h, n) \<in> set gs" for h n
  proof -
    have o: "h \<in> set (module_instructions I)" "kind I h = KGEP" "call_slots I n" "asm_slot I (beginAsm opts) (asmBefore n)"
      "asm_slot I (endAsm opts) (asmAfter n)" "asmBefore n \<noteq> asmAfter new" "asmBefore new \<noteq> asmAfter n"
      "asmBefore new \<noteq> asmAfter new"
      "asmBefore n \<notin> new_calls new" "asmAfter n \<notin> new_calls new" "asmBefore new \<notin> new_calls n" "asmAfter new \<notin> new_calls n"
      using hn ok by (auto simp: slots_ok_def list_all_iff)
    have "h \<noteq> g" using hn ok by (force simp: slots_ok_def)
    then have c: "new_calls n \<inter> new_calls new = {}"
      using hn ok pairwiseD [of "\<lambda>x y. new_calls (snd x) \<inter> new_calls (snd y) = {}" _ "(h, n)" "(g, new)"]
      by (auto simp: slots_ok_def)
    have "kind ?J (asmBefore n) = (if asmBefore n = asmBefore new then KInlineAsm (beginAsm opts) else kind I (asmBefore n))"
      "kind ?J (asmAfter n) = (if asmAfter n = asmAfter new then KInlineAsm (endAsm opts) else kind I (asmAfter n))"
      using o by (auto simp: bracketGEP_fields new_calls_def)
    then have "asm_slot ?J (beginAsm opts) (asmBefore n)" "asm_slot ?J (endAsm opts) (asmAfter n)"
      using o unfolding asm_slot_def called_after [OF br] by (auto simp: bracketGEP_instructions [OF br] split: if_splits)
    moreover have "call_slots ?J n"
      using o c unfolding call_slots_def called_after [OF br] by (auto simp: bracketGEP_instructions [OF br])
    ultimately show ?thesis using o bracketGEP_old(3) [OF br, of h] bracketGEP_instructions [OF br] by auto
  qed
  then show ?thesis using slots_ok_tail [OF ok] by (auto simp: slots_ok_def list_all_iff)
qed

lemma marks_bracketGEPs:
  "blocks_wf I \<Longrightarrow> slots_ok opts gs I \<Longrightarrow>
   marks (bracketGEPs opts gs I) = marks I \<union> (if UsePC opts then {} else {g \<in> fst ` set gs. \<not> alreadyBracketed I g})"
proof (induction opts gs I rule: bracketGEPs.induct)
  case (2 opts g new gs I)
  note br = slots_ok_head [OF 2(2,3)]
  show ?case
  proof (cases "alreadyBracketed I g")
    case True
    then show ?thesis using 2 slots_ok_tail [OF 2(3)] by auto
  next
    case False
    have "alreadyBracketed (bracketGEP opts g new I) h = alreadyBracketed I h" if "h \<in> fst ` set gs" for h
      using that 2(3) by (intro alreadyBracketed_other [OF br]) (auto simp: slots_ok_def list_all_iff)
    then show ?thesis
      using False 2(1) marks_bracketGEP [OF br False] slots_ok_step [OF 2(2,3)] bracketGEP_wf [OF br] by auto
  qed
qed simp

lemma vr_finish_shape:
  assumes "vr_finish I opts P fresh m oow S0 t0 = Some r"
  shows "vr_ir r = bracketGEPs opts (map (\<lambda>g. (g, fresh g)) (sorted_list_of_set (heapUnsafeSeqPointerSet r))) I"
    "heapUnsafeSeqPointerSet r \<subseteq> S0"
  using assms
  by (auto simp: vr_finish_def Let_def removeReported_def filterOutOfWindow_def bind_eq_Some_conv split: if_splits)

lemma marks_reported:
  assumes "vr_finish I opts P fresh m oow S0 t0 = Some r" and "finite S0" and "blocks_wf I"
    and "slots_ok opts (map (\<lambda>g. (g, fresh g)) (sorted_list_of_set (heapUnsafeSeqPointerSet r))) I"
  shows "set (dgUnsafeGEPs (vr_ir r)) = set (dgUnsafeGEPs I) \<union>
    (if UsePC opts then {} else {g \<in> heapUnsafeSeqPointerSet r. \<not> alreadyBracketed I g})"
proof -
  have "finite (heapUnsafeSeqPointerSet r)" using vr_finish_shape(2) [OF assms(1)] assms(2) finite_subset by blast
  then show ?thesis
    using marks_bracketGEPs [OF assms(3,4)] by (simp add: dgUnsafeGEPs_marks image_image vr_finish_shape(1) [OF assms(1)])
qed

text \<open>
  C7: In a well-formed module, the address computations that the taint analysis collects from the
  module the value-range analysis leaves behind are exactly those that the taint analysis finds in the module before and,
  unless the \<open>UsePC\<close> mode is on, those the value-range analysis reports and that are not followed by an end marker of
  either kind. In \<open>UsePC\<close> mode the inserted markers are the \<open>NORMAL\<close> ones and add nothing for the taint analysis; a
  reported computation that already has a \<open>NORMAL\<close> end marker behind it is not bracketed again and does not reach
  the taint analysis (\<open>normal_marker_hides_report\<close>).
\<close>

theorem reported_accesses_reach_taint:
  assumes "vr_finish I opts P fresh m oow S0 t0 = Some r" and "finite S0" and "blocks_wf I"
    and "slots_ok opts (map (\<lambda>g. (g, fresh g)) (sorted_list_of_set (heapUnsafeSeqPointerSet r))) I"
  shows "set (dgUnsafeGEPs (vr_ir r)) = set (dgUnsafeGEPs I) \<union>
    (if UsePC opts then {} else {g \<in> heapUnsafeSeqPointerSet r. \<not> alreadyBracketed I g})"
  using assms by (rule marks_reported)

lemma marked_next:
  assumes "blocks_wf I" and "g \<in> marks I"
  shows "\<exists>v. getNextNode I g = Some v \<and> inlineAsm I (calledOperand I v) = Some MAGIC_ASM_END"
proof -
  obtain v where v: "v \<in> set (module_instructions I)" "marked_gep I v = Some g" using assms(2) by (auto simp: marks_def)
  then have p: "prev_in (insts I (parentBB I v)) v = Some g" "inlineAsm I (calledOperand I v) = Some MAGIC_ASM_END"
    by (auto simp: marked_gep_def getPrevNode_def split: if_splits option.splits)
  then have "parentBB I g = parentBB I v" using wf_parent [OF assms(1) v(1)] prev_in_mem by fastforce
  then show ?thesis using p wf_block [OF assms(1) v(1)] by (auto simp: getNextNode_def intro: next_of_prev)
qed

lemma normal_marker_hides_report:
  assumes "vr_finish I opts P fresh m oow S0 t0 = Some r" and "finite S0" and "blocks_wf I"
    and "slots_ok opts (map (\<lambda>g. (g, fresh g)) (sorted_list_of_set (heapUnsafeSeqPointerSet r))) I"
    and "getNextNode I g = Some v" and "kind I v = KCall" and "inlineAsm I (calledOperand I v) = Some NORMAL_MAGIC_ASM_END"
  shows "g \<notin> set (dgUnsafeGEPs (vr_ir r))"
proof -
  have "alreadyBracketed I g" using assms(5-7) by (simp add: alreadyBracketed_def)
  moreover have "g \<notin> marks I" using marked_next [OF assms(3)] assms(5,7) by (fastforce simp: end_not_begin)
  ultimately show ?thesis using marks_reported [OF assms(1-4)] by (simp add: dgUnsafeGEPs_marks)
qed

lemma finite_collectUnsafe: "collectUnsafe I st es = Some S \<Longrightarrow> finite S"
  by (induction es arbitrary: S) (auto simp: bind_eq_Some_conv split: if_splits)

lemma valueRangeAnalysis_finish:
  assumes "valueRangeAnalysis n I opts P fresh m st oow t = Some (Returned r)"
  shows "r = vr_empty I t \<or> (\<exists>S0. finite S0 \<and> vr_finish I opts P fresh m oow S0 t = Some r)"
proof (cases "find (\<lambda>f. valueName I f = EntryFunction opts) (moduleFunctions I)")
  case None
  then show ?thesis using assms by (simp add: valueRangeAnalysis_def)
next
  case (Some f)
  then obtain A S0 where "collectUnsafe I st (examined I m A) = Some S0" "vr_finish I opts P fresh m oow S0 t = Some r"
    using assms by (auto simp: valueRangeAnalysis_def exec_bind_Returned)
  then show ?thesis using finite_collectUnsafe by blast
qed

definition marker_example :: ir where
  "marker_example = empty_ir\<lparr>kind := (\<lambda>v. if v = 4 \<or> v = 5 then KGEP else KReturn),
     parentBB := (\<lambda>v. if v = 4 \<or> v = 5 \<or> v = 6 then 3 else 0), insts := (\<lambda>b. if b = 3 then [4, 5, 6] else []),
     blocks := (\<lambda>f. if f = 2 then [3] else []), moduleFunctions := [2]\<rparr>"

definition marker_options :: vr_options where
  "marker_options = \<lparr>EntryFunction = ''main'', EnableOOWAnalysis = False, SFIOnly = False, DiffOnly = False,
     UseBaggy = False, UsePC = False\<rparr>"

definition marker_ids :: "vid \<Rightarrow> fresh_ids" where
  "marker_ids g = \<lparr>callBefore = 10 * g, callAfter = 10 * g + 2, asmBefore = 8, asmAfter = 9\<rparr>"

lemma marker_example_instructions: "module_instructions marker_example = [4, 5, 6]"
  by (simp add: module_instructions_def instructions_def marker_example_def)

lemma marker_example_fields:
  "kind marker_example 4 = KGEP" "kind marker_example 5 = KGEP" "kind marker_example 6 = KReturn"
  "calledOperand marker_example v = 0" "getNextNode marker_example 4 = Some 5" "getNextNode marker_example 5 = Some 6"
  by (simp_all add: marker_example_def empty_ir_def getNextNode_def)

lemma marker_finish:
  "vr_finish marker_example marker_options pta_example marker_ids [] {} {4, 5} no_tags =
     Some \<lparr>heapUnsafeSeqPointerSet = {4, 5}, safeSeqPointerSet = {}, unsafeBB = parentBB marker_example ` {4, 5},
       unsafeObjectSet = unsafeObjects marker_example pta_example [4, 5], vr_tags = no_tags,
       vr_ir = bracketGEPs marker_options (map (\<lambda>g. (g, marker_ids g)) [4, 5]) marker_example\<rparr>"
  by (simp add: vr_finish_def Let_def filterOutOfWindow_def marker_options_def)

theorem reported_accesses_reach_taint_witness:
  "set (dgUnsafeGEPs (bracketGEPs marker_options (map (\<lambda>g. (g, marker_ids g)) [4, 5]) marker_example)) = {4, 5}"
proof -
  have "blocks_wf marker_example" by (simp add: blocks_wf_def marker_example_def)
  moreover have "slots_ok marker_options (map (\<lambda>g. (g, marker_ids g)) [4, 5]) marker_example"
    by (simp add: slots_ok_def call_slots_def asm_slot_def new_calls_def marker_example_instructions marker_example_fields
        marker_ids_def pairwise_insert)
  moreover have "set (dgUnsafeGEPs marker_example) = {}"
    by (simp add: dgUnsafeGEPs_marks marks_def marker_example_instructions marked_gep_def marker_example_fields)
  moreover have "\<not> alreadyBracketed marker_example 4" "\<not> alreadyBracketed marker_example 5"
    by (simp_all add: alreadyBracketed_def marker_example_fields)
  ultimately show ?thesis
    using reported_accesses_reach_taint [OF marker_finish] by (auto simp: marker_options_def)
qed

end
