(* ===== verification/UMS_Driver.thy ===== *)
theory UMS_Driver
  imports UMS_Pass Uriah_Pass Data_Guard Marker_Protocol
begin

text \<open>
  The end of the driver (\<^verbatim>\<open>runOnModule\<close> of \<^verbatim>\<open>UnifiedMemSafe.cpp\<close>): the classified store goes to the heap analysis
  and then, with the module that analysis has changed, to the stack analysis; if one of the options for
  a comparison run is set, the markers of address computations are removed again.
\<close>

subsection \<open>Statistics\<close>

record ccured_counts =
  CCuredSafePtrs :: nat
  CCuredSeqPtrs :: nat
  CCuredDynPtrs :: nat

definition printStats :: "AnalysisState \<Rightarrow> ccured_counts \<Rightarrow> ccured_counts" where
  "printStats st c =
     (let n = GetVariablesStateAsString st
      in \<lparr>CCuredSafePtrs = (CCuredSafePtrs c + safeptrscount n) mod 2 ^ 32,
          CCuredSeqPtrs = (CCuredSeqPtrs c + seqptrscount n) mod 2 ^ 32,
          CCuredDynPtrs = (CCuredDynPtrs c + dynptrscount n) mod 2 ^ 32\<rparr>)"

subsection \<open>Removing markers\<close>

definition isMarker :: "vr_options \<Rightarrow> ir \<Rightarrow> vid \<Rightarrow> bool" where
  "isMarker opts I v \<longleftrightarrow> kind I v = KCall \<and>
     (case inlineAsm I (calledOperand I v) of
        None \<Rightarrow> False
      | Some asmStr \<Rightarrow>
          SFIOnly opts \<and> (asmStr = MAGIC_ASM_BEGIN \<or> asmStr = MAGIC_ASM_END) \<or>
          asmStr = NORMAL_MAGIC_ASM_BEGIN \<or> asmStr = NORMAL_MAGIC_ASM_END)"

definition removeMarkers :: "vr_options \<Rightarrow> ir \<Rightarrow> ir" where
  "removeMarkers opts I =
     (if DiffOnly opts \<or> SFIOnly opts
      then I\<lparr>insts := (\<lambda>b. filter (\<lambda>v. \<not> isMarker opts I v) (insts I b))\<rparr> else I)"

subsection \<open>The run\<close>

record ums_result =
  ums_state :: AnalysisState
  ums_counts :: ccured_counts
  ums_heap :: uriah_result
  ums_stack :: guard_result
  ums_ir :: ir

text \<open>The addresses of the instructions that the two analyses insert are \<open>freshHeap\<close> and \<open>freshStack\<close>.\<close>

definition ums_runOnModule ::
    "nat \<Rightarrow> ums_env \<Rightarrow> ir \<Rightarrow> vr_options \<Rightarrow> pta \<Rightarrow> GenericGraph \<Rightarrow> node_heap \<Rightarrow> (AnalysisState \<Rightarrow> vid list)
      \<Rightarrow> (vid \<Rightarrow> bool) \<Rightarrow> (vid \<Rightarrow> fresh_ids) \<Rightarrow> (vid \<Rightarrow> fresh_ids) \<Rightarrow> slot_layout \<Rightarrow> bool \<Rightarrow> vid set \<Rightarrow> tags
      \<Rightarrow> ccured_counts \<Rightarrow> ums_result exec" where
  "ums_runOnModule n E I opts P G h order allocFn freshHeap freshStack slotIs hasPTASetup oowResults t c =
     Option.bind (classifyModule E I P G h order) (\<lambda>st.
     exec_bind (identifyDifferentKindsOfUnsafeHeapPointers n I opts P (Some allocFn) (junkInfo E) G h freshHeap slotIs
         hasPTASetup st oowResults t) (\<lambda>u.
     exec_bind (identifyDifferentKindsOfUnsafeStackPointers n (vr_ir (uriah_ranges u)) opts P allocFn freshStack slotIs
         hasPTASetup (heapPointerSet (uriah_sets u)) st oowResults (vr_tags (uriah_ranges u))) (\<lambda>g.
     Some (Returned \<lparr>ums_state = st, ums_counts = printStats st c, ums_heap = u, ums_stack = g,
       ums_ir = removeMarkers opts (vr_ir (guard_ranges g))\<rparr>))))"

subsection \<open>Removing what was inserted\<close>

definition removes_own :: "vr_options \<Rightarrow> bool" where
  "removes_own opts \<longleftrightarrow> SFIOnly opts \<or> DiffOnly opts \<and> UsePC opts"

lemma insts_removeMarkers:
  "removes_own opts \<Longrightarrow> insts (removeMarkers opts I) b = filter (\<lambda>v. \<not> isMarker opts I v) (insts I b)"
  by (auto simp: removeMarkers_def removes_own_def)

lemma filter_insert_around: "\<not> p a \<Longrightarrow> \<not> p b \<Longrightarrow> filter p (insert_around b g a xs) = filter p xs"
  by (induction xs) auto

lemma isMarker_old:
  "bracket_ok opts I g new \<Longrightarrow> v \<in> set (module_instructions I) \<Longrightarrow> isMarker opts (bracketGEP opts g new I) v = isMarker opts I v"
  by (simp add: isMarker_def bracketGEP_old)

lemma isMarker_new:
  assumes "bracket_ok opts I g new" and "removes_own opts"
  shows "isMarker opts (bracketGEP opts g new I) (callBefore new)" "isMarker opts (bracketGEP opts g new I) (callAfter new)"
  using assms by (auto simp: isMarker_def bracketGEP_calls removes_own_def)

lemma remove_one:
  assumes "bracket_ok opts I g new" and "removes_own opts" and "f \<in> set (moduleFunctions I)" and "b \<in> set (blocks I f)"
  shows "filter (\<lambda>v. \<not> isMarker opts (bracketGEP opts g new I) v) (insts (bracketGEP opts g new I) b) =
    filter (\<lambda>v. \<not> isMarker opts I v) (insts I b)"
proof -
  let ?J = "bracketGEP opts g new I"
  have "filter (\<lambda>v. \<not> isMarker opts ?J v) (insts ?J b) = filter (\<lambda>v. \<not> isMarker opts ?J v) (insts I b)"
    using isMarker_new [OF assms(1,2)] by (simp add: bracketGEP_fields(3) filter_insert_around)
  also have "\<dots> = filter (\<lambda>v. \<not> isMarker opts I v) (insts I b)"
  proof (rule filter_cong [OF refl])
    fix v assume "v \<in> set (insts I b)"
    then have "v \<in> set (module_instructions I)" using assms(3,4) by (auto simp: in_module_instructions)
    then show "(\<not> isMarker opts ?J v) = (\<not> isMarker opts I v)" using isMarker_old [OF assms(1)] by simp
  qed
  finally show ?thesis .
qed

lemma remove_all:
  assumes "removes_own opts" and "f \<in> set (moduleFunctions I)" and "b \<in> set (blocks I f)"
  shows "blocks_wf I \<Longrightarrow> slots_ok opts gs I \<Longrightarrow>
    filter (\<lambda>v. \<not> isMarker opts (bracketGEPs opts gs I) v) (insts (bracketGEPs opts gs I) b) =
    filter (\<lambda>v. \<not> isMarker opts I v) (insts I b)"
  using assms
proof (induction opts gs I rule: bracketGEPs.induct)
  case (2 opts g new gs I)
  note br = slots_ok_head [OF 2(2,3)]
  show ?case
  proof (cases "alreadyBracketed I g")
    case True
    then show ?thesis using 2 slots_ok_tail [OF 2(3)] by simp
  next
    case False
    then show ?thesis
      using 2(1) [OF _ _ 2(4)] 2(5,6) slots_ok_step [OF 2(2,3)] bracketGEP_wf [OF br] remove_one [OF br 2(4-6)]
      by (simp add: bracketGEP_fields)
  qed
qed simp

text \<open>
  C30: Removing markers undoes bracketing: with an option set under which the markers an analysis inserts are
  removed, every block of the module that was bracketed and then cleaned has the instructions it would
  have had after cleaning the original module; a module without markers gets its instructions back.
\<close>

theorem removing_markers_undoes_bracketing:
  assumes "SFIOnly opts \<or> DiffOnly opts \<and> UsePC opts" and "blocks_wf I" and "slots_ok opts gs I"
    and "f \<in> set (moduleFunctions I)" and "b \<in> set (blocks I f)"
  shows "insts (removeMarkers opts (bracketGEPs opts gs I)) b = insts (removeMarkers opts I) b \<and>
    (list_all (\<lambda>v. \<not> isMarker opts I v) (insts I b) \<longrightarrow> insts (removeMarkers opts (bracketGEPs opts gs I)) b = insts I b)"
proof -
  have own: "removes_own opts" using assms(1) by (simp add: removes_own_def)
  show ?thesis using remove_all [OF own assms(4,5,2,3)] by (auto simp: insts_removeMarkers [OF own] list_all_iff filter_id_conv)
qed

definition sfi_options :: vr_options where
  "sfi_options = marker_options\<lparr>SFIOnly := True\<rparr>"

theorem removing_markers_undoes_bracketing_witness:
  "insts (removeMarkers sfi_options (bracketGEPs sfi_options (map (\<lambda>g. (g, marker_ids g)) [4, 5]) marker_example)) 3 = [4, 5, 6]"
proof -
  have "blocks_wf marker_example" by (simp add: blocks_wf_def marker_example_def)
  moreover have "slots_ok sfi_options (map (\<lambda>g. (g, marker_ids g)) [4, 5]) marker_example"
    by (simp add: slots_ok_def call_slots_def asm_slot_def new_calls_def marker_example_instructions marker_example_fields
        marker_ids_def pairwise_insert)
  moreover have "2 \<in> set (moduleFunctions marker_example)" "3 \<in> set (blocks marker_example 2)" "insts marker_example 3 = [4, 5, 6]"
    by (simp_all add: marker_example_def)
  moreover have "list_all (\<lambda>v. \<not> isMarker sfi_options marker_example v) [4, 5, 6]"
    by (simp add: isMarker_def marker_example_fields)
  ultimately show ?thesis
    using removing_markers_undoes_bracketing [of sfi_options marker_example "map (\<lambda>g. (g, marker_ids g)) [4, 5]" 2 3]
    by (auto simp: sfi_options_def)
qed

subsection \<open>The whole run ends\<close>

lemma valueRangeAnalysis_returns:
  assumes "module_closed I" and "depth_bound I 1 \<le> n"
  shows "\<exists>r. valueRangeAnalysis n I opts P fresh m st oow t = Some r"
proof (cases "find (\<lambda>f. valueName I f = EntryFunction opts) (moduleFunctions I)")
  case None
  then show ?thesis by (simp add: valueRangeAnalysis_def)
next
  case (Some f)
  then have "set [f] \<subseteq> set (moduleFunctions I)" by (auto simp: find_Some_iff)
  then obtain A where A: "computeForwardDataflow n I (range_policy I (UsePC opts)) (new_analysis 1 [f]) = Some A"
    using range_domain.dataflow_returns [OF assms, of "[f]" I "UsePC opts"] unfolding exec_all_iff by blast
  show ?thesis using Some A by (cases A) (auto simp: valueRangeAnalysis_def exec_bind_def lift_def split: option.splits)
qed

lemma collectUnsafe_subset: "collectUnsafe I st es = Some S \<Longrightarrow> S \<subseteq> snd ` set es"
  by (induction es arbitrary: S) (fastforce simp: bind_eq_Some_conv split: if_splits)+

lemma vr_reported:
  assumes "valueRangeAnalysis n I opts P fresh m st oow t = Some (Returned r)"
  shows "vr_ir r = bracketGEPs opts (map (\<lambda>g. (g, fresh g)) (sorted_list_of_set (heapUnsafeSeqPointerSet r))) I"
    "heapUnsafeSeqPointerSet r \<subseteq> keys m"
proof -
  show "vr_ir r = bracketGEPs opts (map (\<lambda>g. (g, fresh g)) (sorted_list_of_set (heapUnsafeSeqPointerSet r))) I"
    using valueRangeAnalysis_finish [OF assms] vr_finish_shape(1) by (auto simp: vr_empty_def)
  show "heapUnsafeSeqPointerSet r \<subseteq> keys m"
  proof (cases "find (\<lambda>f. valueName I f = EntryFunction opts) (moduleFunctions I)")
    case None
    then show ?thesis using assms by (auto simp: valueRangeAnalysis_def vr_empty_def)
  next
    case (Some f)
    then obtain A S0 where S0: "collectUnsafe I st (examined I m A) = Some S0" "vr_finish I opts P fresh m oow S0 t = Some r"
      using assms by (auto simp: valueRangeAnalysis_def exec_bind_Returned)
    have "snd ` set (examined I m A) \<subseteq> keys m" by (auto simp: examined_def keys_iff)
    then show ?thesis using collectUnsafe_subset [OF S0(1)] vr_finish_shape(2) [OF S0(2)] by blast
  qed
qed

lemma bracketGEP_other [simp]:
  "reversePostOrder (bracketGEP opts g new I) = reversePostOrder I" "successors (bracketGEP opts g new I) = successors I"
  "isDeclaration (bracketGEP opts g new I) = isDeclaration I"
  "calledFunction (bracketGEP opts g new I) = (calledFunction I)(callBefore new := None, callAfter new := None)"
  by (simp_all add: bracketGEP_def Let_def)

lemma analyzable_bracketGEP: "isAnalyzableCall (bracketGEP opts g new I) i \<Longrightarrow>
    isAnalyzableCall I i \<and> calledFunction (bracketGEP opts g new I) i = calledFunction I i \<and> i \<noteq> callBefore new \<and> i \<noteq> callAfter new"
  by (auto simp: isAnalyzableCall_def bracketGEP_fields(4) split: if_splits option.splits)

lemma set_insert_around_subset: "set (insert_around b g a xs) \<subseteq> insert b (insert a (set xs))"
  by (induction xs) auto

lemma module_closed_bracketGEP: "module_closed I \<Longrightarrow> module_closed (bracketGEP opts g new I)"
proof -
  assume I: "module_closed I"
  have "i \<in> set (insts I b)" if "i \<in> set (insts (bracketGEP opts g new I) b)" "isAnalyzableCall (bracketGEP opts g new I) i" for b i
    using that analyzable_bracketGEP [OF that(2)] set_insert_around_subset [of "callBefore new" g "callAfter new" "insts I (parentBB I g)"]
    by (auto simp: bracketGEP_fields(3) split: if_splits)
  then show ?thesis using I analyzable_bracketGEP [of opts g new I]
    unfolding module_closed_def list_all_iff bracketGEP_fields(1,2) bracketGEP_other(1,2) by metis
qed

lemma module_closed_bracketGEPs: "module_closed I \<Longrightarrow> module_closed (bracketGEPs opts gs I)"
  by (induction opts gs I rule: bracketGEPs.induct) (auto simp: module_closed_bracketGEP)

lemma aliasedWith_total: "wf (root_chain I) \<Longrightarrow> \<exists>b. aliasedWith I P G h ptr nodePtr vs = Some b"
  by (induction vs) (auto simp: queryAliasing_total split: option.splits)

lemma findAliasedAllocations_total: "wf (root_chain I) \<Longrightarrow> \<exists>A. findAliasedAllocations I P G h ptrs m A0 = Some A"
proof (induction ptrs arbitrary: A0)
  case (Cons p ps)
  show ?case
  proof (cases "hasValueNode P p \<and> getNode G p \<noteq> None")
    case True
    then obtain n where n: "getNode G p = Some n" by auto
    obtain b where "aliasedWith I P G h p n (map fst m) = Some b" using aliasedWith_total [OF Cons.prems] by blast
    then show ?thesis using True n Cons.IH [OF Cons.prems] by simp
  qed (use Cons.IH [OF Cons.prems] in \<open>auto split: option.splits\<close>)
qed simp

lemma heap_analysis_returns:
  assumes "wf (root_chain I)" and "state_ok st" and "module_closed I"
  obtains S where "\<And>n. depth_bound I 1 \<le> n \<Longrightarrow>
      \<exists>out. identifyDifferentKindsOfUnsafeHeapPointers n I opts P tli junk G h fresh slotIs True st oow t = Some out \<and>
        (\<forall>u. out = Returned u \<longrightarrow> uriah_sets u = S \<and>
           (\<exists>T \<subseteq> keys (heapPointerSet S). vr_ir (uriah_ranges u) = bracketGEPs opts (map (\<lambda>g. (g, fresh g)) (sorted_list_of_set T)) I))"
proof -
  obtain S where S: "heapPointerSets I P tli junk G h st = Some S" using heapPointerSets_characterised [OF assms(1,2)] by blast
  obtain allocs where a: "findNonAliasedAndRepresentativeHeapPointers I P (heapPointerSet S) = Some allocs"
    using nonAliased_characterised [OF assms(1)] by blast
  obtain A B where AB: "findAliasedAllocations I P G h (sorted_list_of_set allocs) (heapSeqPointerSet S) {} = Some A"
    "findAliasedAllocations I P G h (sorted_list_of_set allocs) (heapDynPointerSet S) {} = Some B"
    using findAliasedAllocations_total [OF assms(1)] by metis
  show ?thesis
  proof (rule that [of S])
    fix n assume n: "depth_bound I 1 \<le> n"
    obtain r where r: "valueRangeAnalysis n I opts P fresh (heapPointerSet S) st oow t = Some r"
      using valueRangeAnalysis_returns [OF assms(3) n] by blast
    show "\<exists>out. identifyDifferentKindsOfUnsafeHeapPointers n I opts P tli junk G h fresh slotIs True st oow t = Some out \<and>
        (\<forall>u. out = Returned u \<longrightarrow> uriah_sets u = S \<and>
           (\<exists>T \<subseteq> keys (heapPointerSet S). vr_ir (uriah_ranges u) = bracketGEPs opts (map (\<lambda>g. (g, fresh g)) (sorted_list_of_set T)) I))"
    proof (cases r)
      case Crashed
      then show ?thesis using S a AB r by (simp add: identifyDifferentKindsOfUnsafeHeapPointers_def)
    next
      case (Returned q)
      then have "vr_ir q = bracketGEPs opts (map (\<lambda>g. (g, fresh g)) (sorted_list_of_set (heapUnsafeSeqPointerSet q))) I"
        "heapUnsafeSeqPointerSet q \<subseteq> keys (heapPointerSet S)" using vr_reported r by auto
      then show ?thesis using S a AB r Returned
        by (cases "safeTypeCastAnalysis (vr_ir q) slotIs (heapDynPtrSet S)")
          (auto simp: identifyDifferentKindsOfUnsafeHeapPointers_def)
    qed
  qed
qed

lemma stack_analysis_returns:
  assumes "module_closed J" and "depth_bound J 1 \<le> n"
  shows "\<exists>out. identifyDifferentKindsOfUnsafeStackPointers n J opts P allocFn fresh slotIs b hp st oow t = Some out"
proof -
  obtain r where r: "valueRangeAnalysis n J opts P fresh (stackSeqPointerSet (stackPointers J P allocFn hp st)) st oow t = Some r"
    using valueRangeAnalysis_returns [OF assms] by blast
  then show ?thesis by (cases r) (auto simp: identifyDifferentKindsOfUnsafeStackPointers_def Let_def lift_def)
qed

text \<open>
  C8: The driver ends: on a well-formed module with a computed points-to analysis there is a bound on the
  call depth beyond which the run of classification, heap analysis, stack analysis on the changed module
  and removal of markers always ends, with a result or a failed assertion.
\<close>

theorem driver_terminates:
  assumes "module_ok I" and "env_ok E I" and "graph_ok h" and "\<And>st. set (order st) \<subseteq> keys (Variables st)"
    and "wf (root_chain I)" and "module_closed I"
  shows "\<exists>N. \<forall>n \<ge> N. ums_runOnModule n E I opts P G h order allocFn freshHeap freshStack slotIs True oow t c \<noteq> None"
proof -
  obtain st where st: "classifyModule E I P G h order = Some st" "pass_inv I st"
    using classifyModule_ok [where E = E and I = I and h = h and order = order and P = P and G = G] assms by metis
  then have ok: "state_ok st" by (auto simp: pass_inv_def state_ok_alt entry_ok_def good_size_def)
  let ?heap = "\<lambda>n. identifyDifferentKindsOfUnsafeHeapPointers n I opts P (Some allocFn) (junkInfo E) G h freshHeap slotIs True st oow t"
  obtain S where S: "\<And>n. depth_bound I 1 \<le> n \<Longrightarrow> \<exists>out. ?heap n = Some out \<and> (\<forall>u. out = Returned u \<longrightarrow> uriah_sets u = S \<and>
      (\<exists>T \<subseteq> keys (heapPointerSet S). vr_ir (uriah_ranges u) = bracketGEPs opts (map (\<lambda>g. (g, freshHeap g)) (sorted_list_of_set T)) I))"
    using heap_analysis_returns [OF assms(5) ok assms(6)] by blast
  let ?J = "\<lambda>T. bracketGEPs opts (map (\<lambda>g. (g, freshHeap g)) (sorted_list_of_set T)) I"
  let ?D = "insert (depth_bound I 1) ((\<lambda>T. depth_bound (?J T) 1) ` Pow (keys (heapPointerSet S)))"
  have fin: "finite ?D" by (simp add: keys_def)
  have "ums_runOnModule n E I opts P G h order allocFn freshHeap freshStack slotIs True oow t c \<noteq> None" if n: "Max ?D \<le> n" for n
  proof -
    have d: "depth_bound I 1 \<le> n" "\<And>T. T \<subseteq> keys (heapPointerSet S) \<Longrightarrow> depth_bound (?J T) 1 \<le> n"
      using n fin by auto
    obtain out where o: "?heap n = Some out" "\<forall>u. out = Returned u \<longrightarrow> uriah_sets u = S \<and>
      (\<exists>T \<subseteq> keys (heapPointerSet S). vr_ir (uriah_ranges u) = ?J T)" using S [OF d(1)] by blast
    show ?thesis
    proof (cases out)
      case Crashed
      then show ?thesis using st(1) o(1) by (simp add: ums_runOnModule_def)
    next
      case (Returned u)
      then obtain T where T: "T \<subseteq> keys (heapPointerSet S)" "vr_ir (uriah_ranges u) = ?J T" using o(2) by blast
      have "\<exists>p. identifyDifferentKindsOfUnsafeStackPointers n (?J T) opts P allocFn freshStack slotIs True
          (heapPointerSet (uriah_sets u)) st oow (vr_tags (uriah_ranges u)) = Some p"
        by (rule stack_analysis_returns [OF module_closed_bracketGEPs [OF assms(6)] d(2) [OF T(1)]])
      then obtain p where p: "identifyDifferentKindsOfUnsafeStackPointers n (?J T) opts P allocFn freshStack slotIs True
          (heapPointerSet (uriah_sets u)) st oow (vr_tags (uriah_ranges u)) = Some p" by blast
      then show ?thesis using st(1) o(1) Returned T(2) by (cases p) (simp_all add: ums_runOnModule_def)
    qed
  qed
  then show ?thesis by blast
qed

lemma ums_example_root_chain: "wf (root_chain ums_example)"
proof (rule wf_subset)
  show "wf (inv_image less_than (\<lambda>v :: vid. if v = 8 then 5 else v))" by simp
  show "root_chain ums_example \<subseteq> inv_image less_than (\<lambda>v :: vid. if v = 8 then 5 else v)"
    by (auto simp: root_chain_def rootStep_def ums_example_def empty_ir_def getOperand_def allocArgument_def split: if_splits)
qed

theorem driver_terminates_witness:
  "\<exists>n. ums_runOnModule n ums_example_env ums_example marker_options pta_example ums_example_graph ums_example_heap
     (\<lambda>st. map fst (Variables st)) (\<lambda>_. False) marker_ids marker_ids no_slots True {} no_tags
     \<lparr>CCuredSafePtrs = 0, CCuredSeqPtrs = 0, CCuredDynPtrs = 0\<rparr> \<noteq> None"
proof -
  have c: "module_closed ums_example" by (simp add: module_closed_def ums_example_def empty_ir_def isAnalyzableCall_def)
  obtain N where "\<forall>n \<ge> N. ums_runOnModule n ums_example_env ums_example marker_options pta_example ums_example_graph ums_example_heap
     (\<lambda>st. map fst (Variables st)) (\<lambda>_. False) marker_ids marker_ids no_slots True {} no_tags
     \<lparr>CCuredSafePtrs = 0, CCuredSeqPtrs = 0, CCuredDynPtrs = 0\<rparr> \<noteq> None"
    using driver_terminates [OF ums_example_ok _ ums_example_root_chain, of "\<lambda>st. map fst (Variables st)" marker_options pta_example
        ums_example_graph "\<lambda>_. False" marker_ids marker_ids no_slots "{}" no_tags "\<lparr>CCuredSafePtrs = 0, CCuredSeqPtrs = 0, CCuredDynPtrs = 0\<rparr>"]
      c by (simp add: keys_def) blast
  then show ?thesis by blast
qed

end
