(* ===== verification/Data_Dependency.thy ===== *)
theory Data_Dependency
  imports PDG_Graph Alias_Sets
begin

text \<open>
  The data dependences (\<^verbatim>\<open>DataDependencyGraph.cpp\<close>): the pass adds def-use, read-after-write and alias edges
  between the nodes of instructions.  The memory dependence analysis of LLVM is the parameter \<open>dep\<close>:
  \<open>dep i\<close> is the instruction a load depends on, if there is one.  The nodes of the graph \<open>G\<close> in the heap
  \<open>h\<close> have been created before by \<^verbatim>\<open>ProgramGraph::build\<close>.
\<close>

subsection \<open>Edges of one instruction\<close>

datatype AliasResult = NoAlias | MayAlias | MustAlias | PartialAlias

fun storedAlias :: "ir \<Rightarrow> vid \<Rightarrow> vid \<Rightarrow> vid list \<Rightarrow> bool" where
  "storedAlias I load_addr v2 [] = False"
| "storedAlias I load_addr v2 (user # us) =
     (if kind I user = KLoad \<and> user = v2 then True
      else if kind I user = KStore \<and> storePointer I user = load_addr \<and> storeValue I user = v2 then True
      else storedAlias I load_addr v2 us)"

definition queryAliasUnderApproximate :: "ir \<Rightarrow> vid \<Rightarrow> vid \<Rightarrow> AliasResult" where
  "queryAliasUnderApproximate I v1 v2 =
     (if \<not> isPointerTy (typeOf I v1) \<or> \<not> isPointerTy (typeOf I v2) then NoAlias
      else if kind I v1 = KCast BitCast \<and> getOperand I v1 0 = v2 then MustAlias
      else if kind I v1 = KLoad \<and> storedAlias I (loadPointer I v1) v2 (users I (loadPointer I v1)) then MustAlias
      else if kind I v1 = KGEP \<and> gepPointer I v1 = v2 \<and> hasAllZeroIndices I v1 then MustAlias
      else NoAlias)"

definition linkAliases :: "ir \<Rightarrow> GenericGraph \<Rightarrow> vid \<Rightarrow> vid \<Rightarrow> node_heap \<Rightarrow> node_heap" where
  "linkAliases I G i j h =
     (case (getNode G i, getNode G j) of
        (Some src, Some dst) \<Rightarrow>
          (if kind I i \<noteq> KCast BitCast \<and> kind I j \<noteq> KCast BitCast \<and> typeOf I i \<noteq> typeOf I j then h
           else addNeighbor dst src DATA_ALIAS (addNeighbor src dst DATA_ALIAS h))
      | _ \<Rightarrow> h)"

definition addAliasEdges :: "ir \<Rightarrow> GenericGraph \<Rightarrow> vid \<Rightarrow> node_heap \<Rightarrow> node_heap" where
  "addAliasEdges I G inst h =
     fold (\<lambda>other h.
         if inst = other then h
         else if \<not> isPointerTy (typeOf I inst) then h
         else if queryAliasUnderApproximate I inst other \<noteq> NoAlias then linkAliases I G inst other h
         else h)
       (instructions I (getFunction I inst)) h"

definition addDefUseEdges :: "ir \<Rightarrow> GenericGraph \<Rightarrow> vid \<Rightarrow> node_heap \<Rightarrow> node_heap" where
  "addDefUseEdges I G inst h =
     fold (\<lambda>user h. case (getNode G inst, getNode G user) of
         (Some src, Some dst) \<Rightarrow> addNeighbor src dst DATA_DEF_USE h
       | _ \<Rightarrow> h) (users I inst) h"

definition addRAWEdges :: "ir \<Rightarrow> (vid \<Rightarrow> vid option) \<Rightarrow> GenericGraph \<Rightarrow> vid \<Rightarrow> node_heap \<Rightarrow> node_heap" where
  "addRAWEdges I dep G inst h =
     (if kind I inst \<noteq> KLoad then h
      else case dep inst of
             None \<Rightarrow> h
           | Some dep_inst \<Rightarrow>
               (if kind I dep_inst \<noteq> KStore then h
                else case (getNode G inst, getNode G dep_inst) of
                       (Some src, Some dst) \<Rightarrow> addNeighbor dst src DATA_RAW h
                     | _ \<Rightarrow> h))"

subsection \<open>Edges of a function\<close>

definition dependInst ::
    "ir \<Rightarrow> pta \<Rightarrow> (vid \<Rightarrow> vid option) \<Rightarrow> GenericGraph \<Rightarrow> vid \<Rightarrow> node_heap \<times> (nat, vid list) dict
      \<Rightarrow> node_heap \<times> (nat, vid list) dict" where
  "dependInst I P dep G inst acc =
     (addAliasEdges I G inst (addRAWEdges I dep G inst (addDefUseEdges I G inst (fst acc))),
      fold (addToObject inst) (getExpandedFIPts P inst) (snd acc))"

fun linkAliasSet :: "ir \<Rightarrow> GenericGraph \<Rightarrow> vid list \<Rightarrow> node_heap \<Rightarrow> node_heap" where
  "linkAliasSet I G [] h = h"
| "linkAliasSet I G (i # is) h = linkAliasSet I G is (fold (linkAliases I G i) is h)"

definition dependFunction ::
    "ir \<Rightarrow> pta \<Rightarrow> (vid \<Rightarrow> vid option) \<Rightarrow> GenericGraph \<Rightarrow> vid \<Rightarrow> node_heap \<Rightarrow> node_heap" where
  "dependFunction I P dep G F h =
     (let (h1, obj_to_instset_map) = fold (dependInst I P dep G) (instructions I F) (h, []);
          unique_alias_inst_set = fold (\<lambda>(_, s). insertAliasSet s) obj_to_instset_map []
      in fold (linkAliasSet I G) unique_alias_inst_set h1)"

definition ddg_runOnModule :: "ir \<Rightarrow> pta \<Rightarrow> (vid \<Rightarrow> vid option) \<Rightarrow> GenericGraph \<Rightarrow> node_heap \<Rightarrow> node_heap" where
  "ddg_runOnModule I P dep G h =
     fold (\<lambda>F h. if isDeclaration I F \<or> blocks I F = [] then h else dependFunction I P dep G F h) (moduleFunctions I) h"

subsection \<open>The edges a step adds\<close>

definition node_edges :: "GenericGraph \<Rightarrow> vid \<Rightarrow> vid \<Rightarrow> EdgeType \<Rightarrow> edge_spec set" where
  "node_edges G i j t = {(m, n, t) | m n. getNode G i = Some m \<and> getNode G j = Some n}"

definition types_agree :: "ir \<Rightarrow> vid \<Rightarrow> vid \<Rightarrow> bool" where
  "types_agree I i j \<longleftrightarrow> kind I i = KCast BitCast \<or> kind I j = KCast BitCast \<or> typeOf I i = typeOf I j"

definition alias_links :: "ir \<Rightarrow> GenericGraph \<Rightarrow> vid \<Rightarrow> vid \<Rightarrow> edge_spec set" where
  "alias_links I G i j = (if types_agree I i j then node_edges G i j DATA_ALIAS \<union> node_edges G j i DATA_ALIAS else {})"

lemma alias_links_sym: "alias_links I G i j = alias_links I G j i"
  by (auto simp: alias_links_def types_agree_def)

lemma adds_linkAliases: "adds (linkAliases I G i j) (alias_links I G i j)"
  unfolding adds_def linkAliases_def alias_links_def types_agree_def node_edges_def
  by (auto intro!: mirrors_add split: option.split)

lemma adds_linkAliasSet:
  "distinct s \<Longrightarrow> adds (linkAliasSet I G s) ((\<Union>i \<in> set s. \<Union>j \<in> set s - {i}. alias_links I G i j))"
proof (induction s)
  case Nil
  then show ?case by (simp add: adds_def)
next
  case (Cons i s)
  have "adds (\<lambda>h. linkAliasSet I G s (fold (linkAliases I G i) s h))
      ((\<Union>j \<in> set s. alias_links I G i j) \<union> (\<Union>i \<in> set s. \<Union>j \<in> set s - {i}. alias_links I G i j))"
    by (rule adds_comp [OF adds_fold [OF adds_linkAliases] Cons.IH]) (use Cons.prems in simp)
  moreover have "(\<Union>j \<in> set s. alias_links I G i j) \<union> (\<Union>i \<in> set s. \<Union>j \<in> set s - {i}. alias_links I G i j) =
      (\<Union>k \<in> set (i # s). \<Union>j \<in> set (i # s) - {k}. alias_links I G k j)"
    using Cons.prems alias_links_sym [of I G _ i] by auto
  ultimately show ?case by simp
qed

lemma adds_defUse: "adds (addDefUseEdges I G i) (\<Union>u \<in> set (users I i). node_edges G i u DATA_DEF_USE)"
  unfolding addDefUseEdges_def
proof (rule adds_fold)
  fix u
  show "adds (\<lambda>h. case (getNode G i, getNode G u) of (Some src, Some dst) \<Rightarrow> addNeighbor src dst DATA_DEF_USE h | _ \<Rightarrow> h)
      (node_edges G i u DATA_DEF_USE)"
    using adds_addNeighbor by (auto simp: node_edges_def adds_def split: option.split)
qed

definition raw_edges :: "ir \<Rightarrow> (vid \<Rightarrow> vid option) \<Rightarrow> GenericGraph \<Rightarrow> vid \<Rightarrow> edge_spec set" where
  "raw_edges I dep G i = \<Union>{node_edges G s i DATA_RAW | s. kind I i = KLoad \<and> dep i = Some s \<and> kind I s = KStore}"

lemma adds_RAW: "adds (addRAWEdges I dep G i) (raw_edges I dep G i)"
  using adds_addNeighbor by (auto simp: addRAWEdges_def raw_edges_def node_edges_def adds_def split: option.split)

lemma query_pointer: "queryAliasUnderApproximate I i j \<noteq> NoAlias \<Longrightarrow> isPointerTy (typeOf I i)"
  by (auto simp: queryAliasUnderApproximate_def split: if_splits)

lemma adds_addAliasEdges:
  "adds (addAliasEdges I G i) (\<Union>{alias_links I G i j | j. j \<in> set (instructions I (getFunction I i)) \<and> j \<noteq> i \<and>
     queryAliasUnderApproximate I i j \<noteq> NoAlias})"
proof -
  have "adds (addAliasEdges I G i) (\<Union>j \<in> set (instructions I (getFunction I i)).
      if j \<noteq> i \<and> queryAliasUnderApproximate I i j \<noteq> NoAlias then alias_links I G i j else {})"
    unfolding addAliasEdges_def
    by (rule adds_fold) (use adds_linkAliases query_pointer in \<open>auto simp: adds_def\<close>)
  then show ?thesis by (rule adds_cong) auto
qed

subsection \<open>The edges of the module\<close>

definition may_alias :: "ir \<Rightarrow> pta \<Rightarrow> vid \<Rightarrow> vid \<Rightarrow> bool" where
  "may_alias I P i j \<longleftrightarrow> i \<noteq> j \<and> types_agree I i j \<and>
     (queryAliasUnderApproximate I i j \<noteq> NoAlias \<or> queryAliasUnderApproximate I j i \<noteq> NoAlias \<or> shares_object P i j)"

definition function_dependences :: "ir \<Rightarrow> pta \<Rightarrow> (vid \<Rightarrow> vid option) \<Rightarrow> GenericGraph \<Rightarrow> vid \<Rightarrow> edge_spec set" where
  "function_dependences I P dep G F =
     (\<Union>i \<in> set (instructions I F).
        (\<Union>u \<in> set (users I i). node_edges G i u DATA_DEF_USE) \<union> raw_edges I dep G i \<union>
        (\<Union>j \<in> {j \<in> set (instructions I F). may_alias I P i j}. node_edges G i j DATA_ALIAS))"

definition defined_functions :: "ir \<Rightarrow> vid set" where
  "defined_functions I = {F \<in> set (moduleFunctions I). \<not> isDeclaration I F \<and> blocks I F \<noteq> []}"

definition parents_ok :: "ir \<Rightarrow> bool" where
  "parents_ok I \<longleftrightarrow> (\<forall>F \<in> defined_functions I. \<forall>i \<in> set (instructions I F). getFunction I i = F)"

definition inst_edges :: "ir \<Rightarrow> (vid \<Rightarrow> vid option) \<Rightarrow> GenericGraph \<Rightarrow> vid \<Rightarrow> edge_spec set" where
  "inst_edges I dep G i = (\<Union>u \<in> set (users I i). node_edges G i u DATA_DEF_USE) \<union> raw_edges I dep G i \<union>
     \<Union>{alias_links I G i j | j. j \<in> set (instructions I (getFunction I i)) \<and> j \<noteq> i \<and> queryAliasUnderApproximate I i j \<noteq> NoAlias}"

lemma fold_dependInst:
  assumes "calls_ok M"
  shows "adds (\<lambda>h. fst (fold (dependInst I P dep G) is (h, M))) (\<Union>i \<in> set is. inst_edges I dep G i)"
    "\<exists>M'. (\<forall>h. snd (fold (dependInst I P dep G) is (h, M)) = M') \<and> calls_ok M' \<and>
       (\<forall>obj. set (object_calls M' obj) = set (object_calls M obj) \<union> {i \<in> set is. obj \<in> set (getExpandedFIPts P i)})"
proof -
  have fst_eq: "fst (fold (dependInst I P dep G) is acc) =
      fold (\<lambda>i h. addAliasEdges I G i (addRAWEdges I dep G i (addDefUseEdges I G i h))) is (fst acc)" for acc
    by (induction "is" arbitrary: acc) (simp_all add: dependInst_def)
  have snd_eq: "snd (fold (dependInst I P dep G) is acc) = fold (\<lambda>i. fold (addToObject i) (getExpandedFIPts P i)) is (snd acc)" for acc
    by (induction "is" arbitrary: acc) (simp_all add: dependInst_def)
  have "adds (fold (\<lambda>i h. addAliasEdges I G i (addRAWEdges I dep G i (addDefUseEdges I G i h))) is) (\<Union>i \<in> set is. inst_edges I dep G i)"
    unfolding inst_edges_def by (rule adds_fold) (rule adds_comp [OF adds_comp [OF adds_defUse adds_RAW] adds_addAliasEdges])
  then show "adds (\<lambda>h. fst (fold (dependInst I P dep G) is (h, M))) (\<Union>i \<in> set is. inst_edges I dep G i)"
    by (simp add: fst_eq adds_def)
  have "calls_ok (fold (\<lambda>i. fold (addToObject i) (getExpandedFIPts P i)) is M) \<and>
     (\<forall>obj. set (object_calls (fold (\<lambda>i. fold (addToObject i) (getExpandedFIPts P i)) is M) obj) =
        set (object_calls M obj) \<union> {i \<in> set is. obj \<in> set (getExpandedFIPts P i)})"
    using assms
  proof (induction "is" arbitrary: M)
    case (Cons i "is")
    have m: "calls_ok (fold (addToObject i) (getExpandedFIPts P i) M)"
      "\<And>obj. set (object_calls (fold (addToObject i) (getExpandedFIPts P i) M) obj) =
         set (object_calls M obj) \<union> (if obj \<in> set (getExpandedFIPts P i) then {i} else {})"
      using fold_addToObject [OF Cons.prems] by auto
    show ?case using Cons.IH [OF m(1)] m(2) by auto
  qed simp
  then show "\<exists>M'. (\<forall>h. snd (fold (dependInst I P dep G) is (h, M)) = M') \<and> calls_ok M' \<and>
       (\<forall>obj. set (object_calls M' obj) = set (object_calls M obj) \<union> {i \<in> set is. obj \<in> set (getExpandedFIPts P i)})"
    by (simp add: snd_eq)
qed

lemma linked_sets:
  assumes "calls_ok M" and "\<And>obj. set (object_calls M obj) = {i \<in> set is. obj \<in> set (getExpandedFIPts P i)}"
  shows "adds (fold (linkAliasSet I G) (fold (\<lambda>(_, s). insertAliasSet s) M []))
    (\<Union>i \<in> set is. \<Union>j \<in> {j \<in> set is. j \<noteq> i \<and> shares_object P i j}. alias_links I G i j)"
proof -
  let ?U = "fold insertAliasSet (map snd M) []"
  have U: "fold (\<lambda>(_, s). insertAliasSet s) M [] = ?U" by (simp add: fold_map comp_def case_prod_beta')
  have d: "distinct s" and o: "\<exists>obj. object_calls M obj = s" if "s \<in> set ?U" for s
  proof -
    have "s \<in> set (map snd M)" using that merged_subset [of "map snd M" "[]"] by auto
    then obtain obj where "map_of M obj = Some s" using assms(1) dict_ok_map_of by (force simp: calls_ok_def)
    then have "object_calls M obj = s" by (simp add: object_calls_def)
    then show "\<exists>obj. object_calls M obj = s" by blast
    then show "distinct s" using assms(1) by (auto simp: calls_ok_def)
  qed
  have "(\<Union>s \<in> set ?U. \<Union>i \<in> set s. \<Union>j \<in> set s - {i}. alias_links I G i j) =
      (\<Union>i \<in> set is. \<Union>j \<in> {j \<in> set is. j \<noteq> i \<and> shares_object P i j}. alias_links I G i j)" (is "?L = ?R")
  proof
    show "?L \<subseteq> ?R"
    proof
      fix e assume "e \<in> ?L"
      then obtain s i j where s: "s \<in> set ?U" "i \<in> set s" "j \<in> set s" "j \<noteq> i" and e: "e \<in> alias_links I G i j" by blast
      obtain obj where "object_calls M obj = s" using o s(1) by blast
      then have "i \<in> set is" "j \<in> set is" "shares_object P i j" using assms(2) [of obj] s by (auto simp: shares_object_def)
      then show "e \<in> ?R" using s(4) e by blast
    qed
    show "?R \<subseteq> ?L"
    proof
      fix e assume "e \<in> ?R"
      then obtain i j where ij: "i \<in> set is" "j \<in> set is" "j \<noteq> i" "shares_object P i j" and e: "e \<in> alias_links I G i j" by blast
      then obtain obj where obj: "i \<in> set (object_calls M obj)" "j \<in> set (object_calls M obj)"
        using assms(2) by (auto simp: shares_object_def)
      then have "map_of M obj = Some (object_calls M obj)" by (cases "map_of M obj") (simp_all add: object_calls_def)
      then have "object_calls M obj \<in> set (map snd M)" by (metis list.set_map map_of_SomeD image_eqI snd_conv)
      then obtain t where "t \<in> set ?U" "set (object_calls M obj) \<subseteq> set t"
        using merged_covers [of "map snd M" "[]"] by (auto simp: covers_def)
      then show "e \<in> ?L" using obj ij(3) e by blast
    qed
  qed
  then show ?thesis unfolding U using adds_fold [of ?U "linkAliasSet I G", OF adds_linkAliasSet] d by simp
qed

lemma symmetric_union:
  "(\<Union>i \<in> S. \<Union>j \<in> {j \<in> S. R i j}. A i j \<union> A j i) = (\<Union>i \<in> S. \<Union>j \<in> {j \<in> S. R i j \<or> R j i}. A i j)"
  by blast

lemma alias_part:
  "(\<Union>i \<in> S. \<Union>j \<in> {j \<in> S. j \<noteq> i \<and> queryAliasUnderApproximate I i j \<noteq> NoAlias}. alias_links I G i j) \<union>
   (\<Union>i \<in> S. \<Union>j \<in> {j \<in> S. j \<noteq> i \<and> shares_object P i j}. alias_links I G i j) =
   (\<Union>i \<in> S. \<Union>j \<in> {j \<in> S. may_alias I P i j}. node_edges G i j DATA_ALIAS)" (is "?L = ?R")
proof -
  let ?R0 = "\<lambda>i j. j \<noteq> i \<and> types_agree I i j \<and> (queryAliasUnderApproximate I i j \<noteq> NoAlias \<or> shares_object P i j)"
  have "?L = (\<Union>i \<in> S. \<Union>j \<in> {j \<in> S. ?R0 i j}. node_edges G i j DATA_ALIAS \<union> node_edges G j i DATA_ALIAS)"
    by (auto simp: alias_links_def split: if_splits)
  also have "\<dots> = (\<Union>i \<in> S. \<Union>j \<in> {j \<in> S. ?R0 i j \<or> ?R0 j i}. node_edges G i j DATA_ALIAS)" by (rule symmetric_union)
  also have "(\<lambda>i j. ?R0 i j \<or> ?R0 j i) = may_alias I P"
    by (auto simp: fun_eq_iff may_alias_def types_agree_def shares_object_def)
  finally show ?thesis by (simp add: fun_eq_iff)
qed

lemma adds_dependFunction:
  assumes "\<And>i. i \<in> set (instructions I F) \<Longrightarrow> getFunction I i = F"
  shows "adds (dependFunction I P dep G F) (function_dependences I P dep G F)"
proof -
  let ?is = "instructions I F"
  obtain M where M: "\<And>h. snd (fold (dependInst I P dep G) ?is (h, [])) = M" "calls_ok M"
    "\<And>obj. set (object_calls M obj) = {i \<in> set ?is. obj \<in> set (getExpandedFIPts P i)}"
    using fold_dependInst(2) [of "[]" I P dep G ?is] by (auto simp: calls_ok_def object_calls_def)
  let ?S = "\<Union>i \<in> set ?is. \<Union>j \<in> {j \<in> set ?is. j \<noteq> i \<and> shares_object P i j}. alias_links I G i j"
  have "adds (\<lambda>h. fold (linkAliasSet I G) (fold (\<lambda>(_, s). insertAliasSet s) M []) (fst (fold (dependInst I P dep G) ?is (h, []))))
      ((\<Union>i \<in> set ?is. inst_edges I dep G i) \<union> ?S)"
    by (rule adds_comp [OF fold_dependInst(1) linked_sets [OF M(2,3)]]) (simp add: calls_ok_def object_calls_def)
  moreover have "dependFunction I P dep G F =
      (\<lambda>h. fold (linkAliasSet I G) (fold (\<lambda>(_, s). insertAliasSet s) M []) (fst (fold (dependInst I P dep G) ?is (h, []))))"
    using M(1) by (simp add: fun_eq_iff dependFunction_def Let_def case_prod_beta)
  moreover have "(\<Union>i \<in> set ?is. inst_edges I dep G i) \<union> ?S = function_dependences I P dep G F"
  proof -
    have "inst_edges I dep G i = (\<Union>u \<in> set (users I i). node_edges G i u DATA_DEF_USE) \<union> raw_edges I dep G i \<union>
        (\<Union>j \<in> {j \<in> set ?is. j \<noteq> i \<and> queryAliasUnderApproximate I i j \<noteq> NoAlias}. alias_links I G i j)" if "i \<in> set ?is" for i
      using assms [OF that] by (auto simp: inst_edges_def)
    then have "(\<Union>i \<in> set ?is. inst_edges I dep G i) \<union> ?S =
        (\<Union>i \<in> set ?is. (\<Union>u \<in> set (users I i). node_edges G i u DATA_DEF_USE) \<union> raw_edges I dep G i) \<union>
        ((\<Union>i \<in> set ?is. \<Union>j \<in> {j \<in> set ?is. j \<noteq> i \<and> queryAliasUnderApproximate I i j \<noteq> NoAlias}. alias_links I G i j) \<union> ?S)"
      by auto
    then show ?thesis unfolding alias_part by (auto simp: function_dependences_def)
  qed
  ultimately show ?thesis by simp
qed

definition module_dependences :: "ir \<Rightarrow> pta \<Rightarrow> (vid \<Rightarrow> vid option) \<Rightarrow> GenericGraph \<Rightarrow> edge_spec set" where
  "module_dependences I P dep G = (\<Union>F \<in> defined_functions I. function_dependences I P dep G F)"

lemma ddg_adds:
  assumes "parents_ok I"
  shows "adds (ddg_runOnModule I P dep G) (module_dependences I P dep G)"
proof -
  let ?X = "\<lambda>F. if isDeclaration I F \<or> blocks I F = [] then {} else function_dependences I P dep G F"
  have "adds (\<lambda>h. if isDeclaration I F \<or> blocks I F = [] then h else dependFunction I P dep G F h) (?X F)" if "F \<in> set (moduleFunctions I)" for F
    using adds_dependFunction [of I F P dep G] that assms by (auto simp: adds_def parents_ok_def defined_functions_def)
  then have "adds (fold (\<lambda>F h. if isDeclaration I F \<or> blocks I F = [] then h else dependFunction I P dep G F h) (moduleFunctions I))
      (\<Union>F \<in> set (moduleFunctions I). ?X F)" by (rule adds_fold)
  moreover have "(\<Union>F \<in> set (moduleFunctions I). ?X F) = module_dependences I P dep G"
    by (auto simp: module_dependences_def defined_functions_def split: if_splits)
  ultimately show ?thesis by (simp add: adds_def ddg_runOnModule_def)
qed

text \<open>
  C17: The data dependence graph is exact: the pass adds to all six views of the graph exactly the edges from an
  instruction to its users, from a store to the load that depends on it, and, in both directions,
  between two instructions of a function that may point to a common object or are related by a cast,
  a load or an address computation without offset, if their types agree or one is a bitcast.  Merging
  the sets of instructions per object loses none of them.
\<close>

theorem data_dependences_exact:
  assumes "parents_ok I" and "mirrors E h"
  shows "mirrors (E \<union> (\<Union>F \<in> defined_functions I. function_dependences I P dep G F)) (ddg_runOnModule I P dep G h)"
  using ddg_adds [OF assms(1)] assms(2) by (simp add: adds_def module_dependences_def)

text \<open>An example: a function 1 with a block 2 that holds an allocation 4, a bitcast 5 of it and a load 6 of it.\<close>

definition ddg_example :: ir where
  "ddg_example = empty_ir\<lparr>kind := (\<lambda>v. if v = 4 then KAlloca else if v = 5 then KCast BitCast else if v = 6 then KLoad else KFunction),
     typeOf := (\<lambda>v. if v = 4 then PointerTy (IntegerTy 64) else if v = 5 then PointerTy (IntegerTy 8) else IntegerTy 64),
     operands := (\<lambda>v. if v = 5 \<or> v = 6 then [4] else []), users := (\<lambda>v. if v = 4 then [5, 6] else []),
     parentBB := (\<lambda>_. 2), parentFn := (\<lambda>_. 1), insts := (\<lambda>_. [4, 5, 6]), blocks := (\<lambda>v. if v = 1 then [2] else []),
     moduleFunctions := [1]\<rparr>"

definition ddg_graph :: GenericGraph where
  "ddg_graph = \<lparr>val_node_map = [(4, 14), (5, 15), (6, 16)], node_set = {14, 15, 16}, is_build = True\<rparr>"

theorem data_dependences_exact_witness:
  "(14, 16, DATA_DEF_USE) \<in> (\<Union>F \<in> defined_functions ddg_example. function_dependences ddg_example pta_example (\<lambda>_. None) ddg_graph F) \<and>
   mirrors (\<Union>F \<in> defined_functions ddg_example. function_dependences ddg_example pta_example (\<lambda>_. None) ddg_graph F)
     (ddg_runOnModule ddg_example pta_example (\<lambda>_. None) ddg_graph (\<lambda>_. new_Node INST))"
proof -
  have "defined_functions ddg_example = {1}" by (auto simp: defined_functions_def ddg_example_def empty_ir_def)
  moreover have "parents_ok ddg_example" by (simp add: parents_ok_def defined_functions_def getFunction_def ddg_example_def empty_ir_def)
  moreover have "mirrors {} (\<lambda>_. new_Node INST)" by (simp add: mirrors_def new_Node_def)
  ultimately show ?thesis
    using data_dependences_exact [of ddg_example "{}" "\<lambda>_. new_Node INST" pta_example "\<lambda>_. None" ddg_graph]
    by (simp add: function_dependences_def node_edges_def instructions_def ddg_example_def ddg_graph_def getNode_def hasNode_def contains_def)
qed

subsection \<open>Aliases of a node\<close>

lemma finite_module_dependences: "finite (module_dependences I P dep G)"
proof -
  have n: "finite (node_edges G i j t)" for i j t
    by (rule finite_subset [of _ "{(the (getNode G i), the (getNode G j), t)}"]) (auto simp: node_edges_def)
  have "raw_edges I dep G i \<subseteq> node_edges G (the (dep i)) i DATA_RAW" for i by (auto simp: raw_edges_def)
  then have "finite (raw_edges I dep G i)" for i using n finite_subset by blast
  then show ?thesis using n by (auto simp: module_dependences_def function_dependences_def defined_functions_def)
qed

lemma alias_neighbours:
  assumes "parents_ok I" and "mirrors E h" and "finite E"
    and "F \<in> defined_functions I" and "v \<in> set (instructions I F)" and "w \<in> set (instructions I F)" and "may_alias I P v w"
    and "getNode G v = Some m" and "getNode G w = Some n"
  shows "finite (getInNeighborsWithDepType (ddg_runOnModule I P dep G h) m DATA_ALIAS)"
    "n \<in> getInNeighborsWithDepType (ddg_runOnModule I P dep G h) m DATA_ALIAS"
    "node_val (ddg_runOnModule I P dep G h n) = node_val (h n)"
proof -
  let ?X = "module_dependences I P dep G"
  have mir: "mirrors (E \<union> ?X) (ddg_runOnModule I P dep G h)" and "node_val (ddg_runOnModule I P dep G h n) = node_val (h n)"
    using ddg_adds [OF assms(1)] assms(2) by (auto simp: adds_def)
  then show "node_val (ddg_runOnModule I P dep G h n) = node_val (h n)" by simp
  have nb: "getInNeighborsWithDepType (ddg_runOnModule I P dep G h) m DATA_ALIAS = {b. (b, m, DATA_ALIAS) \<in> E \<union> ?X}"
    using mir by (simp add: getInNeighborsWithDepType_def mirrors_def)
  have "{b. (b, m, DATA_ALIAS) \<in> E \<union> ?X} \<subseteq> fst ` (E \<union> ?X)" by force
  then show "finite (getInNeighborsWithDepType (ddg_runOnModule I P dep G h) m DATA_ALIAS)"
    unfolding nb using finite_surj [of "E \<union> ?X"] assms(3) finite_module_dependences by blast
  have "may_alias I P w v" using assms(7) by (auto simp: may_alias_def types_agree_def shares_object_def)
  moreover have "(n, m, DATA_ALIAS) \<in> node_edges G w v DATA_ALIAS" using assms(8,9) by (simp add: node_edges_def)
  ultimately have "(n, m, DATA_ALIAS) \<in> function_dependences I P dep G F"
    using assms(5,6) unfolding function_dependences_def by blast
  then show "n \<in> getInNeighborsWithDepType (ddg_runOnModule I P dep G h) m DATA_ALIAS"
    unfolding nb using assms(4) by (auto simp: module_dependences_def)
qed

end
