(* ===== verification/Safe_Stack.thy ===== *)
theory Safe_Stack
  imports Value_Range_Analysis Search "HOL-Library.Word"
begin

unbundle bit_operations_syntax

text \<open>
  The safe-stack pass (\<^verbatim>\<open>LLVM_FIX/SafeStack.cpp\<close>, LLVM's pass with an option to use the results of MSV): which
  allocations of a function are moved to the unsafe stack.  Either all uses of an allocation are examined, or,
  with the option \<^verbatim>\<open>dg-safe\<close>, the metadata that \<^verbatim>\<open>tagOperationsForProtections\<close> has attached decides.  What the
  pass asks of LLVM is the record \<open>safestack_env\<close>; \<open>startRange addr alloca\<close> stands for the unsigned range
  that scalar evolution gives for the offset of an address from the allocation, and \<open>addRange\<close> for
  \<^verbatim>\<open>ConstantRange::add\<close>, both as sets of numbers.
\<close>

subsection \<open>Uses of an allocation\<close>

record mem_intrinsic =
  rawDest :: vid
  rawSource :: "vid option"
  memLength :: vid

record safestack_env =
  DGSafe :: bool
  typeStoreSize :: "ty \<Rightarrow> nat"
  allocatedType :: "vid \<Rightarrow> ty"
  isArrayAllocation :: "vid \<Rightarrow> bool"
  arraySize :: "vid \<Rightarrow> vid"
  isStaticAlloca :: "vid \<Rightarrow> bool"
  isVAArg :: "vid \<Rightarrow> bool"
  isLandingPad :: "vid \<Rightarrow> bool"
  isLifetimeStartOrEnd :: "vid \<Rightarrow> bool"
  memIntrinsic :: "vid \<Rightarrow> mem_intrinsic option"
  doesNotCapture :: "vid \<Rightarrow> nat \<Rightarrow> bool"
  argDoesNotAccessMemory :: "vid \<Rightarrow> nat \<Rightarrow> bool"
  doesNotAccessMemory :: "vid \<Rightarrow> bool"
  canReturnTwice :: "vid \<Rightarrow> bool"
  terminatingMustTailCall :: "vid \<Rightarrow> vid option"
  paramByValType :: "vid \<Rightarrow> ty option"
  addressWidth :: nat
  startRange :: "vid \<Rightarrow> vid \<Rightarrow> nat set"
  addRange :: "nat \<Rightarrow> nat set \<Rightarrow> nat set \<Rightarrow> nat set"

definition getStaticAllocaAllocationSize :: "safestack_env \<Rightarrow> ir \<Rightarrow> vid \<Rightarrow> nat" where
  "getStaticAllocaAllocationSize E I AI =
     (let Size = typeAllocSize I (allocatedType E AI)
      in if isArrayAllocation E AI
         then (case constantInt I (arraySize E AI) of None \<Rightarrow> 0 | Some C \<Rightarrow> (Size * nat (uval C)) mod 2 ^ 64)
         else Size)"

text \<open>The range from 0 to a size is the empty one if the size is 0 in the width of the address.\<close>

definition IsAccessSafe :: "safestack_env \<Rightarrow> vid \<Rightarrow> nat \<Rightarrow> vid \<Rightarrow> nat \<Rightarrow> bool" where
  "IsAccessSafe E Addr AccessSize AllocaPtr AllocaSize \<longleftrightarrow>
     addRange E (addressWidth E) (startRange E Addr AllocaPtr) {0..<AccessSize mod 2 ^ addressWidth E}
       \<subseteq> {0..<AllocaSize mod 2 ^ addressWidth E}"

definition IsMemIntrinsicSafe :: "safestack_env \<Rightarrow> ir \<Rightarrow> mem_intrinsic \<Rightarrow> vid \<Rightarrow> vid \<Rightarrow> nat \<Rightarrow> bool" where
  "IsMemIntrinsicSafe E I MI U AllocaPtr AllocaSize =
     (if (case rawSource MI of Some src \<Rightarrow> src \<noteq> U \<and> rawDest MI \<noteq> U | None \<Rightarrow> rawDest MI \<noteq> U) then True
      else case constantInt I (memLength MI) of
             None \<Rightarrow> False
           | Some Len \<Rightarrow> IsAccessSafe E U (nat (uval Len)) AllocaPtr AllocaSize)"

datatype verdict = Unsafe | Safe_Use | Follow

definition useVerdict :: "safestack_env \<Rightarrow> ir \<Rightarrow> vid \<Rightarrow> nat \<Rightarrow> vid \<Rightarrow> vid \<Rightarrow> verdict" where
  "useVerdict E I AllocaPtr AllocaSize V user =
     (if kind I user = KLoad
      then (if IsAccessSafe E V (typeStoreSize E (typeOf I user)) AllocaPtr AllocaSize then Safe_Use else Unsafe)
      else if isVAArg E user then Safe_Use
      else if kind I user = KStore
      then (if V = getOperand I user 0 then Unsafe
            else if IsAccessSafe E V (typeStoreSize E (typeOf I (getOperand I user 0))) AllocaPtr AllocaSize then Safe_Use
            else Unsafe)
      else if kind I user = KReturn then Unsafe
      else if isCallBase I user
      then (if isLifetimeStartOrEnd E user then Safe_Use
            else case memIntrinsic E user of
                   Some MI \<Rightarrow> (if IsMemIntrinsicSafe E I MI V AllocaPtr AllocaSize then Safe_Use else Unsafe)
                 | None \<Rightarrow>
                     (if list_all (\<lambda>i. callArgs I user ! i = V \<longrightarrow>
                           doesNotCapture E user i \<and> (argDoesNotAccessMemory E user i \<or> doesNotAccessMemory E user))
                         [0..<length (callArgs I user)]
                      then Safe_Use else Unsafe))
      else Follow)"

text \<open>The worklist is a stack whose head is the back of the vector; \<open>None\<close> is the early return of false.\<close>

fun scanUses :: "safestack_env \<Rightarrow> ir \<Rightarrow> vid \<Rightarrow> nat \<Rightarrow> vid \<Rightarrow> vid list \<Rightarrow> vid set \<times> vid list \<Rightarrow> (vid set \<times> vid list) option" where
  "scanUses E I AllocaPtr AllocaSize V [] acc = Some acc"
| "scanUses E I AllocaPtr AllocaSize V (user # us) acc =
     (case useVerdict E I AllocaPtr AllocaSize V user of
        Unsafe \<Rightarrow> None
      | Safe_Use \<Rightarrow> scanUses E I AllocaPtr AllocaSize V us acc
      | Follow \<Rightarrow> scanUses E I AllocaPtr AllocaSize V us
          (if user \<in> fst acc then acc else (insert user (fst acc), user # snd acc)))"

partial_function (option) safe_loop :: "safestack_env \<Rightarrow> ir \<Rightarrow> vid \<Rightarrow> nat \<Rightarrow> vid set \<Rightarrow> vid list \<Rightarrow> bool option" where
  "safe_loop E I AllocaPtr AllocaSize Visited WorkList =
     (case WorkList of
        [] \<Rightarrow> Some True
      | V # rest \<Rightarrow>
          (case scanUses E I AllocaPtr AllocaSize V (users I V) (Visited, rest) of
             None \<Rightarrow> Some False
           | Some acc \<Rightarrow> safe_loop E I AllocaPtr AllocaSize (fst acc) (snd acc)))"

definition IsSafeStackAlloca :: "safestack_env \<Rightarrow> ir \<Rightarrow> vid \<Rightarrow> nat \<Rightarrow> bool option" where
  "IsSafeStackAlloca E I AllocaPtr AllocaSize = safe_loop E I AllocaPtr AllocaSize {} [AllocaPtr]"

subsection \<open>What a function moves to the unsafe stack\<close>

record found_insts =
  StaticAllocas :: "vid list"
  DynamicAllocas :: "vid list"
  ByValArguments :: "vid list"
  Returns :: "vid list"
  StackRestorePoints :: "vid list"

definition no_insts :: found_insts where
  "no_insts = \<lparr>StaticAllocas = [], DynamicAllocas = [], ByValArguments = [], Returns = [], StackRestorePoints = []\<rparr>"

text \<open>
  The branch for a garbage-collection root comes after the one for calls, which every intrinsic call
  takes, so that it is never reached.
\<close>

definition findInst :: "safestack_env \<Rightarrow> ir \<Rightarrow> tags \<Rightarrow> vid \<Rightarrow> found_insts \<Rightarrow> found_insts option" where
  "findInst E I t v acc =
     (if kind I v = KAlloca
      then Option.bind (if DGSafe E then Some (v \<notin> unsafeTag t)
             else IsSafeStackAlloca E I v (getStaticAllocaAllocationSize E I v)) (\<lambda>isSafe.
           Some (if isSafe then acc
                 else if isStaticAlloca E v then acc\<lparr>StaticAllocas := StaticAllocas acc @ [v]\<rparr>
                 else acc\<lparr>DynamicAllocas := DynamicAllocas acc @ [v]\<rparr>))
      else if kind I v = KReturn
      then Some (acc\<lparr>Returns := Returns acc @
             [case terminatingMustTailCall E (parentBB I v) of Some CI \<Rightarrow> CI | None \<Rightarrow> v]\<rparr>)
      else if kind I v = KCall
      then Some (if calledFunction I v \<noteq> None \<and> canReturnTwice E v
                 then acc\<lparr>StackRestorePoints := StackRestorePoints acc @ [v]\<rparr> else acc)
      else if isLandingPad E v
      then Some (acc\<lparr>StackRestorePoints := StackRestorePoints acc @ [v]\<rparr>)
      else Some acc)"

definition findByVal :: "safestack_env \<Rightarrow> ir \<Rightarrow> vid \<Rightarrow> found_insts \<Rightarrow> found_insts option" where
  "findByVal E I Arg acc =
     (case paramByValType E Arg of
        None \<Rightarrow> Some acc
      | Some ty \<Rightarrow> map_option (\<lambda>isSafe. if isSafe then acc else acc\<lparr>ByValArguments := ByValArguments acc @ [Arg]\<rparr>)
          (IsSafeStackAlloca E I Arg (typeStoreSize E ty)))"

definition findInsts :: "safestack_env \<Rightarrow> ir \<Rightarrow> tags \<Rightarrow> vid \<Rightarrow> found_insts option" where
  "findInsts E I t F =
     Option.bind (fold_option (findInst E I t) (instructions I F) no_insts) (\<lambda>acc.
       if DGSafe E then Some acc else fold_option (findByVal E I) (formals I F) acc)"

text \<open>Whether the function is changed at all.\<close>

definition safestack_changes :: "found_insts \<Rightarrow> bool" where
  "safestack_changes r \<longleftrightarrow>
     \<not> (StaticAllocas r = [] \<and> DynamicAllocas r = [] \<and> ByValArguments r = [] \<and> StackRestorePoints r = [])"

text \<open>The stack top that the code generated for a dynamic allocation computes from the old top \<open>SP\<close>.\<close>

definition StackAlignment :: nat where
  "StackAlignment = 16"

definition dynamicTop :: "64 word \<Rightarrow> 64 word \<Rightarrow> nat \<Rightarrow> nat \<Rightarrow> nat \<Rightarrow> 64 word" where
  "dynamicTop SP ArraySize TySize prefAlign instAlign =
     (let Size = ArraySize * of_nat TySize; Align = max (max prefAlign instAlign) StackAlignment
      in (SP - Size) AND NOT (of_nat (Align - 1)))"

subsection \<open>Uses, exactly\<close>

definition derived :: "safestack_env \<Rightarrow> ir \<Rightarrow> vid \<Rightarrow> nat \<Rightarrow> vid \<Rightarrow> vid list" where
  "derived E I a n V = filter (\<lambda>u. useVerdict E I a n V u = Follow) (users I V)"

definition uses_safe :: "safestack_env \<Rightarrow> ir \<Rightarrow> vid \<Rightarrow> nat \<Rightarrow> vid \<Rightarrow> bool" where
  "uses_safe E I a n V \<longleftrightarrow> list_all (\<lambda>u. useVerdict E I a n V u \<noteq> Unsafe) (users I V)"

lemma scanUses_some:
  assumes "\<forall>u \<in> set us. useVerdict E I a n V u \<noteq> Unsafe"
  shows "\<exists>acc'. scanUses E I a n V us acc = Some acc' \<and>
    fst acc' = fst acc \<union> {u \<in> set us. useVerdict E I a n V u = Follow} \<and>
    set (snd acc') = set (snd acc) \<union> ({u \<in> set us. useVerdict E I a n V u = Follow} - fst acc) \<and>
    length (snd acc') = length (snd acc) + card ({u \<in> set us. useVerdict E I a n V u = Follow} - fst acc)"
  using assms
proof (induction us arbitrary: acc)
  case (Cons u us)
  let ?F = "\<lambda>us. {u \<in> set us. useVerdict E I a n V u = Follow}"
  show ?case
  proof (cases "useVerdict E I a n V u = Follow \<and> u \<notin> fst acc")
    case True
    obtain acc' where acc': "scanUses E I a n V us (insert u (fst acc), u # snd acc) = Some acc'"
      "fst acc' = insert u (fst acc) \<union> ?F us" "set (snd acc') = insert u (set (snd acc)) \<union> (?F us - insert u (fst acc))"
      "length (snd acc') = Suc (length (snd acc)) + card (?F us - insert u (fst acc))"
      using Cons.IH [of "(insert u (fst acc), u # snd acc)"] Cons.prems by auto
    have "?F (u # us) - fst acc = insert u (?F us - insert u (fst acc))" using True by auto
    then have "card (?F (u # us) - fst acc) = Suc (card (?F us - insert u (fst acc)))" by simp
    then show ?thesis using True acc' by (intro exI [of _ acc']) auto
  next
    case False
    have "?F (u # us) - fst acc = ?F us - fst acc" using False by auto
    then show ?thesis using Cons.IH [of acc] Cons.prems False by (cases "useVerdict E I a n V u") auto
  qed
qed simp

lemma scanUses_none: "\<not> (\<forall>u \<in> set us. useVerdict E I a n V u \<noteq> Unsafe) \<Longrightarrow> scanUses E I a n V us acc = None"
  by (induction us arbitrary: acc) (auto split: verdict.split)

lemma safe_loop_exact:
  assumes U: "finite U" "\<And>x. x \<in> U \<Longrightarrow> set (users I x) \<subseteq> U" "a \<in> U"
  shows "Visited \<subseteq> U \<Longrightarrow> set w \<subseteq> insert a Visited \<Longrightarrow>
    (\<And>x. x \<in> insert a Visited \<Longrightarrow> x \<notin> set w \<Longrightarrow> uses_safe E I a n x \<and> set (derived E I a n x) \<subseteq> Visited) \<Longrightarrow>
    safe_loop E I a n Visited w = Some (\<forall>v \<in> reach (derived E I a n) (insert a Visited). uses_safe E I a n v)"
proof (induction "2 * card (U - Visited) + length w" arbitrary: Visited w rule: less_induct)
  case less
  let ?d = "derived E I a n"
  show ?case
  proof (cases w)
    case Nil
    then have "reach ?d (insert a Visited) = insert a Visited" using less.prems(3) by (intro reach_closed) auto
    then show ?thesis using Nil less.prems(3) by (subst safe_loop.simps) auto
  next
    case (Cons V w0)
    have V: "V \<in> insert a Visited" using less.prems(2) Cons by simp
    show ?thesis
    proof (cases "uses_safe E I a n V")
      case False
      then have "scanUses E I a n V (users I V) (Visited, w0) = None" by (intro scanUses_none) (simp add: uses_safe_def list_all_iff)
      moreover have "V \<in> reach ?d (insert a Visited)" using V reach_increasing [of "insert a Visited" ?d] by blast
      ultimately show ?thesis using Cons False by (subst safe_loop.simps) auto
    next
      case True
      have F: "{u \<in> set (users I V). useVerdict E I a n V u = Follow} = set (?d V)" by (auto simp: derived_def)
      obtain acc where acc: "scanUses E I a n V (users I V) (Visited, w0) = Some acc" "fst acc = Visited \<union> set (?d V)"
        "set (snd acc) = set w0 \<union> (set (?d V) - Visited)" "length (snd acc) = length w0 + card (set (?d V) - Visited)"
        using scanUses_some [of "users I V" E I a n V "(Visited, w0)"] True unfolding F by (auto simp: uses_safe_def list_all_iff)
      have "V \<in> U" using V less.prems(1) U(3) by auto
      then have dU: "set (?d V) \<subseteq> U" using U(2) by (auto simp: derived_def)
      have "card (U - Visited) = card (U - fst acc) + card (set (?d V) - Visited)"
      proof -
        have "U - Visited = (U - fst acc) \<union> (set (?d V) - Visited)" using dU acc(2) by auto
        moreover have "(U - fst acc) \<inter> (set (?d V) - Visited) = {}" using acc(2) by auto
        ultimately show ?thesis using U(1) by (simp add: card_Un_disjoint)
      qed
      then have dec: "2 * card (U - fst acc) + length (snd acc) < 2 * card (U - Visited) + length w" using acc(4) Cons by simp
      have "safe_loop E I a n (fst acc) (snd acc) = Some (\<forall>v \<in> reach ?d (insert a (fst acc)). uses_safe E I a n v)"
      proof (rule less.hyps [OF dec])
        show "fst acc \<subseteq> U" using less.prems(1) dU acc(2) by auto
        show "set (snd acc) \<subseteq> insert a (fst acc)" using less.prems(2) acc(2,3) Cons by auto
        show "uses_safe E I a n x \<and> set (?d x) \<subseteq> fst acc" if "x \<in> insert a (fst acc)" "x \<notin> set (snd acc)" for x
          using that less.prems(3) [of x] True acc(2,3) Cons by (cases "x = V") auto
      qed
      moreover have "reach ?d (insert a (fst acc)) = reach ?d (insert a Visited)"
        using reach_step [OF V, of ?d] acc(2) by (simp add: Un_commute)
      ultimately show ?thesis using acc(1) Cons by (subst safe_loop.simps) simp
    qed
  qed
qed

lemma IsSafeStackAlloca_exact:
  assumes "finite U" and "\<And>x. x \<in> U \<Longrightarrow> set (users I x) \<subseteq> U" and "a \<in> U"
  shows "IsSafeStackAlloca E I a n = Some (\<forall>v \<in> reach (derived E I a n) {a}. uses_safe E I a n v)"
  using safe_loop_exact [OF assms, of "{}" "[a]" E n] by (simp add: IsSafeStackAlloca_def)

text \<open>
  C22: The check of an allocation returns, and accepts it exactly if every use of the allocation and of every
  value derived from it is accepted: the search follows casts, address computations and other
  instructions to all their uses, whatever the order of the worklist.
\<close>

theorem safe_allocation_exact:
  assumes "finite U" and "\<And>x. x \<in> U \<Longrightarrow> set (users I x) \<subseteq> U" and "a \<in> U"
  shows "IsSafeStackAlloca E I a n =
    Some (\<forall>v \<in> reach (derived E I a n) {a}. \<forall>u \<in> set (users I v). useVerdict E I a n v u \<noteq> Unsafe)"
  using IsSafeStackAlloca_exact [OF assms] by (simp add: uses_safe_def list_all_iff)

definition add_covers :: "safestack_env \<Rightarrow> bool" where
  "add_covers E \<longleftrightarrow> (\<forall>w A B x y. x \<in> A \<longrightarrow> y \<in> B \<longrightarrow> (x + y) mod 2 ^ w \<in> addRange E w A B)"

lemma IsAccessSafe_bounds:
  assumes "add_covers E" and "IsAccessSafe E v len a n" and "start \<in> startRange E v a" and "k < len" and "len < 2 ^ addressWidth E"
  shows "(start + k) mod 2 ^ addressWidth E < n"
proof -
  have "k \<in> {0..<len mod 2 ^ addressWidth E}" using assms(4,5) by simp
  then have "(start + k) mod 2 ^ addressWidth E \<in>
      addRange E (addressWidth E) (startRange E v a) {0..<len mod 2 ^ addressWidth E}" using assms(1,3) by (simp add: add_covers_def)
  then have "(start + k) mod 2 ^ addressWidth E < n mod 2 ^ addressWidth E" using assms(2) by (auto simp: IsAccessSafe_def)
  also have "\<dots> \<le> n" by simp
  finally show ?thesis .
qed

text \<open>
  C23: What stays on the safe stack is accessed in bounds: if the check accepts an allocation, then every byte of
  every load and store through a value derived from it lies inside the allocation, for every offset that
  scalar evolution allows, and the address itself is never stored.
\<close>

theorem safe_allocation_accessed_in_bounds:
  assumes "finite U" and "\<And>x. x \<in> U \<Longrightarrow> set (users I x) \<subseteq> U" and "a \<in> U" and "add_covers E"
    and "IsSafeStackAlloca E I a n = Some True" and "v \<in> reach (derived E I a n) {a}" and "u \<in> set (users I v)"
    and "len = typeStoreSize E (typeOf I (if kind I u = KLoad then u else getOperand I u 0))" and "len < 2 ^ addressWidth E"
    and "kind I u = KLoad \<or> kind I u = KStore" and "\<not> isVAArg E u"
    and "start \<in> startRange E v a" and "k < len"
  shows "(start + k) mod 2 ^ addressWidth E < n \<and> (kind I u = KStore \<longrightarrow> v \<noteq> getOperand I u 0)"
proof -
  have "useVerdict E I a n v u \<noteq> Unsafe"
    using IsSafeStackAlloca_exact [OF assms(1-3), of E n] assms(5,6,7) by (auto simp: uses_safe_def list_all_iff)
  then have "IsAccessSafe E v len a n" "kind I u = KStore \<longrightarrow> v \<noteq> getOperand I u 0"
    using assms(8,10,11) by (auto simp: useVerdict_def split: if_splits)
  then show ?thesis using IsAccessSafe_bounds [OF assms(4)] assms(9,12,13) by blast
qed

text \<open>An example: an allocation 4 of 16 bytes, the address 5 at offset 8 in it, and a load 6 of 8 bytes from there.\<close>

definition stack_example :: ir where
  "stack_example = empty_ir\<lparr>kind := (\<lambda>v. if v = 4 then KAlloca else if v = 5 then KGEP else if v = 6 then KLoad else KFunction),
     operands := (\<lambda>v. if v = 5 then [4] else if v = 6 then [5] else []),
     users := (\<lambda>v. if v = 4 then [5] else if v = 5 then [6] else []), parentBB := (\<lambda>_. 2), parentFn := (\<lambda>_. 1),
     insts := (\<lambda>_. [4, 5, 6]), blocks := (\<lambda>v. if v = 1 then [2] else []), moduleFunctions := [1]\<rparr>"

definition stack_env :: safestack_env where
  "stack_env = \<lparr>DGSafe = False, typeStoreSize = (\<lambda>_. 8), allocatedType = (\<lambda>_. OtherTy 0), isArrayAllocation = (\<lambda>_. False),
     arraySize = (\<lambda>_. 0), isStaticAlloca = (\<lambda>_. True), isVAArg = (\<lambda>_. False), isLandingPad = (\<lambda>_. False),
     isLifetimeStartOrEnd = (\<lambda>_. False), memIntrinsic = (\<lambda>_. None), doesNotCapture = (\<lambda>_ _. False),
     argDoesNotAccessMemory = (\<lambda>_ _. False), doesNotAccessMemory = (\<lambda>_. False), canReturnTwice = (\<lambda>_. False),
     terminatingMustTailCall = (\<lambda>_. None), paramByValType = (\<lambda>_. None), addressWidth = 64,
     startRange = (\<lambda>v _. if v = 5 then {8} else {0}), addRange = (\<lambda>w A B. (\<lambda>(x, y). (x + y) mod 2 ^ w) ` (A \<times> B))\<rparr>"

lemma stack_example_users: "x \<in> {4, 5, 6} \<Longrightarrow> set (users stack_example x) \<subseteq> {4, 5, 6}"
  by (cases "x = 4"; cases "x = 5") (simp_all add: stack_example_def)

lemma stack_example_verdicts:
  "useVerdict stack_env stack_example 4 16 4 5 = Follow" "useVerdict stack_env stack_example 4 16 5 6 = Safe_Use"
proof -
  have "(8 + y) mod 2 ^ 64 < (16 :: nat)" if "y < 8" for y using that by (simp add: mod_less)
  then have "IsAccessSafe stack_env 5 8 4 16" by (force simp: IsAccessSafe_def stack_env_def)
  then show "useVerdict stack_env stack_example 4 16 5 6 = Safe_Use" by (simp add: useVerdict_def stack_example_def) (simp add: stack_env_def)
  show "useVerdict stack_env stack_example 4 16 4 5 = Follow" by (simp add: useVerdict_def stack_example_def stack_env_def)
qed

lemma stack_example_reach: "reach (derived stack_env stack_example 4 16) {4} = {4, 5}"
proof -
  have d: "derived stack_env stack_example 4 16 4 = [5]" "derived stack_env stack_example 4 16 5 = []"
    using stack_example_verdicts by (simp_all add: derived_def stack_example_def)
  have "reach (derived stack_env stack_example 4 16) {4} = reach (derived stack_env stack_example 4 16) ({4} \<union> {5})"
    using reach_step [of 4 "{4}" "derived stack_env stack_example 4 16"] d(1) by simp
  also have "\<dots> = {4} \<union> {5}" using d by (intro reach_closed) auto
  finally show ?thesis by (simp add: insert_commute)
qed

lemma stack_example_uses: "users stack_example 4 = [5]" "users stack_example 5 = [6]"
  by (simp_all add: stack_example_def)

lemma stack_example_safe: "IsSafeStackAlloca stack_env stack_example 4 16 = Some True"
  using IsSafeStackAlloca_exact [of "{4, 5, 6}" stack_example 4 stack_env 16] stack_example_users stack_example_verdicts
  unfolding stack_example_reach by (simp add: uses_safe_def stack_example_uses)

theorem safe_allocation_exact_witness:
  "IsSafeStackAlloca stack_env stack_example 4 16 = Some True"
  using safe_allocation_exact [of "{4, 5, 6}" stack_example 4 stack_env 16] stack_example_users stack_example_verdicts
  unfolding stack_example_reach by (simp add: stack_example_uses)

theorem safe_allocation_accessed_in_bounds_witness:
  "(8 + 7) mod 2 ^ 64 < (16 :: nat) \<and> useVerdict stack_env stack_example 4 16 5 6 = Safe_Use"
proof -
  have e: "addressWidth stack_env = 64" "startRange stack_env 5 4 = {8}" "typeStoreSize stack_env t = 8" "\<not> isVAArg stack_env u" for t u
    by (simp_all add: stack_env_def)
  have k: "kind stack_example 6 = KLoad" by (simp add: stack_example_def)
  have "add_covers stack_env" by (force simp: add_covers_def stack_env_def)
  then have "(8 + 7) mod 2 ^ addressWidth stack_env < (16 :: nat)"
    using safe_allocation_accessed_in_bounds [of "{4, 5, 6}" stack_example 4 stack_env 16 5 6 8 8 7] stack_example_users stack_example_safe
    by (simp add: stack_example_reach e k stack_example_uses)
  then show ?thesis using stack_example_verdicts by (simp add: e)
qed

subsection \<open>Allocations selected by metadata\<close>

lemma find_by_tag:
  assumes "DGSafe E"
  shows "\<exists>r. fold_option (findInst E I t) vs acc = Some r \<and>
    StaticAllocas r = StaticAllocas acc @ filter (\<lambda>v. kind I v = KAlloca \<and> v \<in> unsafeTag t \<and> isStaticAlloca E v) vs \<and>
    DynamicAllocas r = DynamicAllocas acc @ filter (\<lambda>v. kind I v = KAlloca \<and> v \<in> unsafeTag t \<and> \<not> isStaticAlloca E v) vs \<and>
    ByValArguments r = ByValArguments acc"
proof (induction vs arbitrary: acc)
  case (Cons v vs)
  have "findInst E I t v acc \<noteq> None" using assms by (simp add: findInst_def)
  then obtain acc1 where r: "findInst E I t v acc = Some acc1" by blast
  then have "StaticAllocas acc1 = StaticAllocas acc @ (if kind I v = KAlloca \<and> v \<in> unsafeTag t \<and> isStaticAlloca E v then [v] else [])"
    "DynamicAllocas acc1 = DynamicAllocas acc @ (if kind I v = KAlloca \<and> v \<in> unsafeTag t \<and> \<not> isStaticAlloca E v then [v] else [])"
    "ByValArguments acc1 = ByValArguments acc"
    using assms by (auto simp: findInst_def split: if_splits)
  then show ?case using r Cons.IH [of acc1] by auto
qed simp

lemma findInsts_by_tag:
  assumes "DGSafe E"
  shows "\<exists>r. findInsts E I t F = Some r \<and>
    StaticAllocas r = filter (\<lambda>v. kind I v = KAlloca \<and> v \<in> unsafeTag t \<and> isStaticAlloca E v) (instructions I F) \<and>
    DynamicAllocas r = filter (\<lambda>v. kind I v = KAlloca \<and> v \<in> unsafeTag t \<and> \<not> isStaticAlloca E v) (instructions I F) \<and>
    ByValArguments r = []"
  using find_by_tag [OF assms, of I t "instructions I F" no_insts] assms by (auto simp: findInsts_def no_insts_def)

subsection \<open>Dynamic allocations\<close>

lemma clear_low_bits: "(x :: 64 word) AND NOT (mask k) = x - take_bit k x"
proof -
  have "x - take_bit k x = x AND NOT (take_bit k x)"
    by (rule disjunctive_diff_eq_and_not) (auto simp: bit_eq_iff bit_simps)
  also have "\<dots> = x AND NOT (mask k)" by (auto simp: bit_eq_iff bit_simps)
  finally show ?thesis by simp
qed

lemma unat_clear_low_bits: "unat ((x :: 64 word) AND NOT (mask k)) = unat x - unat x mod 2 ^ k"
proof -
  have t: "unat (take_bit k x) = unat x mod 2 ^ k" by (simp only: unsigned_take_bit_eq) (simp add: take_bit_eq_mod)
  then have "take_bit k x \<le> x" by (simp add: word_le_nat_alt)
  then show ?thesis using t by (simp add: clear_low_bits unat_sub)
qed

text \<open>
  C24: The code for a dynamic allocation on the unsafe stack allocates enough: if the alignments are powers of
  two and the requested size fits below the old top, the new top is aligned to the largest of the
  alignments, and the object between the new top and the old one has at least the requested size.
\<close>

theorem dynamic_allocation_fits:
  assumes "max (max prefAlign instAlign) StackAlignment = 2 ^ k" and "k < 64"
    and "unat ArraySize * TySize \<le> unat SP" and "TySize < 2 ^ 64"
  shows "2 ^ k dvd unat (dynamicTop SP ArraySize TySize prefAlign instAlign) \<and>
    unat (dynamicTop SP ArraySize TySize prefAlign instAlign) + unat ArraySize * TySize \<le> unat SP"
proof -
  let ?size = "ArraySize * of_nat TySize :: 64 word"
  have "unat SP < 2 ^ 64" using unsigned_less [of SP, where ?'a = nat] by simp
  then have "unat ArraySize * TySize < 2 ^ 64" using assms(3) by linarith
  then have size: "unat ?size = unat ArraySize * TySize" using assms(4) by (simp add: unat_word_ariths unat_of_nat)
  then have diff: "unat (SP - ?size) = unat SP - unat ArraySize * TySize" using assms(3) by (simp add: unat_sub word_le_nat_alt)
  have "(of_nat (2 ^ k - 1) :: 64 word) = mask k" by (simp add: mask_eq_exp_minus_1)
  then have top: "unat (dynamicTop SP ArraySize TySize prefAlign instAlign) = unat (SP - ?size) - unat (SP - ?size) mod 2 ^ k"
    using unat_clear_low_bits [of "SP - ?size" k] by (simp add: dynamicTop_def Let_def assms(1))
  have "2 ^ k dvd unat (SP - ?size) - unat (SP - ?size) mod 2 ^ k" by (rule dvd_minus_mod)
  then show ?thesis using top diff assms(3) by simp
qed

theorem dynamic_allocation_fits_witness:
  "unat (dynamicTop 1000 3 5 8 4) + 15 \<le> 1000 \<and> 16 dvd unat (dynamicTop 1000 3 5 8 4)"
  using dynamic_allocation_fits [of 8 4 4 3 5 1000] by (simp add: StackAlignment_def)

end
