(* ===== verification/Call_Graph.thy ===== *)
theory Call_Graph
  imports PDG_Graph
begin

text \<open>
  The call graph (\<^verbatim>\<open>PDGCallGraph.cpp\<close>, with the helpers for names of \<^verbatim>\<open>PDGUtils.cpp\<close>): one node per defined
  function, an edge for every direct call and, for an indirect call, an edge to every exported function
  with a matching signature.  \<open>cg_env\<close> holds what the code reads besides the module: whether a function takes
  a variable number of arguments, the names of structure types, and the lines of the file
  \<^verbatim>\<open>exported_funcs\<close>.  \<open>addr f\<close> is the address of the node created for the function \<open>f\<close>.
\<close>

subsection \<open>Names\<close>

definition stripFuncNameVersionNumber :: "string \<Rightarrow> string" where
  "stripFuncNameVersionNumber func_name = takeWhile (\<lambda>c. c \<noteq> CHR ''.'') func_name"

text \<open>The position of a character at or after a position, as \<^verbatim>\<open>std::string::find\<close> returns it.\<close>

definition find_from :: "char \<Rightarrow> string \<Rightarrow> nat \<Rightarrow> nat option" where
  "find_from c s pos = find (\<lambda>i. s ! i = c) [pos..<length s]"

fun nth_dot :: "string \<Rightarrow> nat \<Rightarrow> nat \<Rightarrow> nat option" where
  "nth_dot str pos 0 = Some pos"
| "nth_dot str pos (Suc k) =
     (case find_from CHR ''.'' str (pos + 1) of None \<Rightarrow> None | Some p \<Rightarrow> nth_dot str p k)"

definition stripVersionTag :: "string \<Rightarrow> string" where
  "stripVersionTag str = (case nth_dot str 0 2 of None \<Rightarrow> str | Some pos \<Rightarrow> take pos str)"

definition exclude_func_names :: "string list" where
  "exclude_func_names = [''warn_slowpath_fmt'', ''netdev_warn'', ''netdev_err'', ''netdev_info'', ''dev_warn'', ''dev_err'',
     ''dev_info'', ''kasprintf'', ''kvasprintf'', ''copy_user_overflow'']"

record cg_env =
  isVarArg :: "vid \<Rightarrow> bool"
  structName :: "nat \<Rightarrow> string"
  exported_func_names :: "string list"

definition isExcludeFunc :: "ir \<Rightarrow> vid \<Rightarrow> bool" where
  "isExcludeFunc I F \<longleftrightarrow> stripFuncNameVersionNumber (valueName I F) \<in> set exclude_func_names"

definition isExportedFunc :: "cg_env \<Rightarrow> ir \<Rightarrow> vid \<Rightarrow> bool" where
  "isExportedFunc E I F \<longleftrightarrow> stripFuncNameVersionNumber (valueName I F) \<in> set (exported_func_names E)"

subsection \<open>Indirect calls\<close>

fun isStructTy :: "ty \<Rightarrow> nat option" where
  "isStructTy (StructTy s) = Some s"
| "isStructTy _ = None"

definition isTypeEqual :: "cg_env \<Rightarrow> ty \<Rightarrow> ty \<Rightarrow> bool" where
  "isTypeEqual E t1 t2 =
     (if t1 = t2 then True
      else if \<not> isPointerTy t1 \<or> \<not> isPointerTy t2 then False
      else case (isStructTy (getElementType t1), isStructTy (getElementType t2)) of
             (Some s1, Some s2) \<Rightarrow> stripVersionTag (structName E s1) = stripVersionTag (structName E s2)
           | _ \<Rightarrow> False)"

fun returnTypeOf :: "ty \<Rightarrow> ty" where
  "returnTypeOf (PointerTy (FunctionTy r _)) = r"
| "returnTypeOf t = t"

definition isFuncSignatureMatch :: "cg_env \<Rightarrow> ir \<Rightarrow> vid \<Rightarrow> vid \<Rightarrow> bool" where
  "isFuncSignatureMatch E I ci f =
     (if isVarArg E f then False
      else if length (callArgs I ci) \<noteq> length (formals I f) then False
      else if \<not> isTypeEqual E (typeOf I ci) (returnTypeOf (typeOf I f)) then False
      else list_all (\<lambda>i. isTypeEqual E (typeOf I (getOperand I ci i)) (typeOf I (formals I f ! i)))
             [0..<length (callArgs I ci)])"

definition hasBody :: "ir \<Rightarrow> vid \<Rightarrow> bool" where
  "hasBody I F \<longleftrightarrow> \<not> (isDeclaration I F \<or> blocks I F = [])"

definition getIndirectCallCandidates :: "cg_env \<Rightarrow> ir \<Rightarrow> vid \<Rightarrow> vid set" where
  "getIndirectCallCandidates E I ci =
     set (filter (\<lambda>F. hasBody I F \<and> isFuncSignatureMatch E I ci F \<and> isExportedFunc E I F) (moduleFunctions I))"

text \<open>A wrapper that looks through pointer casts.\<close>

definition getCalledFunc :: "ir \<Rightarrow> vid \<Rightarrow> vid option" where
  "getCalledFunc I ci =
     (let called_val = calledOperand I ci
      in if called_val = 0 then None
         else let f = stripPointerCasts I called_val in if kind I f = KFunction then Some f else None)"

subsection \<open>Building the graph\<close>

definition cg_addNode :: "ir \<Rightarrow> (vid \<Rightarrow> nid) \<Rightarrow> vid \<Rightarrow> GenericGraph \<times> node_heap \<Rightarrow> GenericGraph \<times> node_heap" where
  "cg_addNode I addr F acc =
     (if \<not> hasBody I F then acc
      else let g = fst acc
           in (addNode (addr F) (g\<lparr>val_node_map := (if hasNode g F then val_node_map g else (F, addr F) # val_node_map g)\<rparr>),
               (snd acc)(addr F := new_Node_val I F FUNC)))"

definition connectTo :: "GenericGraph \<Rightarrow> nid \<Rightarrow> EdgeType \<Rightarrow> vid \<Rightarrow> node_heap \<Rightarrow> node_heap" where
  "connectTo g caller_node t callee h =
     (case getNode g callee of None \<Rightarrow> h | Some callee_node \<Rightarrow> addNeighbor caller_node callee_node t h)"

definition connectInst :: "cg_env \<Rightarrow> ir \<Rightarrow> GenericGraph \<Rightarrow> nid \<Rightarrow> vid \<Rightarrow> node_heap \<Rightarrow> node_heap" where
  "connectInst E I g caller_node ci h =
     (if kind I ci \<noteq> KCall then h
      else case getCalledFunc I ci of
             Some called_func \<Rightarrow> connectTo g caller_node CALL called_func h
           | None \<Rightarrow> fold (connectTo g caller_node IND_CALL) (sorted_list_of_set (getIndirectCallCandidates E I ci)) h)"

text \<open>The node of a function with a body has been created before; a missing one would be a null dereference.\<close>

definition connectFunction :: "cg_env \<Rightarrow> ir \<Rightarrow> GenericGraph \<Rightarrow> vid \<Rightarrow> node_heap \<Rightarrow> node_heap" where
  "connectFunction E I g F h =
     (if \<not> hasBody I F then h
      else case getNode g F of None \<Rightarrow> h | Some caller_node \<Rightarrow> fold (connectInst E I g caller_node) (instructions I F) h)"

definition cg_build :: "cg_env \<Rightarrow> ir \<Rightarrow> (vid \<Rightarrow> nid) \<Rightarrow> GenericGraph \<times> node_heap \<Rightarrow> GenericGraph \<times> node_heap" where
  "cg_build E I addr acc =
     (let (g, h) = fold (cg_addNode I addr) (moduleFunctions I) acc
      in (g\<lparr>is_build := True\<rparr>, fold (connectFunction E I g) (moduleFunctions I) h))"

subsection \<open>Queries\<close>

definition outNeighbors :: "node_heap \<Rightarrow> nid \<Rightarrow> nid list" where
  "outNeighbors h n = sorted_list_of_set (out_neighbors (h n))"

partial_function (option) cg_canReach_loop :: "(nid \<Rightarrow> nid list) \<Rightarrow> nid \<Rightarrow> nid list \<Rightarrow> nid set \<Rightarrow> bool option" where
  "cg_canReach_loop succ sink node_queue seen_node =
     (case node_queue of
        [] \<Rightarrow> Some False
      | n # rest \<Rightarrow>
          (if n = sink then Some True
           else if n \<in> seen_node then cg_canReach_loop succ sink rest seen_node
           else cg_canReach_loop succ sink (rest @ succ n) (insert n seen_node)))"

definition cg_canReach :: "node_heap \<Rightarrow> nid \<Rightarrow> nid \<Rightarrow> bool option" where
  "cg_canReach h src sink = cg_canReach_loop (outNeighbors h) sink [src] {}"



definition unpruned :: "ir \<Rightarrow> node_heap \<Rightarrow> nid \<Rightarrow> nid list" where
  "unpruned I h n =
     filter (\<lambda>m. \<not> (kind I (node_val (h m)) = KFunction \<and> isExcludeFunc I (node_val (h m)))) (outNeighbors h n)"

partial_function (option) closure_loop :: "(nid \<Rightarrow> nid list) \<Rightarrow> nid list \<Rightarrow> nid set \<Rightarrow> nid list \<Rightarrow> nid list option" where
  "closure_loop succ node_queue seen_node ret =
     (case node_queue of
        [] \<Rightarrow> Some ret
      | n # rest \<Rightarrow>
          (if n \<in> seen_node then closure_loop succ rest seen_node ret
           else closure_loop succ (rest @ succ n) (insert n seen_node) (ret @ [n])))"

definition computeTransitiveClosure :: "ir \<Rightarrow> node_heap \<Rightarrow> nid \<Rightarrow> nid list option" where
  "computeTransitiveClosure I h src = closure_loop (unpruned I h) [src] {} []"

subsection \<open>The graph that is built\<close>

definition call_edges :: "cg_env \<Rightarrow> ir \<Rightarrow> (vid \<Rightarrow> nid) \<Rightarrow> edge_spec set" where
  "call_edges E I addr =
     (\<Union>F \<in> {F \<in> set (moduleFunctions I). hasBody I F}. \<Union>ci \<in> {ci \<in> set (instructions I F). kind I ci = KCall}.
        case getCalledFunc I ci of
          Some C \<Rightarrow> {(addr F, addr D, CALL) | D. D = C \<and> C \<in> set (moduleFunctions I) \<and> hasBody I C}
        | None \<Rightarrow> {(addr F, addr C, IND_CALL) | C. C \<in> getIndirectCallCandidates E I ci})"

lemma fold_addNode:
  "mirrors {} (snd acc) \<Longrightarrow> mirrors {} (snd (fold (cg_addNode I addr) Fs acc)) \<and>
    getNode (fst (fold (cg_addNode I addr) Fs acc)) F =
      (case getNode (fst acc) F of Some n \<Rightarrow> Some n | None \<Rightarrow> if F \<in> set Fs \<and> hasBody I F then Some (addr F) else None)"
proof (induction Fs arbitrary: acc)
  case (Cons G Fs)
  have m: "mirrors {} (snd (cg_addNode I addr G acc))"
    using Cons.prems by (auto simp: cg_addNode_def mirrors_def new_Node_val_def new_Node_def Let_def)
  have g: "getNode (fst (cg_addNode I addr G acc)) F =
      (case getNode (fst acc) F of Some n \<Rightarrow> Some n | None \<Rightarrow> if F = G \<and> hasBody I G then Some (addr G) else None)"
    by (auto simp: cg_addNode_def Let_def getNode_def hasNode_def addNode_def contains_map_of split: option.splits)
  show ?case using Cons.IH [OF m] g by (auto split: option.splits)
qed (auto split: option.split)

lemma adds_connectTo:
  "adds (connectTo g n t C) {(n, m, t) | m. getNode g C = Some m}"
  using adds_addNeighbor by (auto simp: adds_def connectTo_def split: option.split)

lemma adds_connectInst:
  assumes "\<And>F. getNode g F = (if F \<in> set (moduleFunctions I) \<and> hasBody I F then Some (addr F) else None)"
  shows "adds (connectInst E I g (addr F) ci)
    (if kind I ci = KCall then (case getCalledFunc I ci of
        Some C \<Rightarrow> {(addr F, addr D, CALL) | D. D = C \<and> C \<in> set (moduleFunctions I) \<and> hasBody I C}
      | None \<Rightarrow> {(addr F, addr C, IND_CALL) | C. C \<in> getIndirectCallCandidates E I ci}) else {})"
proof (cases "kind I ci = KCall")
  case call: True
  have fin: "finite (getIndirectCallCandidates E I ci)" by (simp add: getIndirectCallCandidates_def)
  show ?thesis
  proof (cases "getCalledFunc I ci")
    case None
    have "adds (fold (connectTo g (addr F) IND_CALL) (sorted_list_of_set (getIndirectCallCandidates E I ci)))
        (\<Union>C \<in> getIndirectCallCandidates E I ci. {(addr F, m, IND_CALL) | m. getNode g C = Some m})"
      using adds_fold [of "sorted_list_of_set (getIndirectCallCandidates E I ci)" "connectTo g (addr F) IND_CALL", OF adds_connectTo] fin by simp
    moreover have "(\<Union>C \<in> getIndirectCallCandidates E I ci. {(addr F, m, IND_CALL) | m. getNode g C = Some m}) =
        {(addr F, addr C, IND_CALL) | C. C \<in> getIndirectCallCandidates E I ci}"
      by (auto simp: assms getIndirectCallCandidates_def)
    ultimately show ?thesis using call None by (simp add: connectInst_def [abs_def] adds_def)
  next
    case (Some C)
    have "{(addr F, m, CALL) | m. getNode g C = Some m} = {(addr F, addr D, CALL) | D. D = C \<and> C \<in> set (moduleFunctions I) \<and> hasBody I C}"
      by (auto simp: assms)
    then show ?thesis using adds_connectTo [of g "addr F" CALL C] call Some by (simp add: connectInst_def [abs_def] adds_def)
  qed
qed (simp add: connectInst_def [abs_def] adds_def)

text \<open>
  C19: The call graph is exact: built from an empty graph, it has a node for exactly the functions with a body,
  and its edges are exactly those from a function to the functions with a body that it calls, directly or
  through a cast, and from a function with an indirect call to the exported functions of matching signature.
\<close>

theorem call_graph_exact:
  assumes "val_node_map g0 = []" and "mirrors {} h0" and "cg_build E I addr (g0, h0) = (g, h)"
  shows "getNode g F = (if F \<in> set (moduleFunctions I) \<and> hasBody I F then Some (addr F) else None) \<and>
    mirrors (call_edges E I addr) h"
proof -
  obtain g1 h1 where r: "fold (cg_addNode I addr) (moduleFunctions I) (g0, h0) = (g1, h1)" by fastforce
  have none: "getNode g0 F = None" for F using assms(1) by (simp add: getNode_def hasNode_def contains_def)
  have g1: "getNode g1 F = (if F \<in> set (moduleFunctions I) \<and> hasBody I F then Some (addr F) else None)" for F
    using fold_addNode [of "(g0, h0)" I addr "moduleFunctions I" F] assms(2) none [of F] r by simp
  have h1: "mirrors {} h1" using fold_addNode [of "(g0, h0)" I addr "moduleFunctions I"] assms(2) r by simp
  have gh: "g = g1\<lparr>is_build := True\<rparr>" "h = fold (connectFunction E I g1) (moduleFunctions I) h1" using assms(3) r by (simp_all add: cg_build_def)
  let ?X = "\<lambda>F ci. if kind I ci = KCall then (case getCalledFunc I ci of
        Some C \<Rightarrow> {(addr F, addr D, CALL) | D. D = C \<and> C \<in> set (moduleFunctions I) \<and> hasBody I C}
      | None \<Rightarrow> {(addr F, addr C, IND_CALL) | C. C \<in> getIndirectCallCandidates E I ci}) else {}"
  have "adds (connectFunction E I g1 F) (if hasBody I F then \<Union>ci \<in> set (instructions I F). ?X F ci else {})"
    if "F \<in> set (moduleFunctions I)" for F
    using adds_fold [of "instructions I F" "connectInst E I g1 (addr F)", OF adds_connectInst [OF g1]] that g1 [of F]
    by (simp add: connectFunction_def [abs_def] adds_def)
  then have "adds (fold (connectFunction E I g1) (moduleFunctions I))
      (\<Union>F \<in> set (moduleFunctions I). if hasBody I F then \<Union>ci \<in> set (instructions I F). ?X F ci else {})" by (rule adds_fold)
  moreover have "(\<Union>F \<in> set (moduleFunctions I). if hasBody I F then \<Union>ci \<in> set (instructions I F). ?X F ci else {}) = call_edges E I addr"
    unfolding call_edges_def by (auto split: if_splits)
  ultimately have "adds (fold (connectFunction E I g1) (moduleFunctions I)) (call_edges E I addr)" by (rule adds_cong)
  then have "mirrors ({} \<union> call_edges E I addr) h" using h1 gh(2) unfolding adds_def by blast
  then have "mirrors (call_edges E I addr) h" by simp
  moreover have "getNode g F = getNode g1 F" by (simp add: gh(1) getNode_def hasNode_def)
  ultimately show ?thesis using g1 by simp
qed

subsection \<open>The queries as searches\<close>

interpretation cg_bfs: goal_search "cg_canReach_loop succ sink" succ "\<lambda>ns w. w @ ns" "\<lambda>n. n = sink" for succ sink
  by unfold_locales (auto simp: cg_canReach_loop.simps)

definition graph_edges :: "node_heap \<Rightarrow> (nid \<times> nid) set" where
  "graph_edges h = {(a, b). b \<in> out_neighbors (h a)}"

definition finite_graph :: "node_heap \<Rightarrow> nid set \<Rightarrow> bool" where
  "finite_graph h U \<longleftrightarrow> finite U \<and> (\<forall>n \<in> U. out_neighbors (h n) \<subseteq> U)"

lemma set_outNeighbors: "finite_graph h U \<Longrightarrow> n \<in> U \<Longrightarrow> set (outNeighbors h n) = out_neighbors (h n)"
  using finite_subset by (fastforce simp: finite_graph_def outNeighbors_def)

lemma reach_within:
  assumes "\<And>x. x \<in> U \<Longrightarrow> set (succ x) = {y. (x, y) \<in> R} \<and> set (succ x) \<subseteq> U" and "a \<in> U"
  shows "reach succ {a} = R\<^sup>* `` {a}"
proof -
  have into: "b \<in> U \<and> (a, b) \<in> R\<^sup>*" if "(a, b) \<in> (edges succ)\<^sup>*" for b
    using that
  proof induction
    case (step y z)
    then have "z \<in> set (succ y)" by (simp add: edges_def)
    then show ?case using step.IH assms(1) [of y] by (auto intro: rtrancl_into_rtrancl)
  qed (simp add: assms(2))
  have "b \<in> U \<and> (a, b) \<in> (edges succ)\<^sup>*" if "(a, b) \<in> R\<^sup>*" for b
    using that
  proof induction
    case (step y z)
    then have "z \<in> set (succ y)" using assms(1) by blast
    then show ?case using step.IH assms(1) [of y] by (auto simp: edges_def intro: rtrancl_into_rtrancl)
  qed (simp add: assms(2))
  then show ?thesis using into by (auto simp: reach_def)
qed

text \<open>
  The call-graph query returns and answers exactly whether a function can be reached over calls.
\<close>

theorem cg_canReach_decides_reachability:
  assumes "finite_graph h U" and "src \<in> U"
  shows "cg_canReach h src sink = Some ((src, sink) \<in> (graph_edges h)\<^sup>*)"
proof -
  have s: "set (outNeighbors h x) = {y. (x, y) \<in> graph_edges h} \<and> set (outNeighbors h x) \<subseteq> U" if "x \<in> U" for x
    using set_outNeighbors [OF assms(1) that] assms(1) that by (auto simp: finite_graph_def graph_edges_def)
  have "cg_canReach h src sink = Some (\<exists>x \<in> reach (outNeighbors h) (set [src]). x = sink)"
    unfolding cg_canReach_def
    by (rule cg_bfs.find_from [where U = U]) (use s assms in \<open>auto simp: finite_graph_def\<close>)
  then show ?thesis using reach_within [OF s assms(2)] by simp
qed

subsection \<open>The transitive closure\<close>

lemma closure_collects:
  assumes "finite U" and "\<And>x. x \<in> U \<Longrightarrow> set (succ x) \<subseteq> U"
    and "set ret \<subseteq> U" and "set w \<subseteq> U" and "closed_upto succ w (set ret)" and "distinct ret"
  shows "\<exists>r. closure_loop succ w (set ret) ret = Some r \<and> distinct r \<and> set r = reach succ (set ret \<union> set w)"
  using assms(3-6)
proof (induction "(ret, w)" arbitrary: ret w
    rule: wf_induct_rule [OF wf_measures [of "[\<lambda>(ret, w). card (U - set ret), \<lambda>(ret, w). length w]"]])
  case (1 ret w)
  show ?case
  proof (cases w)
    case Nil
    then show ?thesis using "1.prems" reach_closed [of "set ret" succ] by (auto simp: closure_loop.simps closed_upto_def)
  next
    case (Cons n w0)
    show ?thesis
    proof (cases "n \<in> set ret")
      case True
      have "\<exists>r. closure_loop succ w0 (set ret) ret = Some r \<and> distinct r \<and> set r = reach succ (set ret \<union> set w0)"
        using "1.hyps" [of ret w0] "1.prems" closed_upto_seen [of succ n w0 "set ret"] Cons True by simp
      then show ?thesis using Cons True reach_seen [OF True, of succ w0] by (subst closure_loop.simps) simp
    next
      case False
      have U: "set (ret @ [n]) \<subseteq> U" "set (w0 @ succ n) \<subseteq> U" "distinct (ret @ [n])" using "1.prems" Cons assms(2) False by auto
      have "card (U - set (ret @ [n])) < card (U - set ret)" using fresh_decreases [OF assms(1)] U False by auto
      then have "\<exists>r. closure_loop succ (w0 @ succ n) (set (ret @ [n])) (ret @ [n]) = Some r \<and> distinct r \<and>
          set r = reach succ (set (ret @ [n]) \<union> set (w0 @ succ n))"
        using "1.hyps" [of "ret @ [n]" "w0 @ succ n"] U "1.prems"(3)
          closed_upto_step [of succ n w0 "set ret" "w0 @ succ n"] Cons by auto
      then show ?thesis using Cons False reach_new [of "w0 @ succ n" succ n w0 "set ret"]
        by (subst closure_loop.simps) (simp add: Un_commute)
    qed
  qed
qed

definition pruned_edges :: "ir \<Rightarrow> node_heap \<Rightarrow> (nid \<times> nid) set" where
  "pruned_edges I h = {(a, b) \<in> graph_edges h. \<not> (kind I (node_val (h b)) = KFunction \<and> isExcludeFunc I (node_val (h b)))}"

text \<open>
  The transitive closure of a function returns and lists, each once, exactly the functions reachable
  over calls of functions that are not excluded by name.
\<close>

theorem transitive_closure_exact:
  assumes "finite_graph h U" and "src \<in> U"
  shows "\<exists>r. computeTransitiveClosure I h src = Some r \<and> distinct r \<and> set r = (pruned_edges I h)\<^sup>* `` {src}"
proof -
  have s: "set (unpruned I h x) = {y. (x, y) \<in> pruned_edges I h} \<and> set (unpruned I h x) \<subseteq> U" if "x \<in> U" for x
    using set_outNeighbors [OF assms(1) that] assms(1) that by (auto simp: finite_graph_def graph_edges_def pruned_edges_def unpruned_def)
  have "\<exists>r. closure_loop (unpruned I h) [src] (set []) [] = Some r \<and> distinct r \<and> set r = reach (unpruned I h) (set [] \<union> set [src])"
    by (rule closure_collects [where U = U]) (use s assms in \<open>auto simp: finite_graph_def closed_upto_def\<close>)
  then show ?thesis using reach_within [OF s assms(2)] by (simp add: computeTransitiveClosure_def)
qed

subsection \<open>Paths\<close>





definition function_graph :: "ir \<Rightarrow> node_heap \<Rightarrow> nid set \<Rightarrow> bool" where
  "function_graph I h U \<longleftrightarrow> finite_graph h U \<and> inj_on (\<lambda>n. node_val (h n)) U \<and> (\<forall>n \<in> U. kind I (node_val (h n)) = KFunction)"






text \<open>An example: the function 1 calls 2, which calls 3.\<close>

definition cg_example :: ir where
  "cg_example = empty_ir\<lparr>kind := (\<lambda>v. if v < 4 then KFunction else KCall), isDeclaration := (\<lambda>_. False),
     blocks := (\<lambda>f. [f + 10]), insts := (\<lambda>b. if b = 11 then [21] else if b = 12 then [22] else []),
     calledOperand := (\<lambda>v. if v = 21 then 2 else 3), moduleFunctions := [1, 2, 3]\<rparr>"

definition cg_nodes :: node_heap where
  "cg_nodes = (\<lambda>n. (new_Node FUNC)\<lparr>node_val := n, out_neighbors := (if n = 1 then {2} else if n = 2 then {3} else {})\<rparr>)"

lemma cg_nodes_ok: "function_graph cg_example cg_nodes {1, 2, 3}" "finite_graph cg_nodes {1, 2, 3}"
  "graph_edges cg_nodes = {(1, 2), (2, 3)}"
  by (auto simp: function_graph_def finite_graph_def graph_edges_def cg_nodes_def cg_example_def inj_on_def new_Node_def split: if_splits)

theorem cg_canReach_decides_reachability_witness: "cg_canReach cg_nodes 1 3 = Some True"
proof -
  have "(1, 3) \<in> (graph_edges cg_nodes)\<^sup>*" unfolding cg_nodes_ok(3)
    by (rule rtrancl_into_rtrancl [OF r_into_rtrancl, of 1 2]) simp_all
  then show ?thesis using cg_canReach_decides_reachability [OF cg_nodes_ok(2), of 1 3] by simp
qed

theorem transitive_closure_exact_witness: "\<exists>r. computeTransitiveClosure cg_example cg_nodes 1 = Some r \<and> 1 \<in> set r"
proof -
  obtain r where "computeTransitiveClosure cg_example cg_nodes 1 = Some r" "set r = (pruned_edges cg_example cg_nodes)\<^sup>* `` {1}"
    using transitive_closure_exact [OF cg_nodes_ok(2), of 1 cg_example] by auto
  then show ?thesis by auto
qed


definition cg_empty :: "GenericGraph \<times> node_heap" where
  "cg_empty = (\<lparr>val_node_map = [], node_set = {}, is_build = False\<rparr>, \<lambda>_. new_Node FUNC)"

definition cg_example_env :: cg_env where
  "cg_example_env = \<lparr>isVarArg = (\<lambda>_. False), structName = (\<lambda>_. ''''), exported_func_names = []\<rparr>"

theorem call_graph_exact_witness:
  "getNode (fst (cg_build cg_example_env cg_example (\<lambda>f. f + 50) cg_empty)) 2 = Some 52 \<and>
   mirrors (call_edges cg_example_env cg_example (\<lambda>f. f + 50)) (snd (cg_build cg_example_env cg_example (\<lambda>f. f + 50) cg_empty))"
proof -
  have "mirrors {} (\<lambda>_. new_Node FUNC)" by (simp add: mirrors_def new_Node_def)
  then show ?thesis
    using call_graph_exact [of "fst cg_empty" "snd cg_empty" cg_example_env cg_example "\<lambda>f. f + 50"
        "fst (cg_build cg_example_env cg_example (\<lambda>f. f + 50) cg_empty)" "snd (cg_build cg_example_env cg_example (\<lambda>f. f + 50) cg_empty)" 2]
    by (simp add: cg_empty_def hasBody_def cg_example_def)
qed

subsection \<open>Versions of a name\<close>

lemma find_from_step:
  "pos < length s \<Longrightarrow> find_from c s pos = (if s ! pos = c then Some pos else find_from c s (Suc pos))"
  using upt_conv_Cons [of pos "length s"] by (simp add: find_from_def del: upt_Suc)

lemma find_from_skip:
  "c \<notin> set ys \<Longrightarrow> find_from c (xs @ ys @ c # zs) (length xs) = Some (length xs + length ys)"
proof (induction ys arbitrary: xs)
  case (Cons y ys)
  have "find_from c (xs @ (y # ys) @ c # zs) (length xs) = find_from c ((xs @ [y]) @ ys @ c # zs) (length (xs @ [y]))"
    using Cons.prems by (auto simp: find_from_step [of "length xs"])
  then show ?case using Cons.IH [of "xs @ [y]"] Cons.prems by simp
qed (simp add: find_from_step)

text \<open>
  The tag that linking appends to the name of a structure is removed: two versions of one structure have the
  same name for the comparison of signatures.
\<close>

lemma stripVersionTag_versions:
  assumes "CHR ''.'' \<notin> set name" and "kind_of \<noteq> []" and "CHR ''.'' \<notin> set (tl kind_of)"
  shows "stripVersionTag (kind_of @ CHR ''.'' # name @ CHR ''.'' # tag) = kind_of @ CHR ''.'' # name"
proof -
  obtain k ks where k: "kind_of = k # ks" using assms(2) by (cases kind_of) auto
  let ?s = "kind_of @ CHR ''.'' # name @ CHR ''.'' # tag"
  have "find_from CHR ''.'' ([k] @ ks @ CHR ''.'' # (name @ CHR ''.'' # tag)) (length [k]) = Some (length [k] + length ks)"
    by (rule find_from_skip) (use assms(3) k in simp)
  then have first: "find_from CHR ''.'' ?s 1 = Some (length kind_of)" by (simp add: k)
  have "find_from CHR ''.'' ((kind_of @ [CHR ''.'']) @ name @ CHR ''.'' # tag) (length (kind_of @ [CHR ''.''])) =
      Some (length (kind_of @ [CHR ''.'']) + length name)"
    by (rule find_from_skip [OF assms(1)])
  then have second: "find_from CHR ''.'' ?s (length kind_of + 1) = Some (length kind_of + 1 + length name)" by simp
  have "nth_dot ?s 0 2 = Some (length kind_of + 1 + length name)"
    using first second by (simp add: numeral_2_eq_2)
  then show ?thesis by (simp add: stripVersionTag_def)
qed

end
