(* ===== verification/Control_Dependency.thy ===== *)
theory Control_Dependency
  imports PDG_Graph
begin

text \<open>
  The control dependences (\<^verbatim>\<open>ControlDependencyGraph.cpp\<close>): edges from the condition of a branch to the
  instructions it decides about.  The post-dominator tree of LLVM is the record \<open>pdt\<close>; its nodes are blocks,
  and \<open>0\<close> is the virtual root, whose block is null.  \<open>entryNode f\<close> is the entry node that
  \<^verbatim>\<open>ProgramGraph::build\<close> has created for a function.  A result \<open>None\<close> is a null dereference.
\<close>

record pdt =
  dominates :: "vid \<Rightarrow> vid \<Rightarrow> bool"
  findNearestCommonDominator :: "vid \<Rightarrow> vid \<Rightarrow> vid"
  getIDom :: "vid \<Rightarrow> vid option"

definition addControlDepFromNodeToBB :: "ir \<Rightarrow> GenericGraph \<Rightarrow> nid \<Rightarrow> vid \<Rightarrow> node_heap \<Rightarrow> node_heap" where
  "addControlDepFromNodeToBB I g n BB h =
     fold (\<lambda>inst h. case getNode g inst of None \<Rightarrow> h | Some inst_node \<Rightarrow> addNeighbor n inst_node CONTROL h) (insts I BB) h"

definition addControlDepFromEntryNodeToEntryBlock ::
    "ir \<Rightarrow> (vid \<Rightarrow> nid option) \<Rightarrow> GenericGraph \<Rightarrow> vid \<Rightarrow> node_heap \<Rightarrow> node_heap option" where
  "addControlDepFromEntryNodeToEntryBlock I entryNode g F h =
     map_option (\<lambda>n. addControlDepFromNodeToBB I g n (hd (blocks I F)) h) (entryNode F)"

text \<open>The loop over the ancestors of the successor in the post-dominator tree.\<close>

partial_function (option) climb :: "ir \<Rightarrow> pdt \<Rightarrow> GenericGraph \<Rightarrow> nid \<Rightarrow> vid \<Rightarrow> vid \<Rightarrow> node_heap \<Rightarrow> node_heap option" where
  "climb I D g cond_node nearestCommonDominator cur h =
     (if cur = nearestCommonDominator then Some h
      else if cur = 0 then None
      else case getIDom D cur of
             None \<Rightarrow> None
           | Some parent \<Rightarrow> climb I D g cond_node nearestCommonDominator parent (addControlDepFromNodeToBB I g cond_node cur h))"

definition dependOnBranch :: "ir \<Rightarrow> pdt \<Rightarrow> GenericGraph \<Rightarrow> nid \<Rightarrow> vid \<Rightarrow> vid \<Rightarrow> node_heap \<Rightarrow> node_heap option" where
  "dependOnBranch I D g cond_node BB succ_bb h =
     (let ncd = findNearestCommonDominator D BB succ_bb;
          h1 = (if ncd = BB then addControlDepFromNodeToBB I g cond_node succ_bb h else h)
      in climb I D g cond_node ncd succ_bb h1)"

text \<open>The loop over the successors of a block; \<open>break\<close> leaves the rest of them out.\<close>

fun successor_loop :: "ir \<Rightarrow> pdt \<Rightarrow> GenericGraph \<Rightarrow> vid \<Rightarrow> vid list \<Rightarrow> node_heap \<Rightarrow> node_heap option" where
  "successor_loop I D g BB [] h = Some h"
| "successor_loop I D g BB (succ_bb # rest) h =
     (if BB = succ_bb \<or> \<not> dominates D succ_bb BB
      then (let bi = terminator I BB
            in if is_Br_k (kind I bi)
               then (if \<not> is_CondBr_k (kind I bi) then Some h
                     else case getNode g (getOperand I bi 0) of
                            None \<Rightarrow> Some h
                          | Some cond_node \<Rightarrow>
                              Option.bind (dependOnBranch I D g cond_node BB succ_bb h) (successor_loop I D g BB rest))
               else successor_loop I D g BB rest h)
      else successor_loop I D g BB rest h)"

definition computeControlDependencies :: "ir \<Rightarrow> pdt \<Rightarrow> GenericGraph \<Rightarrow> vid \<Rightarrow> node_heap \<Rightarrow> node_heap option" where
  "computeControlDependencies I D g F h = fold_option (\<lambda>BB. successor_loop I D g BB (successors I BB)) (blocks I F) h"

definition cdg_runOnFunction :: "ir \<Rightarrow> pdt \<Rightarrow> (vid \<Rightarrow> nid option) \<Rightarrow> GenericGraph \<Rightarrow> vid \<Rightarrow> node_heap \<Rightarrow> node_heap option" where
  "cdg_runOnFunction I D entryNode g F h =
     Option.bind (addControlDepFromEntryNodeToEntryBlock I entryNode g F h) (computeControlDependencies I D g F)"

subsection \<open>The post-dominator tree\<close>

definition tree_edges :: "pdt \<Rightarrow> (vid \<times> vid) set" where
  "tree_edges D = {(b, p). getIDom D b = Some p}"

definition post_dominators :: "pdt \<Rightarrow> vid \<Rightarrow> vid set" where
  "post_dominators D b = (tree_edges D)\<^sup>* `` {b}"

text \<open>
  What LLVM documents of the tree of a function with the blocks \<open>V\<close>: it has no cycle, its queries are those of the
  tree, and the root has no parent.
\<close>

definition pdt_ok :: "pdt \<Rightarrow> vid set \<Rightarrow> bool" where
  "pdt_ok D V \<longleftrightarrow> wf ((tree_edges D)\<inverse>) \<and> getIDom D 0 = None \<and>
     (\<forall>a \<in> V. \<forall>b \<in> V. (dominates D a b \<longleftrightarrow> a \<in> post_dominators D b) \<and>
        findNearestCommonDominator D a b \<in> post_dominators D a \<inter> post_dominators D b \<and>
        post_dominators D a \<inter> post_dominators D b \<subseteq> post_dominators D (findNearestCommonDominator D a b))"

lemma post_dominators_self: "b \<in> post_dominators D b"
  by (simp add: post_dominators_def)

lemma post_dominators_trans: "a \<in> post_dominators D b \<Longrightarrow> post_dominators D a \<subseteq> post_dominators D b"
  by (auto simp: post_dominators_def intro: rtrancl_trans)

lemma post_dominators_step:
  "post_dominators D b = insert b (case getIDom D b of None \<Rightarrow> {} | Some p \<Rightarrow> post_dominators D p)"
proof -
  have "(b, x) \<in> (tree_edges D)\<^sup>* \<longleftrightarrow> x = b \<or> (\<exists>p. getIDom D b = Some p \<and> (p, x) \<in> (tree_edges D)\<^sup>*)" for x
    by (auto elim: converse_rtranclE intro: converse_rtrancl_into_rtrancl simp: tree_edges_def)
  then show ?thesis by (auto simp: post_dominators_def split: option.split)
qed

lemma post_dominators_antisym:
  assumes "wf ((tree_edges D)\<inverse>)" and "a \<in> post_dominators D b" and "b \<in> post_dominators D a"
  shows "a = b"
proof (rule ccontr)
  assume "a \<noteq> b"
  then have "(b, a) \<in> (tree_edges D)\<^sup>+" "(a, b) \<in> (tree_edges D)\<^sup>+"
    using assms(2,3) by (auto simp: post_dominators_def rtrancl_eq_or_trancl)
  then have "(a, a) \<in> (tree_edges D)\<^sup>+" by (rule trancl_trans [rotated])
  then have "(a, a) \<in> ((tree_edges D)\<inverse>)\<^sup>+" by (simp add: trancl_converse)
  then show False using wf_trancl [OF assms(1)] by (auto dest: wf_not_refl)
qed

subsection \<open>The edges\<close>

definition block_edges :: "ir \<Rightarrow> GenericGraph \<Rightarrow> nid \<Rightarrow> vid set \<Rightarrow> edge_spec set" where
  "block_edges I g c Xs = {(c, n, CONTROL) | X i n. X \<in> Xs \<and> i \<in> set (insts I X) \<and> getNode g i = Some n}"

lemma adds_block: "adds (addControlDepFromNodeToBB I g c BB) (block_edges I g c {BB})"
proof -
  have "adds (\<lambda>h. case getNode g i of None \<Rightarrow> h | Some n \<Rightarrow> addNeighbor c n CONTROL h) {(c, n, CONTROL) | n. getNode g i = Some n}" for i
    using adds_addNeighbor by (auto simp: adds_def split: option.split)
  from adds_fold [where xs = "insts I BB", OF this] show ?thesis
    unfolding addControlDepFromNodeToBB_def [abs_def] by (rule adds_cong) (auto simp: block_edges_def)
qed

lemma block_edges_union: "block_edges I g c (A \<union> B) = block_edges I g c A \<union> block_edges I g c B"
  by (auto simp: block_edges_def)

definition adds_some :: "(node_heap \<Rightarrow> node_heap option) \<Rightarrow> edge_spec set \<Rightarrow> bool" where
  "adds_some f X \<longleftrightarrow> (\<exists>g. (\<forall>h. f h = Some (g h)) \<and> adds g X)"

lemma adds_some_bind: "adds_some f X \<Longrightarrow> adds_some g Y \<Longrightarrow> adds_some (\<lambda>h. Option.bind (f h) g) (X \<union> Y)"
  using adds_comp by (fastforce simp: adds_some_def)

lemma adds_some_adds: "adds g X \<Longrightarrow> adds_some (\<lambda>h. Some (g h)) X"
  by (auto simp: adds_some_def)

lemma adds_id: "adds (\<lambda>h. h) {}"
  by (simp add: adds_def)

lemma adds_some_fold:
  assumes "\<And>x. x \<in> set xs \<Longrightarrow> adds_some (f x) (X x)"
  shows "adds_some (fold_option f xs) (\<Union>x \<in> set xs. X x)"
  using assms
proof (induction xs)
  case Nil
  then show ?case using adds_some_adds [OF adds_id] by simp
next
  case (Cons x xs)
  then show ?case using adds_some_bind [of "f x" "X x" "fold_option f xs"] by simp
qed


lemma adds_some_cong: "adds_some f X \<Longrightarrow> X = Y \<Longrightarrow> adds_some f Y"
  by simp

text \<open>
  The climb terminates at the common dominator, and the blocks on its way are the post-dominators of the successor
  that do not post-dominate the target.
\<close>

lemma climb_adds:
  assumes wf: "wf ((tree_edges D)\<inverse>)" and root: "getIDom D 0 = None"
  shows "t \<in> post_dominators D b \<Longrightarrow> adds_some (climb I D g c t b) (block_edges I g c (post_dominators D b - post_dominators D t))"
  using wf
proof (induction b rule: wf_induct_rule)
  case (less b)
  show ?case
  proof (cases "b = t")
    case True
    then have "climb I D g c t b = (\<lambda>h. Some h)" by (intro ext) (simp add: climb.simps)
    then show ?thesis using True adds_some_adds [OF adds_id] by (simp add: block_edges_def)
  next
    case False
    with less.prems obtain p where p: "getIDom D b = Some p" and t: "t \<in> post_dominators D p"
      by (subst (asm) post_dominators_step) (auto split: option.splits)
    have nz: "b \<noteq> 0" using p root by (cases "b = 0") simp_all
    have "b \<notin> post_dominators D t" using post_dominators_antisym [OF wf less.prems] False by blast
    then have split: "post_dominators D b - post_dominators D t = {b} \<union> (post_dominators D p - post_dominators D t)"
      by (subst post_dominators_step) (auto simp: p)
    have eq: "climb I D g c t b = (\<lambda>h. Option.bind (Some (addControlDepFromNodeToBB I g c b h)) (climb I D g c t p))"
      by (intro ext, subst climb.simps) (simp add: False nz p)
    have "(p, b) \<in> (tree_edges D)\<inverse>" by (simp add: tree_edges_def p)
    from less.IH [OF this t] show ?thesis
      unfolding eq split block_edges_union by (intro adds_some_bind adds_some_adds adds_block)
  qed
qed

definition decided_blocks :: "pdt \<Rightarrow> vid \<Rightarrow> vid \<Rightarrow> vid set" where
  "decided_blocks D A B = post_dominators D B - post_dominators D A \<union> (if A = B then {B} else {})"

lemma dependOnBranch_adds:
  assumes "pdt_ok D V" and "A \<in> V" and "B \<in> V"
  shows "adds_some (dependOnBranch I D g c A B) (block_edges I g c (decided_blocks D A B))"
proof -
  define t where "t = findNearestCommonDominator D A B"
  have wf: "wf ((tree_edges D)\<inverse>)" "getIDom D 0 = None" using assms by (auto simp: pdt_ok_def)
  have t: "t \<in> post_dominators D A" "t \<in> post_dominators D B" "post_dominators D A \<inter> post_dominators D B \<subseteq> post_dominators D t"
    using assms by (auto simp: pdt_ok_def t_def)
  define Z where "Z = (if t = A then {B} else {})"
  have pd: "post_dominators D B - post_dominators D t = post_dominators D B - post_dominators D A"
    using t post_dominators_trans [OF t(1)] by auto
  have dec: "Z \<union> (post_dominators D B - post_dominators D A) = decided_blocks D A B"
  proof -
    have "t = A" if "A = B" using post_dominators_antisym [OF wf(1) t(1)] t(3) post_dominators_self that by blast
    moreover have "B \<in> post_dominators D B - post_dominators D A" if "t = A" "A \<noteq> B"
      using post_dominators_antisym [OF wf(1), of A B] t(2) that post_dominators_self by blast
    ultimately show ?thesis by (auto simp: Z_def decided_blocks_def)
  qed
  have "adds (\<lambda>h. if t = A then addControlDepFromNodeToBB I g c B h else h) (block_edges I g c Z)"
    using adds_block adds_id by (simp add: Z_def block_edges_def)
  from adds_some_bind [OF adds_some_adds [OF this] climb_adds [OF wf t(2), where I = I and g = g and c = c]]
  have "adds_some (\<lambda>h. Option.bind (Some (if t = A then addControlDepFromNodeToBB I g c B h else h)) (climb I D g c t B))
                     (block_edges I g c (decided_blocks D A B))"
    by (simp only: pd dec block_edges_union [symmetric])
  then show ?thesis by (simp add: dependOnBranch_def [abs_def] Let_def t_def)
qed

text \<open>
  The control dependences as a set: the condition of the conditional branch that ends \<open>A\<close> decides about the blocks
  \<open>decided_blocks D A B\<close>, for every successor \<open>B\<close>.
\<close>

definition branch_edges :: "ir \<Rightarrow> pdt \<Rightarrow> GenericGraph \<Rightarrow> vid \<Rightarrow> vid \<Rightarrow> edge_spec set" where
  "branch_edges I D g A B =
     (if is_CondBr_k (kind I (terminator I A))
      then (case getNode g (getOperand I (terminator I A) 0) of None \<Rightarrow> {} | Some c \<Rightarrow> block_edges I g c (decided_blocks D A B))
      else {})"

lemma successor_loop_adds:
  assumes "pdt_ok D V" and "A \<in> V"
  shows "set Bs \<subseteq> V \<Longrightarrow> adds_some (successor_loop I D g A Bs) (\<Union>B \<in> set Bs. branch_edges I D g A B)"
proof (induction Bs)
  case Nil
  then show ?case using adds_some_adds [OF adds_id] by simp
next
  case (Cons B Bs)
  have none: "adds_some (\<lambda>h. Some h) {}" using adds_some_adds [OF adds_id] by simp
  show ?case
  proof (cases "A = B \<or> \<not> dominates D B A")
    case False
    then have "decided_blocks D A B = {}"
      using assms Cons.prems post_dominators_trans by (auto simp: decided_blocks_def pdt_ok_def)
    then have "branch_edges I D g A B = {}" by (simp add: branch_edges_def block_edges_def split: option.split)
    moreover have "successor_loop I D g A (B # Bs) = successor_loop I D g A Bs" using False by (intro ext) auto
    ultimately show ?thesis using Cons by simp
  next
    case True
    show ?thesis
    proof (cases "is_CondBr_k (kind I (terminator I A))")
      case False
      then have "branch_edges I D g A = (\<lambda>_. {})" by (intro ext) (simp add: branch_edges_def)
      moreover have "successor_loop I D g A (B # Bs) =
          (if is_Br_k (kind I (terminator I A)) then (\<lambda>h. Some h) else successor_loop I D g A Bs)"
        using True False by (intro ext) (auto simp: Let_def)
      ultimately show ?thesis using none Cons by simp
    next
      case cond: True
      then have br: "is_Br_k (kind I (terminator I A))" by (cases "kind I (terminator I A)") simp_all
      show ?thesis
      proof (cases "getNode g (getOperand I (terminator I A) 0)")
        case None
        then have "branch_edges I D g A = (\<lambda>_. {})" by (intro ext) (simp add: branch_edges_def)
        moreover have "successor_loop I D g A (B # Bs) = (\<lambda>h. Some h)"
          using True br cond None by (intro ext) (simp add: Let_def)
        ultimately show ?thesis using none by simp
      next
        case (Some c)
        then have "branch_edges I D g A B = block_edges I g c (decided_blocks D A B)" by (simp add: branch_edges_def cond)
        moreover have "successor_loop I D g A (B # Bs) =
            (\<lambda>h. Option.bind (dependOnBranch I D g c A B h) (successor_loop I D g A Bs))"
          using True br cond Some by (intro ext) (simp add: Let_def)
        ultimately show ?thesis using adds_some_bind [OF dependOnBranch_adds [OF assms] Cons.IH] Cons.prems by simp
      qed
    qed
  qed
qed

definition cfg_closed :: "ir \<Rightarrow> vid \<Rightarrow> bool" where
  "cfg_closed I F \<longleftrightarrow> (\<forall>A \<in> set (blocks I F). set (successors I A) \<subseteq> set (blocks I F))"

definition control_edges :: "ir \<Rightarrow> pdt \<Rightarrow> GenericGraph \<Rightarrow> vid \<Rightarrow> edge_spec set" where
  "control_edges I D g F = (\<Union>A \<in> set (blocks I F). \<Union>B \<in> set (successors I A). branch_edges I D g A B)"

lemma computeControlDependencies_adds:
  "pdt_ok D (set (blocks I F)) \<Longrightarrow> cfg_closed I F \<Longrightarrow> adds_some (computeControlDependencies I D g F) (control_edges I D g F)"
  unfolding computeControlDependencies_def [abs_def] control_edges_def by (intro adds_some_fold successor_loop_adds) (auto simp: cfg_closed_def)


text \<open>
  C18: The control dependences are computed and exact.  On a post-dominator tree the pass returns without a null
  dereference, and it adds to all six views of the graph exactly the edges from the entry node of the function to the
  instructions of its entry block and from the condition of a conditional branch, which ends \<open>A\<close> and has a node, to
  the instructions of every block that post-dominates a successor of \<open>A\<close> and not \<open>A\<close> itself; a block that
  branches to itself depends on its own condition.  Neither the test of dominance nor the early exits of the loop
  lose a dependence.
\<close>

theorem control_dependences_exact:
  assumes "pdt_ok D (set (blocks I F))" and "cfg_closed I F" and "entryNode F = Some e" and "mirrors E h"
  shows "\<exists>h'. cdg_runOnFunction I D entryNode g F h = Some h' \<and>
    mirrors (E \<union> block_edges I g e {hd (blocks I F)} \<union> control_edges I D g F) h'"
proof -
  obtain k where k: "\<And>h. computeControlDependencies I D g F h = Some (k h)" "adds k (control_edges I D g F)"
    using computeControlDependencies_adds [OF assms(1,2)] by (auto simp: adds_some_def)
  have "mirrors (E \<union> block_edges I g e {hd (blocks I F)}) (addControlDepFromNodeToBB I g e (hd (blocks I F)) h)"
    using adds_block assms(4) by (auto simp: adds_def)
  then show ?thesis
    using k assms(3) by (simp add: cdg_runOnFunction_def addControlDepFromEntryNodeToEntryBlock_def adds_def)
qed

text \<open>
  A loop header that post-dominates the first block of its body does not depend on its own condition, as it does in
  the usual definition of control dependence, which excludes only strict post-dominators of the branch.
\<close>

lemma loop_header_not_self_dependent: "A \<noteq> B \<Longrightarrow> A \<notin> decided_blocks D A B"
  by (simp add: decided_blocks_def post_dominators_self)

text \<open>An example: the block 2 ends in a branch 7 on 6 to 3 and 4, and 3 goes on to 4.\<close>

definition cdg_example :: ir where
  "cdg_example = empty_ir\<lparr>kind := (\<lambda>v. if v = 6 then KICmp ICMP_EQ else if v = 7 then KBr True else if v = 8 then KBr False else KReturn),
     operands := (\<lambda>v. if v = 7 then [6, 3, 4] else []), insts := (\<lambda>b. if b = 2 then [6, 7] else if b = 3 then [8] else [9]),
     blocks := (\<lambda>v. if v = 1 then [2, 3, 4] else []), successors := (\<lambda>b. if b = 2 then [3, 4] else if b = 3 then [4] else [])\<rparr>"

definition cdg_tree :: pdt where
  "cdg_tree = \<lparr>dominates = (\<lambda>a b. a = b \<or> a = 4),
     findNearestCommonDominator = (\<lambda>a b. if a = b then a else 4),
     getIDom = (\<lambda>b. if b = 2 \<or> b = 3 then Some 4 else if b = 4 then Some 0 else None)\<rparr>"

definition cdg_graph :: GenericGraph where
  "cdg_graph = \<lparr>val_node_map = [(6, 16), (7, 17), (8, 18), (9, 19)], node_set = {16, 17, 18, 19}, is_build = True\<rparr>"

lemma cdg_tree_post_dominators:
  "post_dominators cdg_tree 0 = {0}" "post_dominators cdg_tree 4 = {4, 0}"
  "post_dominators cdg_tree 2 = {2, 4, 0}" "post_dominators cdg_tree 3 = {3, 4, 0}"
proof -
  show 0: "post_dominators cdg_tree 0 = {0}" by (subst post_dominators_step) (simp add: cdg_tree_def)
  show 4: "post_dominators cdg_tree 4 = {4, 0}" by (subst post_dominators_step) (simp add: cdg_tree_def 0 [unfolded cdg_tree_def])
  show "post_dominators cdg_tree 2 = {2, 4, 0}" by (subst post_dominators_step) (simp add: cdg_tree_def 4 [unfolded cdg_tree_def])
  show "post_dominators cdg_tree 3 = {3, 4, 0}" by (subst post_dominators_step) (simp add: cdg_tree_def 4 [unfolded cdg_tree_def])
qed

lemma cdg_tree_ok: "pdt_ok cdg_tree {2, 3, 4}"
proof -
  have e: "(tree_edges cdg_tree)\<inverse> = {(4, 2), (4, 3), (0, 4)}"
    by (auto simp: tree_edges_def cdg_tree_def split: if_splits)
  have "(tree_edges cdg_tree)\<inverse> \<subseteq> measure (\<lambda>b. if b = 0 then 0 else if b = 4 then 1 else (2::nat))"
    unfolding e by auto
  then have "wf ((tree_edges cdg_tree)\<inverse>)" by (rule wf_subset [OF wf_measure])
  then show ?thesis
    unfolding pdt_ok_def by (simp add: cdg_tree_post_dominators) (simp add: cdg_tree_def cdg_tree_post_dominators [unfolded cdg_tree_def])
qed

theorem control_dependences_exact_witness:
  "(\<exists>h'. cdg_runOnFunction cdg_example cdg_tree (\<lambda>_. Some 11) cdg_graph 1 (\<lambda>_. new_Node INST) = Some h' \<and>
      mirrors (block_edges cdg_example cdg_graph 11 {2} \<union> control_edges cdg_example cdg_tree cdg_graph 1) h') \<and>
   (16, 18, CONTROL) \<in> control_edges cdg_example cdg_tree cdg_graph 1 \<and>
   (16, 19, CONTROL) \<notin> control_edges cdg_example cdg_tree cdg_graph 1"
proof -
  have ok: "pdt_ok cdg_tree (set (blocks cdg_example 1))" using cdg_tree_ok by (simp add: cdg_example_def)
  have cl: "cfg_closed cdg_example 1" by (simp add: cfg_closed_def cdg_example_def)
  have d: "decided_blocks cdg_tree 2 3 = {3}" "decided_blocks cdg_tree 2 4 = {}"
    by (auto simp: decided_blocks_def cdg_tree_post_dominators)
  have "block_edges cdg_example cdg_graph 16 {3} = {(16, 18, CONTROL)}" "block_edges cdg_example cdg_graph 16 {} = {}"
    by (simp_all add: block_edges_def cdg_example_def cdg_graph_def getNode_def hasNode_def contains_def)
  moreover have "getNode cdg_graph 6 = Some 16" by (simp add: cdg_graph_def getNode_def hasNode_def contains_def)
  ultimately have e: "control_edges cdg_example cdg_tree cdg_graph 1 = {(16, 18, CONTROL)}"
    by (simp add: control_edges_def branch_edges_def d terminator_def getOperand_def cdg_example_def)
  have m: "mirrors {} (\<lambda>_. new_Node INST)" by (simp add: mirrors_def new_Node_def)
  have "hd (blocks cdg_example 1) = 2" by (simp add: cdg_example_def)
  then show ?thesis
    using control_dependences_exact [OF ok cl _ m, of "\<lambda>_. Some 11" 11 cdg_graph] unfolding e by simp
qed

end
