(* ===== verification/Load_Hardening.thy ===== *)
theory Load_Hardening
  imports MSV_Prelude "HOL-Library.Sublist"
begin

text \<open>
  The hardening of loads against misspeculation (\<^verbatim>\<open>LLVM_FIX/X86SpeculativeLoadHardening.cpp\<close>), restricted to
  the decision which instructions of a machine block are hardened and by which routine:
  \<^verbatim>\<open>tracePredStateThroughBlocksAndHarden\<close> with its two passes over a block and the handling of the markers that the
  value-range analysis has left in the code.  The record \<open>machine\<close> lists what the pass asks LLVM about a machine
  instruction, which is its address (\<open>mid\<close>, \<open>0\<close> is the null pointer).  A routine that rewrites code is
  recorded as an \<open>action\<close>; the code it inserts never comes between a marker and the instruction behind it, so that
  the block of the model holds the original instructions only.  \<open>None\<close> is the erasure of a null pointer or of an
  instruction that is no longer in the block.
\<close>

type_synonym mid = nat

datatype reg = NoRegister | RIP | RSP | EFLAGS | Virtual nat | Physical nat

datatype opcode =
    LFENCE | MFENCE
  | CMP8i8 | CMP16i16 | CMP32i32 | CMP64i32
  | CMOV16rr | CMOV16rm | CMOV32rr | CMOV32rm | CMOV64rr | CMOV64rm | SETCCr | SETCCm
  | RepString nat | DIV64r | IDIV64r
  | OtherOpcode nat

datatype base_operand = FrameIndex | BaseRegister reg

record machine =
  opcodeOf :: "mid \<Rightarrow> opcode"
  asmSymbol :: "mid \<Rightarrow> string option"
  isDebugInstr :: "mid \<Rightarrow> bool"
  useRegs :: "mid \<Rightarrow> reg list"
  defRegs :: "mid \<Rightarrow> reg list"
  implicitRegs :: "mid \<Rightarrow> reg list"
  mayLoad :: "mid \<Rightarrow> bool"
  mayStore :: "mid \<Rightarrow> bool"
  isConditionalBranch :: "mid \<Rightarrow> bool"
  isBranch :: "mid \<Rightarrow> bool"
  isCall :: "mid \<Rightarrow> bool"
  isReturn :: "mid \<Rightarrow> bool"
  noFPExcept :: "mid \<Rightarrow> bool"
  mayRaiseFPException :: "mid \<Rightarrow> bool"
  virtualOperandX87 :: "mid \<Rightarrow> bool list"
  memOperands :: "mid \<Rightarrow> (base_operand \<times> reg) option"
  usedOperandRegs :: "mid \<Rightarrow> reg list"
  isDataInvariantLoad :: "mid \<Rightarrow> bool"
  eflagsDefDead :: "mid \<Rightarrow> bool option"
  numDefs :: "mid \<Rightarrow> nat"
  firstOperandReg :: "mid \<Rightarrow> reg option"
  regBytes :: "reg \<Rightarrow> nat"
  isNoREX :: "reg \<Rightarrow> bool"
  isGPR :: "reg \<Rightarrow> bool"

record slh_options =
  EnablePostLoadHardening :: bool
  HardenInterprocedurally :: bool
  HardenLoads :: bool
  HardenIndirectCallsAndJumps :: bool
  HardenOneBranchCondition :: bool
  HardenAllBranchConditions :: bool
  HardenFixedAddress :: bool
  HardenStoreAddress :: bool
  HardenVariantTimingInstr :: bool
  EnableFilter :: bool
  EnableStoreFilter :: bool
  HardenStandAloneGEPs :: bool

definition default_options :: slh_options where
  "default_options = \<lparr>EnablePostLoadHardening = True, HardenInterprocedurally = True, HardenLoads = True,
     HardenIndirectCallsAndJumps = True, HardenOneBranchCondition = False, HardenAllBranchConditions = False,
     HardenFixedAddress = False, HardenStoreAddress = False, HardenVariantTimingInstr = False,
     EnableFilter = False, EnableStoreFilter = False, HardenStandAloneGEPs = True\<rparr>"

definition DUMMY_BEFORE :: string where
  "DUMMY_BEFORE = ''addq 123456, %rax''"

definition DUMMY_AFTER :: string where
  "DUMMY_AFTER = ''addq 654321, %rax''"

subsection \<open>Classification of instructions\<close>

definition isEFLAGSDefLive :: "machine \<Rightarrow> mid \<Rightarrow> bool" where
  "isEFLAGSDefLive M MI = (case eflagsDefDead M MI of Some dead \<Rightarrow> \<not> dead | None \<Rightarrow> False)"

definition canHardenRegister :: "machine \<Rightarrow> reg \<Rightarrow> bool" where
  "canHardenRegister M r = (if 8 < regBytes M r then False else if isNoREX M r then False else isGPR M r)"

fun isVirtual :: "reg \<Rightarrow> bool" where
  "isVirtual (Virtual _) = True"
| "isVirtual _ = False"

fun isFlagSet :: "opcode \<Rightarrow> nat" where
  "isFlagSet CMP8i8 = 3"
| "isFlagSet CMP16i16 = 3"
| "isFlagSet CMP32i32 = 3"
| "isFlagSet CMP64i32 = 3"
| "isFlagSet CMOV16rr = 5"
| "isFlagSet CMOV16rm = 5"
| "isFlagSet CMOV32rr = 5"
| "isFlagSet CMOV32rm = 5"
| "isFlagSet CMOV64rr = 5"
| "isFlagSet CMOV64rm = 5"
| "isFlagSet SETCCr = 5"
| "isFlagSet SETCCm = 5"
| "isFlagSet _ = 0"

fun analyseVariantTimingInstruction :: "opcode \<Rightarrow> nat" where
  "analyseVariantTimingInstruction (RepString _) = 1"
| "analyseVariantTimingInstruction DIV64r = 2"
| "analyseVariantTimingInstruction IDIV64r = 2"
| "analyseVariantTimingInstruction _ = 0"

definition mayVariant :: "slh_options \<Rightarrow> machine \<Rightarrow> mid \<Rightarrow> bool" where
  "mayVariant opts M MI =
     (if \<not> HardenVariantTimingInstr opts then False
      else if noFPExcept M MI \<or> mayRaiseFPException M MI then True
      else analyseVariantTimingInstruction (opcodeOf M MI) \<noteq> 0)"

text \<open>The instruction that sets the flags of a branch, looked for from the end of the block.\<close>

fun flagSetter :: "machine \<Rightarrow> mid set \<Rightarrow> mid list \<Rightarrow> mid option" where
  "flagSetter M HardenCondition [] = None"
| "flagSetter M HardenCondition (MI_tmp # rest) =
     (if isBranch M MI_tmp then flagSetter M HardenCondition rest
      else if EFLAGS \<notin> set (implicitRegs M MI_tmp) then flagSetter M HardenCondition rest
      else if isFlagSet (opcodeOf M MI_tmp) = 5 then flagSetter M HardenCondition rest
      else if isFlagSet (opcodeOf M MI_tmp) = 3 then None
      else if MI_tmp \<in> HardenCondition then None
      else Some MI_tmp)"

definition mayBranch :: "slh_options \<Rightarrow> machine \<Rightarrow> mid list \<Rightarrow> mid \<Rightarrow> mid set \<Rightarrow> mid option" where
  "mayBranch opts M MBB MI HardenCondition =
     (if \<not> isConditionalBranch M MI then None
      else if \<not> HardenOneBranchCondition opts \<and> \<not> HardenAllBranchConditions opts then None
      else flagSetter M HardenCondition (rev MBB))"

subsection \<open>The first pass over a block\<close>

record collection =
  HardenPostLoad :: "mid set"
  HardenLoadAddr :: "mid set"
  HardenStoreAddr :: "mid set"
  HardenCondition :: "mid set"
  HardenVTInstr :: "mid set"
  HardenFixedAddressRSP :: "mid set"
  HardenFixedAddressRBP :: "mid set"
  DummyInstr :: "mid set"
  StandAloneGEPDummyInstr :: "mid set"
  DummyInstrHardenedBySLH :: "mid set"
  HardenStandAloneGEP :: "mid set"
  hardened_RSP :: bool
  HardenedAddrRegs :: "reg set"
  LoadDepRegs :: "reg set"
  fenced :: "mid option"

definition empty_collection :: collection where
  "empty_collection = \<lparr>HardenPostLoad = {}, HardenLoadAddr = {}, HardenStoreAddr = {}, HardenCondition = {}, HardenVTInstr = {},
     HardenFixedAddressRSP = {}, HardenFixedAddressRBP = {}, DummyInstr = {}, StandAloneGEPDummyInstr = {},
     DummyInstrHardenedBySLH = {}, HardenStandAloneGEP = {}, hardened_RSP = False, HardenedAddrRegs = {}, LoadDepRegs = {}, fenced = None\<rparr>"

text \<open>
  The walk from the marker in front of an address computation to the one behind it: the number of instructions
  between them, the last of them that is no debug instruction, and the second marker; \<open>0\<close> where there is none.
\<close>

fun between :: "machine \<Rightarrow> mid list \<Rightarrow> nat \<times> mid \<times> mid" where
  "between M [] = (0, 0, 0)"
| "between M (MI_next # rest) =
     (if asmSymbol M MI_next = Some DUMMY_AFTER then (0, 0, MI_next)
      else case between M rest of (instCountBetween, last_MI, after_MI) \<Rightarrow>
        (Suc instCountBetween, if last_MI = 0 \<and> \<not> isDebugInstr M MI_next then MI_next else last_MI, after_MI))"

definition collectMarkers :: "machine \<Rightarrow> mid \<Rightarrow> mid list \<Rightarrow> collection \<Rightarrow> collection" where
  "collectMarkers M MI rest C =
     (if asmSymbol M MI = Some DUMMY_BEFORE
      then (case between M rest of (instCountBetween, last_MI, MI_next) \<Rightarrow>
        if 0 < instCountBetween
        then C\<lparr>HardenStandAloneGEP := (if last_MI \<noteq> 0 then insert last_MI (HardenStandAloneGEP C) else HardenStandAloneGEP C),
               StandAloneGEPDummyInstr := insert MI_next (insert MI (StandAloneGEPDummyInstr C))\<rparr>
        else C\<lparr>DummyInstr := insert MI_next (insert MI (DummyInstr C))\<rparr>)
      else C)"

definition dependOnLoads :: "machine \<Rightarrow> mid \<Rightarrow> collection \<Rightarrow> collection" where
  "dependOnLoads M MI C =
     (if \<exists>r \<in> set (useRegs M MI). r \<in> LoadDepRegs C
      then C\<lparr>LoadDepRegs := LoadDepRegs C \<union> set (defRegs M MI)\<rparr> else C)"

definition baseRegister :: "base_operand \<Rightarrow> reg" where
  "baseRegister BaseMO = (case BaseMO of FrameIndex \<Rightarrow> NoRegister | BaseRegister r \<Rightarrow> if r = RIP then NoRegister else r)"

definition collectFixed :: "slh_options \<Rightarrow> base_operand \<Rightarrow> mid \<Rightarrow> collection \<Rightarrow> collection" where
  "collectFixed opts BaseMO MI C =
     (if \<not> HardenFixedAddress opts then C
      else (if BaseMO = FrameIndex
            then C\<lparr>HardenFixedAddressRBP := (if HardenFixedAddressRBP C = {} then {MI} else HardenFixedAddressRBP C)\<rparr>
            else if BaseMO = BaseRegister RSP
            then C\<lparr>hardened_RSP := True, HardenFixedAddressRSP := (if HardenFixedAddressRSP C = {} then {MI} else HardenFixedAddressRSP C)\<rparr>
            else C)\<lparr>HardenStoreAddr := HardenStoreAddr C - {MI}\<rparr>)"

definition postLoadPossible :: "slh_options \<Rightarrow> machine \<Rightarrow> mid \<Rightarrow> bool" where
  "postLoadPossible opts M MI \<longleftrightarrow>
     EnablePostLoadHardening opts \<and> isDataInvariantLoad M MI \<and> \<not> isEFLAGSDefLive M MI \<and> numDefs M MI = 1 \<and>
     (case firstOperandReg M MI of None \<Rightarrow> False | Some r \<Rightarrow> canHardenRegister M r)"

definition collectAccess :: "slh_options \<Rightarrow> machine \<Rightarrow> mid \<Rightarrow> collection \<Rightarrow> collection" where
  "collectAccess opts M MI C =
     (let C1 = (if HardenStoreAddress opts \<and> mayStore M MI \<and> \<not> mayLoad M MI
                then C\<lparr>HardenStoreAddr := insert MI (HardenStoreAddr C)\<rparr> else C)
      in case memOperands M MI of
           None \<Rightarrow> C1
         | Some (BaseMO, IndexReg) \<Rightarrow>
             let BaseReg = baseRegister BaseMO
             in if BaseReg = NoRegister \<and> IndexReg = NoRegister then collectFixed opts BaseMO MI C1
                else if BaseReg \<noteq> NoRegister \<and> BaseReg \<in> LoadDepRegs C1 \<or> IndexReg \<noteq> NoRegister \<and> IndexReg \<in> LoadDepRegs C1 then C1
                else if postLoadPossible opts M MI \<and> BaseReg \<notin> HardenedAddrRegs C1 \<and> IndexReg \<notin> HardenedAddrRegs C1
                then C1\<lparr>HardenPostLoad := insert MI (HardenPostLoad C1),
                        HardenedAddrRegs := insert (the (firstOperandReg M MI)) (HardenedAddrRegs C1)\<rparr>
                else C1\<lparr>HardenLoadAddr := insert MI (HardenLoadAddr C1),
                        HardenedAddrRegs := HardenedAddrRegs C1 \<union> ({BaseReg, IndexReg} - {NoRegister}),
                        LoadDepRegs := LoadDepRegs C1 \<union> set (defRegs M MI)\<rparr>)"

text \<open>One instruction of the first pass; the flag tells whether the loop over the block is left.\<close>

definition collectInst :: "slh_options \<Rightarrow> machine \<Rightarrow> mid list \<Rightarrow> mid \<Rightarrow> collection \<Rightarrow> bool \<times> collection" where
  "collectInst opts M MBB MI C =
     (if opcodeOf M MI = LFENCE then (True, C)
      else let MI_condition = mayBranch opts M MBB MI (HardenCondition C)
           in if \<not> mayLoad M MI \<and> MI_condition = None \<and> \<not> mayVariant opts M MI \<and> \<not> (HardenStoreAddress opts \<and> mayStore M MI)
              then (False, C)
              else if opcodeOf M MI = MFENCE then (False, C)
              else let C1 = (case MI_condition of
                               None \<Rightarrow> C
                             | Some c \<Rightarrow> C\<lparr>HardenCondition := insert c (HardenCondition C), HardenVTInstr := HardenVTInstr C - {c}\<rparr>)
                   in if mayVariant opts M MI
                      then (if (case virtualOperandX87 M MI of [] \<Rightarrow> False | x87 # _ \<Rightarrow> x87)
                            then (True, C1\<lparr>fenced := Some MI\<rparr>)
                            else (False, collectAccess opts M MI (C1\<lparr>HardenVTInstr := insert MI (HardenVTInstr C1)\<rparr>)))
                      else (False, collectAccess opts M MI C1))"

fun collect :: "slh_options \<Rightarrow> machine \<Rightarrow> mid list \<Rightarrow> mid list \<Rightarrow> collection \<Rightarrow> collection" where
  "collect opts M MBB [] C = C"
| "collect opts M MBB (MI # rest) C =
     (case collectInst opts M MBB MI (dependOnLoads M MI (collectMarkers M MI rest C)) of
        (stop, C') \<Rightarrow> if stop then C' else collect opts M MBB rest C')"


subsection \<open>The second pass over a block\<close>

datatype action =
    StandAloneGEP mid
  | LoadAddr mid
  | StoreAddr mid
  | PostLoad mid
  | FixedAddress mid
  | PushPop mid
  | BranchCondition mid
  | VariantTiming mid
  | IndirectCallOrJump mid
  | ReturnInstr mid
  | TraceCall mid

fun prevNode :: "mid list \<Rightarrow> mid \<Rightarrow> mid" where
  "prevNode (x # y # rest) MI = (if y = MI then x else prevNode (y # rest) MI)"
| "prevNode _ MI = 0"

text \<open>A fence in front of an instruction is the only inserted code that separates it from a marker.\<close>

definition isPrefixedByDummies :: "machine \<Rightarrow> mid list \<Rightarrow> collection \<Rightarrow> mid \<Rightarrow> bool" where
  "isPrefixedByDummies M MBB C MI \<longleftrightarrow>
     fenced C \<noteq> Some MI \<and> prevNode MBB MI \<noteq> 0 \<and> asmSymbol M (prevNode MBB MI) = Some DUMMY_AFTER"

definition markAsProtected :: "machine \<Rightarrow> mid list \<Rightarrow> mid \<Rightarrow> collection \<Rightarrow> collection" where
  "markAsProtected M MBB MI C =
     (if \<not> isPrefixedByDummies M MBB C MI then C
      else C\<lparr>DummyInstrHardenedBySLH := insert (prevNode MBB (prevNode MBB MI)) (insert (prevNode MBB MI) (DummyInstrHardenedBySLH C))\<rparr>)"

fun hardenOperands :: "machine \<Rightarrow> nat \<Rightarrow> nat \<Rightarrow> reg list \<Rightarrow> bool" where
  "hardenOperands M tobeHarden hardened [] = False"
| "hardenOperands M tobeHarden hardened (reg_tmp # rest) =
     (if \<not> (isVirtual reg_tmp \<and> canHardenRegister M reg_tmp) then hardenOperands M tobeHarden hardened rest
      else if Suc hardened = tobeHarden then True
      else hardenOperands M tobeHarden (Suc hardened) rest)"

definition hardenableAddress :: "machine \<Rightarrow> reg \<Rightarrow> nat" where
  "hardenableAddress M r = (if r \<noteq> NoRegister \<and> isVirtual r \<and> canHardenRegister M r then 1 else 0)"

definition hardenStore :: "machine \<Rightarrow> mid \<Rightarrow> bool" where
  "hardenStore M MI =
     (case memOperands M MI of
        None \<Rightarrow> False
      | Some (BaseMO, IndexReg) \<Rightarrow>
          hardenOperands M (hardenableAddress M (baseRegister BaseMO) + hardenableAddress M IndexReg) 0 (usedOperandRegs M MI))"

text \<open>
  A step returns whether the loop goes on to the next instruction (\<open>continue\<close>), the sets, and the actions.  The argument
  \<open>sunk\<close> is the result of \<^verbatim>\<open>sinkPostLoadHardenedInst\<close> on the code at that moment, \<open>None\<close> for a null pointer.
\<close>

type_synonym step_result = "bool \<times> collection \<times> action list"

definition hardenAddress :: "slh_options \<Rightarrow> machine \<Rightarrow> mid list \<Rightarrow> mid \<Rightarrow> collection \<Rightarrow> step_result" where
  "hardenAddress opts M MBB MI C =
     (if MI \<notin> HardenLoadAddr C then (False, C, [])
      else let C1 = C\<lparr>HardenLoadAddr := HardenLoadAddr C - {MI}\<rparr>;
               inOtherHardenList = (MI \<in> HardenCondition C1 \<or> MI \<in> HardenFixedAddressRBP C1 \<or> MI \<in> HardenFixedAddressRSP C1 \<or> MI \<in> HardenVTInstr C1)
           in if EnableFilter opts \<and>
                 (\<not> EnableStoreFilter opts \<and> MI \<notin> HardenStoreAddr C1 \<and> \<not> inOtherHardenList \<or> EnableStoreFilter opts \<and> \<not> inOtherHardenList) \<and>
                 \<not> isPrefixedByDummies M MBB C1 MI
              then (True, C1, [])
              else let C2 = markAsProtected M MBB MI C1
                   in if MI \<in> HardenStoreAddr C2
                      then (True, C2\<lparr>HardenStoreAddr := HardenStoreAddr C2 - {MI}\<rparr>, [StoreAddr MI])
                      else (\<not> (HardenAllBranchConditions opts \<and> MI \<in> HardenCondition C2), C2, [LoadAddr MI]))"

definition hardenValue :: "slh_options \<Rightarrow> machine \<Rightarrow> (mid \<Rightarrow> mid set \<Rightarrow> mid option) \<Rightarrow> mid \<Rightarrow> collection \<Rightarrow> step_result" where
  "hardenValue opts M sunk MI C =
     (if MI \<notin> HardenPostLoad C then (False, C, [])
      else let C1 = C\<lparr>HardenPostLoad := HardenPostLoad C - {MI}, HardenStoreAddr := HardenStoreAddr C - {MI}\<rparr>;
               C2 = (if HardenOneBranchCondition opts \<and> MI \<in> HardenCondition C1
                     then C1\<lparr>HardenCondition := HardenCondition C1 - {MI}\<rparr> else C1);
               SunkMI = (if isDataInvariantLoad M MI \<and> \<not> isEFLAGSDefLive M MI then sunk MI (HardenPostLoad C2) else Some MI)
           in if SunkMI \<noteq> Some MI
              then (True, (case SunkMI of None \<Rightarrow> C2 | Some s \<Rightarrow> C2\<lparr>HardenPostLoad := insert s (HardenPostLoad C2)\<rparr>), [])
              else (\<not> (HardenAllBranchConditions opts \<and> MI \<in> HardenCondition C2), C2, [PostLoad MI]))"

definition hardenFixed :: "machine \<Rightarrow> mid list \<Rightarrow> mid \<Rightarrow> collection \<Rightarrow> step_result" where
  "hardenFixed M MBB MI C =
     (if MI \<in> HardenFixedAddressRBP C
      then (False, markAsProtected M MBB MI (C\<lparr>HardenFixedAddressRBP := HardenFixedAddressRBP C - {MI}\<rparr>), [FixedAddress MI])
      else if MI \<in> HardenFixedAddressRSP C
      then (False, markAsProtected M MBB MI (C\<lparr>HardenFixedAddressRSP := HardenFixedAddressRSP C - {MI}\<rparr>), [FixedAddress MI])
      else (False, C, []))"

definition hardenCondition :: "machine \<Rightarrow> mid list \<Rightarrow> mid \<Rightarrow> collection \<Rightarrow> step_result" where
  "hardenCondition M MBB MI C =
     (if MI \<in> HardenCondition C
      then (True, markAsProtected M MBB MI (C\<lparr>HardenCondition := HardenCondition C - {MI}\<rparr>), [BranchCondition MI])
      else (False, C, []))"

definition hardenTiming :: "machine \<Rightarrow> mid list \<Rightarrow> mid \<Rightarrow> collection \<Rightarrow> step_result" where
  "hardenTiming M MBB MI C =
     (if MI \<in> HardenVTInstr C
      then (True, markAsProtected M MBB MI (C\<lparr>HardenVTInstr := HardenVTInstr C - {MI}\<rparr>), [VariantTiming MI])
      else (False, C, []))"

definition hardenRemainingStore :: "machine \<Rightarrow> mid list \<Rightarrow> mid \<Rightarrow> collection \<Rightarrow> step_result" where
  "hardenRemainingStore M MBB MI C =
     (if MI \<notin> HardenStoreAddr C then (False, C, [])
      else let C1 = markAsProtected M MBB MI (C\<lparr>HardenStoreAddr := HardenStoreAddr C - {MI}\<rparr>)
           in if \<not> hardenStore M MI \<and> \<not> hardened_RSP C1
              then (False, C1\<lparr>hardened_RSP := True\<rparr>, [StoreAddr MI, PushPop MI])
              else (False, C1, [StoreAddr MI]))"

definition hardenTarget :: "slh_options \<Rightarrow> machine \<Rightarrow> mid \<Rightarrow> collection \<Rightarrow> step_result" where
  "hardenTarget opts M MI C =
     (False, C, if (isCall M MI \<or> isBranch M MI) \<and> HardenIndirectCallsAndJumps opts then [IndirectCallOrJump MI] else [])"

definition hardenInterproc :: "slh_options \<Rightarrow> machine \<Rightarrow> mid \<Rightarrow> collection \<Rightarrow> step_result" where
  "hardenInterproc opts M MI C =
     (True, C, if \<not> HardenInterprocedurally opts then []
               else if \<not> isCall M MI \<and> \<not> isReturn M MI then []
               else if isReturn M MI \<and> \<not> isCall M MI then [ReturnInstr MI] else [TraceCall MI])"

fun steps :: "(collection \<Rightarrow> step_result) list \<Rightarrow> collection \<Rightarrow> collection \<times> action list" where
  "steps [] C = (C, [])"
| "steps (s # ss) C =
     (case s C of (continue, C1, as) \<Rightarrow> if continue then (C1, as) else (case steps ss C1 of (C2, bs) \<Rightarrow> (C2, as @ bs)))"

definition hardenInst ::
    "slh_options \<Rightarrow> machine \<Rightarrow> (mid \<Rightarrow> mid set \<Rightarrow> mid option) \<Rightarrow> mid list \<Rightarrow> mid \<Rightarrow> collection \<Rightarrow> collection \<times> action list" where
  "hardenInst opts M sunk MBB MI =
     steps ((if HardenLoads opts
             then [hardenAddress opts M MBB MI, hardenValue opts M sunk MI, hardenFixed M MBB MI, hardenCondition M MBB MI,
                   hardenTiming M MBB MI, hardenRemainingStore M MBB MI, hardenTarget opts M MI]
             else []) @ [hardenInterproc opts M MI])"

fun hardenInsts ::
    "slh_options \<Rightarrow> machine \<Rightarrow> (mid \<Rightarrow> mid set \<Rightarrow> mid option) \<Rightarrow> mid list \<Rightarrow> mid list \<Rightarrow> collection \<Rightarrow> collection \<times> action list" where
  "hardenInsts opts M sunk MBB [] C = (C, [])"
| "hardenInsts opts M sunk MBB (MI # rest) C =
     (case hardenInst opts M sunk MBB MI C of (C1, as) \<Rightarrow>
        case hardenInsts opts M sunk MBB rest C1 of (C2, bs) \<Rightarrow> (C2, as @ bs))"

text \<open>Erasing a set of instructions from a block.\<close>

fun eraseList :: "mid list \<Rightarrow> mid list \<Rightarrow> mid list option" where
  "eraseList [] MBB = Some MBB"
| "eraseList (MI # rest) MBB = (if MI \<notin> set MBB then None else eraseList rest (removeAll MI MBB))"

definition eraseSet :: "mid set \<Rightarrow> mid list \<Rightarrow> mid list option" where
  "eraseSet X MBB = eraseList (sorted_list_of_set X) MBB"

definition hardenBlock ::
    "slh_options \<Rightarrow> machine \<Rightarrow> (mid \<Rightarrow> mid set \<Rightarrow> mid option) \<Rightarrow> mid list \<Rightarrow> (mid list \<times> action list) option" where
  "hardenBlock opts M sunk MBB =
     (let C = (if HardenLoads opts then collect opts M MBB MBB empty_collection else empty_collection);
          geps = (if HardenStandAloneGEPs opts then map StandAloneGEP (sorted_list_of_set (HardenStandAloneGEP C)) else [])
      in Option.bind (eraseSet (StandAloneGEPDummyInstr C) MBB) (\<lambda>MBB1.
           case hardenInsts opts M sunk MBB1 MBB1 C of (C1, as) \<Rightarrow>
             Option.bind (eraseSet (DummyInstrHardenedBySLH C1) MBB1) (\<lambda>MBB2.
               map_option (\<lambda>MBB3. (MBB3, geps @ as)) (eraseSet (DummyInstr C1 - DummyInstrHardenedBySLH C1) MBB2))))"

fun tracePredStateThroughBlocksAndHarden ::
    "slh_options \<Rightarrow> machine \<Rightarrow> (mid \<Rightarrow> mid set \<Rightarrow> mid option) \<Rightarrow> mid list list \<Rightarrow> (mid list list \<times> action list) option" where
  "tracePredStateThroughBlocksAndHarden opts M sunk [] = Some ([], [])"
| "tracePredStateThroughBlocksAndHarden opts M sunk (MBB # rest) =
     Option.bind (hardenBlock opts M sunk MBB) (\<lambda>(MBB', as).
       map_option (\<lambda>(MBBs, bs). (MBB' # MBBs, as @ bs)) (tracePredStateThroughBlocksAndHarden opts M sunk rest))"

text \<open>The scan for loads that are worth the effort.\<close>

fun vulnerableBlock :: "machine \<Rightarrow> mid list \<Rightarrow> bool" where
  "vulnerableBlock M [] = False"
| "vulnerableBlock M (MI # rest) =
     (if opcodeOf M MI = LFENCE then False
      else if \<not> mayLoad M MI then vulnerableBlock M rest
      else if opcodeOf M MI = MFENCE then vulnerableBlock M rest
      else True)"

definition hasVulnerableLoad :: "machine \<Rightarrow> mid list list \<Rightarrow> bool" where
  "hasVulnerableLoad M MF = list_ex (vulnerableBlock M) MF"


subsection \<open>What a step leaves alone\<close>

fun target :: "action \<Rightarrow> mid" where
  "target (StandAloneGEP m) = m"
| "target (LoadAddr m) = m"
| "target (StoreAddr m) = m"
| "target (PostLoad m) = m"
| "target (FixedAddress m) = m"
| "target (PushPop m) = m"
| "target (BranchCondition m) = m"
| "target (VariantTiming m) = m"
| "target (IndirectCallOrJump m) = m"
| "target (ReturnInstr m) = m"
| "target (TraceCall m) = m"

text \<open>The decisions about other instructions and the markers that were found are the same before and after.\<close>

definition post_kept :: "mid \<Rightarrow> collection \<Rightarrow> collection \<Rightarrow> bool" where
  "post_kept MI C C' \<longleftrightarrow> HardenPostLoad C - {MI} \<subseteq> HardenPostLoad C'"

definition slh_frame :: "mid \<Rightarrow> collection \<Rightarrow> collection \<Rightarrow> bool" where
  "slh_frame MI C C' \<longleftrightarrow>
     HardenLoadAddr C' - {MI} = HardenLoadAddr C - {MI} \<and> HardenStoreAddr C' - {MI} = HardenStoreAddr C - {MI} \<and>
     HardenCondition C' - {MI} = HardenCondition C - {MI} \<and> HardenVTInstr C' - {MI} = HardenVTInstr C - {MI} \<and>
     HardenFixedAddressRBP C' - {MI} = HardenFixedAddressRBP C - {MI} \<and> HardenFixedAddressRSP C' - {MI} = HardenFixedAddressRSP C - {MI} \<and>
     post_kept MI C C' \<and> DummyInstr C' = DummyInstr C \<and> fenced C' = fenced C"

lemma post_kept_simps:
  "post_kept MI C C" "HardenPostLoad C1 = HardenPostLoad C' \<Longrightarrow> post_kept MI C C1 = post_kept MI C C'"
  by (auto simp: post_kept_def)

lemma post_kept_trans: "post_kept MI C C1 \<Longrightarrow> post_kept MI C1 C2 \<Longrightarrow> post_kept MI C C2"
  by (auto simp: post_kept_def)

lemma slh_frame_refl [simp]: "slh_frame MI C C"
  by (simp add: slh_frame_def post_kept_simps)

lemma slh_frame_trans: "slh_frame MI C C1 \<Longrightarrow> slh_frame MI C1 C2 \<Longrightarrow> slh_frame MI C C2"
  using post_kept_trans [of MI C C1 C2] by (simp add: slh_frame_def)

lemma slh_frame_protected [simp]: "slh_frame MI C (markAsProtected M MBB MI' C') = slh_frame MI C C'"
  by (simp add: slh_frame_def post_kept_def markAsProtected_def)

text \<open>
  A step protects the markers in front of its instruction at most, and acts on nothing else; \<open>loads\<close> says whether
  it may harden the address of a load.
\<close>

definition step_ok :: "machine \<Rightarrow> mid list \<Rightarrow> mid \<Rightarrow> bool \<Rightarrow> (collection \<Rightarrow> step_result) \<Rightarrow> bool" where
  "step_ok M MBB MI loads s \<longleftrightarrow> (\<forall>C. case s C of (continue, C', as) \<Rightarrow>
     slh_frame MI C C' \<and> (\<forall>a \<in> set as. target a = MI) \<and> (loads \<or> LoadAddr MI \<notin> set as) \<and>
     (DummyInstrHardenedBySLH C' = DummyInstrHardenedBySLH C \<or>
      isPrefixedByDummies M MBB C MI \<and>
      DummyInstrHardenedBySLH C' = {prevNode MBB MI, prevNode MBB (prevNode MBB MI)} \<union> DummyInstrHardenedBySLH C))"

lemma protected_fields:
  "isPrefixedByDummies M MBB (markAsProtected M MBB MI C) = isPrefixedByDummies M MBB C"
  "DummyInstrHardenedBySLH (markAsProtected M MBB MI C) =
     (if isPrefixedByDummies M MBB C MI then {prevNode MBB MI, prevNode MBB (prevNode MBB MI)} \<union> DummyInstrHardenedBySLH C
      else DummyInstrHardenedBySLH C)"
  "HardenStoreAddr (markAsProtected M MBB MI C) = HardenStoreAddr C"
  "HardenCondition (markAsProtected M MBB MI C) = HardenCondition C"
  by (auto simp: isPrefixedByDummies_def markAsProtected_def fun_eq_iff)

lemma prefixed_update:
  "isPrefixedByDummies M MBB (C\<lparr>HardenLoadAddr := X\<rparr>) = isPrefixedByDummies M MBB C"
  "isPrefixedByDummies M MBB (C\<lparr>HardenStoreAddr := X\<rparr>) = isPrefixedByDummies M MBB C"
  "isPrefixedByDummies M MBB (C\<lparr>HardenCondition := X\<rparr>) = isPrefixedByDummies M MBB C"
  "isPrefixedByDummies M MBB (C\<lparr>HardenVTInstr := X\<rparr>) = isPrefixedByDummies M MBB C"
  "isPrefixedByDummies M MBB (C\<lparr>HardenFixedAddressRBP := X\<rparr>) = isPrefixedByDummies M MBB C"
  "isPrefixedByDummies M MBB (C\<lparr>HardenFixedAddressRSP := X\<rparr>) = isPrefixedByDummies M MBB C"
  by (simp_all add: isPrefixedByDummies_def fun_eq_iff)

lemma slh_frame_update:
  "slh_frame MI C C' \<Longrightarrow> slh_frame MI C (C'\<lparr>HardenLoadAddr := HardenLoadAddr C' - {MI}\<rparr>)"
  "slh_frame MI C C' \<Longrightarrow> slh_frame MI C (C'\<lparr>HardenStoreAddr := HardenStoreAddr C' - {MI}\<rparr>)"
  "slh_frame MI C C' \<Longrightarrow> slh_frame MI C (C'\<lparr>HardenCondition := HardenCondition C' - {MI}\<rparr>)"
  "slh_frame MI C C' \<Longrightarrow> slh_frame MI C (C'\<lparr>HardenVTInstr := HardenVTInstr C' - {MI}\<rparr>)"
  "slh_frame MI C C' \<Longrightarrow> slh_frame MI C (C'\<lparr>HardenFixedAddressRBP := HardenFixedAddressRBP C' - {MI}\<rparr>)"
  "slh_frame MI C C' \<Longrightarrow> slh_frame MI C (C'\<lparr>HardenFixedAddressRSP := HardenFixedAddressRSP C' - {MI}\<rparr>)"
  "slh_frame MI C (C'\<lparr>hardened_RSP := b\<rparr>) = slh_frame MI C C'"
  by (simp_all add: slh_frame_def post_kept_def)

lemmas step_simps = protected_fields prefixed_update slh_frame_update

lemma hardenAddress_ok: "step_ok M MBB MI True (hardenAddress opts M MBB MI)"
  unfolding step_ok_def hardenAddress_def Let_def
  using slh_frame_update(2) [of MI C "markAsProtected M MBB MI (C\<lparr>HardenLoadAddr := HardenLoadAddr C - {MI}\<rparr>)" for C] by (simp add: step_simps)

lemma hardenValue_ok: "step_ok M MBB MI False (hardenValue opts M sunk MI)"
  unfolding step_ok_def hardenValue_def Let_def by (simp add: slh_frame_def post_kept_def split: option.split) blast

lemma hardenFixed_ok: "step_ok M MBB MI False (hardenFixed M MBB MI)"
  unfolding step_ok_def hardenFixed_def by (simp add: step_simps)

lemma hardenCondition_ok: "step_ok M MBB MI False (hardenCondition M MBB MI)"
  unfolding step_ok_def hardenCondition_def by (simp add: step_simps)

lemma hardenTiming_ok: "step_ok M MBB MI False (hardenTiming M MBB MI)"
  unfolding step_ok_def hardenTiming_def by (simp add: step_simps)

lemma hardenRemainingStore_ok: "step_ok M MBB MI False (hardenRemainingStore M MBB MI)"
  unfolding step_ok_def hardenRemainingStore_def Let_def by (simp add: step_simps)

lemma hardenTarget_ok: "step_ok M MBB MI False (hardenTarget opts M MI)"
  unfolding step_ok_def hardenTarget_def by auto

lemma hardenInterproc_ok: "step_ok M MBB MI False (hardenInterproc opts M MI)"
  unfolding step_ok_def hardenInterproc_def by auto

lemmas later_steps_ok = hardenValue_ok hardenFixed_ok hardenCondition_ok hardenTiming_ok hardenRemainingStore_ok hardenTarget_ok hardenInterproc_ok


lemma prefixed_frame: "slh_frame MI C C' \<Longrightarrow> isPrefixedByDummies M MBB C' = isPrefixedByDummies M MBB C"
  by (simp add: slh_frame_def isPrefixedByDummies_def fun_eq_iff)

definition run_ok :: "machine \<Rightarrow> mid list \<Rightarrow> mid \<Rightarrow> collection \<Rightarrow> collection \<times> action list \<Rightarrow> bool" where
  "run_ok M MBB MI C r \<longleftrightarrow> (case r of (C', as) \<Rightarrow>
     slh_frame MI C C' \<and> (\<forall>a \<in> set as. target a = MI) \<and>
     DummyInstrHardenedBySLH C' \<subseteq> DummyInstrHardenedBySLH C \<union>
       (if isPrefixedByDummies M MBB C MI then {prevNode MBB MI, prevNode MBB (prevNode MBB MI)} else {}))"

lemma steps_ok: "(\<And>s. s \<in> set ss \<Longrightarrow> \<exists>l. step_ok M MBB MI l s) \<Longrightarrow> run_ok M MBB MI C (steps ss C)"
proof (induction ss arbitrary: C)
  case (Cons s ss)
  obtain c C1 as where s: "s C = (c, C1, as)" by (cases "s C") auto
  obtain C2 bs where r: "steps ss C1 = (C2, bs)" by fastforce
  obtain l where "step_ok M MBB MI l s" using Cons.prems by auto
  then have ok: "slh_frame MI C C1" "(\<forall>a \<in> set as. target a = MI)"
    "DummyInstrHardenedBySLH C1 \<subseteq> DummyInstrHardenedBySLH C \<union>
       (if isPrefixedByDummies M MBB C MI then {prevNode MBB MI, prevNode MBB (prevNode MBB MI)} else {})"
    using s unfolding step_ok_def by (auto dest!: spec [of _ C] split: prod.splits)
  have "run_ok M MBB MI C1 (C2, bs)" using Cons.IH [of C1] Cons.prems r by simp
  then show ?case
    using ok slh_frame_trans [OF ok(1)] prefixed_frame [OF ok(1)] by (auto simp: run_ok_def s r split: if_splits)
qed (simp add: run_ok_def)

lemma hardenInst_ok: "run_ok M MBB MI C (hardenInst opts M sunk MBB MI C)"
  unfolding hardenInst_def by (rule steps_ok) (auto split: if_splits intro: hardenAddress_ok later_steps_ok)

lemma steps_no_load:
  assumes "\<And>s. s \<in> set ss \<Longrightarrow> step_ok M MBB MI False s"
  shows "LoadAddr MI \<notin> set (snd (steps ss C))"
  using assms
proof (induction ss arbitrary: C)
  case (Cons s ss)
  obtain c C1 as where s: "s C = (c, C1, as)" by (cases "s C") auto
  have "LoadAddr MI \<notin> set as" using Cons.prems [of s] s unfolding step_ok_def by (auto dest!: spec [of _ C])
  moreover have "LoadAddr MI \<notin> set (snd (steps ss C1))" using Cons by simp
  ultimately show ?case by (cases "steps ss C1") (simp add: s)
qed simp

text \<open>When the address of a load is hardened, in terms of the sets before the instruction is reached.\<close>

definition address_hardened :: "slh_options \<Rightarrow> machine \<Rightarrow> mid list \<Rightarrow> collection \<Rightarrow> mid \<Rightarrow> bool" where
  "address_hardened opts M MBB C MI \<longleftrightarrow>
     MI \<in> HardenLoadAddr C \<and> MI \<notin> HardenStoreAddr C \<and>
     (\<not> EnableFilter opts \<or> isPrefixedByDummies M MBB C MI \<or>
      MI \<in> HardenCondition C \<union> HardenVTInstr C \<union> HardenFixedAddressRBP C \<union> HardenFixedAddressRSP C)"

lemma hardenInst_loadAddr:
  assumes "HardenLoads opts"
  shows "LoadAddr MI \<in> set (snd (hardenInst opts M sunk MBB MI C)) \<longleftrightarrow> address_hardened opts M MBB C MI"
proof -
  let ?later = "[hardenValue opts M sunk MI, hardenFixed M MBB MI, hardenCondition M MBB MI, hardenTiming M MBB MI,
     hardenRemainingStore M MBB MI, hardenTarget opts M MI, hardenInterproc opts M MI]"
  obtain c C1 as where s: "hardenAddress opts M MBB MI C = (c, C1, as)" by (cases "hardenAddress opts M MBB MI C") auto
  have later: "LoadAddr MI \<notin> set (snd (steps ?later C1))" by (rule steps_no_load) (use later_steps_ok in auto)
  have i: "hardenInst opts M sunk MBB MI C = steps (hardenAddress opts M MBB MI # ?later) C"
    unfolding hardenInst_def using assms by simp
  have "LoadAddr MI \<in> set (snd (hardenInst opts M sunk MBB MI C)) \<longleftrightarrow> LoadAddr MI \<in> set as"
    using later unfolding i steps.simps(2) [of "hardenAddress opts M MBB MI"] s
    by (cases "steps ?later C1") (simp del: steps.simps)
  also have "\<dots> \<longleftrightarrow> address_hardened opts M MBB C MI"
    using s unfolding hardenAddress_def address_hardened_def Let_def
    by (auto simp: protected_fields prefixed_update split: if_splits)
  finally show ?thesis .
qed

lemma mem_off: "A - {m} = B - {m} \<Longrightarrow> x \<noteq> m \<Longrightarrow> x \<in> A \<longleftrightarrow> x \<in> B"
  by blast

lemma address_hardened_frame: "slh_frame MI C C' \<Longrightarrow> x \<noteq> MI \<Longrightarrow> address_hardened opts M MBB C' x = address_hardened opts M MBB C x"
proof -
  assume f: "slh_frame MI C C'" and x: "x \<noteq> MI"
  have "x \<in> HardenLoadAddr C' \<longleftrightarrow> x \<in> HardenLoadAddr C" "x \<in> HardenStoreAddr C' \<longleftrightarrow> x \<in> HardenStoreAddr C"
    "x \<in> HardenCondition C' \<longleftrightarrow> x \<in> HardenCondition C" "x \<in> HardenVTInstr C' \<longleftrightarrow> x \<in> HardenVTInstr C"
    "x \<in> HardenFixedAddressRBP C' \<longleftrightarrow> x \<in> HardenFixedAddressRBP C" "x \<in> HardenFixedAddressRSP C' \<longleftrightarrow> x \<in> HardenFixedAddressRSP C"
    using f x unfolding slh_frame_def by (metis mem_off)+
  then show ?thesis by (simp add: address_hardened_def prefixed_frame [OF f])
qed

lemma hardenInsts_loadAddr:
  assumes "HardenLoads opts"
  shows "distinct xs \<Longrightarrow> LoadAddr MI \<in> set (snd (hardenInsts opts M sunk MBB xs C)) \<longleftrightarrow> MI \<in> set xs \<and> address_hardened opts M MBB C MI"
proof (induction xs arbitrary: C)
  case (Cons x xs)
  obtain C1 as where s: "hardenInst opts M sunk MBB x C = (C1, as)" by fastforce
  have "run_ok M MBB x C (C1, as)" using hardenInst_ok s by metis
  then have f: "slh_frame x C C1" and t: "\<forall>a \<in> set as. target a = x" by (simp_all add: run_ok_def)
  have "LoadAddr MI \<in> set as \<Longrightarrow> MI = x" using t by force
  moreover have "LoadAddr x \<in> set as \<longleftrightarrow> address_hardened opts M MBB C x"
    using hardenInst_loadAddr [OF assms, of x M sunk MBB C] s by simp
  moreover have "MI \<noteq> x \<Longrightarrow> address_hardened opts M MBB C1 MI = address_hardened opts M MBB C MI"
    by (rule address_hardened_frame [OF f])
  ultimately show ?case using Cons.IH [of C1] Cons.prems by (auto simp: s split: prod.splits)
qed simp

lemma hardenInsts_frame:
  "case hardenInsts opts M sunk MBB xs C of (C', as) \<Rightarrow>
     DummyInstr C' = DummyInstr C \<and>
     DummyInstrHardenedBySLH C' \<subseteq> DummyInstrHardenedBySLH C \<union>
       (\<Union>x \<in> {x \<in> set xs. isPrefixedByDummies M MBB C x}. {prevNode MBB x, prevNode MBB (prevNode MBB x)})"
proof (induction xs arbitrary: C)
  case (Cons x xs)
  obtain C1 as where s: "hardenInst opts M sunk MBB x C = (C1, as)" by fastforce
  obtain C2 bs where r: "hardenInsts opts M sunk MBB xs C1 = (C2, bs)" by fastforce
  have ok: "run_ok M MBB x C (C1, as)" using hardenInst_ok s by metis
  then have f: "isPrefixedByDummies M MBB C1 = isPrefixedByDummies M MBB C" "DummyInstr C1 = DummyInstr C"
    using prefixed_frame [of x C C1] by (simp_all add: run_ok_def slh_frame_def)
  let ?p = "\<lambda>x. if isPrefixedByDummies M MBB C x then {prevNode MBB x, prevNode MBB (prevNode MBB x)} else {}"
  have u: "(\<Union>x \<in> {x \<in> set ys. isPrefixedByDummies M MBB C x}. {prevNode MBB x, prevNode MBB (prevNode MBB x)}) = (\<Union>x \<in> set ys. ?p x)" for ys
    by auto
  have "DummyInstrHardenedBySLH C1 \<subseteq> DummyInstrHardenedBySLH C \<union> ?p x" using ok by (simp add: run_ok_def)
  moreover have "DummyInstrHardenedBySLH C2 \<subseteq> DummyInstrHardenedBySLH C1 \<union> (\<Union>x \<in> set xs. ?p x)" "DummyInstr C2 = DummyInstr C1"
    using Cons [of C1] unfolding r prod.case f u by simp_all
  ultimately have "DummyInstrHardenedBySLH C2 \<subseteq> DummyInstrHardenedBySLH C \<union> (\<Union>x \<in> set (x # xs). ?p x)" "DummyInstr C2 = DummyInstr C"
    using f(2) by (simp_all only: list.simps UN_insert) blast
  then show ?case unfolding u by (simp add: s r)
qed simp


subsection \<open>Markers\<close>

abbreviation isBefore :: "machine \<Rightarrow> mid \<Rightarrow> bool" where
  "isBefore M x \<equiv> asmSymbol M x = Some DUMMY_BEFORE"

abbreviation isAfter :: "machine \<Rightarrow> mid \<Rightarrow> bool" where
  "isAfter M x \<equiv> asmSymbol M x = Some DUMMY_AFTER"

definition no_dummy :: "machine \<Rightarrow> mid \<Rightarrow> bool" where
  "no_dummy M x \<longleftrightarrow> \<not> isBefore M x \<and> \<not> isAfter M x"

lemma markers_differ [simp]: "DUMMY_BEFORE \<noteq> DUMMY_AFTER" "DUMMY_AFTER \<noteq> DUMMY_BEFORE"
  by (simp_all add: DUMMY_BEFORE_def DUMMY_AFTER_def)

text \<open>A block in which markers come in pairs that are not nested.\<close>

inductive marked :: "machine \<Rightarrow> mid list \<Rightarrow> bool" for M where
  marked_Nil: "marked M []"
| marked_Cons: "no_dummy M x \<Longrightarrow> marked M xs \<Longrightarrow> marked M (x # xs)"
| marked_pair: "isBefore M b \<Longrightarrow> list_all (no_dummy M) ms \<Longrightarrow> isAfter M a \<Longrightarrow> marked M xs \<Longrightarrow> marked M (b # ms @ a # xs)"

fun regularMarkers :: "machine \<Rightarrow> mid list \<Rightarrow> mid set" where
  "regularMarkers M [] = {}"
| "regularMarkers M (x # xs) =
     (if isBefore M x \<and> fst (between M xs) = 0 then {x, snd (snd (between M xs))} else {}) \<union> regularMarkers M xs"

fun standAloneMarkers :: "machine \<Rightarrow> mid list \<Rightarrow> mid set" where
  "standAloneMarkers M [] = {}"
| "standAloneMarkers M (x # xs) =
     (if isBefore M x \<and> 0 < fst (between M xs) then {x, snd (snd (between M xs))} else {}) \<union> standAloneMarkers M xs"

lemma between_pair:
  "list_all (no_dummy M) ms \<Longrightarrow> isAfter M a \<Longrightarrow> fst (between M (ms @ a # xs)) = length ms \<and> snd (snd (between M (ms @ a # xs))) = a"
  by (induction ms) (auto simp: no_dummy_def split: prod.splits)

lemma markers_skip:
  "list_all (no_dummy M) ms \<Longrightarrow> isAfter M a \<Longrightarrow>
   regularMarkers M (ms @ a # xs) = regularMarkers M xs \<and> standAloneMarkers M (ms @ a # xs) = standAloneMarkers M xs"
  by (induction ms) (auto simp: no_dummy_def)

lemma markers_of_pair:
  assumes "isBefore M b" and "list_all (no_dummy M) ms" and "isAfter M a"
  shows "regularMarkers M (b # ms @ a # xs) = (if ms = [] then {b, a} else {}) \<union> regularMarkers M xs"
    and "standAloneMarkers M (b # ms @ a # xs) = (if ms = [] then {} else {b, a}) \<union> standAloneMarkers M xs"
  using assms by (simp_all add: between_pair markers_skip)

lemma markers_of_other:
  "no_dummy M x \<Longrightarrow> regularMarkers M (x # xs) = regularMarkers M xs \<and> standAloneMarkers M (x # xs) = standAloneMarkers M xs"
  by (simp add: no_dummy_def)

lemma marked_sets:
  assumes "marked M xs" and "distinct xs"
  shows "regularMarkers M xs \<union> standAloneMarkers M xs = {x \<in> set xs. \<not> no_dummy M x} \<and>
    regularMarkers M xs \<inter> standAloneMarkers M xs = {}"
  using assms
proof induction
  case (marked_Cons x xs)
  then have "{y \<in> set (x # xs). \<not> no_dummy M y} = {y \<in> set xs. \<not> no_dummy M y}" by auto
  then show ?case using marked_Cons markers_of_other [of M x xs] by (simp del: regularMarkers.simps standAloneMarkers.simps)
next
  case (marked_pair b ms a xs)
  have ba: "\<not> no_dummy M b" "\<not> no_dummy M a" using marked_pair.hyps by (simp_all add: no_dummy_def)
  have "{x \<in> set (b # ms @ a # xs). \<not> no_dummy M x} = {b, a} \<union> {x \<in> set xs. \<not> no_dummy M x}"
    using marked_pair.hyps(2) ba by (auto simp: list_all_iff)
  moreover have "b \<notin> set xs" "a \<notin> set xs" using marked_pair.prems by auto
  ultimately show ?case
    using marked_pair.IH marked_pair.prems unfolding markers_of_pair [OF marked_pair.hyps(1-3)] by (cases "ms = []") auto
qed simp

text \<open>Once the markers of stand-alone computations are gone, the two markers of a pair are neighbours.\<close>

lemma filter_no_dummy:
  "list_all (no_dummy M) ms \<Longrightarrow> \<forall>s \<in> S. \<not> no_dummy M s \<Longrightarrow> filter (\<lambda>x. x \<notin> S) ms = ms"
  by (auto simp: list_all_iff filter_id_conv)

lemma regular_neighbours:
  assumes "marked M xs" and "distinct xs" and "standAloneMarkers M xs \<subseteq> S" and "regularMarkers M xs \<inter> S = {}"
    and "\<forall>s \<in> S. \<not> no_dummy M s" and "filter (\<lambda>x. x \<notin> S) xs = pre @ a # post" and "isAfter M a"
  shows "\<exists>pre' b. pre = pre' @ [b] \<and> a \<in> regularMarkers M xs \<and> b \<in> regularMarkers M xs"
  using assms
proof (induction arbitrary: pre)
  case (marked_Cons x xs)
  have x: "x \<notin> S" using marked_Cons.hyps(1) marked_Cons.prems(4) by blast
  with marked_Cons.prems(5) marked_Cons.hyps(1) marked_Cons.prems(6) obtain pre' where "pre = x # pre'" "filter (\<lambda>x. x \<notin> S) xs = pre' @ a # post"
    by (cases pre) (auto simp: no_dummy_def)
  then show ?case using marked_Cons by (auto simp: markers_of_other)
next
  case (marked_pair b ms c xs)
  note sets = markers_of_pair [OF marked_pair.hyps(1-3)]
  show ?case
  proof (cases "ms = []")
    case True
    have "b \<notin> S" "c \<notin> S" using marked_pair.prems(3) True unfolding sets by auto
    then have f: "b # c # filter (\<lambda>x. x \<notin> S) xs = pre @ a # post" using marked_pair.prems(5) True by simp
    have "b \<noteq> a" using marked_pair.hyps(1) marked_pair.prems(6) by auto
    then obtain pre1 where p1: "pre = b # pre1" "c # filter (\<lambda>x. x \<notin> S) xs = pre1 @ a # post" using f by (cases pre) auto
    show ?thesis
    proof (cases pre1)
      case Nil
      then show ?thesis using p1 True unfolding sets by simp
    next
      case (Cons y pre2)
      then have "filter (\<lambda>x. x \<notin> S) xs = pre2 @ a # post" using p1 by simp
      then obtain pre3 b' where "pre2 = pre3 @ [b']" "a \<in> regularMarkers M xs" "b' \<in> regularMarkers M xs"
        using marked_pair.IH [of pre2] marked_pair.prems unfolding sets by auto
      then show ?thesis using p1 Cons unfolding sets by simp
    qed
  next
    case False
    have "b \<in> S" "c \<in> S" using marked_pair.prems(2) False unfolding sets by auto
    then have f: "ms @ filter (\<lambda>x. x \<notin> S) xs = pre @ a # post"
      using marked_pair.prems(5) filter_no_dummy [OF marked_pair.hyps(2) marked_pair.prems(4)] by simp
    have "a \<notin> set ms" using marked_pair.hyps(2) marked_pair.prems(6) by (auto simp: list_all_iff no_dummy_def)
    then obtain pre1 where "pre = ms @ pre1" "filter (\<lambda>x. x \<notin> S) xs = pre1 @ a # post"
      using f by (auto simp: append_eq_append_conv2 append_eq_Cons_conv)
    then obtain pre3 b' where "pre1 = pre3 @ [b']" "a \<in> regularMarkers M xs" "b' \<in> regularMarkers M xs"
      using marked_pair.IH [of pre1] marked_pair.prems unfolding sets by auto
    then show ?thesis using \<open>pre = ms @ pre1\<close> False unfolding sets by simp
  qed
qed simp


text \<open>The first pass reaches the end of the block if no fence is in its way.\<close>

definition stops :: "slh_options \<Rightarrow> machine \<Rightarrow> mid \<Rightarrow> bool" where
  "stops opts M MI \<longleftrightarrow> opcodeOf M MI = LFENCE \<or>
     mayVariant opts M MI \<and> (case virtualOperandX87 M MI of [] \<Rightarrow> False | x87 # _ \<Rightarrow> x87)"

definition markers_kept :: "collection \<Rightarrow> collection \<Rightarrow> bool" where
  "markers_kept C C' \<longleftrightarrow> DummyInstr C' = DummyInstr C \<and> StandAloneGEPDummyInstr C' = StandAloneGEPDummyInstr C \<and>
     DummyInstrHardenedBySLH C' = DummyInstrHardenedBySLH C \<and> fenced C' = fenced C"

lemma collectAccess_markers: "markers_kept C (collectAccess opts M MI C)"
  by (auto simp: markers_kept_def collectAccess_def collectFixed_def Let_def split: option.split)

lemma collectInst_markers:
  assumes "\<not> stops opts M MI" and "collectInst opts M MBB MI C = (b, C')"
  shows "\<not> b" and "markers_kept C C'"
proof -
  have acc: "markers_kept D (collectAccess opts M MI D)" for D by (rule collectAccess_markers)
  have "\<not> b \<and> markers_kept C C'"
    using assms acc [of "C\<lparr>HardenCondition := X, HardenVTInstr := Y\<rparr>" for X Y] acc [of "C\<lparr>HardenVTInstr := Y\<rparr>" for Y] acc [of C]
    by (cases "mayBranch opts M MBB MI (HardenCondition C)")
       (auto simp: collectInst_def stops_def Let_def markers_kept_def split: if_splits)
  then show "\<not> b" "markers_kept C C'" by simp_all
qed

lemma collect_markers:
  assumes "list_all (\<lambda>x. \<not> stops opts M x) xs"
  shows "DummyInstr (collect opts M MBB xs C) = DummyInstr C \<union> regularMarkers M xs \<and>
    StandAloneGEPDummyInstr (collect opts M MBB xs C) = StandAloneGEPDummyInstr C \<union> standAloneMarkers M xs \<and>
    DummyInstrHardenedBySLH (collect opts M MBB xs C) = DummyInstrHardenedBySLH C \<and> fenced (collect opts M MBB xs C) = fenced C"
  using assms
proof (induction xs arbitrary: C)
  case (Cons x xs)
  define C1 where "C1 = dependOnLoads M x (collectMarkers M x xs C)"
  obtain b C2 where i: "collectInst opts M MBB x C1 = (b, C2)" by fastforce
  have "\<not> stops opts M x" using Cons.prems by simp
  note k = collectInst_markers [OF this i]
  have "DummyInstr C1 = DummyInstr C \<union> (if isBefore M x \<and> fst (between M xs) = 0 then {x, snd (snd (between M xs))} else {})"
    "StandAloneGEPDummyInstr C1 = StandAloneGEPDummyInstr C \<union> (if isBefore M x \<and> 0 < fst (between M xs) then {x, snd (snd (between M xs))} else {})"
    "DummyInstrHardenedBySLH C1 = DummyInstrHardenedBySLH C" "fenced C1 = fenced C"
    unfolding C1_def dependOnLoads_def collectMarkers_def by (auto split: prod.split)
  moreover have "collect opts M MBB (x # xs) C = collect opts M MBB xs C2" using i k(1) by (simp add: C1_def)
  ultimately show ?case using Cons.IH [of C2] Cons.prems k(2) by (auto simp: markers_kept_def)
qed simp

lemma eraseList_filter: "distinct ys \<Longrightarrow> set ys \<subseteq> set xs \<Longrightarrow> eraseList ys xs = Some (filter (\<lambda>x. x \<notin> set ys) xs)"
proof (induction ys arbitrary: xs)
  case (Cons y ys)
  then have "eraseList ys (removeAll y xs) = Some (filter (\<lambda>x. x \<notin> set ys) (removeAll y xs))" by (intro Cons.IH) auto
  then show ?case using Cons.prems by (auto simp: removeAll_filter_not_eq intro: filter_cong)
qed simp

lemma eraseSet_filter: "X \<subseteq> set xs \<Longrightarrow> eraseSet X xs = Some (filter (\<lambda>x. x \<notin> X) xs)"
  using finite_subset [of X "set xs"] by (simp add: eraseSet_def eraseList_filter)

lemma prevNode_split:
  assumes "prevNode xs MI = p" and "p \<noteq> 0"
  shows "\<exists>pre post. xs = pre @ p # MI # post"
  using assms
proof (induction xs MI rule: prevNode.induct)
  case (1 x y rest MI)
  show ?case
  proof (cases "y = MI")
    case True
    then show ?thesis using 1 by (intro exI [of _ "[]"] exI [of _ rest]) simp
  next
    case False
    then obtain pre post where "y # rest = pre @ p # MI # post" using 1 by auto
    then show ?thesis by (intro exI [of _ "x # pre"] exI [of _ post]) simp
  qed
qed simp_all

lemma prevNode_at: "distinct (pre @ b # a # post) \<Longrightarrow> prevNode (pre @ b # a # post) a = b"
proof (induction pre)
  case (Cons x pre)
  then show ?case by (cases pre) auto
qed simp


text \<open>The sets after the first pass and the block the second pass sees.\<close>

definition first_pass :: "slh_options \<Rightarrow> machine \<Rightarrow> mid list \<Rightarrow> collection" where
  "first_pass opts M MBB = collect opts M MBB MBB empty_collection"

definition second_block :: "slh_options \<Rightarrow> machine \<Rightarrow> mid list \<Rightarrow> mid list" where
  "second_block opts M MBB = filter (\<lambda>x. x \<notin> StandAloneGEPDummyInstr (first_pass opts M MBB)) MBB"

lemma first_pass_markers:
  assumes "list_all (\<lambda>x. \<not> stops opts M x) MBB"
  shows "DummyInstr (first_pass opts M MBB) = regularMarkers M MBB" "StandAloneGEPDummyInstr (first_pass opts M MBB) = standAloneMarkers M MBB"
    "DummyInstrHardenedBySLH (first_pass opts M MBB) = {}" "fenced (first_pass opts M MBB) = None"
  using collect_markers [OF assms, of MBB empty_collection] by (simp_all add: first_pass_def empty_collection_def)

lemma protected_are_regular:
  assumes "marked M MBB" and "distinct MBB" and "list_all (\<lambda>x. \<not> stops opts M x) MBB"
    and "isPrefixedByDummies M (second_block opts M MBB) C x"
  shows "{prevNode (second_block opts M MBB) x, prevNode (second_block opts M MBB) (prevNode (second_block opts M MBB) x)} \<subseteq> regularMarkers M MBB"
proof -
  let ?B = "second_block opts M MBB" and ?S = "standAloneMarkers M MBB"
  define p where "p = prevNode ?B x"
  have B: "?B = filter (\<lambda>x. x \<notin> ?S) MBB" by (simp add: second_block_def first_pass_markers [OF assms(3)])
  have p: "p \<noteq> 0" "isAfter M p" using assms(4) by (simp_all add: isPrefixedByDummies_def p_def)
  obtain pre post where s: "?B = pre @ p # x # post" using prevNode_split [of ?B x p] p(1) p_def by blast
  have sets: "regularMarkers M MBB \<inter> ?S = {}" "\<forall>s \<in> ?S. \<not> no_dummy M s" using marked_sets [OF assms(1,2)] by blast+
  obtain pre' b where b: "pre = pre' @ [b]" "p \<in> regularMarkers M MBB" "b \<in> regularMarkers M MBB"
    using regular_neighbours [OF assms(1,2) subset_refl sets s [unfolded B] p(2)] by blast
  have "distinct ?B" unfolding B using assms(2) by simp
  then have "prevNode ?B p = b" unfolding s b(1) using prevNode_at [of pre' b p "x # post"] by simp
  then show ?thesis using b p_def by simp
qed

lemma marked_block_run:
  assumes "HardenLoads opts" and "marked M MBB" and "distinct MBB" and "list_all (\<lambda>x. \<not> stops opts M x) MBB"
  shows "\<exists>gs. hardenBlock opts M sunk MBB = Some (filter (no_dummy M) MBB,
    map StandAloneGEP gs @ snd (hardenInsts opts M sunk (second_block opts M MBB) (second_block opts M MBB) (first_pass opts M MBB)))"
proof -
  let ?C = "first_pass opts M MBB" and ?B = "second_block opts M MBB"
  let ?R = "regularMarkers M MBB" and ?S = "standAloneMarkers M MBB"
  note f = first_pass_markers [OF assms(4)]
  have sets: "?R \<union> ?S = {x \<in> set MBB. \<not> no_dummy M x}" "?R \<inter> ?S = {}" using marked_sets [OF assms(2,3)] by simp_all
  have B: "?B = filter (\<lambda>x. x \<notin> ?S) MBB" by (simp add: second_block_def f)
  have e1: "eraseSet (StandAloneGEPDummyInstr ?C) MBB = Some ?B" unfolding f B using sets(1) by (intro eraseSet_filter) blast
  obtain C1 as where h: "hardenInsts opts M sunk ?B ?B ?C = (C1, as)" by fastforce
  define P where "P = DummyInstrHardenedBySLH C1"
  have R: "DummyInstr C1 = ?R" using hardenInsts_frame [where opts = opts and M = M and sunk = sunk and MBB = ?B and xs = ?B and C = ?C] h f by simp
  have "P \<subseteq> (\<Union>x \<in> {x \<in> set ?B. isPrefixedByDummies M ?B ?C x}. {prevNode ?B x, prevNode ?B (prevNode ?B x)})"
    using hardenInsts_frame [where opts = opts and M = M and sunk = sunk and MBB = ?B and xs = ?B and C = ?C] h f(3) by (simp add: P_def)
  also have "\<dots> \<subseteq> ?R" by (rule UN_least, rule protected_are_regular [OF assms(2,3,4), where C = ?C]) simp
  finally have P: "P \<subseteq> ?R" .
  have RB: "?R \<subseteq> set ?B" unfolding B using sets by auto
  have e2: "eraseSet P ?B = Some (filter (\<lambda>x. x \<notin> P) ?B)" using P RB by (intro eraseSet_filter) blast
  have e3: "eraseSet (?R - P) (filter (\<lambda>x. x \<notin> P) ?B) = Some (filter (\<lambda>x. x \<notin> ?R - P) (filter (\<lambda>x. x \<notin> P) ?B))"
    using RB by (intro eraseSet_filter) auto
  have "filter (\<lambda>x. x \<notin> ?R - P) (filter (\<lambda>x. x \<notin> P) ?B) = filter (no_dummy M) MBB"
    unfolding B filter_filter using sets P by (intro filter_cong) auto
  then have "hardenBlock opts M sunk MBB = Some (filter (no_dummy M) MBB,
      (if HardenStandAloneGEPs opts then map StandAloneGEP (sorted_list_of_set (HardenStandAloneGEP ?C)) else []) @ as)"
    using assms(1) e1 e2 e3 h R unfolding hardenBlock_def Let_def first_pass_def [symmetric] by (simp add: P_def)
  then show ?thesis using h by (metis list.map(1) snd_conv)
qed

lemma marked_block:
  assumes "HardenLoads opts" and "marked M MBB" and "distinct MBB" and "list_all (\<lambda>x. \<not> stops opts M x) MBB"
  shows "\<exists>as. hardenBlock opts M sunk MBB = Some (filter (no_dummy M) MBB, as) \<and>
    (\<forall>MI. LoadAddr MI \<in> set as \<longleftrightarrow>
       MI \<in> set (second_block opts M MBB) \<and> address_hardened opts M (second_block opts M MBB) (first_pass opts M MBB) MI)"
proof -
  have "distinct (second_block opts M MBB)" using assms(3) by (simp add: second_block_def)
  then show ?thesis using marked_block_run [OF assms, of sunk] hardenInsts_loadAddr [OF assms(1)] by auto
qed

text \<open>
  C20: The markers of the analysis are used up exactly.  For a block whose markers come in pairs and in which no fence ends the
  first pass, both passes return: no marker is erased twice or missing, the code that stays is the original one without
  its markers, and the address of an instruction is hardened exactly if the first pass has selected it and, when
  the filter is on, it stands behind a pair of markers or is hardened for another reason.
\<close>

theorem marked_block_hardened:
  assumes "HardenLoads opts" and "marked M MBB" and "distinct MBB" and "list_all (\<lambda>x. \<not> stops opts M x) MBB"
  shows "\<exists>as. hardenBlock opts M sunk MBB = Some (filter (no_dummy M) MBB, as) \<and>
    (\<forall>MI. LoadAddr MI \<in> set as \<longleftrightarrow>
       MI \<in> set (second_block opts M MBB) \<and> address_hardened opts M (second_block opts M MBB) (first_pass opts M MBB) MI)"
  using assms by (rule marked_block)


subsection \<open>Which loads are covered\<close>

text \<open>
  Registers whose value depends on the result of a load of \<open>A\<close>, after the instructions of a list have run
  one after the other from a set \<open>R\<close> of such registers.
\<close>

fun load_derived :: "machine \<Rightarrow> mid set \<Rightarrow> mid list \<Rightarrow> reg set \<Rightarrow> reg set" where
  "load_derived M A [] R = R"
| "load_derived M A (x # xs) R =
     load_derived M A xs (R \<union> (if x \<in> A \<or> set (useRegs M x) \<inter> R \<noteq> {} then set (defRegs M x) else {}))"

definition address_regs :: "machine \<Rightarrow> mid \<Rightarrow> reg set" where
  "address_regs M MI = (case memOperands M MI of None \<Rightarrow> {} | Some (BaseMO, IndexReg) \<Rightarrow> {baseRegister BaseMO, IndexReg} - {NoRegister})"

definition selects :: "slh_options \<Rightarrow> machine \<Rightarrow> mid \<Rightarrow> collection \<Rightarrow> collection \<Rightarrow> bool" where
  "selects opts M MI C C' \<longleftrightarrow> HardenLoadAddr C \<subseteq> HardenLoadAddr C' \<and>
     HardenLoadAddr C' \<subseteq> HardenLoadAddr C \<union> (if address_regs M MI = {} then {} else {MI}) \<and> HardenPostLoad C \<subseteq> HardenPostLoad C' \<and>
     HardenPostLoad C' \<subseteq> HardenPostLoad C \<union> (if postLoadPossible opts M MI then {MI} else {}) \<and>
     LoadDepRegs C' \<subseteq> LoadDepRegs C \<union> (if MI \<in> HardenLoadAddr C' then set (defRegs M MI) else {})"

lemma collectAccess_selects: "selects opts M MI C (collectAccess opts M MI C)"
proof (cases "memOperands M MI")
  case None
  then show ?thesis by (simp add: selects_def collectAccess_def Let_def)
next
  case (Some mo)
  obtain BaseMO IndexReg where mo: "mo = (BaseMO, IndexReg)" by fastforce
  have fixed: "HardenLoadAddr (collectFixed opts BaseMO MI D) = HardenLoadAddr D" "HardenPostLoad (collectFixed opts BaseMO MI D) = HardenPostLoad D"
    "LoadDepRegs (collectFixed opts BaseMO MI D) = LoadDepRegs D" for D by (simp_all add: collectFixed_def)
  have "address_regs M MI = {} \<longleftrightarrow> baseRegister BaseMO = NoRegister \<and> IndexReg = NoRegister" using Some mo by (auto simp: address_regs_def)
  then show ?thesis using Some mo by (simp add: selects_def collectAccess_def Let_def fixed subset_insertI Un_upper1)
qed

lemma collectAccess_load:
  "address_regs M MI \<noteq> {} \<Longrightarrow>
   MI \<in> HardenLoadAddr (collectAccess opts M MI C) \<union> HardenPostLoad (collectAccess opts M MI C) \<or> address_regs M MI \<inter> LoadDepRegs C \<noteq> {}"
  by (auto simp: address_regs_def collectAccess_def Let_def split: option.splits if_splits)

lemma collectInst_selects:
  assumes "\<not> stops opts M MI"
  shows "selects opts M MI C (snd (collectInst opts M MBB MI C))"
    and "mayLoad M MI \<Longrightarrow> opcodeOf M MI \<noteq> MFENCE \<Longrightarrow> address_regs M MI \<noteq> {} \<Longrightarrow>
      MI \<in> HardenLoadAddr (snd (collectInst opts M MBB MI C)) \<union> HardenPostLoad (snd (collectInst opts M MBB MI C)) \<or>
      address_regs M MI \<inter> LoadDepRegs C \<noteq> {}"
proof -
  define C1 where "C1 = (case mayBranch opts M MBB MI (HardenCondition C) of None \<Rightarrow> C
    | Some c \<Rightarrow> C\<lparr>HardenCondition := insert c (HardenCondition C), HardenVTInstr := HardenVTInstr C - {c}\<rparr>)"
  define C2 where "C2 = (if mayVariant opts M MI then C1\<lparr>HardenVTInstr := insert MI (HardenVTInstr C1)\<rparr> else C1)"
  have eq: "HardenLoadAddr C2 = HardenLoadAddr C" "HardenPostLoad C2 = HardenPostLoad C" "LoadDepRegs C2 = LoadDepRegs C"
    by (simp_all add: C2_def C1_def split: option.split)
  have i: "snd (collectInst opts M MBB MI C) = (if \<not> mayLoad M MI \<and> mayBranch opts M MBB MI (HardenCondition C) = None \<and>
      \<not> mayVariant opts M MI \<and> \<not> (HardenStoreAddress opts \<and> mayStore M MI) \<or> opcodeOf M MI = MFENCE then C else collectAccess opts M MI C2)"
    using assms unfolding collectInst_def Let_def C2_def C1_def by (auto simp: stops_def)
  show "selects opts M MI C (snd (collectInst opts M MBB MI C))"
    unfolding i using collectAccess_selects [of opts M MI C2] by (auto simp: selects_def eq)
  show "MI \<in> HardenLoadAddr (snd (collectInst opts M MBB MI C)) \<union> HardenPostLoad (snd (collectInst opts M MBB MI C)) \<or>
      address_regs M MI \<inter> LoadDepRegs C \<noteq> {}"
    if "mayLoad M MI" "opcodeOf M MI \<noteq> MFENCE" "address_regs M MI \<noteq> {}"
    unfolding i using collectAccess_load [OF that(3), of opts C2] that by (simp add: eq)
qed

lemma collect_step:
  "\<not> stops opts M x \<Longrightarrow> collect opts M MBB (x # xs) C =
     collect opts M MBB xs (snd (collectInst opts M MBB x (dependOnLoads M x (collectMarkers M x xs C))))"
  using collectInst_markers(1) [of opts M x] by (auto split: prod.split)

lemma collect_mono:
  assumes "list_all (\<lambda>x. \<not> stops opts M x) xs"
  shows "HardenLoadAddr C \<subseteq> HardenLoadAddr (collect opts M MBB xs C) \<and> HardenPostLoad C \<subseteq> HardenPostLoad (collect opts M MBB xs C)"
  using assms
proof (induction xs arbitrary: C)
  case (Cons x xs)
  let ?C0 = "dependOnLoads M x (collectMarkers M x xs C)"
  let ?C1 = "snd (collectInst opts M MBB x ?C0)"
  have "HardenLoadAddr ?C0 = HardenLoadAddr C" "HardenPostLoad ?C0 = HardenPostLoad C"
    by (auto simp: dependOnLoads_def collectMarkers_def split: prod.split)
  then have "HardenLoadAddr C \<subseteq> HardenLoadAddr ?C1" "HardenPostLoad C \<subseteq> HardenPostLoad ?C1"
    using collectInst_selects(1) [of opts M x ?C0 MBB] Cons.prems unfolding selects_def by auto
  then show ?case using Cons.IH [of ?C1] Cons.prems collect_step [of opts M x MBB xs C] by auto
qed simp


lemma collect_covers:
  assumes "list_all (\<lambda>x. \<not> stops opts M x) xs" and "HardenLoadAddr (collect opts M MBB xs C) \<subseteq> A" and "LoadDepRegs C \<subseteq> R"
    and "MI \<in> set xs" and "mayLoad M MI" and "opcodeOf M MI \<noteq> MFENCE" and "address_regs M MI \<noteq> {}"
    and "address_regs M MI \<inter> set (defRegs M MI) = {}"
  shows "MI \<in> HardenLoadAddr (collect opts M MBB xs C) \<union> HardenPostLoad (collect opts M MBB xs C) \<or>
    address_regs M MI \<inter> load_derived M A (takeWhile (\<lambda>x. x \<noteq> MI) xs) R \<noteq> {}"
  using assms(1-4)
proof (induction xs arbitrary: C R)
  case (Cons x xs)
  let ?C0 = "dependOnLoads M x (collectMarkers M x xs C)"
  let ?C1 = "snd (collectInst opts M MBB x ?C0)"
  let ?R0 = "R \<union> (if set (useRegs M x) \<inter> R \<noteq> {} then set (defRegs M x) else {})"
  let ?R1 = "R \<union> (if x \<in> A \<or> set (useRegs M x) \<inter> R \<noteq> {} then set (defRegs M x) else {})"
  have ns: "\<not> stops opts M x" "list_all (\<lambda>x. \<not> stops opts M x) xs" using Cons.prems(1) by simp_all
  note step = collect_step [OF ns(1), of MBB xs C]
  have sub: "HardenLoadAddr ?C1 \<subseteq> A"
    using collect_mono [OF ns(2), of ?C1 MBB] Cons.prems(2) unfolding step by blast
  have m: "LoadDepRegs (collectMarkers M x xs C) = LoadDepRegs C" by (auto simp: collectMarkers_def split: prod.split)
  have C0: "LoadDepRegs ?C0 \<subseteq> ?R0" using Cons.prems(3) by (auto simp: dependOnLoads_def m)
  have "LoadDepRegs ?C1 \<subseteq> LoadDepRegs ?C0 \<union> (if x \<in> HardenLoadAddr ?C1 then set (defRegs M x) else {})"
    using collectInst_selects(1) [OF ns(1), of ?C0 MBB] by (simp add: selects_def)
  then have C1: "LoadDepRegs ?C1 \<subseteq> ?R1" using C0 sub by (cases "x \<in> HardenLoadAddr ?C1") (auto split: if_splits)
  show ?case
  proof (cases "MI = x")
    case True
    have "MI \<in> HardenLoadAddr ?C1 \<union> HardenPostLoad ?C1 \<or> address_regs M MI \<inter> R \<noteq> {}"
      using collectInst_selects(2) [OF ns(1), where C = ?C0 and MBB = MBB] assms(5-8) C0 True by (auto split: if_splits)
    then show ?thesis using collect_mono [OF ns(2), of ?C1 MBB] True unfolding step by auto
  next
    case False
    then show ?thesis using Cons.IH [OF ns(2) _ C1] Cons.prems(2,4) unfolding step by auto
  qed
qed simp

lemma collect_postLoad:
  assumes "list_all (\<lambda>x. \<not> stops opts M x) xs" and "MI \<in> HardenPostLoad (collect opts M MBB xs C)" and "\<not> postLoadPossible opts M MI"
  shows "MI \<in> HardenPostLoad C"
  using assms(1,2)
proof (induction xs arbitrary: C)
  case (Cons x xs)
  let ?C0 = "dependOnLoads M x (collectMarkers M x xs C)"
  let ?C1 = "snd (collectInst opts M MBB x ?C0)"
  have ns: "\<not> stops opts M x" using Cons.prems by simp
  have "HardenPostLoad ?C0 = HardenPostLoad C" by (auto simp: dependOnLoads_def collectMarkers_def split: prod.split)
  then have "HardenPostLoad ?C1 \<subseteq> HardenPostLoad C \<union> (if postLoadPossible opts M x then {x} else {})"
    using collectInst_selects(1) [OF ns, of ?C0 MBB] unfolding selects_def by auto
  then show ?case using Cons.IH [of ?C1] Cons.prems assms(3) collect_step [OF ns, of MBB xs C] by (auto split: if_splits)
qed simp


lemma collect_no_stores:
  "\<not> HardenStoreAddress opts \<Longrightarrow> HardenStoreAddr C = {} \<Longrightarrow> HardenStoreAddr (collect opts M MBB xs C) = {}"
proof (induction xs arbitrary: C)
  case (Cons x xs)
  let ?C0 = "dependOnLoads M x (collectMarkers M x xs C)"
  obtain b C1 where i: "collectInst opts M MBB x ?C0 = (b, C1)" by fastforce
  have acc: "HardenStoreAddr D = {} \<Longrightarrow> HardenStoreAddr (collectAccess opts M x D) = {}" for D
    using Cons.prems(1) by (auto simp: collectAccess_def collectFixed_def Let_def split: option.split)
  have "HardenStoreAddr ?C0 = {}" using Cons.prems(2) by (auto simp: dependOnLoads_def collectMarkers_def split: prod.split)
  then have "HardenStoreAddr C1 = {}"
    using i acc by (auto simp: collectInst_def Let_def split: if_splits option.splits)
  then show ?case using Cons i by simp
qed simp

lemma selected_address:
  assumes "list_all (\<lambda>x. \<not> stops opts M x) xs"
  shows "\<forall>j \<in> HardenLoadAddr C. address_regs M j \<noteq> {} \<Longrightarrow> \<forall>j \<in> HardenLoadAddr (collect opts M MBB xs C). address_regs M j \<noteq> {}"
  using assms
proof (induction xs arbitrary: C)
  case (Cons y xs)
  let ?C0 = "dependOnLoads M y (collectMarkers M y xs C)"
  let ?C1 = "snd (collectInst opts M MBB y ?C0)"
  have ns: "\<not> stops opts M y" using Cons.prems(2) by simp
  have "HardenLoadAddr ?C0 = HardenLoadAddr C" by (auto simp: dependOnLoads_def collectMarkers_def split: prod.split)
  then have "HardenLoadAddr ?C1 \<subseteq> HardenLoadAddr C \<union> (if address_regs M y = {} then {} else {y})"
    using collectInst_selects(1) [OF ns, of ?C0 MBB] by (simp add: selects_def)
  then have "\<forall>j \<in> HardenLoadAddr ?C1. address_regs M j \<noteq> {}" using Cons.prems(1) by (auto split: if_splits)
  then show ?case using Cons.IH [of ?C1] Cons.prems(2) collect_step [OF ns, of MBB xs C] by simp
qed simp

lemma selected_in_block:
  assumes "list_all (\<lambda>x. \<not> stops opts M x) xs"
  shows "x \<in> HardenLoadAddr (collect opts M MBB xs C) \<Longrightarrow> x \<in> HardenLoadAddr C \<or> x \<in> set xs"
  using assms
proof (induction xs arbitrary: C)
  case (Cons y xs)
  let ?C0 = "dependOnLoads M y (collectMarkers M y xs C)"
  let ?C1 = "snd (collectInst opts M MBB y ?C0)"
  have ns: "\<not> stops opts M y" using Cons.prems(2) by simp
  have C0: "HardenLoadAddr ?C0 = HardenLoadAddr C" by (auto simp: dependOnLoads_def collectMarkers_def split: prod.split)
  have "HardenLoadAddr ?C1 \<subseteq> HardenLoadAddr C \<union> (if address_regs M y = {} then {} else {y})"
    using collectInst_selects(1) [OF ns, of ?C0 MBB] C0 by (simp add: selects_def)
  then show ?case using Cons.IH [of ?C1] Cons.prems collect_step [OF ns, of MBB xs C] by (auto split: if_splits)
qed simp

text \<open>
  Conditions on the code alone under which the first pass selects the address of a load: it is no MFENCE, its address has a register and
  none that it defines itself, its value cannot be hardened instead, and no instruction in front of it makes one
  of its address registers depend on a memory access of the block.
\<close>

definition independent_load :: "slh_options \<Rightarrow> machine \<Rightarrow> mid list \<Rightarrow> mid \<Rightarrow> bool" where
  "independent_load opts M MBB MI \<longleftrightarrow>
     mayLoad M MI \<and> opcodeOf M MI \<noteq> MFENCE \<and> address_regs M MI \<noteq> {} \<and> address_regs M MI \<inter> set (defRegs M MI) = {} \<and>
     \<not> postLoadPossible opts M MI \<and>
     address_regs M MI \<inter> load_derived M {x \<in> set MBB. memOperands M x \<noteq> None} (takeWhile (\<lambda>x. x \<noteq> MI) MBB) {} = {}"

lemma independent_load_selected:
  assumes "list_all (\<lambda>x. \<not> stops opts M x) MBB" and "MI \<in> set MBB" and "independent_load opts M MBB MI" and "\<not> HardenStoreAddress opts"
  shows "MI \<in> HardenLoadAddr (first_pass opts M MBB) - HardenStoreAddr (first_pass opts M MBB)"
proof -
  let ?A = "{x \<in> set MBB. memOperands M x \<noteq> None}"
  have e: "HardenLoadAddr empty_collection = {}" "HardenPostLoad empty_collection = {}" "HardenStoreAddr empty_collection = {}"
    "LoadDepRegs empty_collection = {}" by (simp_all add: empty_collection_def)
  have "address_regs M j \<noteq> {} \<and> j \<in> set MBB" if "j \<in> HardenLoadAddr (first_pass opts M MBB)" for j
    using that selected_address [OF assms(1), of empty_collection MBB] selected_in_block [OF assms(1), of j MBB empty_collection]
    by (auto simp: first_pass_def e)
  then have "j \<in> ?A" if "j \<in> HardenLoadAddr (first_pass opts M MBB)" for j
    using that by (fastforce simp: address_regs_def split: option.splits)
  then have "MI \<in> HardenLoadAddr (first_pass opts M MBB) \<union> HardenPostLoad (first_pass opts M MBB)"
    using collect_covers [OF assms(1), of MBB empty_collection ?A "{}" MI] assms(2,3) by (auto simp: first_pass_def independent_load_def e)
  moreover have "MI \<notin> HardenPostLoad (first_pass opts M MBB)"
    using collect_postLoad [OF assms(1), of MI MBB empty_collection] assms(3) by (auto simp: first_pass_def independent_load_def e)
  moreover have "HardenStoreAddr (first_pass opts M MBB) = {}" using collect_no_stores [OF assms(4) e(3)] by (simp add: first_pass_def)
  ultimately show ?thesis by simp
qed














subsection \<open>The filter and dependent loads\<close>

text \<open>
  The filter can drop a load that the analysis has marked.  In a block of an unmarked load, a pair of markers and a load whose
  address register is defined by the first one, the first pass omits the second load, as it depends on a load that it
  expects to be hardened; the filter then leaves the first load alone, which is not marked, so that neither is hardened.
\<close>

theorem dependent_marked_load_skipped:
  assumes "HardenLoads opts" and "EnableFilter opts"
    and "\<not> HardenVariantTimingInstr opts \<and> \<not> HardenOneBranchCondition opts \<and> \<not> HardenAllBranchConditions opts \<and> \<not> HardenStoreAddress opts"
    and "distinct [l1, b, a, l2]" and "no_dummy M l1" and "isBefore M b" and "isAfter M a" and "no_dummy M l2"
    and "\<forall>x \<in> {l1, b, a, l2}. opcodeOf M x \<noteq> LFENCE \<and> opcodeOf M x \<noteq> MFENCE \<and> (mayLoad M x \<longleftrightarrow> x \<in> {l1, l2})"
    and "memOperands M l1 = Some (BaseRegister (Virtual p), NoRegister)" and "defRegs M l1 = [Virtual r]"
    and "memOperands M l2 = Some (BaseRegister (Virtual r), NoRegister)" and "\<not> postLoadPossible opts M l1"
    and "useRegs M b = [] \<and> useRegs M a = []"
  shows "\<exists>as. hardenBlock opts M sunk [l1, b, a, l2] = Some ([l1, l2], as) \<and>
    HardenPostLoad (first_pass opts M [l1, b, a, l2]) = {} \<and> LoadAddr l1 \<notin> set as \<and> LoadAddr l2 \<notin> set as"
proof -
  let ?B = "[l1, b, a, l2]"
  have nb: "mayBranch opts M ?B x X = None" "\<not> mayVariant opts M x" for x X using assms(3) by (simp_all add: mayBranch_def mayVariant_def)
  have ns: "list_all (\<lambda>x. \<not> stops opts M x) ?B" using assms(9) nb by (simp add: stops_def)
  have um: "\<not> isBefore M l1" "\<not> isBefore M a" "\<not> isBefore M l2" "\<not> isAfter M l1" "\<not> isAfter M l2"
    using assms(5-8) by (auto simp: no_dummy_def)
  have op: "opcodeOf M l1 \<noteq> LFENCE" "opcodeOf M b \<noteq> LFENCE" "opcodeOf M a \<noteq> LFENCE" "opcodeOf M l2 \<noteq> LFENCE"
    "opcodeOf M l1 \<noteq> MFENCE" "opcodeOf M l2 \<noteq> MFENCE" "mayLoad M l1" "mayLoad M l2" "\<not> mayLoad M b" "\<not> mayLoad M a"
    using assms(4,9) by auto
  have m: "marked M ?B"
    using marked_Cons [OF assms(5) marked_pair [OF assms(6) _ assms(7) marked_Cons [OF assms(8) marked_Nil], of "[]"]] by simp
  obtain as where as: "hardenBlock opts M sunk ?B = Some (filter (no_dummy M) ?B, as)"
    "\<And>j. LoadAddr j \<in> set as \<longleftrightarrow> j \<in> set (second_block opts M ?B) \<and> address_hardened opts M (second_block opts M ?B) (first_pass opts M ?B) j"
    using marked_block [OF assms(1) m assms(4) ns] by blast
  have f: "filter (no_dummy M) ?B = [l1, l2]" using assms(5-8) by (simp add: no_dummy_def)
  define C1 where "C1 = empty_collection\<lparr>HardenLoadAddr := {l1}, HardenedAddrRegs := {Virtual p}, LoadDepRegs := {Virtual r}\<rparr>"
  define C2 where "C2 = C1\<lparr>DummyInstr := {a, b}\<rparr>"
  define C3 where "C3 = dependOnLoads M l2 C2"
  have i1: "dependOnLoads M l1 (collectMarkers M l1 xs empty_collection) = empty_collection" for xs
    using um by (simp add: dependOnLoads_def collectMarkers_def empty_collection_def)
  have regs: "{Virtual p, NoRegister} - {NoRegister} = {Virtual p}" by auto
  have c1: "collectInst opts M ?B l1 empty_collection = (False, C1)"
    using op assms(3,10,11,13) nb by (simp add: regs collectInst_def collectAccess_def baseRegister_def C1_def empty_collection_def)
  have i2: "dependOnLoads M b (collectMarkers M b [a, l2] C1) = C2"
    using assms(6,7,14) by (simp add: dependOnLoads_def collectMarkers_def C2_def C1_def empty_collection_def)
  have c2: "collectInst opts M ?B b C2 = (False, C2)" "collectInst opts M ?B a C2 = (False, C2)"
    using op assms(3) nb by (simp_all add: collectInst_def)
  have i3: "dependOnLoads M a (collectMarkers M a [l2] C2) = C2" "collectMarkers M l2 [] C2 = C2"
    using um assms(14) by (simp_all add: dependOnLoads_def collectMarkers_def)
  have d: "Virtual r \<in> LoadDepRegs C3" by (simp add: C3_def dependOnLoads_def C2_def C1_def)
  have c3: "collectInst opts M ?B l2 C3 = (False, C3)"
    using op assms(3,12) nb d by (simp add: collectInst_def collectAccess_def baseRegister_def)
  have fp: "first_pass opts M ?B = C3" using i1 c1 i2 c2 i3 c3 C3_def by (simp add: first_pass_def)
  have C: "HardenLoadAddr (first_pass opts M ?B) = {l1}" "HardenPostLoad (first_pass opts M ?B) = {}"
    "HardenCondition (first_pass opts M ?B) = {}" "HardenVTInstr (first_pass opts M ?B) = {}"
    "HardenFixedAddressRBP (first_pass opts M ?B) = {}" "HardenFixedAddressRSP (first_pass opts M ?B) = {}"
    unfolding fp by (simp_all add: C3_def dependOnLoads_def C2_def C1_def empty_collection_def)
  have "standAloneMarkers M ?B = {}" using um assms(6,7) by simp
  then have "second_block opts M ?B = ?B" by (simp add: second_block_def first_pass_markers [OF ns])
  then have "\<not> isPrefixedByDummies M (second_block opts M ?B) D l1" for D using assms(4) by (auto simp: isPrefixedByDummies_def)
  then show ?thesis using as C f assms(2,4) by (auto simp: address_hardened_def)
qed


text \<open>An example: a load 10, a pair of markers 11 and 12, and a load 13 whose address register is \<open>r\<close>.\<close>

definition slh_example :: "reg \<Rightarrow> machine" where
  "slh_example r = \<lparr>opcodeOf = (\<lambda>_. OtherOpcode 0),
     asmSymbol = (\<lambda>x. if x = 11 then Some DUMMY_BEFORE else if x = 12 then Some DUMMY_AFTER else None),
     isDebugInstr = (\<lambda>_. False), useRegs = (\<lambda>x. if x = 10 then [Virtual 4] else if x = 13 then [r] else []),
     defRegs = (\<lambda>x. if x = 10 then [Virtual 5] else if x = 13 then [Virtual 6] else []), implicitRegs = (\<lambda>_. []),
     mayLoad = (\<lambda>x. x = 10 \<or> x = 13), mayStore = (\<lambda>_. False), isConditionalBranch = (\<lambda>_. False), isBranch = (\<lambda>_. False),
     isCall = (\<lambda>_. False), isReturn = (\<lambda>_. False), noFPExcept = (\<lambda>_. False), mayRaiseFPException = (\<lambda>_. False),
     virtualOperandX87 = (\<lambda>_. []),
     memOperands = (\<lambda>x. if x = 10 then Some (BaseRegister (Virtual 4), NoRegister) else if x = 13 then Some (BaseRegister r, NoRegister) else None),
     usedOperandRegs = (\<lambda>_. []), isDataInvariantLoad = (\<lambda>_. False), eflagsDefDead = (\<lambda>_. None), numDefs = (\<lambda>_. 1),
     firstOperandReg = (\<lambda>x. None), regBytes = (\<lambda>_. 8), isNoREX = (\<lambda>_. False), isGPR = (\<lambda>_. True)\<rparr>"

lemma slh_example_marked: "marked (slh_example r) [10, 11, 12, 13]"
proof -
  have "no_dummy (slh_example r) 10" "no_dummy (slh_example r) 13" by (simp_all add: no_dummy_def slh_example_def)
  moreover have "isBefore (slh_example r) 11" "isAfter (slh_example r) 12" by (simp_all add: slh_example_def)
  ultimately show ?thesis using marked_Cons marked_Nil marked_pair [of "slh_example r" 11 "[]" 12 "[13]"] by simp
qed

lemma slh_example_runs: "HardenVariantTimingInstr opts = False \<Longrightarrow> list_all (\<lambda>x. \<not> stops opts (slh_example r) x) [10, 11, 12, 13]"
  by (simp add: stops_def mayVariant_def slh_example_def)

theorem marked_block_hardened_witness:
  "\<exists>as. hardenBlock (default_options\<lparr>EnableFilter := True\<rparr>) (slh_example (Virtual 7)) (\<lambda>_ _. None) [10, 11, 12, 13] = Some ([10, 13], as) \<and>
     LoadAddr 13 \<in> set as \<and> LoadAddr 10 \<notin> set as"
proof -
  let ?o = "default_options\<lparr>EnableFilter := True\<rparr>" and ?M = "slh_example (Virtual 7)" and ?B = "[10, 11, 12, 13] :: mid list"
  have o: "HardenLoads ?o" "HardenVariantTimingInstr ?o = False" by (simp_all add: default_options_def)
  have "filter (no_dummy ?M) ?B = [10, 13]" by (simp add: no_dummy_def slh_example_def)
  moreover have "standAloneMarkers ?M ?B = {}" by (simp add: slh_example_def)
  then have "second_block ?o ?M ?B = ?B" by (simp add: second_block_def first_pass_markers [OF slh_example_runs [OF o(2)]])
  moreover have "address_hardened ?o ?M ?B (first_pass ?o ?M ?B) 13" "\<not> address_hardened ?o ?M ?B (first_pass ?o ?M ?B) 10"
    by (simp_all add: address_hardened_def isPrefixedByDummies_def first_pass_def collectInst_def collectAccess_def collectMarkers_def
        dependOnLoads_def baseRegister_def postLoadPossible_def mayBranch_def mayVariant_def empty_collection_def Let_def
        slh_example_def default_options_def)
  ultimately show ?thesis
    using marked_block_hardened [OF o(1) slh_example_marked [of "Virtual 7"] _ slh_example_runs [OF o(2)], of "\<lambda>_ _. None"] by auto
qed


theorem dependent_marked_load_skipped_witness:
  "\<exists>as. hardenBlock (default_options\<lparr>EnableFilter := True\<rparr>) (slh_example (Virtual 5)) (\<lambda>_ _. None) [10, 11, 12, 13] = Some ([10, 13], as) \<and>
     LoadAddr 10 \<notin> set as \<and> LoadAddr 13 \<notin> set as"
  using dependent_marked_load_skipped [of "default_options\<lparr>EnableFilter := True\<rparr>" 10 11 12 13 "slh_example (Virtual 5)" 4 5 "\<lambda>_ _. None"]
  by (simp add: default_options_def no_dummy_def slh_example_def postLoadPossible_def) blast


subsection \<open>Corners of the first pass\<close>

text \<open>
  An access through the stack pointer has a base register, so that it is never taken for an access with a fixed address: the
  set of such accesses stays empty.
\<close>

lemma collectInst_RSP: "HardenFixedAddressRSP (snd (collectInst opts M MBB MI C)) = HardenFixedAddressRSP C"
proof -
  have "HardenFixedAddressRSP (collectAccess opts M MI D) = HardenFixedAddressRSP D" for D
    by (auto simp: collectAccess_def collectFixed_def baseRegister_def Let_def split: option.split)
  then show ?thesis
    unfolding collectInst_def Let_def by (cases "mayBranch opts M MBB MI (HardenCondition C)") simp_all
qed

lemma stack_pointer_never_fixed:
  "HardenFixedAddressRSP C = {} \<Longrightarrow> HardenFixedAddressRSP (collect opts M MBB xs C) = {}"
proof (induction xs arbitrary: C)
  case (Cons x xs)
  let ?C0 = "dependOnLoads M x (collectMarkers M x xs C)"
  have "HardenFixedAddressRSP ?C0 = {}" using Cons.prems by (auto simp: dependOnLoads_def collectMarkers_def split: prod.split)
  then show ?case
    using Cons.IH [of "snd (collectInst opts M MBB x ?C0)"] collectInst_RSP [of opts M MBB x ?C0]
    by (cases "collectInst opts M MBB x ?C0") auto
qed simp

text \<open>
  A debug instruction between two markers is counted: the pair is taken for the markers of a stand-alone computation, which then
  has no instruction to harden, and the load behind the pair loses its mark.
\<close>

lemma debug_instruction_hides_mark:
  assumes "isBefore M b" and "isDebugInstr M d" and "\<not> isAfter M d" and "isAfter M a"
  shows "collectMarkers M b (d # a # xs) C = C\<lparr>StandAloneGEPDummyInstr := insert a (insert b (StandAloneGEPDummyInstr C))\<rparr>"
  using assms by (simp add: collectMarkers_def)

text \<open>Markers behind a fence are not collected and stay in the code.\<close>

lemma markers_behind_fence_stay:
  assumes "HardenLoads opts" and "opcodeOf M f = LFENCE" and "no_dummy M f" and "distinct [f, b, a]" and "f \<noteq> 0"
    and "isAfter M a" and "isBefore M b"
  shows "\<exists>as. hardenBlock opts M sunk [f, b, a] = Some ([f, b, a], as)"
proof -
  let ?B = "[f, b, a]"
  have C: "collect opts M ?B ?B empty_collection = empty_collection"
    using assms(2,3) by (simp add: collectInst_def dependOnLoads_def collectMarkers_def no_dummy_def empty_collection_def)
  obtain C1 as where h: "hardenInsts opts M sunk ?B ?B empty_collection = (C1, as)" by fastforce
  have none: "{x \<in> set ?B. isPrefixedByDummies M ?B empty_collection x} = {}"
    using assms(3-7) by (auto simp: isPrefixedByDummies_def no_dummy_def)
  have e: "DummyInstr empty_collection = {}" "DummyInstrHardenedBySLH empty_collection = {}" by (simp_all add: empty_collection_def)
  have "DummyInstr C1 = {}" "DummyInstrHardenedBySLH C1 = {}"
    using hardenInsts_frame [where opts = opts and M = M and sunk = sunk and MBB = ?B and xs = ?B and C = empty_collection]
    unfolding h prod.case none e by simp_all
  then show ?thesis using assms(1) C h by (simp add: hardenBlock_def eraseSet_def) (simp add: empty_collection_def)
qed


subsection \<open>The registers of an address\<close>

text \<open>The operands that the hardening of an address rewrites, before those that are already hardened are left out.\<close>

definition hardenOpRegs :: "base_operand \<Rightarrow> reg \<Rightarrow> reg list" where
  "hardenOpRegs BaseMO IndexReg =
     (let base = (case BaseMO of
                    FrameIndex \<Rightarrow> []
                  | BaseRegister r \<Rightarrow> if r = RSP then [] else if r = RIP \<or> r = NoRegister then [] else [r])
      in if IndexReg \<noteq> NoRegister \<and> (base = [] \<or> hd base \<noteq> IndexReg) then base @ [IndexReg] else base)"

definition uncheckedRegs :: "(reg \<rightharpoonup> reg) \<Rightarrow> base_operand \<Rightarrow> reg \<Rightarrow> reg list" where
  "uncheckedRegs AddrRegToHardenedReg BaseMO IndexReg = filter (\<lambda>r. AddrRegToHardenedReg r = None) (hardenOpRegs BaseMO IndexReg)"

text \<open>Every register of the address but a stack pointer is rewritten once, by a new or by a known hardened register.\<close>

lemma hardenOpRegs_cover:
  assumes "memOperands M MI = Some (BaseMO, IndexReg)" and "IndexReg \<noteq> RSP"
  shows "set (hardenOpRegs BaseMO IndexReg) = address_regs M MI - {RSP}" "distinct (hardenOpRegs BaseMO IndexReg)"
    "length (hardenOpRegs BaseMO IndexReg) \<le> 2"
    "address_regs M MI - {RSP} = set (uncheckedRegs H BaseMO IndexReg) \<union> (dom H \<inter> set (hardenOpRegs BaseMO IndexReg))"
proof -
  show s: "set (hardenOpRegs BaseMO IndexReg) = address_regs M MI - {RSP}"
    using assms by (cases BaseMO) (auto simp: hardenOpRegs_def Let_def address_regs_def baseRegister_def split: if_splits)
  show "distinct (hardenOpRegs BaseMO IndexReg)" "length (hardenOpRegs BaseMO IndexReg) \<le> 2"
    by (cases BaseMO; auto simp: hardenOpRegs_def Let_def)+
  show "address_regs M MI - {RSP} = set (uncheckedRegs H BaseMO IndexReg) \<union> (dom H \<inter> set (hardenOpRegs BaseMO IndexReg))"
    unfolding s [symmetric] by (auto simp: uncheckedRegs_def)
qed

end
