(* ===== verification/Enforcement.thy ===== *)
theory Enforcement
  imports Marker_Protocol Load_Hardening
begin

text \<open>
  From the report of the analysis to the hardened access: the markers that the value-range analysis puts around an address
  computation are the ones that the hardening of loads looks for.  Instruction selection, which is LLVM's, is the function
  \<open>lower\<close> from an instruction to its machine instructions; it keeps a call of inline assembly with its text.
\<close>

lemma dummies_are_markers: "DUMMY_BEFORE = MAGIC_ASM_BEGIN" "DUMMY_AFTER = MAGIC_ASM_END"
  by (simp_all add: DUMMY_BEFORE_def DUMMY_AFTER_def MAGIC_ASM_BEGIN_def MAGIC_ASM_END_def)

definition asm_text :: "ir \<Rightarrow> vid \<Rightarrow> string option" where
  "asm_text I v = (if kind I v = KCall then inlineAsm I (calledOperand I v) else None)"

definition no_marker :: "string option \<Rightarrow> bool" where
  "no_marker t \<longleftrightarrow> t \<noteq> Some MAGIC_ASM_BEGIN \<and> t \<noteq> Some MAGIC_ASM_END"

text \<open>Lists of instructions in which the markers enclose single instructions; \<open>T\<close> gives the text of an assembly call.\<close>

inductive bracketed_code :: "(vid \<Rightarrow> string option) \<Rightarrow> vid list \<Rightarrow> bool" for T where
  code_Nil: "bracketed_code T []"
| code_Cons: "no_marker (T x) \<Longrightarrow> bracketed_code T xs \<Longrightarrow> bracketed_code T (x # xs)"
| code_pair: "T b = Some MAGIC_ASM_BEGIN \<Longrightarrow> no_marker (T g) \<Longrightarrow> T a = Some MAGIC_ASM_END \<Longrightarrow> bracketed_code T xs \<Longrightarrow>
    bracketed_code T (b # g # a # xs)"

inductive_cases code_ConsE: "bracketed_code T (x # xs)"

lemma bracketed_code_cong:
  "bracketed_code T xs \<Longrightarrow> (\<And>x. x \<in> set xs \<Longrightarrow> T' x = T x) \<Longrightarrow> bracketed_code T' xs"
  by (induction rule: bracketed_code.induct) (auto intro: bracketed_code.intros)

lemma marker_texts_differ [simp]: "MAGIC_ASM_BEGIN \<noteq> MAGIC_ASM_END" "MAGIC_ASM_END \<noteq> MAGIC_ASM_BEGIN"
  using end_not_begin(5) by simp_all

lemma next_in_skip: "x \<noteq> g \<Longrightarrow> next_in (x # xs) g = next_in xs g"
  by (cases xs) auto

lemma bracketed_code_insert:
  assumes "bracketed_code T xs" and "distinct xs" and "\<And>x. x \<in> set xs \<Longrightarrow> T' x = T x"
    and "no_marker (T g)" and "T' b = Some MAGIC_ASM_BEGIN" and "T' a = Some MAGIC_ASM_END"
    and "\<And>n. next_in xs g = Some n \<Longrightarrow> T n \<noteq> Some MAGIC_ASM_END"
  shows "bracketed_code T' (insert_around b g a xs)"
  using assms(1,2,3,7)
proof induction
  case (code_Cons x xs)
  have rest: "bracketed_code T' xs" using code_Cons by (intro bracketed_code_cong [OF code_Cons.hyps(2)]) auto
  show ?case
  proof (cases "x = g")
    case True
    then show ?thesis using code_Cons.prems(2) [of x] code_Cons.hyps(1) bracketed_code.code_pair [OF assms(5) _ assms(6) rest, of x] by simp
  next
    case False
    have "bracketed_code T' (insert_around b g a xs)"
      by (rule code_Cons.IH) (use code_Cons.prems False in \<open>auto simp: next_in_skip\<close>)
    then show ?thesis using False code_Cons.hyps(1) code_Cons.prems(2) [of x] bracketed_code.code_Cons [of T' x] by simp
  qed
next
  case (code_pair c h e xs)
  have T': "T' c = Some MAGIC_ASM_BEGIN" "no_marker (T' h)" "T' e = Some MAGIC_ASM_END" using code_pair by simp_all
  have ce: "c \<noteq> g" "e \<noteq> g" using code_pair.hyps(1,3) assms(4) by (auto simp: no_marker_def)
  have "h \<noteq> g" using code_pair.prems(3) [of e] code_pair.hyps(3) ce by auto
  moreover have "bracketed_code T' (insert_around b g a xs)"
    by (rule code_pair.IH) (use code_pair.prems ce \<open>h \<noteq> g\<close> in \<open>auto simp: next_in_skip\<close>)
  ultimately show ?case using ce bracketed_code.code_pair [OF T'] by simp
qed (simp add: bracketed_code.intros)

text \<open>Bracketing keeps the code of every block of the module in this shape.\<close>

definition module_bracketed :: "ir \<Rightarrow> bool" where
  "module_bracketed I \<longleftrightarrow> (\<forall>f \<in> set (moduleFunctions I). \<forall>b \<in> set (blocks I f). bracketed_code (asm_text I) (insts I b))"

lemma bracketGEP_text:
  assumes "bracket_ok opts I g new" and "v \<in> set (module_instructions I)"
  shows "asm_text (bracketGEP opts g new I) v = asm_text I v"
  using bracketGEP_old(3-5) [OF assms] by (simp add: asm_text_def)

lemma bracketGEP_bracketed:
  assumes "bracket_ok opts I g new" and "\<not> UsePC opts" and "\<not> alreadyBracketed I g" and "module_bracketed I"
  shows "module_bracketed (bracketGEP opts g new I)"
proof -
  let ?J = "bracketGEP opts g new I"
  have "bracketed_code (asm_text ?J) (insts ?J b)" if f: "f \<in> set (moduleFunctions I)" "b \<in> set (blocks I f)" for f b
  proof -
    have code: "bracketed_code (asm_text I) (insts I b)" using assms(4) f by (simp add: module_bracketed_def)
    have mem: "v \<in> set (module_instructions I)" if "v \<in> set (insts I b)" for v using that f by (auto simp: in_module_instructions)
    have old: "asm_text ?J v = asm_text I v" if "v \<in> set (insts I b)" for v by (rule bracketGEP_text [OF assms(1) mem [OF that]])
    show ?thesis
    proof (cases "b = parentBB I g")
      case False
      then show ?thesis using bracketed_code_cong [OF code old] by (simp add: bracketGEP_fields)
    next
      case True
      have g: "kind I g = KGEP" "distinct (insts I b)" using assms(1) bracket_lists(1) True by (auto simp: bracket_ok_def)
      have new: "asm_text ?J (callBefore new) = Some MAGIC_ASM_BEGIN" "asm_text ?J (callAfter new) = Some MAGIC_ASM_END"
        using bracketGEP_calls [OF assms(1)] assms(2) by (simp_all add: asm_text_def)
      have "asm_text I n \<noteq> Some MAGIC_ASM_END" if "next_in (insts I b) g = Some n" for n
        using assms(3) that True by (auto simp: alreadyBracketed_def getNextNode_def asm_text_def split: if_splits)
      then have "bracketed_code (asm_text ?J) (insert_around (callBefore new) g (callAfter new) (insts I b))"
        using g new by (intro bracketed_code_insert [OF code g(2) old]) (auto simp: asm_text_def no_marker_def)
      then show ?thesis using True by (simp add: bracketGEP_fields)
    qed
  qed
  then show ?thesis by (simp add: module_bracketed_def bracketGEP_fields)
qed

lemma bracketGEPs_bracketed:
  "blocks_wf I \<Longrightarrow> slots_ok opts gs I \<Longrightarrow> \<not> UsePC opts \<Longrightarrow> module_bracketed I \<Longrightarrow>
   module_bracketed (bracketGEPs opts gs I) \<and> blocks_wf (bracketGEPs opts gs I)"
proof (induction opts gs I rule: bracketGEPs.induct)
  case (2 opts g new gs I)
  note br = slots_ok_head [OF 2(2,3)]
  show ?case
  proof (cases "alreadyBracketed I g")
    case True
    then show ?thesis using 2 slots_ok_tail [OF 2(3)] by auto
  next
    case False
    then show ?thesis using 2(1) [OF _ _ 2(4)] slots_ok_step [OF 2(2,3)] bracketGEP_wf [OF br] bracketGEP_bracketed [OF br 2(4) False 2(5)] by auto
  qed
qed simp

subsection \<open>Lowering\<close>

definition keeps_assembly :: "machine \<Rightarrow> (vid \<Rightarrow> string option) \<Rightarrow> (vid \<Rightarrow> mid list) \<Rightarrow> vid list \<Rightarrow> bool" where
  "keeps_assembly M T lower xs \<longleftrightarrow>
     (\<forall>x \<in> set xs. if no_marker (T x) then list_all (no_dummy M) (lower x) else \<exists>m. lower x = [m] \<and> asmSymbol M m = T x)"

lemma marked_append: "list_all (no_dummy M) xs \<Longrightarrow> marked M ys \<Longrightarrow> marked M (xs @ ys)"
  by (induction xs) (auto intro: marked.intros)

lemma lowered_marked: "bracketed_code T xs \<Longrightarrow> keeps_assembly M T lower xs \<Longrightarrow> marked M (concat (map lower xs))"
proof (induction rule: bracketed_code.induct)
  case (code_Cons x xs)
  then show ?case by (auto simp: keeps_assembly_def intro: marked_append)
next
  case (code_pair b g a xs)
  obtain mb ma where m: "lower b = [mb]" "asmSymbol M mb = Some DUMMY_BEFORE" "lower a = [ma]" "asmSymbol M ma = Some DUMMY_AFTER"
    using code_pair.prems code_pair.hyps(1,3) by (auto simp: keeps_assembly_def no_marker_def dummies_are_markers)
  have "list_all (no_dummy M) (lower g)" "marked M (concat (map lower xs))"
    using code_pair by (auto simp: keeps_assembly_def)
  then show ?case using marked_pair [OF m(2) _ m(4)] m(1,3) by simp
qed (simp add: marked.intros)


subsection \<open>The reported access\<close>

lemma code_head: "bracketed_code T (x # xs) \<Longrightarrow> T x \<noteq> Some MAGIC_ASM_END"
  by (erule code_ConsE) (auto simp: no_marker_def)

lemma code_end_split:
  assumes "bracketed_code T xs" and "xs = pre @ g # v # post" and "T v = Some MAGIC_ASM_END"
  shows "\<exists>pre' b. pre = pre' @ [b] \<and> T b = Some MAGIC_ASM_BEGIN"
  using assms(1,2)
proof (induction arbitrary: pre)
  case (code_Cons x xs)
  show ?case
  proof (cases pre)
    case Nil
    then have "bracketed_code T (v # post)" using code_Cons by simp
    then show ?thesis using code_head assms(3) by blast
  next
    case (Cons y pre1)
    then show ?thesis using code_Cons.IH [of pre1] code_Cons.prems by auto
  qed
next
  case (code_pair c h e xs)
  show ?case
  proof (cases pre)
    case Nil
    then show ?thesis using code_pair assms(3) by (simp add: no_marker_def)
  next
    case 1: (Cons y1 pre1)
    show ?thesis
    proof (cases pre1)
      case Nil
      then show ?thesis using 1 code_pair by simp
    next
      case 2: (Cons y2 pre2)
      show ?thesis
      proof (cases pre2)
        case Nil
        then have "bracketed_code T (v # post)" using 1 2 code_pair by simp
        then show ?thesis using code_head assms(3) by blast
      next
        case (Cons y3 pre3)
        then show ?thesis using code_pair.IH [of pre3] code_pair.prems 1 2 by auto
      qed
    qed
  qed
qed simp

lemma next_in_split: "next_in xs v = Some w \<Longrightarrow> \<exists>pre post. xs = pre @ v # w # post"
proof (induction xs)
  case (Cons x xs)
  show ?case
  proof (cases "x = v")
    case True
    then show ?thesis using Cons.prems by (cases xs) (auto intro: exI [of _ "[]"])
  next
    case False
    then show ?thesis using Cons next_in_skip [of x v xs] by (metis append_Cons)
  qed
qed simp

lemma next_in_at: "distinct (pre @ v # post) \<Longrightarrow> next_in (pre @ v # post) v = (case post of [] \<Rightarrow> None | w # _ \<Rightarrow> Some w)"
  by (induction pre) (auto simp: next_in_skip split: list.split)

lemma regularMarkers_append: "regularMarkers M ys \<subseteq> regularMarkers M (xs @ ys)"
  by (induction xs) auto

lemma prefixed_behind_pair:
  assumes "marked M MBB" and "distinct MBB" and "0 \<notin> set MBB" and "list_all (\<lambda>x. \<not> stops opts M x) MBB"
    and MBB: "MBB = pre @ mb # ma # mi # post" and "isBefore M mb" and "isAfter M ma" and "no_dummy M mi"
  shows "mi \<in> set (second_block opts M MBB) \<and> isPrefixedByDummies M (second_block opts M MBB) (first_pass opts M MBB) mi"
proof -
  let ?S = "standAloneMarkers M MBB"
  have sets: "regularMarkers M MBB \<union> ?S = {x \<in> set MBB. \<not> no_dummy M x}" "regularMarkers M MBB \<inter> ?S = {}"
    using marked_sets [OF assms(1,2)] by simp_all
  have "{mb, ma} \<subseteq> regularMarkers M (mb # ma # mi # post)" using assms(6,7) by simp
  then have r: "mb \<notin> ?S" "ma \<notin> ?S" using regularMarkers_append [of M "mb # ma # mi # post" pre] sets(2) unfolding MBB by blast+
  have "mi \<notin> ?S" using sets(1) assms(8) by blast
  then have B: "second_block opts M MBB = filter (\<lambda>x. x \<notin> ?S) pre @ mb # ma # mi # filter (\<lambda>x. x \<notin> ?S) post"
    using r by (simp add: second_block_def first_pass_markers [OF assms(4)]) (simp add: MBB)
  have "distinct (second_block opts M MBB)" using assms(2) by (simp add: second_block_def)
  then have "prevNode (second_block opts M MBB) mi = ma"
    unfolding B using prevNode_at [of "filter (\<lambda>x. x \<notin> ?S) pre @ [mb]" ma mi] by simp
  moreover have "ma \<noteq> 0" using assms(3) MBB by auto
  ultimately show ?thesis using assms(7) first_pass_markers(4) [OF assms(4)] by (simp add: isPrefixedByDummies_def) (simp add: B)
qed

lemma reported_between_markers:
  assumes "vr_finish I opts P fresh m oow S0 t0 = Some r" and "finite S0" and "blocks_wf I"
    and "slots_ok opts (map (\<lambda>g. (g, fresh g)) (sorted_list_of_set (heapUnsafeSeqPointerSet r))) I" and "\<not> UsePC opts"
    and "module_bracketed I" and "g \<in> heapUnsafeSeqPointerSet r" and "\<not> alreadyBracketed I g"
    and "getNextNode (vr_ir r) g = Some v" and "getNextNode (vr_ir r) v = Some l"
  shows "bracketed_code (asm_text (vr_ir r)) (insts (vr_ir r) (parentBB (vr_ir r) g)) \<and>
    (\<exists>pre b post. insts (vr_ir r) (parentBB (vr_ir r) g) = pre @ b # g # v # l # post \<and>
       asm_text (vr_ir r) b = Some MAGIC_ASM_BEGIN \<and> asm_text (vr_ir r) v = Some MAGIC_ASM_END)"
proof -
  let ?J = "vr_ir r" and ?bb = "parentBB (vr_ir r) g"
  have J: "module_bracketed ?J" "blocks_wf ?J"
    using bracketGEPs_bracketed [OF assms(3-6)] vr_finish_shape(1) [OF assms(1)] by simp_all
  have "g \<in> marks ?J" using marks_reported [OF assms(1-4)] assms(5,7,8) by (simp add: dgUnsafeGEPs_marks)
  then obtain v' where v': "v' \<in> set (module_instructions ?J)" "marked_gep ?J v' = Some g" by (auto simp: marks_def)
  then have T: "asm_text ?J v' = Some MAGIC_ASM_END" and prev: "prev_in (insts ?J (parentBB ?J v')) v' = Some g"
    by (auto simp: marked_gep_def asm_text_def getPrevNode_def split: if_splits option.splits)
  have "g \<in> set (insts ?J (parentBB ?J v'))" using prev_in_mem [OF prev] by blast
  from wf_parent [OF J(2) v'(1) this] have bb: "parentBB ?J v' = ?bb" by metis
  have d: "distinct (insts ?J ?bb)" using wf_block [OF J(2) v'(1)] unfolding bb by blast
  have n: "next_in (insts ?J ?bb) g = Some v'" using next_of_prev [OF d] prev unfolding bb by blast
  from n have vv: "v' = v" using assms(9) by (simp add: getNextNode_def)
  obtain pre post where s: "insts ?J ?bb = pre @ g # v # post" using next_in_split [OF n] vv by blast
  have "parentBB ?J v = ?bb" using bb vv by simp
  then have "next_in (insts ?J ?bb) v = Some l" using assms(10) by (simp add: getNextNode_def)
  then obtain post' where post: "post = l # post'"
    using next_in_at [of "pre @ [g]" v post] d unfolding s by (cases post) simp_all
  obtain f where "f \<in> set (moduleFunctions ?J)" "?bb \<in> set (blocks ?J f)"
    using v'(1) J(2) bb by (fastforce simp: in_module_instructions blocks_wf_def list_all_iff)
  then have code: "bracketed_code (asm_text ?J) (insts ?J ?bb)" using J(1) by (simp add: module_bracketed_def)
  obtain pre' b where "pre = pre' @ [b]" "asm_text ?J b = Some MAGIC_ASM_BEGIN" using code_end_split [OF code s] T vv by auto
  then show ?thesis using code s post T vv by auto
qed

text \<open>
  C9: An access behind a reported address computation is hardened.  The analysis, not in \<open>UsePC\<close> mode, puts markers around a
  computation it reports and that has no end marker behind it yet.  Let instruction selection fold the computation into the
  access that follows the second marker and keep the assembly text of the markers; let no LFENCE or fenced x87 instruction
  end the first pass over the block, and let that access be a load whose address uses a register, whose value cannot be hardened instead
  and whose address registers do not depend on an earlier memory access of the block (\<open>independent_load\<close>), with the hardening of
  stores off.  Then the hardening pass, with or without its filter, hardens the address of the access and leaves the
  code of the block without any marker.
\<close>

theorem reported_access_hardened:
  assumes "vr_finish I opts P fresh m oow S0 t0 = Some r" and "finite S0" and "blocks_wf I"
    and "slots_ok opts (map (\<lambda>g. (g, fresh g)) (sorted_list_of_set (heapUnsafeSeqPointerSet r))) I" and "\<not> UsePC opts"
    and "module_bracketed I" and "g \<in> heapUnsafeSeqPointerSet r" and "\<not> alreadyBracketed I g"
    and "getNextNode (vr_ir r) g = Some v" and "getNextNode (vr_ir r) v = Some l"
    and "keeps_assembly M (asm_text (vr_ir r)) lower (insts (vr_ir r) (parentBB (vr_ir r) g))"
    and "lower g = []" and "lower l = mi # ms" and "no_dummy M mi"
    and "MBB = concat (map lower (insts (vr_ir r) (parentBB (vr_ir r) g)))" and "distinct MBB" and "0 \<notin> set MBB"
    and "HardenLoads slh" and "list_all (\<lambda>x. \<not> stops slh M x) MBB"
    and "\<not> HardenStoreAddress slh" and "independent_load slh M MBB mi"
  shows "\<exists>as. hardenBlock slh M sunk MBB = Some (filter (no_dummy M) MBB, as) \<and> LoadAddr mi \<in> set as"
proof -
  obtain pre b post where code: "bracketed_code (asm_text (vr_ir r)) (insts (vr_ir r) (parentBB (vr_ir r) g))"
    and s: "insts (vr_ir r) (parentBB (vr_ir r) g) = pre @ b # g # v # l # post"
      "asm_text (vr_ir r) b = Some MAGIC_ASM_BEGIN" "asm_text (vr_ir r) v = Some MAGIC_ASM_END"
    using reported_between_markers [OF assms(1-10)] by blast
  have m: "marked M MBB" unfolding assms(15) by (rule lowered_marked [OF code assms(11)])
  obtain mb ma where "lower b = [mb]" "isBefore M mb" "lower v = [ma]" "isAfter M ma"
    using assms(11) s by (auto simp: keeps_assembly_def no_marker_def dummies_are_markers)
  then have "mi \<in> set (second_block slh M MBB) \<and> isPrefixedByDummies M (second_block slh M MBB) (first_pass slh M MBB) mi"
    using assms(12,13) s(1) unfolding assms(15)
    by (intro prefixed_behind_pair [OF m assms(16,17,19) _ _ _ assms(14), unfolded assms(15)]) auto
  moreover have "mi \<in> set MBB" using assms(13) s(1) unfolding assms(15) by simp
  from independent_load_selected [OF assms(19) this assms(21,20)]
  have "mi \<in> HardenLoadAddr (first_pass slh M MBB) - HardenStoreAddr (first_pass slh M MBB)" .
  ultimately show ?thesis using marked_block [OF assms(18) m assms(16,19), of sunk] by (auto simp: address_hardened_def)
qed


text \<open>An example: an address computation 5, a load 6 through it and a return 7; the load is the machine instruction 60.\<close>

definition access_example :: ir where
  "access_example = empty_ir\<lparr>kind := (\<lambda>v. if v = 5 then KGEP else if v = 6 then KLoad else KReturn),
     parentBB := (\<lambda>v. if v = 5 \<or> v = 6 \<or> v = 7 then 3 else 0), insts := (\<lambda>b. if b = 3 then [5, 6, 7] else []),
     blocks := (\<lambda>f. if f = 2 then [3] else []), moduleFunctions := [2]\<rparr>"

definition access_lower :: "vid \<Rightarrow> mid list" where
  "access_lower v = (if v = 5 then [] else if v = 6 then [60] else if v = 7 then [70] else [v])"

definition access_machine :: machine where
  "access_machine = (slh_example NoRegister)\<lparr>
     asmSymbol := (\<lambda>x. if x = 50 then Some DUMMY_BEFORE else if x = 52 then Some DUMMY_AFTER else None),
     mayLoad := (\<lambda>x. x = 60), useRegs := (\<lambda>_. []), defRegs := (\<lambda>_. []),
     memOperands := (\<lambda>x. if x = 60 then Some (BaseRegister (Virtual 4), NoRegister) else None)\<rparr>"

definition access_result :: vr_result where
  "access_result = \<lparr>heapUnsafeSeqPointerSet = {5}, safeSeqPointerSet = {}, unsafeBB = parentBB access_example ` {5},
     unsafeObjectSet = unsafeObjects access_example pta_example [5], vr_tags = no_tags,
     vr_ir = bracketGEPs marker_options (map (\<lambda>g. (g, marker_ids g)) [5]) access_example\<rparr>"

lemma access_finish:
  "vr_finish access_example marker_options pta_example marker_ids [] {} {5} no_tags = Some access_result"
  by (simp add: vr_finish_def Let_def filterOutOfWindow_def marker_options_def access_result_def)

lemma access_fields:
  "module_instructions access_example = [5, 6, 7]" "kind access_example 5 = KGEP" "kind access_example 6 = KLoad" "kind access_example 7 = KReturn"
  "calledOperand access_example v = 0" "getNextNode access_example 5 = Some 6" "parentBB access_example 5 = 3" "parentBB access_example 6 = 3"
  "insts access_example 3 = [5, 6, 7]"
  by (simp_all add: access_example_def empty_ir_def getNextNode_def module_instructions_def instructions_def)

lemma access_ir:
  "vr_ir access_result = bracketGEP marker_options 5 (marker_ids 5) access_example"
  "\<not> alreadyBracketed access_example 5"
  by (simp_all add: access_result_def alreadyBracketed_def access_fields)

lemma access_code:
  "parentBB (vr_ir access_result) 5 = 3" "insts (vr_ir access_result) 3 = [50, 5, 52, 6, 7]"
  "getNextNode (vr_ir access_result) 5 = Some 52" "getNextNode (vr_ir access_result) 52 = Some 6"
  "asm_text (vr_ir access_result) 50 = Some MAGIC_ASM_BEGIN" "asm_text (vr_ir access_result) 52 = Some MAGIC_ASM_END"
  "asm_text (vr_ir access_result) 5 = None" "asm_text (vr_ir access_result) 6 = None" "asm_text (vr_ir access_result) 7 = None"
  by (simp_all add: access_ir access_fields bracketGEP_fields marker_ids_def getNextNode_def asm_text_def inlineAsm_def marker_options_def)

theorem reported_access_hardened_witness:
  "\<exists>as. hardenBlock (default_options\<lparr>EnableFilter := True\<rparr>) access_machine (\<lambda>_ _. None) [50, 52, 60, 70] = Some ([60, 70], as) \<and>
     LoadAddr 60 \<in> set as"
proof -
  let ?o = "default_options\<lparr>EnableFilter := True\<rparr>" and ?B = "[50, 52, 60, 70] :: mid list"
  have wf: "blocks_wf access_example" by (simp add: blocks_wf_def access_example_def)
  have slots: "slots_ok marker_options (map (\<lambda>g. (g, marker_ids g)) (sorted_list_of_set (heapUnsafeSeqPointerSet access_result))) access_example"
    by (simp add: access_result_def slots_ok_def call_slots_def asm_slot_def new_calls_def access_fields marker_ids_def)
  have "bracketed_code (asm_text access_example) [5, 6, 7]"
    by (intro bracketed_code.intros) (simp_all add: asm_text_def no_marker_def access_fields)
  then have br: "module_bracketed access_example" by (simp add: module_bracketed_def access_example_def)
  have sel: "\<not> HardenStoreAddress ?o" "independent_load ?o access_machine ?B 60"
    by (simp_all add: independent_load_def address_regs_def baseRegister_def postLoadPossible_def access_machine_def slh_example_def default_options_def)
  have keep: "keeps_assembly access_machine (asm_text (vr_ir access_result)) access_lower (insts (vr_ir access_result) (parentBB (vr_ir access_result) 5))"
    by (simp add: keeps_assembly_def access_code no_marker_def access_lower_def no_dummy_def access_machine_def slh_example_def dummies_are_markers)
  have code: "?B = concat (map access_lower (insts (vr_ir access_result) (parentBB (vr_ir access_result) 5)))"
    by (simp add: access_code access_lower_def)
  have ns: "list_all (\<lambda>x. \<not> stops ?o access_machine x) ?B"
    by (simp add: stops_def mayVariant_def default_options_def access_machine_def slh_example_def)
  have um: "no_dummy access_machine 60" "filter (no_dummy access_machine) ?B = [60, 70]"
    by (simp_all add: no_dummy_def access_machine_def slh_example_def)
  show ?thesis
    using reported_access_hardened [OF access_finish _ wf slots _ br _ access_ir(2) access_code(3,4) keep _ _ um(1) code _ _ _ ns sel, of "[]" "\<lambda>_ _. None", unfolded um(2)]
    by (simp add: access_result_def marker_options_def access_lower_def default_options_def)
qed

end
