(* ===== verification/Debug_Info.thy ===== *)
theory Debug_Info
  imports Search "HOL-Library.Word"
begin

text \<open>
  Queries on debug types (\<^verbatim>\<open>DebugInfoUtils.cpp\<close>).  The metadata of a module is the record \<open>di\<close>; a type is its
  address (\<open>dtid\<close>, \<open>0\<close> is the null pointer), as types may be recursive.  A result \<open>None\<close> is a null
  dereference or a loop that does not end.
\<close>

type_synonym dtid = nat

datatype dwarf_tag =
    DW_TAG_null | DW_TAG_pointer_type | DW_TAG_structure_type | DW_TAG_union_type | DW_TAG_member | DW_TAG_typedef | DW_TAG_const_type
  | DW_TAG_volatile_type | DW_TAG_array_type | DW_TAG_enumeration_type | DW_TAG_subroutine_type | DW_TAG_base_type
  | OtherTag nat

datatype di_class = DIDerivedType | DICompositeType | DISubroutineType | DISubprogram | OtherDIType

record di =
  getTag :: "dtid \<Rightarrow> dwarf_tag"
  di_isa :: "dtid \<Rightarrow> di_class"
  getBaseType :: "dtid \<Rightarrow> dtid"
  getElements :: "dtid \<Rightarrow> dtid list"
  diName :: "dtid \<Rightarrow> string"
  getSizeInBits :: "dtid \<Rightarrow> nat"
  getOffsetInBits :: "dtid \<Rightarrow> nat"

subsection \<open>Types that are derived from others\<close>

definition getBaseDIType :: "di \<Rightarrow> dtid \<Rightarrow> dtid" where
  "getBaseDIType D dt = (case di_isa D dt of DIDerivedType \<Rightarrow> getBaseType D dt | DICompositeType \<Rightarrow> getBaseType D dt | _ \<Rightarrow> 0)"

partial_function (option) getLowestDIType :: "di \<Rightarrow> dtid \<Rightarrow> dtid option" where
  "getLowestDIType D current_dt =
     (if current_dt = 0 then Some 0
      else if di_isa D current_dt = DIDerivedType then getLowestDIType D (getBaseType D current_dt)
      else if di_isa D current_dt = DICompositeType
      then (if getBaseType D current_dt = 0 then Some current_dt else getLowestDIType D (getBaseType D current_dt))
      else Some current_dt)"

definition attribute_tag :: "dwarf_tag \<Rightarrow> bool" where
  "attribute_tag t \<longleftrightarrow> t = DW_TAG_typedef \<or> t = DW_TAG_const_type \<or> t = DW_TAG_volatile_type"

partial_function (option) stripAttributes :: "di \<Rightarrow> dtid \<Rightarrow> dtid option" where
  "stripAttributes D current_dt =
     (if current_dt = 0 then None
      else if attribute_tag (getTag D current_dt)
      then (if di_isa D current_dt = DIDerivedType
            then (if getBaseType D current_dt = 0 then Some current_dt else stripAttributes D (getBaseType D current_dt))
            else stripAttributes D current_dt)
      else Some current_dt)"

definition stripMemberTag :: "di \<Rightarrow> dtid \<Rightarrow> dtid option" where
  "stripMemberTag D dt = (if dt = 0 then None else if getTag D dt = DW_TAG_member then Some (getBaseDIType D dt) else Some dt)"

subsection \<open>Tests of types\<close>

definition plain_type :: "di \<Rightarrow> dtid \<Rightarrow> dtid option" where
  "plain_type D dt = Option.bind (stripMemberTag D dt) (stripAttributes D)"

definition isPointerType :: "di \<Rightarrow> dtid \<Rightarrow> bool option" where
  "isPointerType D dt = map_option (\<lambda>d. getTag D d = DW_TAG_pointer_type) (plain_type D dt)"

definition isStructType :: "di \<Rightarrow> dtid \<Rightarrow> bool option" where
  "isStructType D dt = (if dt = 0 then None else Some (getTag D dt = DW_TAG_structure_type))"

definition isUnionType :: "di \<Rightarrow> dtid \<Rightarrow> bool option" where
  "isUnionType D dt = map_option (\<lambda>d. getTag D d = DW_TAG_union_type) (plain_type D dt)"

definition lowest_is :: "(dtid \<Rightarrow> bool option) \<Rightarrow> di \<Rightarrow> dtid \<Rightarrow> bool option" where
  "lowest_is p D dt = Option.bind (getLowestDIType D dt) (\<lambda>lowest_di_type. if lowest_di_type = 0 then Some False else p lowest_di_type)"

definition isUnionPointerType :: "di \<Rightarrow> dtid \<Rightarrow> bool option" where
  "isUnionPointerType D dt =
     Option.bind (plain_type D dt) (\<lambda>d. Option.bind (isPointerType D d) (\<lambda>pointer.
       if pointer then lowest_is (isUnionType D) D d else Some False))"

definition isStructPointerType :: "di \<Rightarrow> dtid \<Rightarrow> bool option" where
  "isStructPointerType D dt =
     Option.bind (isPointerType D dt) (\<lambda>pointer. if pointer then lowest_is (isStructType D) D dt else Some False)"

definition isFuncPointerType :: "di \<Rightarrow> dtid \<Rightarrow> bool option" where
  "isFuncPointerType D dt =
     Option.bind (stripAttributes D dt) (\<lambda>d0. Option.bind (stripMemberTag D d0) (\<lambda>d. Option.bind (isPointerType D d) (\<lambda>pointer.
       if \<not> pointer then Some False
       else lowest_is (\<lambda>l. Some (getTag D l = DW_TAG_subroutine_type \<or> di_isa D l = DISubroutineType \<or> di_isa D l = DISubprogram)) D d)))"

definition isProjectableType :: "di \<Rightarrow> dtid \<Rightarrow> bool option" where
  "isProjectableType D dt = Option.bind (isStructType D dt) (\<lambda>b. if b then Some True else isUnionType D dt)"

definition isVoidPointerType :: "di \<Rightarrow> dtid \<Rightarrow> bool option" where
  "isVoidPointerType D dt =
     Option.bind (stripMemberTag D dt) (\<lambda>d1. if d1 = 0 then None
       else Some (getTag D d1 = DW_TAG_pointer_type \<and> getBaseDIType D d1 = 0))"

definition isArrayType :: "di \<Rightarrow> dtid \<Rightarrow> bool option" where
  "isArrayType D dt = map_option (\<lambda>d. getTag D d = DW_TAG_array_type) (plain_type D dt)"

subsection \<open>Names\<close>

fun to_string :: "nat \<Rightarrow> string" where
  "to_string n = (if n < 10 then [char_of (48 + n)] else to_string (n div 10) @ [char_of (48 + n mod 10)])"

declare to_string.simps [simp del]

definition array_name :: "nat \<Rightarrow> nat \<Rightarrow> string \<Rightarrow> string" where
  "array_name total_size element_size element_type_name =
     (if total_size \<noteq> 0 \<and> element_size \<noteq> 0
      then ''array< '' @ element_type_name @ '', '' @ to_string (total_size div element_size) @ ''>''
      else if total_size = 0 then ''array<'' @ element_type_name @ '', 0>''
      else ''array'')"

partial_function (option) getSourceLevelTypeName :: "di \<Rightarrow> bool \<Rightarrow> dtid \<Rightarrow> string option" where
  "getSourceLevelTypeName D is_raw dt =
     (if dt = 0 then None
      else let base_type = getBaseDIType D dt; name = diName D dt; type_tag = getTag D dt
           in if type_tag = DW_TAG_null then Some []
              else if type_tag = DW_TAG_pointer_type
              then (if base_type = 0 then Some ''void*''
                    else Option.bind (getSourceLevelTypeName D is_raw base_type) (\<lambda>s. Some (s @ ''*'')))
              else if type_tag = DW_TAG_member
              then (if base_type = 0 then Some ''void''
                    else Option.bind (getSourceLevelTypeName D is_raw base_type) (\<lambda>base_type_name.
                      Some (if base_type_name = ''struct'' \<or> base_type_name = ''union'' \<and> \<not> is_raw then base_type_name @ name else base_type_name)))
              else if type_tag = DW_TAG_structure_type
              then Some (if name = [] then (if is_raw then [] else ''struct'') else if is_raw then name else ''struct '' @ name)
              else if type_tag = DW_TAG_array_type
              then (if di_isa D dt \<noteq> DICompositeType then None
                    else if length (getElements D dt) = 1
                    then Option.bind (getLowestDIType D dt) (\<lambda>element_dt.
                      if element_dt = 0 then Some ''array''
                      else Option.bind (getSourceLevelTypeName D is_raw element_dt) (\<lambda>element_type_name.
                        Some (array_name (getSizeInBits D dt) (getSizeInBits D element_dt) element_type_name)))
                    else Some ''array'')
              else if type_tag = DW_TAG_const_type
              then (if base_type = 0 then Some ''const nullptr''
                    else Option.bind (getSourceLevelTypeName D is_raw base_type) (\<lambda>s. Some (if is_raw then s else ''const '' @ s)))
              else if type_tag = DW_TAG_typedef
              then (if base_type = 0 then Some []
                    else if diName D base_type = [] then Some name
                    else getSourceLevelTypeName D is_raw base_type)
              else if type_tag = DW_TAG_enumeration_type
              then (if base_type = 0 then Some ''s32'' else getSourceLevelTypeName D is_raw base_type)
              else if type_tag = DW_TAG_union_type
              then Some (if name = [] then (if is_raw then [] else ''union'') else if is_raw then name else ''union '' @ name)
              else Some (if name = ''_Bool'' then ''bool'' else name))"

definition hasSameDIName :: "di \<Rightarrow> dtid \<Rightarrow> dtid \<Rightarrow> bool option" where
  "hasSameDIName D d1 d2 =
     Option.bind (getSourceLevelTypeName D False d1) (\<lambda>d1_name. map_option (\<lambda>d2_name. d1_name = d2_name) (getSourceLevelTypeName D False d2))"

subsection \<open>Structures contained in a type\<close>

definition lowest_fields :: "di \<Rightarrow> dtid \<Rightarrow> dtid list option" where
  "lowest_fields D dt =
     (if di_isa D dt \<noteq> DICompositeType then None else those (map (getLowestDIType D) (getElements D dt)))"

definition struct_field :: "di \<Rightarrow> dtid \<Rightarrow> bool" where
  "struct_field D l \<longleftrightarrow> l \<noteq> 0 \<and> getTag D l = DW_TAG_structure_type"

fun contained_level :: "di \<Rightarrow> dtid list \<Rightarrow> dtid set \<times> dtid list \<Rightarrow> (dtid set \<times> dtid list) option" where
  "contained_level D [] acc = Some acc"
| "contained_level D (current_di_type # level) (found, type_queue) =
     (if getTag D current_di_type \<noteq> DW_TAG_structure_type \<or> current_di_type \<in> found
      then contained_level D level (found, type_queue)
      else Option.bind (getSourceLevelTypeName D False current_di_type) (\<lambda>name.
        if name = ''struct'' then contained_level D level (found, type_queue)
        else Option.bind (lowest_fields D current_di_type) (\<lambda>elems.
          contained_level D level (insert current_di_type found, type_queue @ filter (struct_field D) elems))))"

fun contained_levels :: "nat \<Rightarrow> di \<Rightarrow> dtid set \<times> dtid list \<Rightarrow> dtid set option" where
  "contained_levels 0 D (found, type_queue) = Some found"
| "contained_levels (Suc n) D (found, type_queue) =
     Option.bind (contained_level D type_queue (found, [])) (contained_levels n D)"

definition max_tree_height :: nat where
  "max_tree_height = 5"

definition computeContainedStructTypes :: "di \<Rightarrow> dtid \<Rightarrow> dtid set option" where
  "computeContainedStructTypes D dt =
     (if getTag D dt \<noteq> DW_TAG_structure_type then Some {} else contained_levels max_tree_height D ({}, [dt]))"

fun count_fields :: "di \<Rightarrow> bool \<Rightarrow> dtid list \<Rightarrow> 32 word \<Rightarrow> 32 word option" where
  "count_fields D only_count_pointer [] field_num = Some field_num"
| "count_fields D only_count_pointer (field_di_type # elems) field_num =
     (if only_count_pointer
      then Option.bind (isPointerType D field_di_type) (\<lambda>pointer.
        count_fields D only_count_pointer elems (if pointer then field_num + 1 else field_num))
      else count_fields D only_count_pointer elems (field_num + 1))"

partial_function (option) deepCopy_loop :: "di \<Rightarrow> bool \<Rightarrow> dtid list \<Rightarrow> dtid set \<Rightarrow> 32 word \<Rightarrow> 32 word option" where
  "deepCopy_loop D only_count_pointer type_queue seen_types field_num =
     (case type_queue of
        [] \<Rightarrow> Some field_num
      | cur_dt # rest \<Rightarrow>
          Option.bind (getLowestDIType D cur_dt) (\<lambda>lowest_dt.
            if lowest_dt = 0 \<or> getTag D lowest_dt \<noteq> DW_TAG_structure_type \<or> lowest_dt \<in> seen_types
            then deepCopy_loop D only_count_pointer rest seen_types field_num
            else Option.bind (lowest_fields D lowest_dt) (\<lambda>elems.
              Option.bind (count_fields D only_count_pointer (getElements D lowest_dt) field_num)
                (deepCopy_loop D only_count_pointer (rest @ filter (struct_field D) elems) (insert lowest_dt seen_types)))))"

definition computeDeepCopyFields :: "di \<Rightarrow> bool \<Rightarrow> dtid \<Rightarrow> 32 word option" where
  "computeDeepCopyFields D only_count_pointer dt = deepCopy_loop D only_count_pointer [dt] {} 0"


subsection \<open>Well-formed metadata\<close>

text \<open>
  Derived types form no cycle (recursion in C passes through a structure, whose base type is null), typedefs and
  qualifiers are derived types, members have a type, and arrays have an element type.
\<close>

definition base_chain :: "di \<Rightarrow> (dtid \<times> dtid) set" where
  "base_chain D = {(getBaseDIType D dt, dt) | dt. getBaseDIType D dt \<noteq> 0}"

definition di_ok :: "di \<Rightarrow> bool" where
  "di_ok D \<longleftrightarrow> wf (base_chain D) \<and>
     (\<forall>dt. (attribute_tag (getTag D dt) \<longrightarrow> di_isa D dt = DIDerivedType) \<and>
           (getTag D dt = DW_TAG_member \<longrightarrow> getBaseDIType D dt \<noteq> 0) \<and>
           (getTag D dt = DW_TAG_array_type \<longrightarrow> di_isa D dt = DICompositeType \<and> getBaseType D dt \<noteq> 0) \<and>
           (getTag D dt = DW_TAG_structure_type \<longrightarrow> di_isa D dt = DICompositeType \<and> getBaseType D dt = 0))"

lemma base_chain_step: "getBaseDIType D dt \<noteq> 0 \<Longrightarrow> (getBaseDIType D dt, dt) \<in> base_chain D"
  by (auto simp: base_chain_def)

lemma getLowestDIType_0 [simp]: "getLowestDIType D 0 = Some 0"
  by (subst getLowestDIType.simps) simp

lemma getLowestDIType_step:
  "dt \<noteq> 0 \<Longrightarrow> getLowestDIType D dt =
     (if di_isa D dt = DIDerivedType \<or> getBaseDIType D dt \<noteq> 0 then getLowestDIType D (getBaseDIType D dt) else Some dt)"
  by (subst getLowestDIType.simps) (auto simp: getBaseDIType_def split: di_class.splits)

lemma getLowestDIType_exact:
  assumes "wf (base_chain D)"
  shows "\<exists>l. getLowestDIType D dt = Some l \<and> (l = 0 \<or> di_isa D l \<noteq> DIDerivedType \<and> getBaseDIType D l = 0 \<and> (l, dt) \<in> (base_chain D)\<^sup>*)"
  using assms
proof (induction dt rule: wf_induct_rule)
  case (less dt)
  show ?case
  proof (cases "dt \<noteq> 0 \<and> getBaseDIType D dt \<noteq> 0")
    case True
    then have "(getBaseDIType D dt, dt) \<in> base_chain D" using base_chain_step by simp
    moreover have "getLowestDIType D dt = getLowestDIType D (getBaseDIType D dt)" using True getLowestDIType_step by simp
    ultimately show ?thesis using less by (metis rtrancl.rtrancl_into_rtrancl)
  next
    case False
    then show ?thesis by (cases "dt = 0") (simp_all add: getLowestDIType_step)
  qed
qed

lemma getLowestDIType_lowest:
  "l \<noteq> 0 \<Longrightarrow> di_isa D l \<noteq> DIDerivedType \<Longrightarrow> getBaseDIType D l = 0 \<Longrightarrow> getLowestDIType D l = Some l"
  by (simp add: getLowestDIType_step)

lemma stripAttributes_exact:
  assumes "di_ok D" and "dt \<noteq> 0"
  shows "\<exists>d. stripAttributes D dt = Some d \<and> d \<noteq> 0 \<and> (d, dt) \<in> (base_chain D)\<^sup>* \<and>
    (attribute_tag (getTag D d) \<longrightarrow> getBaseDIType D d = 0)"
proof -
  have "wf (base_chain D)" using assms(1) by (simp add: di_ok_def)
  then show ?thesis using assms(2)
  proof (induction dt rule: wf_induct_rule)
    case (less dt)
    show ?case
    proof (cases "attribute_tag (getTag D dt) \<and> getBaseDIType D dt \<noteq> 0")
      case True
      have d: "di_isa D dt = DIDerivedType" using True assms(1) by (simp add: di_ok_def)
      have "stripAttributes D dt = stripAttributes D (getBaseDIType D dt)"
        using True less.prems d by (subst stripAttributes.simps) (simp add: getBaseDIType_def)
      moreover have "(getBaseDIType D dt, dt) \<in> base_chain D" using base_chain_step True by simp
      ultimately show ?thesis using less True by (metis rtrancl.rtrancl_into_rtrancl)
    next
      case False
      then have "stripAttributes D dt = Some dt"
        using less.prems assms(1) by (subst stripAttributes.simps) (auto simp: getBaseDIType_def di_ok_def)
      then show ?thesis using less.prems False by simp
    qed
  qed
qed

lemma plain_type_total: "di_ok D \<Longrightarrow> dt \<noteq> 0 \<Longrightarrow> \<exists>d. plain_type D dt = Some d \<and> d \<noteq> 0"
proof -
  assume D: "di_ok D" and dt: "dt \<noteq> 0"
  then have "getTag D dt = DW_TAG_member \<Longrightarrow> getBaseDIType D dt \<noteq> 0" by (simp add: di_ok_def)
  then obtain d where "stripMemberTag D dt = Some d" "d \<noteq> 0" using dt by (cases "getTag D dt = DW_TAG_member") (simp_all add: stripMemberTag_def)
  then show ?thesis using stripAttributes_exact [OF D, of d] by (auto simp: plain_type_def)
qed

lemma isPointerType_total: "di_ok D \<Longrightarrow> dt \<noteq> 0 \<Longrightarrow> \<exists>b. isPointerType D dt = Some b"
  using plain_type_total [of D dt] by (auto simp: isPointerType_def)

lemma isStructPointerType_total:
  assumes "di_ok D" and "dt \<noteq> 0"
  shows "\<exists>b. isStructPointerType D dt = Some b"
proof -
  obtain b where "isPointerType D dt = Some b" using isPointerType_total [OF assms] by auto
  moreover obtain l where "getLowestDIType D dt = Some l" using getLowestDIType_exact [of D dt] assms(1) by (auto simp: di_ok_def)
  ultimately show ?thesis by (cases b; cases "l = 0") (auto simp: isStructPointerType_def lowest_is_def isStructType_def)
qed

lemma lowest_of_array:
  assumes "di_ok D" and "dt \<noteq> 0" and "getTag D dt = DW_TAG_array_type" and "getLowestDIType D dt = Some l" and "l \<noteq> 0"
  shows "(l, dt) \<in> (base_chain D)\<^sup>+"
proof -
  have dt: "getBaseDIType D dt \<noteq> 0" using assms(1,3) by (simp add: di_ok_def getBaseDIType_def)
  have "(l, dt) \<in> (base_chain D)\<^sup>*" "getBaseDIType D l = 0"
    using getLowestDIType_exact [of D dt] assms(1,4,5) by (auto simp: di_ok_def)
  then show ?thesis using dt by (metis rtranclD)
qed

text \<open>
  The name of a type can be computed for all well-formed metadata: the recursion over pointers, members, typedefs,
  qualifiers and element types returns a string for every type, raw or not.
\<close>

theorem type_name_total:
  assumes "di_ok D" and "dt \<noteq> 0"
  shows "\<exists>s. getSourceLevelTypeName D is_raw dt = Some s"
proof -
  have "wf ((base_chain D)\<^sup>+)" using assms(1) by (simp add: di_ok_def wf_trancl)
  then show ?thesis using assms(2)
  proof (induction dt rule: wf_induct_rule)
    case (less dt)
    have base: "\<exists>s. getSourceLevelTypeName D is_raw (getBaseDIType D dt) = Some s" if "getBaseDIType D dt \<noteq> 0"
      using less.IH [of "getBaseDIType D dt"] base_chain_step [OF that] that by blast
    obtain l where l: "getLowestDIType D dt = Some l" using getLowestDIType_exact [of D dt] assms(1) by (auto simp: di_ok_def)
    have elem: "\<exists>s. getSourceLevelTypeName D is_raw l = Some s" if "getTag D dt = DW_TAG_array_type" "l \<noteq> 0"
      using less.IH [of l] lowest_of_array [OF assms(1) less.prems that(1) l that(2)] that by blast
    have isa: "di_isa D dt = DICompositeType" if "getTag D dt = DW_TAG_array_type" using assms(1) that by (simp add: di_ok_def)
    show ?case
      using base elem isa less.prems l by (subst getSourceLevelTypeName.simps) (auto simp: Let_def)
  qed
qed

text \<open>The metadata of \<^verbatim>\<open>struct node { const int *v; struct node *next; }\<close>.\<close>

definition di_example :: di where
  "di_example = \<lparr>
     getTag = (\<lambda>d. if d = 1 then DW_TAG_base_type else if d = 2 then DW_TAG_const_type else if d = 4 then DW_TAG_structure_type
       else if d = 3 \<or> d = 5 then DW_TAG_pointer_type else if d = 6 \<or> d = 7 then DW_TAG_member else DW_TAG_null),
     di_isa = (\<lambda>d. if d = 4 then DICompositeType else if d \<in> {2, 3, 5, 6, 7} then DIDerivedType else OtherDIType),
     getBaseType = (\<lambda>d. if d = 2 then 1 else if d = 3 then 2 else if d = 5 then 4 else if d = 6 then 3 else if d = 7 then 5 else 0),
     getElements = (\<lambda>d. if d = 4 then [6, 7] else []),
     diName = (\<lambda>d. if d = 1 then ''int'' else if d = 4 then ''node'' else if d = 6 then ''v'' else if d = 7 then ''next'' else []),
     getSizeInBits = (\<lambda>d. if d = 1 then 32 else 64), getOffsetInBits = (\<lambda>d. if d = 7 then 64 else 0)\<rparr>"

lemma base_chain_decreasing: "(\<And>dt. getBaseDIType D dt < dt \<or> getBaseDIType D dt = 0) \<Longrightarrow> wf (base_chain D)"
  by (rule wf_subset [OF wf_less_than]) (use not_less0 in \<open>fastforce simp: base_chain_def\<close>)

lemma di_example_ok: "di_ok di_example"
proof -
  have "wf (base_chain di_example)" by (rule base_chain_decreasing) (simp add: di_example_def getBaseDIType_def)
  then show ?thesis by (simp add: di_ok_def di_example_def attribute_tag_def getBaseDIType_def)
qed

theorem type_name_total_witness:
  "getSourceLevelTypeName di_example False 6 = Some ''const int*'' \<and> (\<exists>s. getSourceLevelTypeName di_example True 6 = Some s)"
proof
  show "getSourceLevelTypeName di_example False 6 = Some ''const int*''"
    by (simp add: getSourceLevelTypeName.simps di_example_def getBaseDIType_def Let_def)
  show "\<exists>s. getSourceLevelTypeName di_example True 6 = Some s" using type_name_total [OF di_example_ok] by simp
qed

end
