(* ===== verification/PDG_Utils.thy ===== *)
theory PDG_Utils
  imports Debug_Info Call_Graph
begin

text \<open>
  Queries on instructions that the construction of the dependence graph uses (\<^verbatim>\<open>PDGUtils.cpp\<close>).  Offsets are kept at the
  widths of the source: the index of a GEP is an \<^verbatim>\<open>int\<close>, an offset in bits a \<^verbatim>\<open>uint64_t\<close>, and the value that
  stands for \<open>no offset\<close> is \<^verbatim>\<open>INT_MIN\<close>, which becomes a large number when it is returned as \<^verbatim>\<open>uint64_t\<close>.
\<close>

subsection \<open>Offsets of address computations\<close>

definition getStructTypeFromGEP :: "ir \<Rightarrow> vid \<Rightarrow> nat option" where
  "getStructTypeFromGEP I gep =
     (let t = typeOf I (gepPointer I gep) in if isPointerTy t then isStructTy (getElementType t) else None)"

definition INT_MIN :: "32 word" where
  "INT_MIN = 0x80000000"

definition getGEPAccessFieldOffset :: "ir \<Rightarrow> vid \<Rightarrow> 32 word" where
  "getGEPAccessFieldOffset I gep =
     (case constantInt I (getOperand I gep (length (operands I gep) - 1)) of
        None \<Rightarrow> INT_MIN
      | Some c \<Rightarrow> if sval c < 0 then INT_MIN else word_of_int (sval c))"

definition getGEPOffsetInBits :: "ir \<Rightarrow> nat \<Rightarrow> vid \<Rightarrow> 64 word" where
  "getGEPOffsetInBits I struct_type gep =
     (let gep_offset = getGEPAccessFieldOffset I gep
      in if gep_offset = INT_MIN then scast INT_MIN
         else if length (structElements I struct_type) \<le> unat gep_offset then scast INT_MIN
         else word_of_nat (8 * structOffset I struct_type (unat gep_offset)))"

definition is_BinaryOperator :: "ir \<Rightarrow> vid \<Rightarrow> bool" where
  "is_BinaryOperator I v \<longleftrightarrow> (case kind I v of KBinary _ \<Rightarrow> True | _ \<Rightarrow> False)"

definition getLShrOnGep :: "ir \<Rightarrow> vid \<Rightarrow> vid option" where
  "getLShrOnGep I gep = find (is_BinaryOperator I) (concat (map (users I) (filter (\<lambda>u. kind I u = KLoad) (users I gep))))"

text \<open>The number of LLVM's opcode \<^verbatim>\<open>LShr\<close>.\<close>

abbreviation LShr :: binop where
  "LShr \<equiv> OtherOp 26"

definition shift_on_gep :: "ir \<Rightarrow> vid \<Rightarrow> 64 word" where
  "shift_on_gep I gep =
     (case getLShrOnGep I gep of
        None \<Rightarrow> 0
      | Some lshr \<Rightarrow> if kind I lshr = KBinary LShr
                    then (case constantInt I (getOperand I lshr 1) of None \<Rightarrow> 0 | Some ci \<Rightarrow> word_of_int (uval ci))
                    else 0)"

definition isGEPOffsetMatchDIOffset :: "ir \<Rightarrow> di \<Rightarrow> dtid \<Rightarrow> vid \<Rightarrow> bool" where
  "isGEPOffsetMatchDIOffset I D dt gep =
     (case getStructTypeFromGEP I gep of
        None \<Rightarrow> False
      | Some struct_ty \<Rightarrow>
          let gep_bit_offset = getGEPOffsetInBits I struct_ty gep
          in if gep_bit_offset < 0 then False
             else gep_bit_offset + shift_on_gep I gep = word_of_nat (getOffsetInBits D dt))"

definition isNodeBitOffsetMatchGEPBitOffset :: "ir \<Rightarrow> di \<Rightarrow> Node \<Rightarrow> vid \<Rightarrow> bool" where
  "isNodeBitOffsetMatchGEPBitOffset I D n gep =
     (case getStructTypeFromGEP I gep of
        None \<Rightarrow> False
      | Some struct_ty \<Rightarrow>
          let gep_bit_offset = getGEPOffsetInBits I struct_ty gep; di_type = node_di_type n
          in if di_type = 0 \<or> gep_bit_offset = scast INT_MIN then False
             else gep_bit_offset = word_of_nat (getOffsetInBits D di_type))"

subsection \<open>Accesses\<close>

definition hasReadAccess :: "ir \<Rightarrow> vid \<Rightarrow> bool" where
  "hasReadAccess I v = list_ex (\<lambda>user. kind I user = KLoad \<or> kind I user = KGEP \<and> gepPointer I user = v) (users I v)"

definition asmWriteOpcode :: "string list" where
  "asmWriteOpcode = [''bts'']"

definition dataWriteLibFuncs :: "string list" where
  "dataWriteLibFuncs = [''__memcpy'']"

definition isWriteAccessAsmOpcode :: "string \<Rightarrow> bool" where
  "isWriteAccessAsmOpcode op_code \<longleftrightarrow> op_code \<in> set asmWriteOpcode"

definition hasAsmWriteAccess :: "string \<Rightarrow> bool" where
  "hasAsmWriteAccess asm_str = isWriteAccessAsmOpcode (takeWhile (\<lambda>c. c \<noteq> CHR '' '') asm_str)"

fun writes_through :: "ir \<Rightarrow> vid \<Rightarrow> vid list \<Rightarrow> bool" where
  "writes_through I v [] = False"
| "writes_through I v (user # us) =
     (if kind I user = KStore \<and> kind I (storeValue I user) \<noteq> KArgument \<and> storePointer I user = v then True
      else if kind I user = KCall
      then (case inlineAsm I (calledOperand I user) of
              Some ia \<Rightarrow> hasAsmWriteAccess ia
            | None \<Rightarrow>
                (case getCalledFunc I user of
                   None \<Rightarrow> writes_through I v us
                 | Some called_func \<Rightarrow>
                     if valueName I called_func \<in> set dataWriteLibFuncs then True else writes_through I v us))
      else writes_through I v us)"

definition hasWriteAccess :: "ir \<Rightarrow> vid \<Rightarrow> bool" where
  "hasWriteAccess I v = writes_through I v (users I v)"

subsection \<open>Instructions around an instruction\<close>

definition getInstructionBeforeInst :: "ir \<Rightarrow> vid \<Rightarrow> vid set" where
  "getInstructionBeforeInst I i = set (takeWhile (\<lambda>j. j \<noteq> i) (instructions I (getFunction I i)))"

definition getInstructionAfterInst :: "ir \<Rightarrow> vid \<Rightarrow> vid set" where
  "getInstructionAfterInst I i = set (tl (dropWhile (\<lambda>j. j \<noteq> i) (instructions I (getFunction I i))))"

definition computeAddrTakenVarsFromAlloc :: "ir \<Rightarrow> vid \<Rightarrow> vid set" where
  "computeAddrTakenVarsFromAlloc I ai = set (filter (\<lambda>user. kind I user = KLoad) (users I ai))"

subsection \<open>Aliases of a returned value\<close>

definition load_aliases :: "ir \<Rightarrow> vid \<Rightarrow> vid \<Rightarrow> bool" where
  "load_aliases I load_addr v2 =
     list_ex (\<lambda>user. kind I user = KLoad \<and> user = v2 \<or>
       kind I user = KStore \<and> storePointer I user = load_addr \<and> storeValue I user = v2) (users I load_addr)"

text \<open>The result \<open>True\<close> is \<^verbatim>\<open>MustAlias\<close>, the result \<open>False\<close> is \<^verbatim>\<open>NoAlias\<close>.\<close>

definition utils_queryAliasUnderApproximate :: "ir \<Rightarrow> vid \<Rightarrow> vid \<Rightarrow> bool" where
  "utils_queryAliasUnderApproximate I v1 v2 =
     (if \<not> isPointerTy (typeOf I v1) \<or> \<not> isPointerTy (typeOf I v2) then False
      else if kind I v1 = KCast BitCast \<and> getOperand I v1 0 = v2 then True
      else if kind I v1 = KLoad \<and> load_aliases I (loadPointer I v1) v2 then True
      else if kind I v1 = KGEP \<and> gepPointer I v1 = v2 then True
      else False)"

definition ret_aliases :: "ir \<Rightarrow> vid \<Rightarrow> vid \<Rightarrow> vid list" where
  "ret_aliases I F cur_val = filter (\<lambda>i. cur_val \<noteq> i \<and> utils_queryAliasUnderApproximate I cur_val i) (instructions I F)"

partial_function (option) retVal_loop :: "ir \<Rightarrow> vid \<Rightarrow> vid list \<Rightarrow> vid set \<Rightarrow> vid set option" where
  "retVal_loop I F val_queue ret =
     (case val_queue of
        [] \<Rightarrow> Some ret
      | cur_val # rest \<Rightarrow>
          (let acc = fold enqueue (ret_aliases I F cur_val) (ret, rest) in retVal_loop I F (snd acc) (fst acc)))"

definition computeAliasForRetVal :: "ir \<Rightarrow> vid \<Rightarrow> vid \<Rightarrow> vid set option" where
  "computeAliasForRetVal I v F = retVal_loop I F [v] {}"

subsection \<open>Strings\<close>

definition isspace :: "char \<Rightarrow> bool" where
  "isspace c \<longleftrightarrow> of_char c \<in> ({9, 10, 11, 12, 13, 32} :: nat set)"

definition ltrim :: "string \<Rightarrow> string" where
  "ltrim s = dropWhile isspace s"

definition rtrim :: "string \<Rightarrow> string" where
  "rtrim s = rev (dropWhile isspace (rev s))"

definition trimStr :: "string \<Rightarrow> string" where
  "trimStr s = ltrim (rtrim s)"

subsection \<open>The aliases of a returned value as a search\<close>

interpretation retVal_search: push_search
  "\<lambda>q V a. map_option (\<lambda>S. (S, a)) (retVal_loop I F q V)" "ret_aliases I F" "\<lambda>x (a :: unit). a" for I F
proof unfold_locales
  show "map_option (\<lambda>S. (S, a)) (retVal_loop I F [] V) = Some (V, a)" for V a
    by (subst retVal_loop.simps) simp
  show "map_option (\<lambda>S. (S, a)) (retVal_loop I F (x # q) V) =
      map_option (\<lambda>S. (S, a)) (retVal_loop I F (snd (fold enqueue (ret_aliases I F x) (V, q))) (fst (fold enqueue (ret_aliases I F x) (V, q))))"
    for x q V a
    by (subst retVal_loop.simps) (simp add: Let_def)
qed

definition alias_step :: "ir \<Rightarrow> vid \<Rightarrow> (vid \<times> vid) set" where
  "alias_step I F = {(v, w). w \<in> set (instructions I F) \<and> v \<noteq> w \<and> utils_queryAliasUnderApproximate I v w}"

lemma alias_step_unmarked: "unmarked (ret_aliases I F) {} = alias_step I F"
  by (auto simp: unmarked_def alias_step_def ret_aliases_def)

text \<open>
  C27: The values that may hold a returned pointer are computed completely: the loop ends for every function, and its
  result are the instructions that a chain of bit casts, loads of the same variable, stored values and bases of address
  computations links to the returned value.
\<close>

theorem computeAliasForRetVal_exact: "computeAliasForRetVal I v F = Some ((alias_step I F)\<^sup>+ `` {v})"
proof -
  have "\<exists>xs. map_option (\<lambda>S. (S, ())) (retVal_loop I F [v] {}) = Some ({} \<union> (unmarked (ret_aliases I F) {})\<^sup>+ `` set [v], fold (\<lambda>x a. a) xs ()) \<and>
      set xs = set [v] \<union> (unmarked (ret_aliases I F) {})\<^sup>+ `` set [v]"
    by (rule retVal_search.run_marks [where U = "insert v (set (instructions I F))"]) (auto simp: ret_aliases_def)
  then show ?thesis by (auto simp: computeAliasForRetVal_def alias_step_unmarked)
qed

subsection \<open>Offsets\<close>

text \<open>The numbers the code computes with stay in range: offsets in bits, shifts and the index fit their types.\<close>

definition gep_index :: "ir \<Rightarrow> vid \<Rightarrow> nat option" where
  "gep_index I gep =
     (case constantInt I (getOperand I gep (length (operands I gep) - 1)) of
        None \<Rightarrow> None
      | Some c \<Rightarrow> if sval c < 0 then None else Some (nat (sval c)))"

definition gep_shift :: "ir \<Rightarrow> vid \<Rightarrow> nat" where
  "gep_shift I gep =
     (case getLShrOnGep I gep of
        None \<Rightarrow> 0
      | Some lshr \<Rightarrow> if kind I lshr = KBinary LShr
                    then (case constantInt I (getOperand I lshr 1) of None \<Rightarrow> 0 | Some ci \<Rightarrow> nat (uval ci))
                    else 0)"

definition offsets_fit :: "ir \<Rightarrow> di \<Rightarrow> dtid \<Rightarrow> vid \<Rightarrow> bool" where
  "offsets_fit I D dt gep \<longleftrightarrow> getOffsetInBits D dt < 2 ^ 63 \<and> gep_shift I gep < 2 ^ 31 \<and>
     (\<forall>c. constantInt I (getOperand I gep (length (operands I gep) - 1)) = Some c \<longrightarrow> sval c < 2 ^ 31) \<and>
     (\<forall>lshr c. getLShrOnGep I gep = Some lshr \<longrightarrow> constantInt I (getOperand I lshr 1) = Some c \<longrightarrow> 0 \<le> uval c) \<and>
     (\<forall>s i. getStructTypeFromGEP I gep = Some s \<longrightarrow> i < length (structElements I s) \<longrightarrow> 8 * structOffset I s i < 2 ^ 62)"

definition gep_field :: "ir \<Rightarrow> vid \<Rightarrow> (nat \<times> nat) option" where
  "gep_field I gep =
     Option.bind (getStructTypeFromGEP I gep) (\<lambda>s. Option.bind (gep_index I gep) (\<lambda>i.
       if i < length (structElements I s) then Some (s, i) else None))"

lemma shift_on_gep_nat: "offsets_fit I D dt gep \<Longrightarrow> shift_on_gep I gep = word_of_nat (gep_shift I gep)"
  by (auto simp: shift_on_gep_def gep_shift_def offsets_fit_def word_of_nat_eq_iff split: option.splits)

lemma scast_INT_MIN: "(scast INT_MIN :: 64 word) = word_of_nat (2 ^ 64 - 2 ^ 31)"
  by (simp add: INT_MIN_def)

lemma access_offset_index:
  assumes "gep_index I gep = Some i" and "offsets_fit I D dt gep"
  shows "getGEPAccessFieldOffset I gep \<noteq> INT_MIN" and "unat (getGEPAccessFieldOffset I gep) = i"
proof -
  obtain c where c: "constantInt I (getOperand I gep (length (operands I gep) - 1)) = Some c" "0 \<le> sval c" "i = nat (sval c)"
    using assms(1) by (auto simp: gep_index_def split: option.splits if_splits)
  have less: "sval c < 2 ^ 31" using assms(2) c(1) unfolding offsets_fit_def by blast
  have "getGEPAccessFieldOffset I gep = word_of_nat i" using c by (simp add: getGEPAccessFieldOffset_def word_of_nat_eq_iff)
  moreover have i: "i < 2 ^ 31" using c(2,3) less by simp
  then have u: "unat (word_of_nat i :: 32 word) = i" by (simp add: unat_of_nat)
  moreover have "(word_of_nat i :: 32 word) \<noteq> INT_MIN"
  proof
    assume "(word_of_nat i :: 32 word) = INT_MIN"
    then have "unat (word_of_nat i :: 32 word) = unat INT_MIN" by simp
    then show False using u i by (simp add: INT_MIN_def)
  qed
  ultimately show "getGEPAccessFieldOffset I gep \<noteq> INT_MIN" "unat (getGEPAccessFieldOffset I gep) = i" by simp_all
qed

lemma access_offset_none: "gep_index I gep = None \<Longrightarrow> getGEPAccessFieldOffset I gep = INT_MIN"
  by (auto simp: gep_index_def getGEPAccessFieldOffset_def split: option.splits if_splits)

lemma offset_in_bits:
  assumes "getStructTypeFromGEP I gep = Some s" and "offsets_fit I D dt gep"
  shows "getGEPOffsetInBits I s gep =
    word_of_nat (case gep_field I gep of Some (s, i) \<Rightarrow> 8 * structOffset I s i | None \<Rightarrow> 2 ^ 64 - 2 ^ 31)"
proof (cases "gep_index I gep")
  case None
  then show ?thesis using assms(1) access_offset_none [OF None]
    by (simp add: getGEPOffsetInBits_def gep_field_def Let_def scast_INT_MIN)
next
  case (Some i)
  then show ?thesis using assms(1) access_offset_index [OF Some assms(2)]
    by (simp add: getGEPOffsetInBits_def gep_field_def Let_def scast_INT_MIN)
qed

lemma word64_of_nat_eq: "a < 2 ^ 64 \<Longrightarrow> b < 2 ^ 64 \<Longrightarrow> (word_of_nat a :: 64 word) = word_of_nat b \<longleftrightarrow> a = b"
  by (simp add: word_of_nat_eq_iff take_bit_nat_eq_self)

lemma gep_match_iff:
  assumes "offsets_fit I D dt gep"
  shows "isGEPOffsetMatchDIOffset I D dt gep \<longleftrightarrow>
    (\<exists>s i. gep_field I gep = Some (s, i) \<and> 8 * structOffset I s i + gep_shift I gep = getOffsetInBits D dt)"
proof (cases "getStructTypeFromGEP I gep")
  case None
  then show ?thesis by (simp add: isGEPOffsetMatchDIOffset_def gep_field_def)
next
  case (Some s)
  let ?off = "case gep_field I gep of Some (s, i) \<Rightarrow> 8 * structOffset I s i | None \<Rightarrow> 2 ^ 64 - 2 ^ 31"
  have b: "getOffsetInBits D dt < 2 ^ 63" "gep_shift I gep < 2 ^ 31" using assms unfolding offsets_fit_def by blast+
  have field: "8 * structOffset I s' i < 2 ^ 62" if "gep_field I gep = Some (s', i)" for s' i
    using assms that Some unfolding offsets_fit_def gep_field_def by (simp split: option.splits if_splits bind_splits)
  have "isGEPOffsetMatchDIOffset I D dt gep \<longleftrightarrow> (word_of_nat (?off + gep_shift I gep) :: 64 word) = word_of_nat (getOffsetInBits D dt)"
    using Some offset_in_bits [OF Some assms] shift_on_gep_nat [OF assms]
    by (simp add: isGEPOffsetMatchDIOffset_def Let_def)
  also have "\<dots> \<longleftrightarrow> ?off + gep_shift I gep = getOffsetInBits D dt"
  proof (rule word64_of_nat_eq)
    show "?off + gep_shift I gep < 2 ^ 64" using b(2) field by (cases "gep_field I gep") (auto split: prod.splits)
    show "getOffsetInBits D dt < 2 ^ 64" using b(1) by simp
  qed
  also have "\<dots> \<longleftrightarrow> (\<exists>s i. gep_field I gep = Some (s, i) \<and> 8 * structOffset I s i + gep_shift I gep = getOffsetInBits D dt)"
    using b by (cases "gep_field I gep") (auto split: prod.splits)
  finally show ?thesis .
qed

text \<open>
  C28: An address computation is matched with a field of the debug type if, and only if, it selects by a constant index an
  element of a structure whose offset, with the shift of a bit field, is the offset of the field.  The marker for an
  unknown offset, which is negative as \<^verbatim>\<open>int\<close> and large as \<^verbatim>\<open>uint64_t\<close>, passes the test for negative offsets, but equals no
  offset of a field.
\<close>

theorem gep_match_exact:
  assumes "offsets_fit I D dt gep"
  shows "isGEPOffsetMatchDIOffset I D dt gep \<longleftrightarrow>
    (\<exists>s i. gep_field I gep = Some (s, i) \<and> 8 * structOffset I s i + gep_shift I gep = getOffsetInBits D dt)"
  using assms by (rule gep_match_iff)

definition gep_match_example :: ir where
  "gep_match_example = empty_ir\<lparr>kind := (\<lambda>v. if v = 10 then KGEP else if v = 12 then KConstantInt (AP 32 0) else if v = 13 then KConstantInt (AP 32 1) else KArgument),
     typeOf := (\<lambda>v. PointerTy (StructTy 5)), operands := (\<lambda>v. if v = 10 then [11, 12, 13] else []),
     structElements := (\<lambda>_. [IntegerTy 64, IntegerTy 64]), structOffset := (\<lambda>_ i. if i = 1 then 8 else 0)\<rparr>"

theorem gep_match_exact_witness:
  "isGEPOffsetMatchDIOffset gep_match_example di_example 7 10 \<and> \<not> isGEPOffsetMatchDIOffset gep_match_example di_example 6 10"
proof -
  note defs = gep_match_example_def empty_ir_def constantInt_def getOperand_def gep_shift_def getLShrOnGep_def gep_field_def gep_index_def
    getStructTypeFromGEP_def gepPointer_def sval_def di_example_def
  have fit: "offsets_fit gep_match_example di_example d 10" for d
    by (simp add: offsets_fit_def defs)
  show ?thesis using gep_match_exact [OF fit, of 7] gep_match_exact [OF fit, of 6] by (simp add: defs)
qed

subsection \<open>Splitting a string\<close>

definition find_str :: "string \<Rightarrow> string \<Rightarrow> nat option" where
  "find_str delimiter s = find (\<lambda>i. take (length delimiter) (drop i s) = delimiter) [0..<Suc (length s)]"

partial_function (option) splitStr_loop :: "string \<Rightarrow> string \<Rightarrow> string set \<Rightarrow> string set option" where
  "splitStr_loop delimiter split_str ret_strs =
     (case find_str delimiter split_str of
        None \<Rightarrow> Some ret_strs
      | Some pos \<Rightarrow> splitStr_loop delimiter (drop (pos + length delimiter) split_str) (insert (trimStr (take pos split_str)) ret_strs))"

definition splitStr :: "string \<Rightarrow> string \<Rightarrow> string set option" where
  "splitStr split_str delimiter = splitStr_loop delimiter split_str {}"

lemma find_str_char_none: "c \<notin> set s \<Longrightarrow> find_str [c] s = None"
proof -
  assume c: "c \<notin> set s"
  have "take 1 (drop i s) \<noteq> [c]" for i
    using c set_take_subset [of 1 "drop i s"] set_drop_subset [of i s] by auto
  then show ?thesis by (simp add: find_str_def find_None_iff)
qed

lemma find_str_char: "c \<notin> set t \<Longrightarrow> find_str [c] (t @ c # s) = Some (length t)"
proof -
  assume c: "c \<notin> set t"
  have "take 1 (drop i (t @ c # s)) \<noteq> [c]" if "i < length t" for i
  proof -
    have "take 1 (drop i (t @ c # s)) = [t ! i]" using that by (simp add: take_Suc_conv_app_nth nth_append Cons_nth_drop_Suc [symmetric])
    then show ?thesis using c that by auto
  qed
  then show ?thesis unfolding find_str_def by (subst find_Some_iff) (rule exI [of _ "length t"], auto simp: nth_append)
qed

text \<open>
  Only text that a delimiter follows becomes a token: what comes after the last delimiter is dropped.
\<close>

lemma splitStr_tokens:
  assumes "\<And>t. t \<in> set ts \<Longrightarrow> c \<notin> set t" and "c \<notin> set rest"
  shows "splitStr (concat (map (\<lambda>t. t @ [c]) ts) @ rest) [c] = Some (trimStr ` set ts)"
proof -
  have "splitStr_loop [c] (concat (map (\<lambda>t. t @ [c]) ts) @ rest) S = Some (S \<union> trimStr ` set ts)" for S
    using assms(1)
  proof (induction ts arbitrary: S)
    case Nil
    then show ?case using find_str_char_none [OF assms(2)] by (subst splitStr_loop.simps) simp
  next
    case (Cons t ts)
    then show ?case by (subst splitStr_loop.simps) (simp add: find_str_char)
  qed
  then show ?thesis by (simp add: splitStr_def)
qed

end
