(* ===== verification/Param_Tree.thy ===== *)
theory Param_Tree
  imports PDG_Utils "HOL-Library.Multiset"
begin

text \<open>
  The trees of the dependence graph that stand for the fields of parameters, returned values and globals
  (\<^verbatim>\<open>Tree.cpp\<close>, \<^verbatim>\<open>Tree.hh\<close>).  Objects are allocated in a store: \<open>pm_next\<close> is the address of the next node,
  \<open>pm_next_tree\<close> that of the next tree.  A tree node is a node with further members, which are kept
  under the same address.  The members for allocation strings and atomic regions, which only the kernel
  isolation analyses use, are left out.  Binding a reference to \<open>*p\<close> is no access: where the source hands a null pointer on
  in this way, the model hands on \<open>0\<close>; \<open>None\<close> is an access through a null pointer or a failed assertion.
\<close>

type_synonym tid = nat

datatype AccessTag = TAG_DATA_READ | TAG_DATA_WRITE

record TreeNode =
  tn_tree :: tid
  parent_node :: nid
  depth :: nat
  di_local_var :: nat
  tn_children :: "nid list"
  addr_vars :: "vid list"
  acc_tag_set :: "AccessTag set"

record Tree =
  base_val :: vid
  root_node :: nid
  tree_size :: int

record pdg_mem =
  pm_nodes :: node_heap
  pm_tnodes :: "nid \<Rightarrow> TreeNode"
  pm_trees :: "tid \<Rightarrow> Tree"
  pm_next :: nid
  pm_next_tree :: tid

subsection \<open>Constructors\<close>

definition mk_TreeNode :: "tid \<Rightarrow> nid \<Rightarrow> nat \<Rightarrow> TreeNode" where
  "mk_TreeNode tree parent d =
     \<lparr>tn_tree = tree, parent_node = parent, depth = d, di_local_var = 0, tn_children = [], addr_vars = [], acc_tag_set = {}\<rparr>"

definition alloc_node :: "Node \<Rightarrow> TreeNode \<Rightarrow> pdg_mem \<Rightarrow> nid \<times> pdg_mem" where
  "alloc_node n t st =
     (let a = pm_next st
      in (a, st\<lparr>pm_nodes := (pm_nodes st)(a := n), pm_tnodes := (pm_tnodes st)(a := t), pm_next := Suc a\<rparr>))"

definition new_TreeNode_val :: "ir \<Rightarrow> vid \<Rightarrow> GraphNodeType \<Rightarrow> pdg_mem \<Rightarrow> nid \<times> pdg_mem" where
  "new_TreeNode_val I v t = alloc_node (new_Node_val I v t) (mk_TreeNode 0 0 0)"

definition new_TreeNode :: "vid \<Rightarrow> dtid \<Rightarrow> nat \<Rightarrow> nid \<Rightarrow> tid \<Rightarrow> GraphNodeType \<Rightarrow> pdg_mem \<Rightarrow> nid \<times> pdg_mem" where
  "new_TreeNode f di_type d parent tree t =
     alloc_node ((new_Node t)\<lparr>node_func := f, node_di_type := di_type\<rparr>) (mk_TreeNode tree parent d)"

definition copy_TreeNode :: "nid \<Rightarrow> pdg_mem \<Rightarrow> nid \<times> pdg_mem" where
  "copy_TreeNode src st =
     (let n = pm_nodes st src
      in alloc_node ((new_Node (node_type n))\<lparr>node_func := node_func n, node_di_type := node_di_type n\<rparr>) (mk_TreeNode 0 0 0) st)"

definition alloc_tree :: "Tree \<Rightarrow> pdg_mem \<Rightarrow> tid \<times> pdg_mem" where
  "alloc_tree t st = (let a = pm_next_tree st in (a, st\<lparr>pm_trees := (pm_trees st)(a := t), pm_next_tree := Suc a\<rparr>))"

text \<open>\<open>uninit a\<close> is what the members of a tree at address \<open>a\<close> hold before they are set.\<close>

definition new_Tree :: "(tid \<Rightarrow> Tree) \<Rightarrow> pdg_mem \<Rightarrow> tid \<times> pdg_mem" where
  "new_Tree uninit st = alloc_tree (uninit (pm_next_tree st)) st"

definition new_Tree_val :: "(tid \<Rightarrow> Tree) \<Rightarrow> vid \<Rightarrow> pdg_mem \<Rightarrow> tid \<times> pdg_mem" where
  "new_Tree_val uninit v st = alloc_tree ((uninit (pm_next_tree st))\<lparr>base_val := v\<rparr>) st"

definition copy_Tree :: "(tid \<Rightarrow> Tree) \<Rightarrow> tid \<Rightarrow> pdg_mem \<Rightarrow> tid \<times> pdg_mem" where
  "copy_Tree uninit src st =
     (let (n, st1) = copy_TreeNode (root_node (pm_trees st src)) st
      in alloc_tree ((uninit (pm_next_tree st1))\<lparr>root_node := n, tree_size := 0\<rparr>) st1)"

subsection \<open>Setters\<close>

definition setRootNode :: "tid \<Rightarrow> nid \<Rightarrow> pdg_mem \<Rightarrow> pdg_mem" where
  "setRootNode t n st = st\<lparr>pm_trees := (pm_trees st)(t := (pm_trees st t)\<lparr>root_node := n\<rparr>)\<rparr>"

definition setBaseVal :: "tid \<Rightarrow> vid \<Rightarrow> pdg_mem \<Rightarrow> pdg_mem" where
  "setBaseVal t v st = st\<lparr>pm_trees := (pm_trees st)(t := (pm_trees st t)\<lparr>base_val := v\<rparr>)\<rparr>"

definition increaseTreeSize :: "tid \<Rightarrow> pdg_mem \<Rightarrow> pdg_mem" where
  "increaseTreeSize t st = st\<lparr>pm_trees := (pm_trees st)(t := (pm_trees st t)\<lparr>tree_size := tree_size (pm_trees st t) + 1\<rparr>)\<rparr>"

definition setTreeNodeType :: "tid \<Rightarrow> GraphNodeType \<Rightarrow> pdg_mem \<Rightarrow> pdg_mem" where
  "setTreeNodeType t ty st =
     (let n = root_node (pm_trees st t) in st\<lparr>pm_nodes := (pm_nodes st)(n := (pm_nodes st n)\<lparr>node_type := ty\<rparr>)\<rparr>)"

definition addAddrVars :: "nid \<Rightarrow> vid list \<Rightarrow> pdg_mem \<Rightarrow> pdg_mem" where
  "addAddrVars n vs st =
     st\<lparr>pm_tnodes := (pm_tnodes st)(n := (pm_tnodes st n)\<lparr>addr_vars := fold List.insert vs (addr_vars (pm_tnodes st n))\<rparr>)\<rparr>"

definition setDILocalVariable :: "nid \<Rightarrow> nat \<Rightarrow> pdg_mem \<Rightarrow> pdg_mem" where
  "setDILocalVariable n v st = st\<lparr>pm_tnodes := (pm_tnodes st)(n := (pm_tnodes st n)\<lparr>di_local_var := v\<rparr>)\<rparr>"

definition push_child :: "nid \<Rightarrow> nid \<Rightarrow> pdg_mem \<Rightarrow> pdg_mem" where
  "push_child n c st =
     st\<lparr>pm_tnodes := (pm_tnodes st)(n := (pm_tnodes st n)\<lparr>tn_children := tn_children (pm_tnodes st n) @ [c]\<rparr>)\<rparr>"

definition link :: "nid \<Rightarrow> nid \<Rightarrow> EdgeType \<Rightarrow> pdg_mem \<Rightarrow> pdg_mem" where
  "link a b t st = st\<lparr>pm_nodes := addNeighbor a b t (pm_nodes st)\<rparr>"

subsection \<open>Expansion of a node\<close>

definition derived_from :: "ir \<Rightarrow> di \<Rightarrow> dtid \<Rightarrow> bool \<Rightarrow> vid \<Rightarrow> vid list" where
  "derived_from I D di_type is_struct_field base_var =
     (if base_var = 0 then []
      else filter (\<lambda>user. kind I user = KLoad \<and> \<not> is_struct_field \<or> kind I user = KGEP \<and> isGEPOffsetMatchDIOffset I D di_type user)
             (users I base_var))"

definition computeDerivedAddrVarsFromParent :: "ir \<Rightarrow> di \<Rightarrow> nid \<Rightarrow> pdg_mem \<Rightarrow> pdg_mem option" where
  "computeDerivedAddrVarsFromParent I D n st =
     (let parent = parent_node (pm_tnodes st n); di_type = node_di_type (pm_nodes st n);
          grand_parent = parent_node (pm_tnodes st parent); parent_di = node_di_type (pm_nodes st parent)
      in if parent = 0 \<or> di_type = 0 then Some st
         else Option.bind (isStructType D parent_di) (\<lambda>is_struct_field.
           Option.bind (if grand_parent \<noteq> 0 \<and> is_struct_field then isStructPointerType D (node_di_type (pm_nodes st grand_parent)) else Some False)
             (\<lambda>through_pointer.
               let base_vars = addr_vars (pm_tnodes st (if through_pointer then grand_parent else parent))
               in Some (addAddrVars n (concat (map (derived_from I D di_type is_struct_field) base_vars)) st))))"

definition new_child :: "ir \<Rightarrow> di \<Rightarrow> nid \<Rightarrow> dtid \<Rightarrow> pdg_mem \<Rightarrow> pdg_mem option" where
  "new_child I D this di_type st =
     (let (c, st1) = new_TreeNode (node_func (pm_nodes st this)) di_type (Suc (depth (pm_tnodes st this))) this
            (tn_tree (pm_tnodes st this)) (node_type (pm_nodes st this)) st
      in Option.bind (computeDerivedAddrVarsFromParent I D c st1) (\<lambda>st2.
           Some (link this c PARAMETER_FIELD (push_child this c st2))))"

definition expandNode :: "ir \<Rightarrow> di \<Rightarrow> nid \<Rightarrow> pdg_mem \<Rightarrow> (nat \<times> pdg_mem) option" where
  "expandNode I D this st =
     (if node_di_type (pm_nodes st this) = 0 then Some (0, st)
      else Option.bind (plain_type D (node_di_type (pm_nodes st this))) (\<lambda>dt.
        Option.bind (isPointerType D dt) (\<lambda>pointer. Option.bind (isStructType D dt) (\<lambda>struct.
          if \<not> pointer \<and> \<not> struct then Some (0, st)
          else if pointer
          then Option.bind (getLowestDIType D dt) (\<lambda>pointed_obj_dt.
            Option.bind (new_child I D this pointed_obj_dt st) (\<lambda>st1. Some (1, st1)))
          else if di_isa D dt \<noteq> DICompositeType then None
          else Option.bind (fold_option (new_child I D this) (getElements D dt) st) (\<lambda>st1. Some (length (getElements D dt), st1))))))"

subsection \<open>Building a tree\<close>

fun expand_level :: "ir \<Rightarrow> di \<Rightarrow> tid \<Rightarrow> nid list \<Rightarrow> nid list \<Rightarrow> pdg_mem \<Rightarrow> (nid list \<times> pdg_mem) option" where
  "expand_level I D t [] next_level st = Some (next_level, st)"
| "expand_level I D t (current_node # level) next_level st =
     Option.bind (expandNode I D current_node (increaseTreeSize t st)) (\<lambda>(k, st1).
       expand_level I D t level (if 0 < k then next_level @ tn_children (pm_tnodes st1 current_node) else next_level) st1)"

fun expand_levels :: "nat \<Rightarrow> ir \<Rightarrow> di \<Rightarrow> tid \<Rightarrow> nid list \<Rightarrow> pdg_mem \<Rightarrow> pdg_mem option" where
  "expand_levels 0 I D t node_queue st = Some st"
| "expand_levels (Suc k) I D t node_queue st =
     (if node_queue = [] then Some st
      else Option.bind (expand_level I D t node_queue [] st) (\<lambda>(node_queue', st'). expand_levels k I D t node_queue' st'))"

definition max_tree_depth :: nat where
  "max_tree_depth = 6"

definition tree_build :: "ir \<Rightarrow> di \<Rightarrow> tid \<Rightarrow> pdg_mem \<Rightarrow> pdg_mem option" where
  "tree_build I D t st = expand_levels max_tree_depth I D t [root_node (pm_trees st t)] st"

subsection \<open>The store\<close>

text \<open>
  In a well-formed store the edges of the graph are those from the tree nodes to their children, the children of a node are younger
  than the node, and a node with a parent is younger than it and hangs from a node with a type.
\<close>

definition field_edges :: "pdg_mem \<Rightarrow> edge_spec set" where
  "field_edges st = {(n, c, PARAMETER_FIELD) | n c. n < pm_next st \<and> c \<in> set (tn_children (pm_tnodes st n))}"

definition mem_ok :: "pdg_mem \<Rightarrow> bool" where
  "mem_ok st \<longleftrightarrow> 0 < pm_next st \<and> mirrors (field_edges st) (pm_nodes st) \<and>
     (\<forall>n < pm_next st. (parent_node (pm_tnodes st n) \<noteq> 0 \<longrightarrow> parent_node (pm_tnodes st n) < n \<and>
        node_di_type (pm_nodes st (parent_node (pm_tnodes st n))) \<noteq> 0) \<and>
        (\<forall>c \<in> set (tn_children (pm_tnodes st n)). n < c \<and> c < pm_next st))"

definition child_added :: "nid \<Rightarrow> dtid \<Rightarrow> pdg_mem \<Rightarrow> pdg_mem \<Rightarrow> bool" where
  "child_added this di_type st st' \<longleftrightarrow>
     (let c = pm_next st
      in pm_next st' = Suc c \<and> pm_trees st' = pm_trees st \<and> pm_next_tree st' = pm_next_tree st \<and>
         pm_nodes st' = addNeighbor this c PARAMETER_FIELD ((pm_nodes st)(c :=
           (new_Node (node_type (pm_nodes st this)))\<lparr>node_func := node_func (pm_nodes st this), node_di_type := di_type\<rparr>)) \<and>
         parent_node (pm_tnodes st' c) = this \<and> tn_children (pm_tnodes st' c) = [] \<and> depth (pm_tnodes st' c) = Suc (depth (pm_tnodes st this)) \<and>
         (\<forall>n. n \<noteq> c \<longrightarrow> pm_tnodes st' n = (if n = this then (pm_tnodes st n)\<lparr>tn_children := tn_children (pm_tnodes st n) @ [c]\<rparr> else pm_tnodes st n)))"

lemma new_child_added:
  assumes "di_ok D" and "mem_ok st" and "this < pm_next st" and "0 < this" and "node_di_type (pm_nodes st this) \<noteq> 0"
  shows "\<exists>st'. new_child I D this di_type st = Some st' \<and> child_added this di_type st st'"
proof -
  define c st1 where "c = pm_next st" and "st1 = snd (new_TreeNode (node_func (pm_nodes st this)) di_type (Suc (depth (pm_tnodes st this))) this
      (tn_tree (pm_tnodes st this)) (node_type (pm_nodes st this)) st)"
  note st1 = st1_def [unfolded new_TreeNode_def alloc_node_def Let_def snd_conv]
  let ?g = "parent_node (pm_tnodes st this)"
  have g: "?g \<noteq> 0 \<longrightarrow> node_di_type (pm_nodes st ?g) \<noteq> 0 \<and> ?g < this" using assms(2,3) unfolding mem_ok_def by blast
  obtain b where b: "isStructType D (node_di_type (pm_nodes st this)) = Some b" using assms(5) by (simp add: isStructType_def)
  obtain p where p: "?g \<noteq> 0 \<longrightarrow> isStructPointerType D (node_di_type (pm_nodes st ?g)) = Some p"
    using isStructPointerType_total [OF assms(1)] g by blast
  have "\<exists>vs. computeDerivedAddrVarsFromParent I D c st1 = Some (addAddrVars c vs st1)"
  proof (cases "di_type = 0")
    case True
    then have "computeDerivedAddrVarsFromParent I D c st1 = Some st1"
      by (simp add: computeDerivedAddrVarsFromParent_def st1 c_def Let_def)
    moreover have "addAddrVars c [] st1 = st1" by (simp add: addAddrVars_def)
    ultimately show ?thesis by metis
  next
    case False
    have ne: "this \<noteq> c" "?g \<noteq> c" using assms(3) g c_def by auto
    show ?thesis using False assms(4) b p ne
      by (cases "?g = 0") (auto simp: computeDerivedAddrVarsFromParent_def st1 c_def Let_def mk_TreeNode_def)
  qed
  then obtain vs where vs: "computeDerivedAddrVarsFromParent I D c st1 = Some (addAddrVars c vs st1)" by auto
  have "new_child I D this di_type st = Some (link this c PARAMETER_FIELD (push_child this c (addAddrVars c vs st1)))"
    using vs by (simp add: new_child_def c_def st1_def split_beta Let_def) (simp add: new_TreeNode_def alloc_node_def Let_def)
  moreover have "child_added this di_type st (link this c PARAMETER_FIELD (push_child this c (addAddrVars c vs st1)))"
    using assms(3) by (simp add: child_added_def link_def push_child_def addAddrVars_def st1 c_def mk_TreeNode_def Let_def)
  ultimately show ?thesis by blast
qed

text \<open>Later stores keep what the nodes of earlier ones stand for.\<close>

definition extends :: "pdg_mem \<Rightarrow> pdg_mem \<Rightarrow> bool" where
  "extends st st' \<longleftrightarrow> pm_next st \<le> pm_next st' \<and> pm_next_tree st \<le> pm_next_tree st' \<and>
     (\<forall>n < pm_next st. node_val (pm_nodes st' n) = node_val (pm_nodes st n) \<and> node_func (pm_nodes st' n) = node_func (pm_nodes st n) \<and>
        node_di_type (pm_nodes st' n) = node_di_type (pm_nodes st n))"

lemma extends_refl [simp]: "extends st st"
  by (simp add: extends_def)

lemma extends_trans: "extends a b \<Longrightarrow> extends b c \<Longrightarrow> extends a c"
  by (simp add: extends_def)

lemma child_added_next: "child_added this dt st st' \<Longrightarrow> pm_next st' = Suc (pm_next st)"
  by (simp add: child_added_def Let_def)

lemma child_added_extends: "child_added this dt st st' \<Longrightarrow> extends st st'"
  by (simp add: child_added_def extends_def Let_def)

lemma child_added_di:
  "child_added this dt st st' \<Longrightarrow> node_di_type (pm_nodes st' n) = (if n = pm_next st then dt else node_di_type (pm_nodes st n))"
  by (simp add: child_added_def Let_def)

lemma child_added_parent:
  "child_added this dt st st' \<Longrightarrow> parent_node (pm_tnodes st' n) = (if n = pm_next st then this else parent_node (pm_tnodes st n))"
  by (simp add: child_added_def Let_def)

lemma child_added_children:
  assumes "child_added this dt st st'" and "this < pm_next st"
  shows "tn_children (pm_tnodes st' n) =
    (if n = pm_next st then [] else tn_children (pm_tnodes st n) @ (if n = this then [pm_next st] else []))"
  using assms by (simp add: child_added_def Let_def)

lemma mirrors_blank:
  assumes "mirrors E h" and "\<And>a b t. (a, b, t) \<in> E \<Longrightarrow> a \<noteq> c \<and> b \<noteq> c"
    and "out_edge_set x = []" and "in_edge_set x = []" and "out_neighbors x = {}" and "in_neighbors x = {}"
    and "\<And>t. out_neighbors_with_edge_type x t = {}" and "\<And>t. in_neighbors_with_edge_type x t = {}"
  shows "mirrors E (h(c := x))"
  unfolding mirrors_def
proof (intro allI)
  fix a
  show "set (out_edge_set ((h(c := x)) a)) = {mkEdge a b t | b t. (a, b, t) \<in> E} \<and>
          set (in_edge_set ((h(c := x)) a)) = {mkEdge b a t | b t. (b, a, t) \<in> E} \<and>
          out_neighbors ((h(c := x)) a) = {b. \<exists>t. (a, b, t) \<in> E} \<and>
          in_neighbors ((h(c := x)) a) = {b. \<exists>t. (b, a, t) \<in> E} \<and>
          (\<forall>t. out_neighbors_with_edge_type ((h(c := x)) a) t = {b. (a, b, t) \<in> E} \<and>
               in_neighbors_with_edge_type ((h(c := x)) a) t = {b. (b, a, t) \<in> E})"
  proof (cases "a = c")
    case True
    then have "{(b, t). (a, b, t) \<in> E} = {}" "{(b, t). (b, a, t) \<in> E} = {}" using assms(2) by blast+
    then show ?thesis using True assms(3-8) by simp
  qed (use assms(1) in \<open>simp add: mirrors_def\<close>)
qed

lemma field_edges_iff:
  "(a, b, t) \<in> field_edges st \<longleftrightarrow> t = PARAMETER_FIELD \<and> a < pm_next st \<and> b \<in> set (tn_children (pm_tnodes st a))"
  by (auto simp: field_edges_def)

lemma field_edges_bounded: "mem_ok st \<Longrightarrow> (a, b, t) \<in> field_edges st \<Longrightarrow> a < pm_next st \<and> b < pm_next st"
  unfolding mem_ok_def field_edges_iff by blast

lemma mem_ok_child_added:
  assumes "mem_ok st" and "child_added this dt st st'" and "this < pm_next st" and "0 < this" and "node_di_type (pm_nodes st this) \<noteq> 0"
  shows "mem_ok st'"
proof -
  let ?c = "pm_next st"
  have E: "field_edges st' = insert (this, ?c, PARAMETER_FIELD) (field_edges st)"
    using assms(3)
    by (auto simp: field_edges_iff child_added_next [OF assms(2)] child_added_children [OF assms(2,3)] less_Suc_eq split: if_splits)
  have m: "mirrors (field_edges st) (pm_nodes st)" using assms(1) unfolding mem_ok_def by blast
  have "mirrors (field_edges st) ((pm_nodes st)(?c := (new_Node t)\<lparr>node_func := f, node_di_type := dt\<rparr>))" for t f
    by (rule mirrors_blank [OF m]) (use field_edges_bounded [OF assms(1)] in \<open>auto simp: new_Node_def\<close>)
  then have "mirrors (field_edges st') (pm_nodes st')"
    using assms(2) mirrors_add unfolding E by (simp add: child_added_def Let_def)
  moreover have "(parent_node (pm_tnodes st' n) \<noteq> 0 \<longrightarrow> parent_node (pm_tnodes st' n) < n \<and>
        node_di_type (pm_nodes st' (parent_node (pm_tnodes st' n))) \<noteq> 0) \<and>
        (\<forall>c \<in> set (tn_children (pm_tnodes st' n)). n < c \<and> c < pm_next st')" if "n < pm_next st'" for n
  proof (cases "n = ?c")
    case True
    then show ?thesis using assms(3,4,5)
      by (simp add: child_added_next [OF assms(2)] child_added_children [OF assms(2,3)] child_added_parent [OF assms(2)] child_added_di [OF assms(2)])
  next
    case False
    then have n: "n < ?c" using that by (simp add: child_added_next [OF assms(2)])
    have "(parent_node (pm_tnodes st n) \<noteq> 0 \<longrightarrow> parent_node (pm_tnodes st n) < n \<and>
        node_di_type (pm_nodes st (parent_node (pm_tnodes st n))) \<noteq> 0) \<and>
        (\<forall>c \<in> set (tn_children (pm_tnodes st n)). n < c \<and> c < ?c)" using assms(1) n unfolding mem_ok_def by blast
    then show ?thesis using n False
      by (auto simp: child_added_next [OF assms(2)] child_added_children [OF assms(2,3)] child_added_parent [OF assms(2)] child_added_di [OF assms(2)])
  qed
  moreover have "0 < pm_next st'" by (simp add: child_added_next [OF assms(2)])
  ultimately show ?thesis unfolding mem_ok_def by blast
qed

subsection \<open>Children of a node\<close>

definition expand_types :: "di \<Rightarrow> dtid \<Rightarrow> dtid list option" where
  "expand_types D di_type =
     (if di_type = 0 then Some []
      else Option.bind (plain_type D di_type) (\<lambda>dt. Option.bind (isPointerType D dt) (\<lambda>pointer. Option.bind (isStructType D dt) (\<lambda>struct.
        if pointer then Option.bind (getLowestDIType D dt) (\<lambda>l. Some [l])
        else if struct then (if di_isa D dt \<noteq> DICompositeType then None else Some (getElements D dt))
        else Some []))))"

lemma expandNode_types:
  "expandNode I D n st =
     Option.bind (expand_types D (node_di_type (pm_nodes st n))) (\<lambda>ts.
       Option.bind (fold_option (new_child I D n) ts st) (\<lambda>st'. Some (length ts, st')))"
  by (auto simp: expandNode_def expand_types_def intro!: Option.bind_cong split: bind_splits)

lemma expand_types_total: "di_ok D \<Longrightarrow> \<exists>ts. expand_types D di_type = Some ts"
proof (cases "di_type = 0")
  case False
  assume D: "di_ok D"
  obtain dt where dt: "plain_type D di_type = Some dt" "dt \<noteq> 0" using plain_type_total [OF D False] by auto
  moreover obtain p where "isPointerType D dt = Some p" using isPointerType_total [OF D dt(2)] by auto
  moreover obtain l where "getLowestDIType D dt = Some l" using getLowestDIType_exact [of D dt] D by (auto simp: di_ok_def)
  moreover have "getTag D dt = DW_TAG_structure_type \<longrightarrow> di_isa D dt = DICompositeType" using D by (simp add: di_ok_def)
  ultimately show ?thesis using False by (cases p) (simp_all add: expand_types_def isStructType_def)
qed (simp add: expand_types_def)

definition children_added :: "nid \<Rightarrow> dtid list \<Rightarrow> pdg_mem \<Rightarrow> pdg_mem \<Rightarrow> bool" where
  "children_added this ts st st' \<longleftrightarrow>
     (let c = pm_next st; cs = [c..<c + length ts]
      in pm_next st' = c + length ts \<and> pm_trees st' = pm_trees st \<and> extends st st' \<and>
         map (\<lambda>n. node_di_type (pm_nodes st' n)) cs = ts \<and> (\<forall>n \<in> set cs. tn_children (pm_tnodes st' n) = []) \<and>
         (\<forall>n < c. tn_children (pm_tnodes st' n) = tn_children (pm_tnodes st n) @ (if n = this then cs else [])))"

lemma children_added_Cons:
  assumes "child_added this dt st st1" and "children_added this ts st1 st2" and "this < pm_next st"
  shows "children_added this (dt # ts) st st2"
proof -
  let ?c = "pm_next st"
  have cs: "[?c..<?c + length (dt # ts)] = ?c # [Suc ?c..<Suc ?c + length ts]" by (simp add: upt_rec)
  have c1: "pm_next st1 = Suc ?c" using assms(1) by (rule child_added_next)
  note added = assms(2) [unfolded children_added_def Let_def c1]
  have ext: "extends st st2" using added child_added_extends [OF assms(1)] extends_trans by blast
  have old: "tn_children (pm_tnodes st2 n) = tn_children (pm_tnodes st1 n) @ (if n = this then [Suc ?c..<Suc ?c + length ts] else [])"
    if "n < Suc ?c" for n using added that by blast
  have di: "node_di_type (pm_nodes st2 ?c) = dt"
    using added child_added_di [OF assms(1), of ?c] by (simp add: extends_def c1)
  have "tn_children (pm_tnodes st2 n) = tn_children (pm_tnodes st n) @ (if n = this then [?c..<?c + length (dt # ts)] else [])"
    if "n < ?c" for n using old [of n] child_added_children [OF assms(1,3), of n] that cs by simp
  moreover have "tn_children (pm_tnodes st2 ?c) = []" using old [of ?c] child_added_children [OF assms(1,3), of ?c] assms(3) by simp
  moreover have "pm_trees st2 = pm_trees st" using added assms(1) by (simp add: child_added_def Let_def)
  ultimately show ?thesis unfolding children_added_def Let_def cs using added ext di by simp
qed

lemma new_children_added:
  assumes "di_ok D" and "mem_ok st" and "this < pm_next st" and "0 < this" and "node_di_type (pm_nodes st this) \<noteq> 0"
  shows "\<exists>st'. fold_option (new_child I D this) ts st = Some st' \<and> mem_ok st' \<and> children_added this ts st st'"
  using assms(2,3,5)
proof (induction ts arbitrary: st)
  case Nil
  then show ?case by (simp add: children_added_def)
next
  case (Cons dt ts)
  obtain st1 where st1: "new_child I D this dt st = Some st1" "child_added this dt st st1"
    using new_child_added [OF assms(1) Cons.prems(1,2) assms(4) Cons.prems(3)] by blast
  have "mem_ok st1" by (rule mem_ok_child_added [OF Cons.prems(1) st1(2) Cons.prems(2) assms(4) Cons.prems(3)])
  moreover have "this < pm_next st1" using child_added_next [OF st1(2)] Cons.prems(2) by simp
  moreover have "node_di_type (pm_nodes st1 this) \<noteq> 0" using child_added_di [OF st1(2), of this] Cons.prems(2,3) by simp
  ultimately obtain st2 where "fold_option (new_child I D this) ts st1 = Some st2" "mem_ok st2" "children_added this ts st1 st2"
    using Cons.IH by blast
  then show ?case using st1 children_added_Cons [OF st1(2) _ Cons.prems(2)] by auto
qed

lemma mem_ok_size [simp]: "mem_ok (increaseTreeSize t st) \<longleftrightarrow> mem_ok st"
  by (simp add: mem_ok_def field_edges_def increaseTreeSize_def)

lemma increaseTreeSize_fields [simp]:
  "pm_nodes (increaseTreeSize t st) = pm_nodes st" "pm_tnodes (increaseTreeSize t st) = pm_tnodes st"
  "pm_next (increaseTreeSize t st) = pm_next st" "pm_next_tree (increaseTreeSize t st) = pm_next_tree st"
  "root_node (pm_trees (increaseTreeSize t st) u) = root_node (pm_trees st u)"
  by (simp_all add: increaseTreeSize_def)

lemma expandNode_ok:
  assumes "di_ok D" and "mem_ok st" and "n < pm_next st" and "0 < n"
  shows "\<exists>ts st'. expand_types D (node_di_type (pm_nodes st n)) = Some ts \<and> expandNode I D n st = Some (length ts, st') \<and>
    mem_ok st' \<and> children_added n ts st st'"
proof -
  obtain ts where ts: "expand_types D (node_di_type (pm_nodes st n)) = Some ts" using expand_types_total [OF assms(1)] by blast
  show ?thesis
  proof (cases "node_di_type (pm_nodes st n) = 0")
    case True
    then have "ts = []" using ts by (simp add: expand_types_def)
    then show ?thesis using ts assms(2) by (simp add: expandNode_types children_added_def)
  next
    case False
    then show ?thesis using new_children_added [OF assms False, of I ts] ts by (auto simp: expandNode_types)
  qed
qed

text \<open>The effect of a round of the loop on the nodes \<open>q\<close> of a level.\<close>

definition level_expanded :: "di \<Rightarrow> nid list \<Rightarrow> pdg_mem \<Rightarrow> pdg_mem \<Rightarrow> bool" where
  "level_expanded D q st st' \<longleftrightarrow> mem_ok st' \<and> extends st st' \<and> (\<forall>t. root_node (pm_trees st' t) = root_node (pm_trees st t)) \<and>
     (\<forall>n \<in> set q. expand_types D (node_di_type (pm_nodes st n)) = Some (map (\<lambda>c. node_di_type (pm_nodes st' c)) (tn_children (pm_tnodes st' n)))) \<and>
     (\<forall>n \<in> set q. \<forall>c \<in> set (tn_children (pm_tnodes st' n)). pm_next st \<le> c \<and> c < pm_next st' \<and> tn_children (pm_tnodes st' c) = []) \<and>
     distinct (concat (map (\<lambda>n. tn_children (pm_tnodes st' n)) q)) \<and>
     (\<forall>n < pm_next st. n \<notin> set q \<longrightarrow> tn_children (pm_tnodes st' n) = tn_children (pm_tnodes st n))"

definition level_ok :: "nid list \<Rightarrow> pdg_mem \<Rightarrow> bool" where
  "level_ok q st \<longleftrightarrow> distinct q \<and> (\<forall>n \<in> set q. 0 < n \<and> n < pm_next st \<and> tn_children (pm_tnodes st n) = [])"

lemma level_expanded_Cons:
  assumes "level_ok (n # q) st" and "mem_ok st1" and "children_added n ts st0 st1" and "level_expanded D q st1 st2"
    and "expand_types D (node_di_type (pm_nodes st n)) = Some ts" and "st0 = increaseTreeSize t st"
  shows "level_expanded D (n # q) st st2"
proof -
  let ?c = "pm_next st"
  have n: "n < ?c" "n \<notin> set q" "tn_children (pm_tnodes st n) = []" using assms(1) by (auto simp: level_ok_def)
  note added = assms(3) [unfolded children_added_def Let_def assms(6) increaseTreeSize_fields]
  note rest = assms(4) [unfolded level_expanded_def]
  have e1: "extends st st1" using added by (simp add: extends_def)
  have lt: "?c \<le> pm_next st1" using added by simp
  have children_n: "tn_children (pm_tnodes st2 n) = [?c..<?c + length ts]"
    using added rest n lt by simp
  have new: "tn_children (pm_tnodes st2 c) = []" if "c \<in> set [?c..<?c + length ts]" for c
  proof -
    have "c \<notin> set q" using that assms(1) by (auto simp: level_ok_def)
    then show ?thesis using added rest that by simp
  qed
  have types: "map (\<lambda>c. node_di_type (pm_nodes st2 c)) [?c..<?c + length ts] = ts"
  proof -
    have "extends st1 st2" using rest by blast
    then have "node_di_type (pm_nodes st2 c) = node_di_type (pm_nodes st1 c)" if "c \<in> set [?c..<?c + length ts]" for c
      using that added by (simp add: extends_def)
    then have "map (\<lambda>c. node_di_type (pm_nodes st2 c)) [?c..<?c + length ts] = map (\<lambda>c. node_di_type (pm_nodes st1 c)) [?c..<?c + length ts]"
      by (rule map_cong [OF refl])
    then show ?thesis using added by simp
  qed
  have di: "node_di_type (pm_nodes st1 m) = node_di_type (pm_nodes st m)" if "m < ?c" for m using e1 that by (simp add: extends_def)
  have q: "m < ?c" "m \<noteq> n" if "m \<in> set q" for m using assms(1) that by (auto simp: level_ok_def)
  have "extends st st2" using e1 rest extends_trans by blast
  moreover have "root_node (pm_trees st2 u) = root_node (pm_trees st u)" for u
  proof -
    have "root_node (pm_trees st2 u) = root_node (pm_trees st1 u)" using rest by blast
    also have "pm_trees st1 = pm_trees (increaseTreeSize t st)" using added by blast
    finally show ?thesis by simp
  qed
  moreover have "\<forall>m \<in> set (n # q). expand_types D (node_di_type (pm_nodes st m)) =
      Some (map (\<lambda>c. node_di_type (pm_nodes st2 c)) (tn_children (pm_tnodes st2 m)))"
  proof
    fix m
    assume "m \<in> set (n # q)"
    then show "expand_types D (node_di_type (pm_nodes st m)) =
      Some (map (\<lambda>c. node_di_type (pm_nodes st2 c)) (tn_children (pm_tnodes st2 m)))"
      using rest di q assms(5) children_n types by (cases "m = n") auto
  qed
  moreover have "\<forall>m \<in> set (n # q). \<forall>c \<in> set (tn_children (pm_tnodes st2 m)). ?c \<le> c \<and> c < pm_next st2 \<and> tn_children (pm_tnodes st2 c) = []"
  proof (intro ballI)
    fix m c
    assume "m \<in> set (n # q)" and c: "c \<in> set (tn_children (pm_tnodes st2 m))"
    then consider "m = n" | "m \<in> set q" by auto
    then show "?c \<le> c \<and> c < pm_next st2 \<and> tn_children (pm_tnodes st2 c) = []"
    proof cases
      case 1
      have "pm_next st1 \<le> pm_next st2" using rest by (simp add: extends_def)
      then show ?thesis using 1 c new children_n added by simp
    next
      case 2
      then have "pm_next st1 \<le> c \<and> c < pm_next st2 \<and> tn_children (pm_tnodes st2 c) = []" using rest c by blast
      then show ?thesis using lt by simp
    qed
  qed
  moreover have "distinct (concat (map (\<lambda>m. tn_children (pm_tnodes st2 m)) (n # q)))"
  proof -
    have "x \<notin> set (tn_children (pm_tnodes st2 m))" if "x < pm_next st1" "m \<in> set q" for x m
      using rest that by (meson leD)
    then show ?thesis using rest children_n added by fastforce
  qed
  moreover have "\<forall>m < ?c. m \<notin> set (n # q) \<longrightarrow> tn_children (pm_tnodes st2 m) = tn_children (pm_tnodes st m)"
    using rest added lt by simp
  ultimately show ?thesis using rest unfolding level_expanded_def by blast
qed

lemma level_ok_rest:
  assumes "level_ok (n # q) st" and "children_added n ts (increaseTreeSize t st) st1"
  shows "level_ok q st1"
proof -
  have "tn_children (pm_tnodes st1 m) = tn_children (pm_tnodes st m)" if "m < pm_next st" "m \<noteq> n" for m
    using assms(2) that by (simp add: children_added_def Let_def)
  moreover have "pm_next st \<le> pm_next st1" using assms(2) by (simp add: children_added_def Let_def)
  moreover have "n \<notin> set q" "distinct q" "\<forall>m \<in> set q. 0 < m \<and> m < pm_next st \<and> tn_children (pm_tnodes st m) = []"
    using assms(1) by (simp_all add: level_ok_def)
  ultimately show ?thesis unfolding level_ok_def by (metis less_le_trans)
qed

lemma expand_level_ok:
  assumes "di_ok D" and "mem_ok st" and "level_ok q st"
  shows "\<exists>st'. expand_level I D t q nl st = Some (nl @ concat (map (\<lambda>n. tn_children (pm_tnodes st' n)) q), st') \<and> level_expanded D q st st'"
  using assms(2,3)
proof (induction q arbitrary: nl st)
  case Nil
  then show ?case by (simp add: level_expanded_def)
next
  case (Cons n q)
  let ?st0 = "increaseTreeSize t st"
  have n: "0 < n" "n < pm_next ?st0" "tn_children (pm_tnodes st n) = []" "n \<notin> set q" using Cons.prems(2) by (simp_all add: level_ok_def)
  obtain ts st1 where st1: "expand_types D (node_di_type (pm_nodes st n)) = Some ts" "expandNode I D n ?st0 = Some (length ts, st1)"
      "mem_ok st1" "children_added n ts ?st0 st1"
    using expandNode_ok [OF assms(1), of ?st0 n I] n Cons.prems(1) by auto
  let ?nl = "nl @ tn_children (pm_tnodes st1 n)"
  obtain st2 where st2: "expand_level I D t q ?nl st1 = Some (?nl @ concat (map (\<lambda>n. tn_children (pm_tnodes st2 n)) q), st2)"
      "level_expanded D q st1 st2"
    using Cons.IH [OF st1(3) level_ok_rest [OF Cons.prems(2) st1(4)], of ?nl] by blast
  have c1: "tn_children (pm_tnodes st1 n) = [pm_next st..<pm_next st + length ts]"
    using st1(4) n by (simp add: children_added_def Let_def)
  then have "(if 0 < length ts then ?nl else nl) = ?nl" by simp
  then have "expand_level I D t (n # q) nl st = expand_level I D t q ?nl st1" using st1(2) by simp
  moreover have "n < pm_next st1" using st1(4) n by (simp add: children_added_def Let_def)
  then have "tn_children (pm_tnodes st2 n) = tn_children (pm_tnodes st1 n)" using st2(2) n(4) by (simp add: level_expanded_def)
  ultimately show ?case using st2 level_expanded_Cons [OF Cons.prems(2) st1(3,4) st2(2) st1(1) refl] by auto
qed

subsection \<open>The tree of types that a tree stands for\<close>

datatype type_tree = TypeTree dtid "type_tree list"

fun type_unfold :: "nat \<Rightarrow> di \<Rightarrow> dtid \<Rightarrow> type_tree" where
  "type_unfold 0 D dt = TypeTree dt []"
| "type_unfold (Suc k) D dt =
     TypeTree dt (map (type_unfold k D) (case expand_types D dt of None \<Rightarrow> [] | Some ts \<Rightarrow> ts))"

fun read_tree :: "nat \<Rightarrow> pdg_mem \<Rightarrow> nid \<Rightarrow> type_tree" where
  "read_tree 0 st n = TypeTree (node_di_type (pm_nodes st n)) []"
| "read_tree (Suc k) st n = TypeTree (node_di_type (pm_nodes st n)) (map (read_tree k st) (tn_children (pm_tnodes st n)))"

lemma read_tree_leaf: "tn_children (pm_tnodes st n) = [] \<Longrightarrow> read_tree k st n = TypeTree (node_di_type (pm_nodes st n)) []"
  by (cases k) simp_all

definition levels_expanded :: "nat \<Rightarrow> di \<Rightarrow> nid list \<Rightarrow> pdg_mem \<Rightarrow> pdg_mem \<Rightarrow> bool" where
  "levels_expanded k D q st st' \<longleftrightarrow> mem_ok st' \<and> extends st st' \<and> (\<forall>t. root_node (pm_trees st' t) = root_node (pm_trees st t)) \<and>
     (\<forall>n \<in> set q. \<forall>j \<ge> k. read_tree j st' n = type_unfold k D (node_di_type (pm_nodes st n))) \<and>
     (\<forall>n < pm_next st. n \<notin> set q \<longrightarrow> tn_children (pm_tnodes st' n) = tn_children (pm_tnodes st n))"

lemma levels_expanded_Suc:
  assumes "level_ok q st" and "level_expanded D q st st1"
    and "levels_expanded k D (concat (map (\<lambda>n. tn_children (pm_tnodes st1 n)) q)) st1 st2"
  shows "levels_expanded (Suc k) D q st st2"
proof -
  let ?q = "concat (map (\<lambda>n. tn_children (pm_tnodes st1 n)) q)"
  note l = assms(2) [unfolded level_expanded_def] and ls = assms(3) [unfolded levels_expanded_def]
  have le: "pm_next st \<le> pm_next st1" using l by (simp add: extends_def)
  have fresh: "m \<notin> set ?q" if "m < pm_next st" for m
  proof
    assume "m \<in> set ?q"
    then obtain n where "n \<in> set q" "m \<in> set (tn_children (pm_tnodes st1 n))" by auto
    then have "pm_next st \<le> m" using l by blast
    then show False using that by simp
  qed
  then have old: "tn_children (pm_tnodes st2 m) = tn_children (pm_tnodes st1 m)" if "m < pm_next st" for m
    using ls that le by simp
  have ext: "extends st st2" using l ls extends_trans by blast
  have "read_tree j st2 n = type_unfold (Suc k) D (node_di_type (pm_nodes st n))" if n: "n \<in> set q" and j: "Suc k \<le> j" for n j
  proof -
    obtain i where i: "j = Suc i" "k \<le> i" using j by (cases j) auto
    have lt: "n < pm_next st" using assms(1) n by (simp add: level_ok_def)
    have "node_di_type (pm_nodes st2 n) = node_di_type (pm_nodes st n)" using ext lt by (simp add: extends_def)
    moreover have "map (read_tree i st2) (tn_children (pm_tnodes st1 n)) =
        map (\<lambda>c. type_unfold k D (node_di_type (pm_nodes st1 c))) (tn_children (pm_tnodes st1 n))"
    proof (rule map_cong [OF refl])
      fix c
      assume "c \<in> set (tn_children (pm_tnodes st1 n))"
      then have "c \<in> set ?q" using n by auto
      then show "read_tree i st2 c = type_unfold k D (node_di_type (pm_nodes st1 c))" using ls i(2) by blast
    qed
    moreover have "expand_types D (node_di_type (pm_nodes st n)) = Some (map (\<lambda>c. node_di_type (pm_nodes st1 c)) (tn_children (pm_tnodes st1 n)))"
      using l n by blast
    ultimately show ?thesis using old [OF lt] i(1) by simp
  qed
  moreover have "\<forall>m < pm_next st. m \<notin> set q \<longrightarrow> tn_children (pm_tnodes st2 m) = tn_children (pm_tnodes st m)"
    using old l by simp
  moreover have "\<forall>t. root_node (pm_trees st2 t) = root_node (pm_trees st t)" using l ls by metis
  moreover have "mem_ok st2" using ls by blast
  ultimately show ?thesis using ext unfolding levels_expanded_def by blast
qed

lemma expand_levels_ok:
  assumes "di_ok D" and "mem_ok st" and "level_ok q st"
  shows "\<exists>st'. expand_levels k I D t q st = Some st' \<and> levels_expanded k D q st st'"
  using assms(2,3)
proof (induction k arbitrary: q st)
  case 0
  then have "levels_expanded 0 D q st st" by (simp add: levels_expanded_def level_ok_def read_tree_leaf)
  then show ?case by simp
next
  case (Suc k)
  show ?case
  proof (cases "q = []")
    case True
    then show ?thesis using Suc.prems by (simp add: levels_expanded_def)
  next
    case False
    let ?q = "\<lambda>st1. concat (map (\<lambda>n. tn_children (pm_tnodes st1 n)) q)"
    obtain st1 where st1: "expand_level I D t q [] st = Some (?q st1, st1)" "level_expanded D q st st1"
      using expand_level_ok [OF assms(1) Suc.prems, of I t "[]"] by auto
    note l = st1(2) [unfolded level_expanded_def]
    have "0 < pm_next st" using Suc.prems(1) by (simp add: mem_ok_def)
    then have "level_ok (?q st1) st1" using l unfolding level_ok_def by fastforce
    then obtain st2 where "expand_levels k I D t (?q st1) st1 = Some st2" "levels_expanded k D (?q st1) st1 st2"
      using Suc.IH [of st1 "?q st1"] l by blast
    then show ?thesis using st1 False levels_expanded_Suc [OF Suc.prems(2) st1(2)] by auto
  qed
qed

lemma tree_build_ok:
  assumes "di_ok D" and "mem_ok st" and "r = root_node (pm_trees st t)" and "0 < r" and "r < pm_next st"
    and "tn_children (pm_tnodes st r) = []"
  shows "\<exists>st'. tree_build I D t st = Some st' \<and> levels_expanded max_tree_depth D [r] st st'"
  using expand_levels_ok [OF assms(1,2), of "[r]" max_tree_depth I t] assms(3-6) by (simp add: tree_build_def level_ok_def)

text \<open>
  C13: A tree stands for the unfolding of its debug type.  For all well-formed metadata, recursive structures included,
  building the tree of a root without children returns; read back to any depth, the tree is the type of the root unfolded to
  depth six (pointers to the type they lead to, structures to their members), and the trees of all other nodes are kept.
\<close>

theorem tree_build_refines:
  assumes "di_ok D" and "mem_ok st" and "r = root_node (pm_trees st t)" and "0 < r" and "r < pm_next st"
    and "tn_children (pm_tnodes st r) = []"
  shows "\<exists>st'. tree_build I D t st = Some st' \<and> mem_ok st' \<and>
    (\<forall>j \<ge> 6. read_tree j st' r = type_unfold 6 D (node_di_type (pm_nodes st r))) \<and>
    (\<forall>n < pm_next st. n \<noteq> r \<longrightarrow> tn_children (pm_tnodes st' n) = tn_children (pm_tnodes st n))"
proof -
  obtain st' where "tree_build I D t st = Some st'" "levels_expanded max_tree_depth D [r] st st'"
    using tree_build_ok [OF assms, of I] by blast
  then show ?thesis by (intro exI [of _ st']) (simp add: levels_expanded_def max_tree_depth_def)
qed

subsection \<open>Constructors and setters keep the store well-formed\<close>

definition blank :: "Node \<Rightarrow> bool" where
  "blank x \<longleftrightarrow> out_edge_set x = [] \<and> in_edge_set x = [] \<and> out_neighbors x = {} \<and> in_neighbors x = {} \<and>
     (\<forall>t. out_neighbors_with_edge_type x t = {} \<and> in_neighbors_with_edge_type x t = {})"

lemma blank_new [simp]: "blank (new_Node t)" "blank ((new_Node t)\<lparr>node_func := f, node_di_type := d\<rparr>)" "blank (new_Node_val I v t)"
  by (simp_all add: blank_def new_Node_def new_Node_val_def)

lemma alloc_node_fields:
  assumes "alloc_node x (mk_TreeNode tr 0 d) st = (a, st')"
  shows "a = pm_next st" and "pm_next st' = Suc (pm_next st)" and "pm_nodes st' = (pm_nodes st)(pm_next st := x)"
    and "pm_tnodes st' = (pm_tnodes st)(pm_next st := mk_TreeNode tr 0 d)" and "pm_trees st' = pm_trees st" and "pm_next_tree st' = pm_next_tree st"
  using assms by (auto simp: alloc_node_def Let_def)

lemma alloc_node_ok:
  assumes "mem_ok st" and "blank x" and "alloc_node x (mk_TreeNode tr 0 d) st = (a, st')"
  shows "mem_ok st'" and "extends st st'"
proof -
  note f = alloc_node_fields [OF assms(3)]
  have m: "mirrors (field_edges st) (pm_nodes st)" using assms(1) unfolding mem_ok_def by blast
  have E: "field_edges st' = field_edges st" by (auto simp: field_edges_iff f mk_TreeNode_def less_Suc_eq split: if_splits)
  have "mirrors (field_edges st) ((pm_nodes st)(pm_next st := x))"
    by (rule mirrors_blank [OF m]) (use field_edges_bounded [OF assms(1)] assms(2) in \<open>auto simp: blank_def\<close>)
  moreover have "(parent_node (pm_tnodes st' n) \<noteq> 0 \<longrightarrow> parent_node (pm_tnodes st' n) < n \<and>
        node_di_type (pm_nodes st' (parent_node (pm_tnodes st' n))) \<noteq> 0) \<and>
        (\<forall>c \<in> set (tn_children (pm_tnodes st' n)). n < c \<and> c < pm_next st')" if "n < pm_next st'" for n
  proof (cases "n = pm_next st")
    case True
    then show ?thesis by (simp add: f mk_TreeNode_def)
  next
    case False
    then have n: "n < pm_next st" using that by (simp add: f)
    have "(parent_node (pm_tnodes st n) \<noteq> 0 \<longrightarrow> parent_node (pm_tnodes st n) < n \<and>
        node_di_type (pm_nodes st (parent_node (pm_tnodes st n))) \<noteq> 0) \<and>
        (\<forall>c \<in> set (tn_children (pm_tnodes st n)). n < c \<and> c < pm_next st)" using assms(1) n unfolding mem_ok_def by blast
    then show ?thesis using n False by (auto simp: f)
  qed
  moreover have "0 < pm_next st'" by (simp add: f)
  ultimately show "mem_ok st'" unfolding mem_ok_def E f(3) [symmetric] by blast
  show "extends st st'" by (simp add: extends_def f)
qed

definition same_shape :: "pdg_mem \<Rightarrow> pdg_mem \<Rightarrow> bool" where
  "same_shape st st' \<longleftrightarrow> pm_next st' = pm_next st \<and> pm_next_tree st \<le> pm_next_tree st' \<and>
     (\<forall>n. parent_node (pm_tnodes st' n) = parent_node (pm_tnodes st n) \<and> tn_children (pm_tnodes st' n) = tn_children (pm_tnodes st n) \<and>
        (\<exists>ty. pm_nodes st' n = (pm_nodes st n)\<lparr>node_type := ty\<rparr>))"

lemma same_shape_node:
  assumes "same_shape st st'"
  shows "node_val (pm_nodes st' n) = node_val (pm_nodes st n)" and "node_func (pm_nodes st' n) = node_func (pm_nodes st n)"
    and "node_di_type (pm_nodes st' n) = node_di_type (pm_nodes st n)"
    and "out_edge_set (pm_nodes st' n) = out_edge_set (pm_nodes st n)" and "in_edge_set (pm_nodes st' n) = in_edge_set (pm_nodes st n)"
    and "out_neighbors (pm_nodes st' n) = out_neighbors (pm_nodes st n)" and "in_neighbors (pm_nodes st' n) = in_neighbors (pm_nodes st n)"
    and "out_neighbors_with_edge_type (pm_nodes st' n) = out_neighbors_with_edge_type (pm_nodes st n)"
    and "in_neighbors_with_edge_type (pm_nodes st' n) = in_neighbors_with_edge_type (pm_nodes st n)"
proof -
  obtain ty where "pm_nodes st' n = (pm_nodes st n)\<lparr>node_type := ty\<rparr>" using assms unfolding same_shape_def by blast
  then show "node_val (pm_nodes st' n) = node_val (pm_nodes st n)" "node_func (pm_nodes st' n) = node_func (pm_nodes st n)"
    "node_di_type (pm_nodes st' n) = node_di_type (pm_nodes st n)"
    "out_edge_set (pm_nodes st' n) = out_edge_set (pm_nodes st n)" "in_edge_set (pm_nodes st' n) = in_edge_set (pm_nodes st n)"
    "out_neighbors (pm_nodes st' n) = out_neighbors (pm_nodes st n)" "in_neighbors (pm_nodes st' n) = in_neighbors (pm_nodes st n)"
    "out_neighbors_with_edge_type (pm_nodes st' n) = out_neighbors_with_edge_type (pm_nodes st n)"
    "in_neighbors_with_edge_type (pm_nodes st' n) = in_neighbors_with_edge_type (pm_nodes st n)" by simp_all
qed

lemma same_shape_ok:
  assumes "same_shape st st'" and "mem_ok st"
  shows "mem_ok st'" and "extends st st'"
proof -
  have f: "pm_next st' = pm_next st" "\<And>n. parent_node (pm_tnodes st' n) = parent_node (pm_tnodes st n)"
    "\<And>n. tn_children (pm_tnodes st' n) = tn_children (pm_tnodes st n)" "pm_next_tree st \<le> pm_next_tree st'"
    using assms(1) by (auto simp: same_shape_def)
  have "mem_ok st' = mem_ok st" by (simp only: mem_ok_def field_edges_def mirrors_def f same_shape_node [OF assms(1)])
  then show "mem_ok st'" using assms(2) by simp
  show "extends st st'" by (simp add: extends_def f same_shape_node [OF assms(1)])
qed

lemma node_type_id: "\<exists>ty. x = x\<lparr>node_type := ty\<rparr>" for x :: Node
  by (rule exI [of _ "node_type x"]) simp

lemma same_shapeI:
  assumes "pm_next st' = pm_next st" and "pm_next_tree st \<le> pm_next_tree st'" and "pm_nodes st' = pm_nodes st"
    and "\<And>n. parent_node (pm_tnodes st' n) = parent_node (pm_tnodes st n) \<and> tn_children (pm_tnodes st' n) = tn_children (pm_tnodes st n)"
  shows "same_shape st st'"
  using assms(1,2,4) node_type_id unfolding same_shape_def assms(3) by blast

lemma setTreeNodeType_same_shape: "same_shape st (setTreeNodeType t ty st)"
proof -
  let ?r = "root_node (pm_trees st t)"
  have "\<exists>u. pm_nodes (setTreeNodeType t ty st) n = (pm_nodes st n)\<lparr>node_type := u\<rparr>" for n
    using node_type_id by (cases "n = ?r") (auto simp: setTreeNodeType_def Let_def)
  moreover have "pm_next (setTreeNodeType t ty st) = pm_next st" "pm_tnodes (setTreeNodeType t ty st) = pm_tnodes st"
    "pm_next_tree (setTreeNodeType t ty st) = pm_next_tree st" by (simp_all add: setTreeNodeType_def Let_def)
  ultimately show ?thesis unfolding same_shape_def by simp
qed

lemma setters_same_shape [simp]:
  "same_shape st (setRootNode t n st)" "same_shape st (setBaseVal t v st)"
  "same_shape st (addAddrVars m vs st)" "same_shape st (setDILocalVariable m lv st)" "same_shape st (snd (alloc_tree tr st))"
  by (rule same_shapeI; simp add: setRootNode_def setBaseVal_def addAddrVars_def setDILocalVariable_def alloc_tree_def Let_def)+

text \<open>The store of an example: the tree 1 with the root 1 for a pointer to the recursive structure of \<open>di_example\<close>.\<close>

definition tree_example :: pdg_mem where
  "tree_example = \<lparr>pm_nodes = (\<lambda>n. if n = 1 then (new_Node FORMAL_IN)\<lparr>node_di_type := 5\<rparr> else new_Node INST),
     pm_tnodes = (\<lambda>_. mk_TreeNode 1 0 0), pm_trees = (\<lambda>_. \<lparr>base_val = 0, root_node = 1, tree_size = 0\<rparr>), pm_next = 2, pm_next_tree = 2\<rparr>"

lemma tree_example_ok: "mem_ok tree_example"
  by (simp add: mem_ok_def field_edges_def mirrors_def tree_example_def mk_TreeNode_def new_Node_def)

theorem tree_build_refines_witness:
  "(\<exists>st'. tree_build empty_ir di_example 1 tree_example = Some st' \<and> read_tree 8 st' 1 = type_unfold 6 di_example 5) \<and>
   type_unfold 2 di_example 5 = TypeTree 5 [TypeTree 4 [TypeTree 6 [], TypeTree 7 []]]"
proof
  have "\<exists>st'. tree_build empty_ir di_example 1 tree_example = Some st' \<and> mem_ok st' \<and>
    (\<forall>j \<ge> 6. read_tree j st' 1 = type_unfold 6 di_example (node_di_type (pm_nodes tree_example 1))) \<and>
    (\<forall>n < pm_next tree_example. n \<noteq> 1 \<longrightarrow> tn_children (pm_tnodes st' n) = tn_children (pm_tnodes tree_example n))"
    by (rule tree_build_refines [OF di_example_ok tree_example_ok]) (simp_all add: tree_example_def mk_TreeNode_def)
  then show "\<exists>st'. tree_build empty_ir di_example 1 tree_example = Some st' \<and> read_tree 8 st' 1 = type_unfold 6 di_example 5"
    by (auto simp: tree_example_def)
  have "expand_types di_example 5 = Some [4]" "expand_types di_example 4 = Some [6, 7]"
    by (simp_all add: expand_types_def plain_type_def stripMemberTag_def stripAttributes.simps isPointerType_def isStructType_def
        getLowestDIType.simps attribute_tag_def di_example_def)
  then show "type_unfold 2 di_example 5 = TypeTree 5 [TypeTree 4 [TypeTree 6 [], TypeTree 7 []]]"
    by (simp add: numeral_2_eq_2)
qed

end
