(* ===== verification/Program_Graph.thy ===== *)
theory Program_Graph
  imports Param_Tree Data_Dependency
begin

text \<open>
  The construction of the program graph (\<^verbatim>\<open>Graph.cpp\<close>, \<^verbatim>\<open>FunctionWrapper.cpp\<close>, \<^verbatim>\<open>CallWrapper.cpp\<close>): a node for every instruction and
  global, an entry node per function, the trees of its parameters and of its returned value, and debug types for the
  nodes.  The record \<open>dbg\<close> lists what the code reads of the debug intrinsics and the metadata of functions and
  globals; the types themselves are the record \<open>di\<close>.  Plain nodes are allocated in the same store as tree nodes.  Pointers to trees that a constructor leaves
  uninitialised are null in the model.
\<close>

subsection \<open>Debug information of a module\<close>

record dbg =
  isDbgDeclare :: "vid \<Rightarrow> bool"
  dbgVariable :: "vid \<Rightarrow> nat"
  dbgAddress :: "vid \<Rightarrow> vid"
  varArg :: "nat \<Rightarrow> nat"
  varName :: "nat \<Rightarrow> string"
  varSubprogram :: "nat \<Rightarrow> nat"
  varType :: "nat \<Rightarrow> dtid"
  fnSubprogram :: "vid \<Rightarrow> nat"
  fnTypeArrays :: "vid \<Rightarrow> dtid list list"
  gvTypes :: "vid \<Rightarrow> dtid list"
  isConstantGlobal :: "vid \<Rightarrow> bool"
  uninitTree :: "tid \<Rightarrow> Tree"

definition getGlobalVarDIType :: "dbg \<Rightarrow> vid \<Rightarrow> dtid" where
  "getGlobalVarDIType B gv = (case gvTypes B gv of [] \<Rightarrow> 0 | t # _ \<Rightarrow> t)"

definition getFuncRetDIType :: "ir \<Rightarrow> dbg \<Rightarrow> vid \<Rightarrow> dtid" where
  "getFuncRetDIType I B F =
     (case fnTypeArrays B F of
        [] \<Rightarrow> 0
      | type_ref # _ \<Rightarrow> if length type_ref \<le> length (formals I F) then 0 else hd type_ref)"

subsection \<open>Functions\<close>

record FunctionWrapper =
  fw_func :: vid
  entry_node :: nid
  arg_list :: "vid list"
  alloca_insts :: "vid list"
  store_insts :: "vid list"
  load_insts :: "vid list"
  dbg_declare_insts :: "vid list"
  call_insts :: "vid list"
  return_insts :: "vid list"
  arg_formal_in_tree_map :: "(vid, tid) dict"
  arg_formal_out_tree_map :: "(vid, tid) dict"
  ret_val_formal_in_tree :: tid
  ret_val_formal_out_tree :: tid

definition alloc_plain :: "Node \<Rightarrow> pdg_mem \<Rightarrow> nid \<times> pdg_mem" where
  "alloc_plain n = alloc_node n (mk_TreeNode 0 0 0)"

definition new_FunctionWrapper :: "ir \<Rightarrow> vid \<Rightarrow> pdg_mem \<Rightarrow> FunctionWrapper \<times> pdg_mem" where
  "new_FunctionWrapper I F m =
     (let (e, m') = alloc_plain ((new_Node FUNC_ENTRY)\<lparr>node_func := F, node_di_type := 0\<rparr>) m
      in (\<lparr>fw_func = F, entry_node = e, arg_list = formals I F, alloca_insts = [], store_insts = [], load_insts = [],
            dbg_declare_insts = [], call_insts = [], return_insts = [], arg_formal_in_tree_map = [], arg_formal_out_tree_map = [],
            ret_val_formal_in_tree = 0, ret_val_formal_out_tree = 0\<rparr>, m'))"

definition addInst :: "ir \<Rightarrow> dbg \<Rightarrow> vid \<Rightarrow> FunctionWrapper \<Rightarrow> FunctionWrapper" where
  "addInst I B i fw =
     fw\<lparr>alloca_insts := alloca_insts fw @ (if kind I i = KAlloca then [i] else []),
        store_insts := store_insts fw @ (if kind I i = KStore then [i] else []),
        load_insts := load_insts fw @ (if kind I i = KLoad then [i] else []),
        dbg_declare_insts := dbg_declare_insts fw @ (if isDbgDeclare B i then [i] else []),
        call_insts := call_insts fw @ (if kind I i = KCall \<and> \<not> isDbgDeclare B i then [i] else []),
        return_insts := return_insts fw @ (if kind I i = KReturn then [i] else [])\<rparr>"

definition argNo :: "ir \<Rightarrow> vid \<Rightarrow> vid \<Rightarrow> nat" where
  "argNo I F a = length (takeWhile (\<lambda>b. b \<noteq> a) (formals I F))"

definition declares_arg :: "ir \<Rightarrow> dbg \<Rightarrow> FunctionWrapper \<Rightarrow> vid \<Rightarrow> vid \<Rightarrow> bool" where
  "declares_arg I B fw a i \<longleftrightarrow>
     (let v = dbgVariable B i
      in v \<noteq> 0 \<and> varArg B v = argNo I (fw_func fw) a + 1 \<and> varName B v \<noteq> [] \<and> varSubprogram B v = fnSubprogram B (fw_func fw))"

definition getArgDILocalVar :: "ir \<Rightarrow> dbg \<Rightarrow> FunctionWrapper \<Rightarrow> vid \<Rightarrow> nat" where
  "getArgDILocalVar I B fw a =
     (case find (declares_arg I B fw a) (dbg_declare_insts fw) of None \<Rightarrow> 0 | Some i \<Rightarrow> dbgVariable B i)"

definition getArgDIType :: "ir \<Rightarrow> dbg \<Rightarrow> FunctionWrapper \<Rightarrow> vid \<Rightarrow> dtid" where
  "getArgDIType I B fw a =
     (case find (declares_arg I B fw a) (dbg_declare_insts fw) of None \<Rightarrow> 0 | Some i \<Rightarrow> varType B (dbgVariable B i))"

definition getArgAllocaInst :: "ir \<Rightarrow> dbg \<Rightarrow> FunctionWrapper \<Rightarrow> vid \<Rightarrow> vid" where
  "getArgAllocaInst I B fw a =
     (case find (\<lambda>i. declares_arg I B fw a i \<and> kind I (dbgAddress B i) = KAlloca) (dbg_declare_insts fw) of
        None \<Rightarrow> 0 | Some i \<Rightarrow> dbgAddress B i)"

definition dict_insert :: "'k \<Rightarrow> 'v \<Rightarrow> ('k, 'v) dict \<Rightarrow> ('k, 'v) dict" where
  "dict_insert k v m = (if contains m k then m else (k, v) # m)"

text \<open>The copy of a tree takes over the type of the root; the addresses of the root are added to it before it is built.\<close>

definition build_copy :: "ir \<Rightarrow> di \<Rightarrow> dbg \<Rightarrow> tid \<Rightarrow> vid option \<Rightarrow> GraphNodeType \<Rightarrow> vid list \<Rightarrow> pdg_mem \<Rightarrow> (tid \<times> pdg_mem) option" where
  "build_copy I D B src base ty vs m =
     (let (t, m1) = copy_Tree (uninitTree B) src m;
          m2 = (case base of None \<Rightarrow> m1 | Some v \<Rightarrow> setBaseVal t v m1);
          m3 = addAddrVars (root_node (pm_trees m2 t)) vs m2;
          m4 = setTreeNodeType t ty m3
      in map_option (Pair t) (tree_build I D t m4))"

definition buildFormalTreeForArg :: "ir \<Rightarrow> di \<Rightarrow> dbg \<Rightarrow> vid \<Rightarrow> FunctionWrapper \<times> pdg_mem \<Rightarrow> (FunctionWrapper \<times> pdg_mem) option" where
  "buildFormalTreeForArg I D B a acc =
     (let (fw, m) = acc; di_local_var = getArgDILocalVar I B fw a; arg_alloca_inst = getArgAllocaInst I B fw a
      in if di_local_var = 0 \<or> arg_alloca_inst = 0 then Some (fw, m)
         else let (t, m1) = new_Tree_val (uninitTree B) a m;
                  (n, m2) = new_TreeNode (fw_func fw) (varType B di_local_var) 0 0 t FORMAL_IN m1;
                  m3 = addAddrVars n (sorted_list_of_set (computeAddrTakenVarsFromAlloc I arg_alloca_inst)) (setDILocalVariable n di_local_var m2)
              in Option.bind (tree_build I D t (setRootNode t n m3)) (\<lambda>m4.
                   Option.bind (build_copy I D B t (Some a) FORMAL_OUT (addr_vars (pm_tnodes m4 n)) m4) (\<lambda>(t', m5).
                     Some (fw\<lparr>arg_formal_in_tree_map := dict_insert a t (arg_formal_in_tree_map fw),
                              arg_formal_out_tree_map := dict_insert a t' (arg_formal_out_tree_map fw)\<rparr>, m5))))"

definition buildFormalTreeForArgs :: "ir \<Rightarrow> di \<Rightarrow> dbg \<Rightarrow> FunctionWrapper \<times> pdg_mem \<Rightarrow> (FunctionWrapper \<times> pdg_mem) option" where
  "buildFormalTreeForArgs I D B acc = fold_option (buildFormalTreeForArg I D B) (arg_list (fst acc)) acc"

definition addRetVal :: "ir \<Rightarrow> vid \<Rightarrow> nid \<Rightarrow> vid \<Rightarrow> pdg_mem \<Rightarrow> pdg_mem option" where
  "addRetVal I F n ret_inst m =
     (let ret_val = getOperand I ret_inst 0
      in if ret_val = 0 then Some m
         else map_option (\<lambda>alias_vals. addAddrVars n (ret_val # sorted_list_of_set alias_vals) m) (computeAliasForRetVal I ret_val F))"

definition buildFormalTreesForRetVal :: "ir \<Rightarrow> di \<Rightarrow> dbg \<Rightarrow> FunctionWrapper \<times> pdg_mem \<Rightarrow> (FunctionWrapper \<times> pdg_mem) option" where
  "buildFormalTreesForRetVal I D B acc =
     (let (fw, m) = acc; (t, m1) = new_Tree (uninitTree B) m;
          (n, m2) = new_TreeNode (fw_func fw) (getFuncRetDIType I B (fw_func fw)) 0 0 t FORMAL_IN m1
      in Option.bind (fold_option (addRetVal I (fw_func fw) n) (return_insts fw) m2) (\<lambda>m3.
           Option.bind (tree_build I D t (setRootNode t n m3)) (\<lambda>m4.
             Option.bind (build_copy I D B t None FORMAL_OUT (addr_vars (pm_tnodes m4 n)) m4) (\<lambda>(t', m5).
               Some (fw\<lparr>ret_val_formal_in_tree := t, ret_val_formal_out_tree := t'\<rparr>, m5)))))"

definition getArgFormalInTree :: "FunctionWrapper \<Rightarrow> vid \<Rightarrow> tid option" where
  "getArgFormalInTree fw a = map_of (arg_formal_in_tree_map fw) a"

definition getArgFormalOutTree :: "FunctionWrapper \<Rightarrow> vid \<Rightarrow> tid option" where
  "getArgFormalOutTree fw a = map_of (arg_formal_out_tree_map fw) a"

subsection \<open>Call sites\<close>

record CallWrapper =
  cw_call_inst :: vid
  cw_called_func :: "vid option"
  cw_arg_list :: "vid list"
  arg_actual_in_tree_map :: "(vid, tid) dict"
  arg_actual_out_tree_map :: "(vid, tid) dict"
  ret_val_actual_in_tree :: tid
  ret_val_actual_out_tree :: tid

definition new_CallWrapper :: "ir \<Rightarrow> vid \<Rightarrow> CallWrapper" where
  "new_CallWrapper I ci =
     \<lparr>cw_call_inst = ci, cw_called_func = getCalledFunc I ci, cw_arg_list = callArgs I ci, arg_actual_in_tree_map = [],
      arg_actual_out_tree_map = [], ret_val_actual_in_tree = 0, ret_val_actual_out_tree = 0\<rparr>"

fun buildActualTrees :: "ir \<Rightarrow> di \<Rightarrow> dbg \<Rightarrow> FunctionWrapper \<Rightarrow> (vid \<times> vid) list \<Rightarrow> CallWrapper \<times> pdg_mem \<Rightarrow> (CallWrapper \<times> pdg_mem) option" where
  "buildActualTrees I D B callee_fw [] acc = Some acc"
| "buildActualTrees I D B callee_fw ((actual, formal) # args) (cw, m) =
     (case getArgFormalInTree callee_fw formal of
        None \<Rightarrow> Some (cw, m)
      | Some arg_formal_in_tree \<Rightarrow>
          Option.bind (build_copy I D B arg_formal_in_tree (Some actual) ACTUAL_IN [actual] m) (\<lambda>(t1, m1).
            Option.bind (build_copy I D B arg_formal_in_tree (Some actual) ACTUAL_OUT [actual] m1) (\<lambda>(t2, m2).
              buildActualTrees I D B callee_fw args
                (cw\<lparr>arg_actual_in_tree_map := dict_insert actual t1 (arg_actual_in_tree_map cw),
                    arg_actual_out_tree_map := dict_insert actual t2 (arg_actual_out_tree_map cw)\<rparr>, m2))))"

definition buildActualTreeForArgs :: "cg_env \<Rightarrow> ir \<Rightarrow> di \<Rightarrow> dbg \<Rightarrow> FunctionWrapper \<Rightarrow> CallWrapper \<times> pdg_mem \<Rightarrow> (CallWrapper \<times> pdg_mem) option" where
  "buildActualTreeForArgs E I D B callee_fw acc =
     (if isVarArg E (fw_func callee_fw) then Some acc
      else if length (cw_arg_list (fst acc)) \<noteq> length (arg_list callee_fw) then None
      else buildActualTrees I D B callee_fw (zip (cw_arg_list (fst acc)) (arg_list callee_fw)) acc)"

definition buildActualTreesForRetVal :: "ir \<Rightarrow> di \<Rightarrow> dbg \<Rightarrow> FunctionWrapper \<Rightarrow> CallWrapper \<times> pdg_mem \<Rightarrow> (CallWrapper \<times> pdg_mem) option" where
  "buildActualTreesForRetVal I D B callee_fw acc =
     (let (cw, m) = acc; src = ret_val_formal_in_tree callee_fw
      in if src = 0 then Some acc
         else Option.bind (build_copy I D B src None ACTUAL_IN [cw_call_inst cw] m) (\<lambda>(t1, m1).
                Option.bind (build_copy I D B src None ACTUAL_OUT [cw_call_inst cw] m1) (\<lambda>(t2, m2).
                  Some (cw\<lparr>ret_val_actual_in_tree := t1, ret_val_actual_out_tree := t2\<rparr>, m2))))"

definition getArgActualInTree :: "CallWrapper \<Rightarrow> vid \<Rightarrow> tid option" where
  "getArgActualInTree cw a = map_of (arg_actual_in_tree_map cw) a"

definition getArgActualOutTree :: "CallWrapper \<Rightarrow> vid \<Rightarrow> tid option" where
  "getArgActualOutTree cw a = map_of (arg_actual_out_tree_map cw) a"

definition getArgIdxByVal :: "CallWrapper \<Rightarrow> vid \<Rightarrow> int" where
  "getArgIdxByVal cw v =
     (if v \<notin> set (cw_arg_list cw) then - 1 else int (length (takeWhile (\<lambda>a. a \<noteq> v) (cw_arg_list cw))))"

subsection \<open>The program graph\<close>

record ProgramGraph =
  pg_graph :: GenericGraph
  pg_mem :: pdg_mem
  func_wrapper_map :: "(vid, FunctionWrapper) dict"
  call_wrapper_map :: "(vid, CallWrapper) dict"
  global_var_tree_map :: "(vid, tid) dict"
  node_di_type_map :: "(nid, dtid) dict"
  allocators :: "vid set"
  deallocators :: "vid set"

definition bindNode :: "vid \<Rightarrow> nid \<Rightarrow> GenericGraph \<Rightarrow> GenericGraph" where
  "bindNode v n G = addNode n (G\<lparr>val_node_map := dict_insert v n (val_node_map G)\<rparr>)"

definition buildGlobal :: "ir \<Rightarrow> di \<Rightarrow> dbg \<Rightarrow> vid \<Rightarrow> ProgramGraph \<Rightarrow> ProgramGraph option" where
  "buildGlobal I D B gv pg =
     (if isConstantGlobal B gv \<or> getGlobalVarDIType B gv = 0 then Some pg
      else let (n, m1) = new_TreeNode_val I gv GLOBAL_VAR (pg_mem pg);
               (t, m2) = new_Tree_val (uninitTree B) gv (addAddrVars n [gv] m1)
           in Option.bind (tree_build I D t (setRootNode t n m2)) (\<lambda>m3.
                Some (pg\<lparr>pg_mem := m3, pg_graph := bindNode gv n (pg_graph pg),
                         global_var_tree_map := dict_insert gv t (global_var_tree_map pg)\<rparr>)))"

definition KernelAllocators :: "string list" where
  "KernelAllocators = [''kzalloc'', ''kmalloc'', ''kvzalloc'', ''vzalloc'', ''__kmalloc'', ''alloc_netdev'', ''alloc_netdev_mqs'']"

definition KernelDeAllocators :: "string list" where
  "KernelDeAllocators = [''kfree'']"

definition calls_one_of :: "string list \<Rightarrow> ir \<Rightarrow> vid \<Rightarrow> bool" where
  "calls_one_of names I i \<longleftrightarrow> kind I i = KCall \<and>
     (case getCalledFunc I i of None \<Rightarrow> False | Some f \<Rightarrow> stripFuncNameVersionNumber (valueName I f) \<in> set names)"

definition is_allocator :: "ir \<Rightarrow> vid \<Rightarrow> bool" where
  "is_allocator I i \<longleftrightarrow> calls_one_of KernelAllocators I i \<or> kind I i = KAlloca \<and> isArrayTy (getElementType (typeOf I i))"

definition buildInst :: "ir \<Rightarrow> dbg \<Rightarrow> vid \<Rightarrow> FunctionWrapper \<times> ProgramGraph \<Rightarrow> FunctionWrapper \<times> ProgramGraph" where
  "buildInst I B i acc =
     (let (fw, pg) = acc; (n, m) = alloc_plain (new_Node_val I i INST) (pg_mem pg)
      in (addInst I B i fw,
          pg\<lparr>pg_mem := m, pg_graph := bindNode i n (pg_graph pg),
             allocators := (if is_allocator I i then insert i (allocators pg) else allocators pg),
             deallocators := (if calls_one_of KernelDeAllocators I i then insert i (deallocators pg) else deallocators pg)\<rparr>))"

partial_function (option) addTree_loop :: "pdg_mem \<Rightarrow> nid list \<Rightarrow> GenericGraph \<Rightarrow> GenericGraph option" where
  "addTree_loop m node_queue G =
     (case node_queue of
        [] \<Rightarrow> Some G
      | current_node # rest \<Rightarrow> addTree_loop m (rest @ tn_children (pm_tnodes m current_node)) (addNode current_node G))"

definition addTreeNodesToGraph :: "pdg_mem \<Rightarrow> tid \<Rightarrow> GenericGraph \<Rightarrow> GenericGraph option" where
  "addTreeNodesToGraph m t G = addTree_loop m [root_node (pm_trees m t)] G"

fun addFormalTrees :: "pdg_mem \<Rightarrow> FunctionWrapper \<Rightarrow> vid list \<Rightarrow> GenericGraph \<Rightarrow> GenericGraph option" where
  "addFormalTrees m fw [] G = Some G"
| "addFormalTrees m fw (a # args) G =
     (case (getArgFormalInTree fw a, getArgFormalOutTree fw a) of
        (Some formal_in_tree, Some formal_out_tree) \<Rightarrow>
          Option.bind (addTreeNodesToGraph m formal_in_tree G) (\<lambda>G1.
            Option.bind (addTreeNodesToGraph m formal_out_tree G1) (addFormalTrees m fw args))
      | _ \<Rightarrow> Some G)"

definition addFormalTreeNodesToGraph :: "pdg_mem \<Rightarrow> FunctionWrapper \<Rightarrow> GenericGraph \<Rightarrow> GenericGraph option" where
  "addFormalTreeNodesToGraph m fw = addFormalTrees m fw (arg_list fw)"

definition buildFunction :: "ir \<Rightarrow> di \<Rightarrow> dbg \<Rightarrow> vid \<Rightarrow> ProgramGraph \<Rightarrow> ProgramGraph option" where
  "buildFunction I D B F pg =
     (if isDeclaration I F \<or> blocks I F = [] then Some pg
      else let (fw0, m0) = new_FunctionWrapper I F (pg_mem pg);
               (fw1, pg1) = fold (buildInst I B) (instructions I F) (fw0, pg\<lparr>pg_mem := m0\<rparr>)
           in Option.bind (buildFormalTreeForArgs I D B (fw1, pg_mem pg1)) (\<lambda>acc.
                Option.bind (buildFormalTreesForRetVal I D B acc) (\<lambda>(fw2, m2).
                  Option.bind (addFormalTreeNodesToGraph m2 fw2 (pg_graph pg1)) (\<lambda>G2.
                    Some (pg1\<lparr>pg_mem := m2, pg_graph := addNode (entry_node fw2) G2,
                              func_wrapper_map := dict_insert F fw2 (func_wrapper_map pg1)\<rparr>)))))"

definition hasFuncWrapper :: "ProgramGraph \<Rightarrow> vid \<Rightarrow> bool" where
  "hasFuncWrapper pg F \<longleftrightarrow> contains (func_wrapper_map pg) F"

definition addCallWrapper :: "ir \<Rightarrow> vid \<Rightarrow> ProgramGraph \<Rightarrow> ProgramGraph" where
  "addCallWrapper I ci pg =
     (case getCalledFunc I ci of
        None \<Rightarrow> pg
      | Some called_func \<Rightarrow>
          if hasFuncWrapper pg called_func
          then pg\<lparr>call_wrapper_map := dict_insert ci (new_CallWrapper I ci) (call_wrapper_map pg)\<rparr> else pg)"

definition buildCallSites :: "ir \<Rightarrow> vid \<Rightarrow> ProgramGraph \<Rightarrow> ProgramGraph" where
  "buildCallSites I F pg =
     (if isDeclaration I F \<or> blocks I F = [] then pg
      else case map_of (func_wrapper_map pg) F of
             None \<Rightarrow> pg
           | Some func_w \<Rightarrow> fold (addCallWrapper I) (call_insts func_w) pg)"

definition pdg_build :: "ir \<Rightarrow> di \<Rightarrow> dbg \<Rightarrow> ProgramGraph \<Rightarrow> ProgramGraph option" where
  "pdg_build I D B pg =
     Option.bind (fold_option (buildGlobal I D B) (moduleGlobals I) pg) (\<lambda>pg1.
       Option.bind (fold_option (buildFunction I D B) (moduleFunctions I) pg1) (\<lambda>pg2.
         let pg3 = fold (buildCallSites I) (moduleFunctions I) pg2
         in Some (pg3\<lparr>pg_graph := (pg_graph pg3)\<lparr>is_build := True\<rparr>\<rparr>)))"

subsection \<open>Growth of the store\<close>

text \<open>Operations allocate, keep the store well-formed and do not touch the trees below \<open>k\<close>.\<close>

definition grow :: "tid \<Rightarrow> pdg_mem \<Rightarrow> pdg_mem \<Rightarrow> bool" where
  "grow k m m' \<longleftrightarrow> mem_ok m' \<and> extends m m' \<and> (\<forall>u < k. root_node (pm_trees m' u) = root_node (pm_trees m u))"

lemma grow_refl: "mem_ok m \<Longrightarrow> grow k m m"
  by (simp add: grow_def)

lemma grow_trans: "grow k a b \<Longrightarrow> grow k b c \<Longrightarrow> grow k a c"
  using extends_trans by (auto simp: grow_def)

lemma grow_weaken: "grow k a b \<Longrightarrow> j \<le> k \<Longrightarrow> grow j a b"
  by (simp add: grow_def)

lemma grow_ok: "grow k m m' \<Longrightarrow> mem_ok m'"
  by (simp add: grow_def)

lemma grow_next: "grow k m m' \<Longrightarrow> pm_next m \<le> pm_next m' \<and> pm_next_tree m \<le> pm_next_tree m'"
  by (simp add: grow_def extends_def)

lemma grow_same_shape:
  "mem_ok m \<Longrightarrow> same_shape m m' \<Longrightarrow> (\<And>u. u < k \<Longrightarrow> root_node (pm_trees m' u) = root_node (pm_trees m u)) \<Longrightarrow> grow k m m'"
  using same_shape_ok by (simp add: grow_def)

lemma grow_alloc_node: "mem_ok m \<Longrightarrow> blank x \<Longrightarrow> alloc_node x (mk_TreeNode tr 0 d) m = (a, m') \<Longrightarrow> grow k m m'"
  using alloc_node_ok alloc_node_fields(5) by (simp add: grow_def)

text \<open>A tree whose root is allocated and has no children yet.\<close>

definition fresh_root :: "tid \<Rightarrow> pdg_mem \<Rightarrow> bool" where
  "fresh_root t m \<longleftrightarrow> (let r = root_node (pm_trees m t) in 0 < r \<and> r < pm_next m \<and> tn_children (pm_tnodes m r) = [])"

lemma fresh_root_same_shape:
  "same_shape m m' \<Longrightarrow> root_node (pm_trees m' t) = root_node (pm_trees m t) \<Longrightarrow> fresh_root t m \<Longrightarrow> fresh_root t m'"
  by (simp add: fresh_root_def same_shape_def Let_def)

lemma tree_build_grow:
  assumes "di_ok D" and "mem_ok m" and "fresh_root t m"
  shows "\<exists>m'. tree_build I D t m = Some m' \<and> grow k m m' \<and> root_node (pm_trees m' t) < pm_next m'"
proof -
  obtain m' where m': "tree_build I D t m = Some m'" "levels_expanded max_tree_depth D [root_node (pm_trees m t)] m m'"
    using tree_build_ok [OF assms(1,2) refl, of t I] assms(3) by (auto simp: fresh_root_def Let_def)
  then have "grow k m m'" "root_node (pm_trees m' t) = root_node (pm_trees m t)" by (simp_all add: grow_def levels_expanded_def)
  then show ?thesis using m'(1) assms(3) grow_next [of k m m'] by (auto simp: fresh_root_def Let_def)
qed

lemma roots_set [simp]:
  "root_node (pm_trees (setBaseVal t v m) u) = root_node (pm_trees m u)" "root_node (pm_trees (addAddrVars n vs m) u) = root_node (pm_trees m u)"
  "root_node (pm_trees (setTreeNodeType t ty m) u) = root_node (pm_trees m u)" "root_node (pm_trees (setDILocalVariable n lv m) u) = root_node (pm_trees m u)"
  "root_node (pm_trees (setRootNode t n m) u) = (if u = t then n else root_node (pm_trees m u))"
  by (simp_all add: setBaseVal_def addAddrVars_def setTreeNodeType_def setDILocalVariable_def setRootNode_def Let_def)

lemma alloc_tree_fields:
  "alloc_tree tr m = (t, m') \<Longrightarrow> t = pm_next_tree m \<and> pm_next_tree m' = Suc t \<and> same_shape m m' \<and>
     root_node (pm_trees m' u) = (if u = t then root_node tr else root_node (pm_trees m u))"
  using setters_same_shape(5) [of m tr] by (auto simp: alloc_tree_def Let_def)

lemma copy_Tree_ok:
  assumes "mem_ok m" and "copy_Tree uninit src m = (t, m')"
  shows "grow (pm_next_tree m) m m'" and "fresh_root t m'" and "t < pm_next_tree m'"
proof -
  obtain n m1 where n: "copy_TreeNode (root_node (pm_trees m src)) m = (n, m1)" by fastforce
  obtain x where x: "alloc_node x (mk_TreeNode 0 0 0) m = (n, m1)" "blank x"
    using n by (auto simp: copy_TreeNode_def Let_def)
  note f = alloc_node_fields [OF x(1)]
  have g1: "grow (pm_next_tree m) m m1" by (rule grow_alloc_node [OF assms(1) x(2,1)])
  obtain tr where tr: "alloc_tree tr m1 = (t, m')" "root_node tr = n" using assms(2) n by (auto simp: copy_Tree_def Let_def)
  note a = alloc_tree_fields [OF tr(1)]
  have "grow (pm_next_tree m) m1 m'" by (rule grow_same_shape) (use g1 a f in \<open>auto simp: grow_ok\<close>)
  then show "grow (pm_next_tree m) m m'" using g1 grow_trans by blast
  show "t < pm_next_tree m'" using a by simp
  have "0 < n" using assms(1) f by (simp add: mem_ok_def)
  moreover have "pm_next m' = Suc n" "tn_children (pm_tnodes m' n) = []" using a f by (simp_all add: same_shape_def mk_TreeNode_def)
  ultimately show "fresh_root t m'" using a tr(2) by (simp add: fresh_root_def Let_def)
qed

lemma build_copy_ok:
  assumes "di_ok D" and "mem_ok m"
  shows "\<exists>t m'. build_copy I D B src base ty vs m = Some (t, m') \<and> grow (pm_next_tree m) m m' \<and> root_node (pm_trees m' t) < pm_next m' \<and> t < pm_next_tree m'"
proof -
  let ?k = "pm_next_tree m"
  obtain t m1 where m1: "copy_Tree (uninitTree B) src m = (t, m1)" by fastforce
  note c = copy_Tree_ok [OF assms(2) m1]
  define m2 where "m2 = (case base of None \<Rightarrow> m1 | Some v \<Rightarrow> setBaseVal t v m1)"
  define m3 where "m3 = addAddrVars (root_node (pm_trees m2 t)) vs m2"
  define m4 where "m4 = setTreeNodeType t ty m3"
  have g2: "grow ?k m1 m2" "fresh_root t m2"
    using c grow_same_shape [of m1 "setBaseVal t _ m1" ?k] fresh_root_same_shape [of m1 "setBaseVal t _ m1" t]
    by (auto simp: m2_def grow_ok grow_refl split: option.splits)
  have g3: "grow ?k m2 m3" "fresh_root t m3"
    using grow_same_shape [of m2 m3 ?k] fresh_root_same_shape [of m2 m3 t] g2 grow_ok by (auto simp: m3_def)
  have g4: "grow ?k m3 m4" "fresh_root t m4"
    using grow_same_shape [of m3 m4 ?k] fresh_root_same_shape [of m3 m4 t] setTreeNodeType_same_shape [of m3 t ty] g3 grow_ok by (auto simp: m4_def)
  obtain m5 where m5: "tree_build I D t m4 = Some m5" "grow ?k m4 m5" "root_node (pm_trees m5 t) < pm_next m5"
    using tree_build_grow [OF assms(1) grow_ok [OF g4(1)] g4(2)] by blast
  have "build_copy I D B src base ty vs m = Some (t, m5)" using m1 m5(1) by (simp add: build_copy_def m4_def m3_def m2_def)
  moreover have g: "grow ?k m m5" using c(1) g2(1) g3(1) g4(1) m5(2) grow_trans by blast
  moreover have "pm_next_tree m1 \<le> pm_next_tree m5" using grow_next g2(1) g3(1) g4(1) m5(2) by (meson order.trans)
  ultimately show ?thesis using m5(3) c(3) by auto
qed

definition keeps :: "pdg_mem \<Rightarrow> pdg_mem \<Rightarrow> bool" where
  "keeps m m' \<longleftrightarrow> extends m m' \<and> (\<forall>u < pm_next_tree m. root_node (pm_trees m' u) = root_node (pm_trees m u))"

lemma grow_keeps: "grow (pm_next_tree m) m m' \<longleftrightarrow> mem_ok m' \<and> keeps m m'"
  by (simp add: grow_def keeps_def)

lemma keeps_refl [simp]: "keeps m m"
  by (simp add: keeps_def)

lemma keeps_trans: "keeps a b \<Longrightarrow> keeps b c \<Longrightarrow> keeps a c"
  using extends_trans [of a b c] by (auto simp: keeps_def extends_def)

lemma keeps_next: "keeps m m' \<Longrightarrow> pm_next m \<le> pm_next m' \<and> pm_next_tree m \<le> pm_next_tree m'"
  by (simp add: keeps_def extends_def)

lemma new_Tree_val_fields:
  assumes "new_Tree_val uninit v m = (t, m')"
  shows "t = pm_next_tree m \<and> pm_next_tree m' = Suc t \<and> same_shape m m' \<and> (\<forall>u < t. root_node (pm_trees m' u) = root_node (pm_trees m u))"
proof -
  have "alloc_tree ((uninit (pm_next_tree m))\<lparr>base_val := v\<rparr>) m = (t, m')" using assms by (simp add: new_Tree_val_def)
  from alloc_tree_fields [OF this] show ?thesis by simp
qed

lemma new_Tree_fields:
  assumes "new_Tree uninit m = (t, m')"
  shows "t = pm_next_tree m \<and> pm_next_tree m' = Suc t \<and> same_shape m m' \<and> (\<forall>u < t. root_node (pm_trees m' u) = root_node (pm_trees m u))"
proof -
  have "alloc_tree (uninit (pm_next_tree m)) m = (t, m')" using assms by (simp add: new_Tree_def)
  from alloc_tree_fields [OF this] show ?thesis by simp
qed

text \<open>The root of a new tree is allocated, and the tree is built after further setters.\<close>

lemma new_root_built:
  assumes "di_ok D" and "mem_ok m" and "t < pm_next_tree m2" and "k \<le> t"
    and "alloc_node x (mk_TreeNode tr 0 d) m = (n, m1)" and "blank x" and "same_shape m1 m2"
    and "\<And>u. u < k \<Longrightarrow> root_node (pm_trees m2 u) = root_node (pm_trees m1 u)"
  shows "\<exists>m'. tree_build I D t (setRootNode t n m2) = Some m' \<and> grow k m m' \<and> root_node (pm_trees m' t) < pm_next m' \<and> t < pm_next_tree m'"
proof -
  note f = alloc_node_fields [OF assms(5)]
  have g1: "grow k m m1" by (rule grow_alloc_node [OF assms(2,6,5)])
  have g2: "grow k m1 m2" by (rule grow_same_shape [OF grow_ok [OF g1] assms(7)]) (simp add: assms(8))
  have g3: "grow k m2 (setRootNode t n m2)" by (rule grow_same_shape [OF grow_ok [OF g2]]) (use assms(4) in auto)
  have "0 < n" using assms(2) f(1) by (simp add: mem_ok_def)
  moreover have "pm_next (setRootNode t n m2) = Suc n" "tn_children (pm_tnodes (setRootNode t n m2) n) = []"
    using assms(7) f by (simp_all add: same_shape_def setRootNode_def mk_TreeNode_def)
  ultimately have "fresh_root t (setRootNode t n m2)" by (simp add: fresh_root_def Let_def)
  then obtain m' where m': "tree_build I D t (setRootNode t n m2) = Some m'" "grow k (setRootNode t n m2) m'" "root_node (pm_trees m' t) < pm_next m'"
    using tree_build_grow [OF assms(1) grow_ok [OF g3]] by blast
  have "grow k m m'" using g1 g2 g3 m'(2) grow_trans by blast
  moreover have "grow k m2 m'" using g3 m'(2) grow_trans by blast
  ultimately show ?thesis using m' assms(3) grow_next [of k m2 m'] by auto
qed

definition fw_ok :: "FunctionWrapper \<Rightarrow> pdg_mem \<Rightarrow> bool" where
  "fw_ok fw m \<longleftrightarrow> (\<forall>t \<in> snd ` set (arg_formal_in_tree_map fw) \<union> snd ` set (arg_formal_out_tree_map fw).
     t < pm_next_tree m \<and> root_node (pm_trees m t) < pm_next m)"

definition same_function :: "FunctionWrapper \<Rightarrow> FunctionWrapper \<Rightarrow> bool" where
  "same_function fw fw' \<longleftrightarrow> fw_func fw' = fw_func fw \<and> entry_node fw' = entry_node fw \<and> arg_list fw' = arg_list fw \<and>
     dbg_declare_insts fw' = dbg_declare_insts fw \<and> call_insts fw' = call_insts fw \<and> return_insts fw' = return_insts fw"

lemma same_function_refl [simp]: "same_function fw fw"
  by (simp add: same_function_def)

lemma same_function_trans: "same_function a b \<Longrightarrow> same_function b c \<Longrightarrow> same_function a c"
  by (simp add: same_function_def)

lemma fw_ok_keeps: "fw_ok fw m \<Longrightarrow> keeps m m' \<Longrightarrow> fw_ok fw m'"
  unfolding fw_ok_def keeps_def extends_def by (metis order.strict_trans2)

lemma fw_ok_insert:
  assumes "fw_ok fw m" and "t1 < pm_next_tree m" "root_node (pm_trees m t1) < pm_next m" "t2 < pm_next_tree m" "root_node (pm_trees m t2) < pm_next m"
  shows "fw_ok (fw\<lparr>arg_formal_in_tree_map := dict_insert a t1 (arg_formal_in_tree_map fw),
    arg_formal_out_tree_map := dict_insert a t2 (arg_formal_out_tree_map fw)\<rparr>) m"
  using assms by (auto simp: fw_ok_def dict_insert_def)

definition fw_inv :: "FunctionWrapper \<times> pdg_mem \<Rightarrow> bool" where
  "fw_inv acc \<longleftrightarrow> mem_ok (snd acc) \<and> fw_ok (fst acc) (snd acc)"

definition fw_le :: "FunctionWrapper \<times> pdg_mem \<Rightarrow> FunctionWrapper \<times> pdg_mem \<Rightarrow> bool" where
  "fw_le acc acc' \<longleftrightarrow> same_function (fst acc) (fst acc') \<and> keeps (snd acc) (snd acc')"

lemma fw_le_refl [simp]: "fw_le acc acc"
  by (simp add: fw_le_def)

lemma fw_le_trans: "fw_le a b \<Longrightarrow> fw_le b c \<Longrightarrow> fw_le a c"
  using same_function_trans keeps_trans unfolding fw_le_def by blast

subsection \<open>The trees of a function\<close>

lemma buildFormalTreeForArg_ok:
  assumes "di_ok D" and "fw_inv acc"
  shows "\<exists>acc'. buildFormalTreeForArg I D B a acc = Some acc' \<and> fw_inv acc' \<and> fw_le acc acc'"
proof -
  obtain fw m where acc: "acc = (fw, m)" by fastforce
  have m: "mem_ok m" "fw_ok fw m" using assms(2) acc by (simp_all add: fw_inv_def)
  let ?lv = "getArgDILocalVar I B fw a" and ?ai = "getArgAllocaInst I B fw a" and ?k = "pm_next_tree m"
  show ?thesis
  proof (cases "?lv = 0 \<or> ?ai = 0")
    case True
    then show ?thesis using assms(2) acc by (auto simp: buildFormalTreeForArg_def Let_def)
  next
    case False
    obtain t m1 where m1: "new_Tree_val (uninitTree B) a m = (t, m1)" by fastforce
    note t = new_Tree_val_fields [OF m1]
    have g1: "grow ?k m m1" by (rule grow_same_shape [OF m(1)]) (use t in auto)
    obtain n m2 where m2: "new_TreeNode (fw_func fw) (varType B ?lv) 0 0 t FORMAL_IN m1 = (n, m2)" by fastforce
    define m3 where "m3 = addAddrVars n (sorted_list_of_set (computeAddrTakenVarsFromAlloc I ?ai)) (setDILocalVariable n ?lv m2)"
    have s3: "same_shape m2 m3" unfolding m3_def by (rule same_shapeI) (simp_all add: addAddrVars_def setDILocalVariable_def)
    obtain m4 where m4: "tree_build I D t (setRootNode t n m3) = Some m4" "grow ?k m1 m4" "root_node (pm_trees m4 t) < pm_next m4" "t < pm_next_tree m4"
      using new_root_built [OF assms(1) grow_ok [OF g1] _ _ m2 [unfolded new_TreeNode_def] _ s3, where k = ?k and I = I and t = t] t s3 alloc_node_fields(6) [OF m2 [unfolded new_TreeNode_def]]
      by (auto simp: m3_def same_shape_def)
    obtain t' m5 where m5: "build_copy I D B t (Some a) FORMAL_OUT (addr_vars (pm_tnodes m4 n)) m4 = Some (t', m5)" "grow (pm_next_tree m4) m4 m5"
        "root_node (pm_trees m5 t') < pm_next m5" "t' < pm_next_tree m5"
      using build_copy_ok [OF assms(1) grow_ok [OF m4(2)]] by blast
    let ?fw = "fw\<lparr>arg_formal_in_tree_map := dict_insert a t (arg_formal_in_tree_map fw),
      arg_formal_out_tree_map := dict_insert a t' (arg_formal_out_tree_map fw)\<rparr>"
    have "buildFormalTreeForArg I D B a acc = Some (?fw, m5)"
      using False acc m1 m2 m4(1) m5(1) by (simp add: buildFormalTreeForArg_def m3_def)
    moreover have k: "keeps m m5"
    proof -
      have "keeps m m4" using g1 m4(2) grow_trans grow_keeps by blast
      then show ?thesis using m5(2) grow_keeps keeps_trans by blast
    qed
    moreover have "fw_ok ?fw m5"
    proof (rule fw_ok_insert [OF fw_ok_keeps [OF m(2) k] _ _ m5(4,3)])
      have "keeps m4 m5" using m5(2) grow_keeps by blast
      then show "t < pm_next_tree m5" "root_node (pm_trees m5 t) < pm_next m5" using m4(3,4) by (auto simp: keeps_def extends_def)
    qed
    ultimately show ?thesis using grow_ok [OF m5(2)] acc by (auto simp: fw_inv_def fw_le_def same_function_def)
  qed
qed

interpretation arg_steps: total_steps "buildFormalTreeForArg I D B" "\<lambda>_. di_ok D" fw_inv fw_le for I D B
  by unfold_locales (use buildFormalTreeForArg_ok fw_le_trans in \<open>auto\<close>)

lemma buildFormalTreeForArgs_ok:
  "di_ok D \<Longrightarrow> fw_inv acc \<Longrightarrow> \<exists>acc'. buildFormalTreeForArgs I D B acc = Some acc' \<and> fw_inv acc' \<and> fw_le acc acc'"
  using arg_steps.loop_total [of D "arg_list (fst acc)" acc I B] by (simp add: buildFormalTreeForArgs_def list_all_iff)

lemma addRetVals_ok:
  assumes "same_shape m0 m" and "\<And>u. root_node (pm_trees m u) = root_node (pm_trees m0 u)"
  shows "\<exists>m'. fold_option (addRetVal I F n) rs m = Some m' \<and> same_shape m0 m' \<and> (\<forall>u. root_node (pm_trees m' u) = root_node (pm_trees m0 u))"
  using assms
proof (induction rs arbitrary: m)
  case Nil
  then show ?case by simp
next
  case (Cons r rs)
  obtain m1 where m1: "addRetVal I F n r m = Some m1" "same_shape m m1" "\<And>u. root_node (pm_trees m1 u) = root_node (pm_trees m u)"
  proof (cases "getOperand I r 0 = 0")
    case True
    have "same_shape m m" by (rule same_shapeI) simp_all
    then show ?thesis using that True by (simp add: addRetVal_def)
  next
    case False
    then show ?thesis using that computeAliasForRetVal_exact [of I "getOperand I r 0" F] by (simp add: addRetVal_def Let_def)
  qed
  have "same_shape m0 m1" using Cons.prems(1) m1(2) unfolding same_shape_def by (metis Node.surjective Node.update_convs(10) order.trans)
  then show ?case using Cons.IH [of m1] Cons.prems(2) m1 by simp
qed

lemma buildFormalTreesForRetVal_ok:
  assumes "di_ok D" and "fw_inv acc"
  shows "\<exists>acc'. buildFormalTreesForRetVal I D B acc = Some acc' \<and> fw_inv acc' \<and> fw_le acc acc'"
proof -
  obtain fw m where acc: "acc = (fw, m)" by fastforce
  have m: "mem_ok m" "fw_ok fw m" using assms(2) acc by (simp_all add: fw_inv_def)
  let ?k = "pm_next_tree m"
  obtain t m1 where m1: "new_Tree (uninitTree B) m = (t, m1)" by fastforce
  note t = new_Tree_fields [OF m1]
  have g1: "grow ?k m m1" by (rule grow_same_shape [OF m(1)]) (use t in auto)
  obtain n m2 where m2: "new_TreeNode (fw_func fw) (getFuncRetDIType I B (fw_func fw)) 0 0 t FORMAL_IN m1 = (n, m2)" by fastforce
  have "same_shape m2 m2" by (rule same_shapeI) simp_all
  then obtain m3 where m3: "fold_option (addRetVal I (fw_func fw) n) (return_insts fw) m2 = Some m3" "same_shape m2 m3"
      "\<And>u. root_node (pm_trees m3 u) = root_node (pm_trees m2 u)"
    using addRetVals_ok [of m2 m2 I "fw_func fw" n "return_insts fw"] by auto
  obtain m4 where m4: "tree_build I D t (setRootNode t n m3) = Some m4" "grow ?k m1 m4"
    using new_root_built [OF assms(1) grow_ok [OF g1] _ _ m2 [unfolded new_TreeNode_def] _ m3(2,3), where k = ?k and I = I and t = t] t m3(2)
      alloc_node_fields(6) [OF m2 [unfolded new_TreeNode_def]] by (auto simp: same_shape_def)
  obtain t' m5 where m5: "build_copy I D B t None FORMAL_OUT (addr_vars (pm_tnodes m4 n)) m4 = Some (t', m5)" "grow (pm_next_tree m4) m4 m5"
    using build_copy_ok [OF assms(1) grow_ok [OF m4(2)]] by blast
  let ?fw = "fw\<lparr>ret_val_formal_in_tree := t, ret_val_formal_out_tree := t'\<rparr>"
  have "buildFormalTreesForRetVal I D B acc = Some (?fw, m5)"
    using acc m1 m2 m3(1) m4(1) m5(1) by (simp add: buildFormalTreesForRetVal_def)
  moreover have k: "keeps m m5"
  proof -
    have "keeps m m4" using g1 m4(2) grow_trans grow_keeps by blast
    then show ?thesis using m5(2) grow_keeps keeps_trans by blast
  qed
  moreover have "fw_ok ?fw m5" using fw_ok_keeps [OF m(2) k] by (simp add: fw_ok_def)
  ultimately show ?thesis using grow_ok [OF m5(2)] acc by (auto simp: fw_inv_def fw_le_def same_function_def)
qed

subsection \<open>Adding the nodes of a tree\<close>

definition children_of :: "pdg_mem \<Rightarrow> nid \<Rightarrow> nid list" where
  "children_of m n = tn_children (pm_tnodes m n)"

lemma reach_insert: "set (succ n) \<subseteq> T \<Longrightarrow> reach succ (insert n T) = insert n (reach succ T)"
proof
  assume n: "set (succ n) \<subseteq> T"
  have "set (succ x) \<subseteq> insert n (reach succ T)" if "x \<in> insert n (reach succ T)" for x
    using that n reach_increasing [of T succ] reach_succ [of x succ T] by auto
  then have "reach succ (insert n T) \<subseteq> insert n (reach succ T)"
    by (intro reach_subset_universe) (use reach_increasing [of T succ] in auto)
  then show "reach succ (insert n T) \<subseteq> insert n (reach succ T)" .
  show "insert n (reach succ T) \<subseteq> reach succ (insert n T)"
    using reach_mono [of T "insert n T" succ] reach_increasing [of "insert n T" succ] by auto
qed

lemma addTree_loop_exact:
  assumes "mem_ok m" and "set q \<subseteq> {..< pm_next m}"
  shows "addTree_loop m q G = Some (G\<lparr>node_set := node_set G \<union> reach (children_of m) (set q)\<rparr>)"
  using assms(2)
proof (induction "mset (map (\<lambda>n. pm_next m - n) q)" arbitrary: q G rule: wf_induct_rule [OF wf_mult [OF wf_less_than]])
  case (1 q)
  show ?case
  proof (cases q)
    case Nil
    then show ?thesis by (subst addTree_loop.simps) (simp add: reach_def)
  next
    case (Cons n rest)
    let ?q = "rest @ children_of m n" and ?f = "\<lambda>n. pm_next m - n"
    have n: "n < pm_next m" using Cons "1.prems" by simp
    have c: "n < c \<and> c < pm_next m" if "c \<in> set (children_of m n)" for c
      using assms(1) n that unfolding mem_ok_def children_of_def by blast
    have "(mset (map ?f rest) + mset (map ?f (children_of m n)), mset (map ?f rest) + {#?f n#}) \<in> mult less_than"
      by (rule one_step_implies_mult) (use c n in \<open>auto intro: diff_less_mono2\<close>)
    then have less: "(mset (map ?f ?q), mset (map ?f q)) \<in> mult less_than" using Cons by (simp add: add.commute)
    have sub: "set ?q \<subseteq> {..< pm_next m}" using Cons "1.prems" c by auto
    have "reach (children_of m) (set q) = reach (children_of m) (insert n (set ?q))"
      using reach_step [of n "set q" "children_of m"] Cons by (simp add: Un_commute insert_commute)
    also have "\<dots> = insert n (reach (children_of m) (set ?q))" by (rule reach_insert) simp
    finally have r: "reach (children_of m) (set q) = insert n (reach (children_of m) (set ?q))" .
    have "addTree_loop m q G = addTree_loop m ?q (addNode n G)"
      using Cons by (subst addTree_loop.simps) (simp add: children_of_def)
    also have "\<dots> = Some ((addNode n G)\<lparr>node_set := node_set (addNode n G) \<union> reach (children_of m) (set ?q)\<rparr>)"
      by (rule "1.hyps" [OF less sub])
    finally show ?thesis using r by (simp add: addNode_def)
  qed
qed

lemma addTreeNodesToGraph_exact:
  "mem_ok m \<Longrightarrow> root_node (pm_trees m t) < pm_next m \<Longrightarrow>
     addTreeNodesToGraph m t G = Some (G\<lparr>node_set := node_set G \<union> reach (children_of m) {root_node (pm_trees m t)}\<rparr>)"
  using addTree_loop_exact [of m "[root_node (pm_trees m t)]" G] by (simp add: addTreeNodesToGraph_def)

lemma map_of_snd: "map_of m k = Some v \<Longrightarrow> v \<in> snd ` set m"
  by (force dest: map_of_SomeD)

lemma addFormalTrees_ok:
  assumes "mem_ok m" and "fw_ok fw m"
  shows "\<exists>S. addFormalTrees m fw as G = Some (G\<lparr>node_set := S\<rparr>)"
proof (induction as arbitrary: G)
  case Nil
  then show ?case by (intro exI [of _ "node_set G"]) simp
next
  case (Cons a as)
  have in_ok: "root_node (pm_trees m t) < pm_next m" if "getArgFormalInTree fw a = Some t" for t
    using assms(2) map_of_snd [OF that [unfolded getArgFormalInTree_def]] unfolding fw_ok_def by blast
  have out_ok: "root_node (pm_trees m t) < pm_next m" if "getArgFormalOutTree fw a = Some t" for t
    using assms(2) map_of_snd [OF that [unfolded getArgFormalOutTree_def]] unfolding fw_ok_def by blast
  show ?case
  proof (cases "getArgFormalInTree fw a")
    case None
    then show ?thesis by (intro exI [of _ "node_set G"]) simp
  next
    case (Some t1)
    show ?thesis
    proof (cases "getArgFormalOutTree fw a")
      case None
      then show ?thesis using Some by (intro exI [of _ "node_set G"]) simp
    next
      case t2: (Some t2)
      then have "\<exists>S. addFormalTrees m fw (a # as) G = addFormalTrees m fw as (G\<lparr>node_set := S\<rparr>)"
        using Some addTreeNodesToGraph_exact [OF assms(1) in_ok [OF Some]] addTreeNodesToGraph_exact [OF assms(1) out_ok [OF t2]] by auto
      then obtain S where "addFormalTrees m fw (a # as) G = addFormalTrees m fw as (G\<lparr>node_set := S\<rparr>)" by blast
      then show ?thesis using Cons.IH [of "G\<lparr>node_set := S\<rparr>"] by auto
    qed
  qed
qed

subsection \<open>Nodes of the graph\<close>

lemma map_of_dict_insert: "map_of (dict_insert k v m) j = (if j = k \<and> \<not> contains m k then Some v else map_of m j)"
  by (simp add: dict_insert_def)

lemma fold_option_Some: "fold_option (\<lambda>x s. Some (f x s)) xs s = Some (fold f xs s)"
  by (induction xs arbitrary: s) simp_all

definition wrapper_ok :: "ir \<Rightarrow> dbg \<Rightarrow> pdg_mem \<Rightarrow> vid \<Rightarrow> FunctionWrapper \<Rightarrow> bool" where
  "wrapper_ok I B m F fw \<longleftrightarrow> fw_func fw = F \<and> entry_node fw < pm_next m \<and> node_func (pm_nodes m (entry_node fw)) = F \<and>
     dbg_declare_insts fw = filter (isDbgDeclare B) (instructions I F) \<and>
     call_insts fw = filter (\<lambda>i. kind I i = KCall \<and> \<not> isDbgDeclare B i) (instructions I F)"

definition stands_for :: "ir \<Rightarrow> vid \<Rightarrow> Node \<Rightarrow> bool" where
  "stands_for I v x \<longleftrightarrow> node_val x = v \<and> node_func x = (if isInstruction I v then getFunction I v else 0)"

definition pg_inv :: "ir \<Rightarrow> dbg \<Rightarrow> ProgramGraph \<Rightarrow> bool" where
  "pg_inv I B pg \<longleftrightarrow> mem_ok (pg_mem pg) \<and>
     (\<forall>v n. map_of (val_node_map (pg_graph pg)) v = Some n \<longrightarrow> n < pm_next (pg_mem pg) \<and> stands_for I v (pm_nodes (pg_mem pg) n)) \<and>
     (\<forall>F fw. map_of (func_wrapper_map pg) F = Some fw \<longrightarrow> wrapper_ok I B (pg_mem pg) F fw) \<and>
     (\<forall>t \<in> snd ` set (global_var_tree_map pg). t < pm_next_tree (pg_mem pg) \<and> root_node (pm_trees (pg_mem pg) t) < pm_next (pg_mem pg))"

lemma pg_invD:
  assumes "pg_inv I B pg"
  shows "mem_ok (pg_mem pg)"
    and "map_of (val_node_map (pg_graph pg)) v = Some n \<Longrightarrow> n < pm_next (pg_mem pg) \<and> stands_for I v (pm_nodes (pg_mem pg) n)"
    and "map_of (func_wrapper_map pg) F = Some fw \<Longrightarrow> wrapper_ok I B (pg_mem pg) F fw"
    and "t \<in> snd ` set (global_var_tree_map pg) \<Longrightarrow> t < pm_next_tree (pg_mem pg) \<and> root_node (pm_trees (pg_mem pg) t) < pm_next (pg_mem pg)"
  using assms unfolding pg_inv_def by blast+

lemma pg_invI:
  assumes "mem_ok (pg_mem pg)"
    and "\<And>v n. map_of (val_node_map (pg_graph pg)) v = Some n \<Longrightarrow> n < pm_next (pg_mem pg) \<and> stands_for I v (pm_nodes (pg_mem pg) n)"
    and "\<And>F fw. map_of (func_wrapper_map pg) F = Some fw \<Longrightarrow> wrapper_ok I B (pg_mem pg) F fw"
    and "\<And>t. t \<in> snd ` set (global_var_tree_map pg) \<Longrightarrow> t < pm_next_tree (pg_mem pg) \<and> root_node (pm_trees (pg_mem pg) t) < pm_next (pg_mem pg)"
  shows "pg_inv I B pg"
  unfolding pg_inv_def using assms by blast

definition pg_le :: "ProgramGraph \<Rightarrow> ProgramGraph \<Rightarrow> bool" where
  "pg_le pg pg' \<longleftrightarrow> keeps (pg_mem pg) (pg_mem pg') \<and> map_of (val_node_map (pg_graph pg)) \<subseteq>\<^sub>m map_of (val_node_map (pg_graph pg')) \<and>
     map_of (func_wrapper_map pg) \<subseteq>\<^sub>m map_of (func_wrapper_map pg')"

lemma pg_le_refl [simp]: "pg_le pg pg"
  by (simp add: pg_le_def)

lemma pg_le_trans: "pg_le a b \<Longrightarrow> pg_le b c \<Longrightarrow> pg_le a c"
  unfolding pg_le_def by (intro conjI) (blast intro: keeps_trans map_le_trans)+

lemma keeps_node:
  assumes "keeps m m'" and "n < pm_next m"
  shows "n < pm_next m'" and "node_val (pm_nodes m' n) = node_val (pm_nodes m n)" and "node_func (pm_nodes m' n) = node_func (pm_nodes m n)"
  using assms by (simp_all add: keeps_def extends_def)

lemma wrapper_ok_keeps: "wrapper_ok I B m F fw \<Longrightarrow> keeps m m' \<Longrightarrow> wrapper_ok I B m' F fw"
  using keeps_node [of m m' "entry_node fw"] by (simp add: wrapper_ok_def)

lemma pg_inv_step:
  assumes "pg_inv I B pg" and "mem_ok (pg_mem pg')" and "keeps (pg_mem pg) (pg_mem pg')"
    and "\<And>v n. map_of (val_node_map (pg_graph pg')) v = Some n \<Longrightarrow> map_of (val_node_map (pg_graph pg)) v = Some n \<or>
      n < pm_next (pg_mem pg') \<and> stands_for I v (pm_nodes (pg_mem pg') n)"
    and "\<And>F fw. map_of (func_wrapper_map pg') F = Some fw \<Longrightarrow> map_of (func_wrapper_map pg) F = Some fw \<or> wrapper_ok I B (pg_mem pg') F fw"
    and "\<And>t. t \<in> snd ` set (global_var_tree_map pg') \<Longrightarrow> t \<in> snd ` set (global_var_tree_map pg) \<or>
      t < pm_next_tree (pg_mem pg') \<and> root_node (pm_trees (pg_mem pg') t) < pm_next (pg_mem pg')"
  shows "pg_inv I B pg'"
proof -
  have v: "n < pm_next (pg_mem pg') \<and> stands_for I v (pm_nodes (pg_mem pg') n)" if "map_of (val_node_map (pg_graph pg)) v = Some n" for v n
    using pg_invD(2) [OF assms(1) that] keeps_node [OF assms(3), of n] by (simp add: stands_for_def)
  have w: "wrapper_ok I B (pg_mem pg') F fw" if "map_of (func_wrapper_map pg) F = Some fw" for F fw
    using wrapper_ok_keeps [OF pg_invD(3) [OF assms(1) that] assms(3)] .
  have t: "t < pm_next_tree (pg_mem pg') \<and> root_node (pm_trees (pg_mem pg') t) < pm_next (pg_mem pg')"
    if "t \<in> snd ` set (global_var_tree_map pg)" for t
    using pg_invD(4) [OF assms(1) that] assms(3) keeps_next [OF assms(3)] by (auto simp: keeps_def)
  show ?thesis
    by (rule pg_invI) (use assms(2) v w t assms(4-6) in \<open>metis+\<close>)
qed

lemma val_node_map_bindNode: "val_node_map (bindNode v n G) = dict_insert v n (val_node_map G)"
  by (simp add: bindNode_def addNode_def)

lemma bindNode_le: "map_of (val_node_map G) \<subseteq>\<^sub>m map_of (val_node_map (bindNode v n G))"
  by (auto simp: map_le_def val_node_map_bindNode map_of_dict_insert contains_def)

lemma bindNode_contains: "contains (val_node_map (bindNode v n G)) v"
  by (simp add: val_node_map_bindNode contains_def map_of_dict_insert)

lemma new_Node_val_stands [simp]: "stands_for I v (new_Node_val I v t)"
  by (simp add: new_Node_val_def stands_for_def new_Node_def)

lemma buildInst_ok:
  assumes "pg_inv I B pg" and "buildInst I B i (fw, pg) = (fw', pg')"
  shows "pg_inv I B pg' \<and> pg_le pg pg' \<and> contains (val_node_map (pg_graph pg')) i \<and> func_wrapper_map pg' = func_wrapper_map pg"
proof -
  have gv: "global_var_tree_map pg' = global_var_tree_map pg" using assms(2) by (auto simp: buildInst_def split_beta Let_def)
  obtain n m where n: "alloc_plain (new_Node_val I i INST) (pg_mem pg) = (n, m)" by fastforce
  have ok: "mem_ok (pg_mem pg)" using assms(1) by (simp add: pg_inv_def)
  note f = alloc_node_fields [OF n [unfolded alloc_plain_def]]
  have g: "grow (pm_next_tree (pg_mem pg)) (pg_mem pg) m" by (rule grow_alloc_node [OF ok _ n [unfolded alloc_plain_def]]) simp
  then have k: "mem_ok m" "keeps (pg_mem pg) m" by (simp_all add: grow_keeps)
  have pg': "pg_mem pg' = m" "pg_graph pg' = bindNode i n (pg_graph pg)" "func_wrapper_map pg' = func_wrapper_map pg"
    using assms(2) n by (auto simp: buildInst_def)
  have "pg_inv I B pg'"
    by (rule pg_inv_step [OF assms(1)]) (use k pg' f gv in \<open>auto simp: val_node_map_bindNode map_of_dict_insert split: if_splits\<close>)
  then show ?thesis using k pg' bindNode_le bindNode_contains by (simp add: pg_le_def)
qed

lemma pg_le_contains:
  "pg_le pg pg' \<Longrightarrow> contains (val_node_map (pg_graph pg)) v \<Longrightarrow> contains (val_node_map (pg_graph pg')) v"
  by (auto simp: pg_le_def contains_def map_le_def dom_def)

interpretation inst_nodes: total_steps "\<lambda>i acc. Some (buildInst I B i acc)" "\<lambda>_. True" "\<lambda>acc. pg_inv I B (snd acc)"
  "\<lambda>acc acc'. pg_le (snd acc) (snd acc') \<and> func_wrapper_map (snd acc') = func_wrapper_map (snd acc)" for I B
proof unfold_locales
  show "\<exists>s'. Some (buildInst I B i s) = Some s' \<and> pg_inv I B (snd s') \<and> pg_le (snd s) (snd s') \<and> func_wrapper_map (snd s') = func_wrapper_map (snd s)"
    if "pg_inv I B (snd s)" for i s
    using buildInst_ok [of I B "snd s" i "fst s" "fst (buildInst I B i s)" "snd (buildInst I B i s)"] that by simp
qed (auto intro: pg_le_trans)

lemma buildInsts_ok:
  assumes "pg_inv I B pg" and "fold (buildInst I B) is (fw, pg) = (fw', pg')"
  shows "pg_inv I B pg' \<and> pg_le pg pg' \<and> func_wrapper_map pg' = func_wrapper_map pg \<and> (\<forall>i \<in> set is. contains (val_node_map (pg_graph pg')) i)"
proof -
  have run: "fold_option (\<lambda>i acc. Some (buildInst I B i acc)) is (fw, pg) = Some (fw', pg')" using assms(2) by (simp add: fold_option_Some)
  have "contains (val_node_map (pg_graph (snd (fw', pg')))) i" if "i \<in> set is" for i
  proof (rule inst_nodes.loop_establishes [OF _ _ run that])
    show "contains (val_node_map (pg_graph (snd t'))) i" if "pg_inv I B (snd t)" "Some (buildInst I B i t) = Some t'" for t t'
      using buildInst_ok [of I B "snd t" i "fst t" "fst t'" "snd t'"] that by simp
  qed (use assms(1) pg_le_contains in \<open>auto simp: list_all_iff\<close>)
  moreover have "\<exists>s'. fold_option (\<lambda>i acc. Some (buildInst I B i acc)) is (fw, pg) = Some s' \<and> pg_inv I B (snd s') \<and>
      pg_le pg (snd s') \<and> func_wrapper_map (snd s') = func_wrapper_map pg"
    using inst_nodes.loop_total [of "is" I B "(fw, pg)"] assms(1) by (simp add: list_all_iff)
  ultimately show ?thesis using run by auto
qed

lemma addInst_fields [simp]:
  "fw_func (addInst I B i fw) = fw_func fw" "entry_node (addInst I B i fw) = entry_node fw"
  "arg_formal_in_tree_map (addInst I B i fw) = arg_formal_in_tree_map fw" "arg_formal_out_tree_map (addInst I B i fw) = arg_formal_out_tree_map fw"
  "dbg_declare_insts (addInst I B i fw) = dbg_declare_insts fw @ (if isDbgDeclare B i then [i] else [])"
  "call_insts (addInst I B i fw) = call_insts fw @ (if kind I i = KCall \<and> \<not> isDbgDeclare B i then [i] else [])"
  by (simp_all add: addInst_def)

lemma fold_buildInst_fst: "fst (fold (buildInst I B) is acc) = fold (addInst I B) is (fst acc)"
proof (induction "is" arbitrary: acc)
  case (Cons i "is")
  have "fst (buildInst I B i acc) = addInst I B i (fst acc)" by (simp add: buildInst_def split_beta Let_def)
  then show ?case using Cons.IH by simp
qed simp

lemma fold_addInst_fields:
  "fw_func (fold (addInst I B) is fw) = fw_func fw" "entry_node (fold (addInst I B) is fw) = entry_node fw"
  "arg_formal_in_tree_map (fold (addInst I B) is fw) = arg_formal_in_tree_map fw"
  "arg_formal_out_tree_map (fold (addInst I B) is fw) = arg_formal_out_tree_map fw"
  "dbg_declare_insts (fold (addInst I B) is fw) = dbg_declare_insts fw @ filter (isDbgDeclare B) is"
  "call_insts (fold (addInst I B) is fw) = call_insts fw @ filter (\<lambda>i. kind I i = KCall \<and> \<not> isDbgDeclare B i) is"
  by (induction "is" arbitrary: fw) simp_all

lemma new_FunctionWrapper_ok:
  assumes "mem_ok m" and "new_FunctionWrapper I F m = (fw, m')"
  shows "grow (pm_next_tree m) m m'" and "fw_func fw = F" and "entry_node fw < pm_next m'" and "node_func (pm_nodes m' (entry_node fw)) = F"
    and "arg_formal_in_tree_map fw = []" and "arg_formal_out_tree_map fw = []" and "dbg_declare_insts fw = []" and "call_insts fw = []"
proof -
  obtain e m1 where e: "alloc_plain ((new_Node FUNC_ENTRY)\<lparr>node_func := F, node_di_type := 0\<rparr>) m = (e, m1)" by fastforce
  note f = alloc_node_fields [OF e [unfolded alloc_plain_def]]
  have fw: "m' = m1" "entry_node fw = e" using assms(2) e by (auto simp: new_FunctionWrapper_def)
  show "grow (pm_next_tree m) m m'" unfolding fw by (rule grow_alloc_node [OF assms(1) _ e [unfolded alloc_plain_def]]) simp
  show "entry_node fw < pm_next m'" "node_func (pm_nodes m' (entry_node fw)) = F" using fw f by simp_all
  show "fw_func fw = F" "arg_formal_in_tree_map fw = []" "arg_formal_out_tree_map fw = []" "dbg_declare_insts fw = []" "call_insts fw = []"
    using assms(2) e by (auto simp: new_FunctionWrapper_def)
qed

definition function_built :: "ir \<Rightarrow> vid \<Rightarrow> ProgramGraph \<Rightarrow> bool" where
  "function_built I F pg \<longleftrightarrow> isDeclaration I F \<or> blocks I F = [] \<or>
     contains (func_wrapper_map pg) F \<and> (\<forall>i \<in> set (instructions I F). contains (val_node_map (pg_graph pg)) i)"

lemma function_built_le: "pg_le pg pg' \<Longrightarrow> function_built I F pg \<Longrightarrow> function_built I F pg'"
  by (auto simp: function_built_def pg_le_def contains_def map_le_def dom_def)

lemma buildFunction_ok:
  assumes "di_ok D" and "pg_inv I B pg"
  shows "\<exists>pg'. buildFunction I D B F pg = Some pg' \<and> pg_inv I B pg' \<and> pg_le pg pg' \<and> function_built I F pg'"
proof (cases "isDeclaration I F \<or> blocks I F = []")
  case True
  then show ?thesis using assms(2) by (auto simp: buildFunction_def function_built_def)
next
  case False
  obtain fw0 m0 where m0: "new_FunctionWrapper I F (pg_mem pg) = (fw0, m0)" by fastforce
  have ok: "mem_ok (pg_mem pg)" using assms(2) by (simp add: pg_inv_def)
  note w = new_FunctionWrapper_ok [OF ok m0]
  have k0: "mem_ok m0" "keeps (pg_mem pg) m0" using w(1) by (simp_all add: grow_keeps)
  have i0: "pg_inv I B (pg\<lparr>pg_mem := m0\<rparr>)" by (rule pg_inv_step [OF assms(2)]) (use k0 in simp_all)
  obtain fw1 pg1 where pg1: "fold (buildInst I B) (instructions I F) (fw0, pg\<lparr>pg_mem := m0\<rparr>) = (fw1, pg1)" by fastforce
  have i1: "pg_inv I B pg1" "pg_le (pg\<lparr>pg_mem := m0\<rparr>) pg1" "\<forall>i \<in> set (instructions I F). contains (val_node_map (pg_graph pg1)) i"
    using buildInsts_ok [OF i0 pg1] by blast+
  have fw1: "fw1 = fold (addInst I B) (instructions I F) fw0" using fold_buildInst_fst [of I B "instructions I F" "(fw0, pg\<lparr>pg_mem := m0\<rparr>)"] pg1 by simp
  have k1: "keeps m0 (pg_mem pg1)" using i1(2) by (simp add: pg_le_def)
  have w1: "wrapper_ok I B (pg_mem pg1) F fw1"
    by (rule wrapper_ok_keeps [OF _ k1]) (simp add: wrapper_ok_def fw1 fold_addInst_fields w)
  have "fw_inv (fw1, pg_mem pg1)" using i1(1) by (simp add: fw_inv_def pg_inv_def fw_ok_def fw1 fold_addInst_fields w)
  then obtain acc where acc: "buildFormalTreeForArgs I D B (fw1, pg_mem pg1) = Some acc" "fw_inv acc" "fw_le (fw1, pg_mem pg1) acc"
    using buildFormalTreeForArgs_ok [OF assms(1)] by blast
  then obtain acc2 where acc2: "buildFormalTreesForRetVal I D B acc = Some acc2" "fw_inv acc2" "fw_le (fw1, pg_mem pg1) acc2"
    using buildFormalTreesForRetVal_ok [OF assms(1)] fw_le_trans by blast
  obtain fw2 m2 where m2: "acc2 = (fw2, m2)" by fastforce
  have k2: "mem_ok m2" "fw_ok fw2 m2" "same_function fw1 fw2" "keeps (pg_mem pg1) m2" using acc2 m2 by (simp_all add: fw_inv_def fw_le_def)
  obtain S where S: "addFormalTreeNodesToGraph m2 fw2 (pg_graph pg1) = Some ((pg_graph pg1)\<lparr>node_set := S\<rparr>)"
    using addFormalTrees_ok [OF k2(1,2)] unfolding addFormalTreeNodesToGraph_def by blast
  define pg2 where "pg2 = pg1\<lparr>pg_mem := m2, pg_graph := addNode (entry_node fw2) ((pg_graph pg1)\<lparr>node_set := S\<rparr>),
      func_wrapper_map := dict_insert F fw2 (func_wrapper_map pg1)\<rparr>"
  have run: "buildFunction I D B F pg = Some pg2"
    using False m0 pg1 acc(1) acc2(1) m2 S by (simp add: buildFunction_def pg2_def)
  have w2: "wrapper_ok I B m2 F fw2" using wrapper_ok_keeps [OF w1 k2(4)] k2(3) by (simp add: wrapper_ok_def same_function_def)
  have "pg_inv I B pg2"
    by (rule pg_inv_step [OF i1(1)]) (use k2 w2 in \<open>auto simp: pg2_def addNode_def map_of_dict_insert split: if_splits\<close>)
  moreover have "pg_le pg1 pg2"
    using k2(4) by (auto simp: pg_le_def pg2_def addNode_def map_le_def map_of_dict_insert contains_def)
  moreover have "pg_le pg (pg\<lparr>pg_mem := m0\<rparr>)" using k0(2) by (simp add: pg_le_def)
  moreover have "function_built I F pg2" using i1(3) by (simp add: function_built_def pg2_def addNode_def contains_def map_of_dict_insert)
  ultimately show ?thesis using run i1(2) pg_le_trans by blast
qed

interpretation function_nodes: total_steps "buildFunction I D B" "\<lambda>_. di_ok D" "pg_inv I B" pg_le for I D B
  by unfold_locales (use buildFunction_ok in \<open>blast | auto intro: pg_le_trans\<close>)+

lemma same_shape_trans: "same_shape a b \<Longrightarrow> same_shape b c \<Longrightarrow> same_shape a c"
  unfolding same_shape_def by (metis Node.update_convs(10) Node.surjective order.trans)

lemma buildGlobal_ok:
  assumes "di_ok D" and "pg_inv I B pg"
  shows "\<exists>pg'. buildGlobal I D B gv pg = Some pg' \<and> pg_inv I B pg' \<and> pg_le pg pg'"
proof (cases "isConstantGlobal B gv \<or> getGlobalVarDIType B gv = 0")
  case True
  then show ?thesis using assms(2) by (simp add: buildGlobal_def)
next
  case False
  let ?m = "pg_mem pg" and ?k = "pm_next_tree (pg_mem pg)"
  have ok: "mem_ok ?m" using assms(2) by (simp add: pg_inv_def)
  obtain n m1 where m1: "new_TreeNode_val I gv GLOBAL_VAR ?m = (n, m1)" by fastforce
  note a = m1 [unfolded new_TreeNode_val_def]
  note f = alloc_node_fields [OF a]
  obtain t m2 where m2: "new_Tree_val (uninitTree B) gv (addAddrVars n [gv] m1) = (t, m2)" by fastforce
  note t = new_Tree_val_fields [OF m2]
  have tk: "t = ?k" using t f by (simp add: addAddrVars_def)
  have s: "same_shape m1 m2" by (rule same_shape_trans [of m1 "addAddrVars n [gv] m1"]) (use t in simp_all)
  obtain m3 where m3: "tree_build I D t (setRootNode t n m2) = Some m3" "grow ?k ?m m3" "root_node (pm_trees m3 t) < pm_next m3" "t < pm_next_tree m3"
    using new_root_built [OF assms(1) ok _ _ a _ s, where k = ?k and t = t and I = I] t tk by auto
  then have k: "mem_ok m3" "keeps ?m m3" by (simp_all add: grow_keeps)
  define pg' where "pg' = pg\<lparr>pg_mem := m3, pg_graph := bindNode gv n (pg_graph pg), global_var_tree_map := dict_insert gv t (global_var_tree_map pg)\<rparr>"
  have run: "buildGlobal I D B gv pg = Some pg'" using False m1 m2 m3(1) by (simp add: buildGlobal_def pg'_def)
  have n: "n < pm_next m3" "stands_for I gv (pm_nodes m3 n)"
  proof -
    have m1: "mem_ok m1" using grow_ok [OF grow_alloc_node [OF ok _ a]] by simp
    have g2: "grow 0 m1 m2" by (rule grow_same_shape [OF m1 s]) simp
    have g3: "grow 0 m2 (setRootNode t n m2)" by (rule grow_same_shape [OF grow_ok [OF g2]]) simp_all
    have "pm_next (setRootNode t n m2) = Suc n" "tn_children (pm_tnodes (setRootNode t n m2) n) = []"
      using s f by (simp_all add: same_shape_def setRootNode_def mk_TreeNode_def)
    moreover have "0 < n" using ok f(1) by (simp add: mem_ok_def)
    ultimately have "fresh_root t (setRootNode t n m2)" by (simp add: fresh_root_def Let_def)
    then have "grow 0 (setRootNode t n m2) m3" using tree_build_grow [OF assms(1) grow_ok [OF g3], of t I 0] m3(1) by auto
    then have "grow 0 m1 m3" using g2 g3 grow_trans by blast
    then have "extends m1 m3" by (simp add: grow_def)
    moreover have "stands_for I gv (pm_nodes m1 n)" using f by simp
    ultimately show "n < pm_next m3" "stands_for I gv (pm_nodes m3 n)" using f by (simp_all add: extends_def stands_for_def)
  qed
  have "pg_inv I B pg'"
    by (rule pg_inv_step [OF assms(2)]) (use k n m3(3,4) in \<open>auto simp: pg'_def val_node_map_bindNode map_of_dict_insert dict_insert_def split: if_splits\<close>)
  moreover have "pg_le pg pg'" using k bindNode_le by (simp add: pg_le_def pg'_def)
  ultimately show ?thesis using run by blast
qed

interpretation global_nodes: total_steps "buildGlobal I D B" "\<lambda>_. di_ok D" "pg_inv I B" pg_le for I D B
  by unfold_locales (use buildGlobal_ok in \<open>blast | auto intro: pg_le_trans\<close>)+

subsection \<open>The whole graph\<close>

lemma addCallWrapper_fields [simp]:
  "pg_mem (addCallWrapper I ci pg) = pg_mem pg" "pg_graph (addCallWrapper I ci pg) = pg_graph pg"
  "func_wrapper_map (addCallWrapper I ci pg) = func_wrapper_map pg" "global_var_tree_map (addCallWrapper I ci pg) = global_var_tree_map pg"
  by (simp_all add: addCallWrapper_def split: option.splits)

lemma addCallWrappers_fields:
  "pg_mem (fold (addCallWrapper I) cs pg) = pg_mem pg \<and> pg_graph (fold (addCallWrapper I) cs pg) = pg_graph pg \<and>
   func_wrapper_map (fold (addCallWrapper I) cs pg) = func_wrapper_map pg \<and> global_var_tree_map (fold (addCallWrapper I) cs pg) = global_var_tree_map pg"
  by (induction cs arbitrary: pg) simp_all

lemma addCallWrappers_keys:
  "contains (call_wrapper_map (fold (addCallWrapper I) cs pg)) ci \<longleftrightarrow> contains (call_wrapper_map pg) ci \<or>
     ci \<in> set cs \<and> (\<exists>G. getCalledFunc I ci = Some G \<and> hasFuncWrapper pg G)"
proof (induction cs arbitrary: pg)
  case (Cons c cs)
  have "hasFuncWrapper (addCallWrapper I c pg) = hasFuncWrapper pg" by (simp add: hasFuncWrapper_def fun_eq_iff)
  moreover have "contains (call_wrapper_map (addCallWrapper I c pg)) ci \<longleftrightarrow> contains (call_wrapper_map pg) ci \<or>
      ci = c \<and> (\<exists>G. getCalledFunc I ci = Some G \<and> hasFuncWrapper pg G)"
    by (auto simp: addCallWrapper_def contains_def map_of_dict_insert split: option.splits)
  ultimately show ?case using Cons.IH by auto
qed simp

lemma buildCallSites_fields [simp]:
  "pg_mem (buildCallSites I F pg) = pg_mem pg" "pg_graph (buildCallSites I F pg) = pg_graph pg"
  "func_wrapper_map (buildCallSites I F pg) = func_wrapper_map pg" "global_var_tree_map (buildCallSites I F pg) = global_var_tree_map pg"
  using addCallWrappers_fields by (simp_all add: buildCallSites_def split: option.splits)

lemma buildCallSites_all_fields:
  "pg_mem (fold (buildCallSites I) Fs pg) = pg_mem pg \<and> pg_graph (fold (buildCallSites I) Fs pg) = pg_graph pg \<and>
   func_wrapper_map (fold (buildCallSites I) Fs pg) = func_wrapper_map pg \<and> global_var_tree_map (fold (buildCallSites I) Fs pg) = global_var_tree_map pg"
  by (induction Fs arbitrary: pg) simp_all

lemma buildCallSites_keys:
  assumes "pg_inv I B pg" and "function_built I F pg"
  shows "contains (call_wrapper_map (buildCallSites I F pg)) ci \<longleftrightarrow> contains (call_wrapper_map pg) ci \<or>
     hasBody I F \<and> ci \<in> set (instructions I F) \<and> kind I ci = KCall \<and> \<not> isDbgDeclare B ci \<and> (\<exists>G. getCalledFunc I ci = Some G \<and> hasFuncWrapper pg G)"
proof (cases "hasBody I F")
  case True
  then obtain fw where fw: "map_of (func_wrapper_map pg) F = Some fw" using assms(2) by (auto simp: function_built_def hasBody_def contains_def)
  then have "call_insts fw = filter (\<lambda>i. kind I i = KCall \<and> \<not> isDbgDeclare B i) (instructions I F)"
    using assms(1) by (simp add: pg_inv_def wrapper_ok_def)
  then show ?thesis using True fw addCallWrappers_keys [of I "call_insts fw" pg ci] by (auto simp: buildCallSites_def hasBody_def)
qed (auto simp: buildCallSites_def hasBody_def)

lemma buildCallSites_all_keys:
  assumes "\<And>F. F \<in> set Fs \<Longrightarrow> function_built I F pg" and "pg_inv I B pg"
  shows "contains (call_wrapper_map (fold (buildCallSites I) Fs pg)) ci \<longleftrightarrow> contains (call_wrapper_map pg) ci \<or>
     (\<exists>F \<in> set Fs. hasBody I F \<and> ci \<in> set (instructions I F) \<and> kind I ci = KCall \<and> \<not> isDbgDeclare B ci \<and>
       (\<exists>G. getCalledFunc I ci = Some G \<and> hasFuncWrapper pg G))"
  using assms
proof (induction Fs arbitrary: pg)
  case (Cons F Fs)
  let ?pg = "buildCallSites I F pg"
  have "function_built I G ?pg" if "G \<in> set Fs" for G using Cons.prems(1) [of G] that by (simp add: function_built_def)
  moreover have "pg_inv I B ?pg" using Cons.prems(2) by (simp add: pg_inv_def)
  moreover have "hasFuncWrapper ?pg = hasFuncWrapper pg" by (simp add: hasFuncWrapper_def fun_eq_iff)
  ultimately show ?case using Cons.IH [of ?pg] buildCallSites_keys [OF Cons.prems(2), of F ci] Cons.prems(1) by auto
qed simp

definition new_mem :: pdg_mem where
  "new_mem = \<lparr>pm_nodes = (\<lambda>_. new_Node INST), pm_tnodes = (\<lambda>_. mk_TreeNode 0 0 0),
     pm_trees = (\<lambda>_. \<lparr>base_val = 0, root_node = 0, tree_size = 0\<rparr>), pm_next = 1, pm_next_tree = 1\<rparr>"

definition new_ProgramGraph :: ProgramGraph where
  "new_ProgramGraph = \<lparr>pg_graph = \<lparr>val_node_map = [], node_set = {}, is_build = False\<rparr>, pg_mem = new_mem, func_wrapper_map = [],
     call_wrapper_map = [], global_var_tree_map = [], node_di_type_map = [], allocators = {}, deallocators = {}\<rparr>"

lemma new_ProgramGraph_inv: "pg_inv I B new_ProgramGraph"
  by (simp add: pg_inv_def new_ProgramGraph_def new_mem_def mem_ok_def mirrors_def field_edges_def mk_TreeNode_def new_Node_def)

lemma pdg_build_ok:
  assumes "di_ok D" and "pg_inv I B pg0" and "call_wrapper_map pg0 = []"
  shows "\<exists>pg. pdg_build I D B pg0 = Some pg \<and> pg_inv I B pg \<and> is_build (pg_graph pg) \<and>
    (\<forall>F \<in> set (moduleFunctions I). function_built I F pg) \<and>
    (\<forall>ci. contains (call_wrapper_map pg) ci \<longleftrightarrow> (\<exists>F \<in> set (moduleFunctions I). hasBody I F \<and> ci \<in> set (instructions I F) \<and>
      kind I ci = KCall \<and> \<not> isDbgDeclare B ci \<and> (\<exists>G. getCalledFunc I ci = Some G \<and> hasFuncWrapper pg G)))"
proof -
  let ?Fs = "moduleFunctions I"
  have cwm: "call_wrapper_map pg1 = call_wrapper_map pg" if "buildGlobal I D B g pg = Some pg1" for g pg pg1
    using that by (auto simp: buildGlobal_def split_beta Let_def split: if_splits bind_splits)
  have cwm1: "call_wrapper_map pg1 = call_wrapper_map pg" if "fold_option (buildGlobal I D B) gs pg = Some pg1" for gs pg pg1
    using that cwm by (induction gs arbitrary: pg) (auto split: bind_splits)
  obtain pg1 where pg1: "fold_option (buildGlobal I D B) (moduleGlobals I) pg0 = Some pg1" "pg_inv I B pg1"
    using global_nodes.loop_total [of D "moduleGlobals I" I B pg0] assms(1,2) by (auto simp: list_all_iff)
  obtain pg2 where pg2: "fold_option (buildFunction I D B) ?Fs pg1 = Some pg2" "pg_inv I B pg2"
    using function_nodes.loop_total [of D ?Fs I B pg1] assms(1) pg1(2) by (auto simp: list_all_iff)
  have built: "function_built I F pg2" if "F \<in> set ?Fs" for F
  proof (rule function_nodes.loop_establishes [OF _ pg1(2) pg2(1) that])
    show "list_all (\<lambda>_. di_ok D) ?Fs" using assms(1) by (simp add: list_all_iff)
    show "function_built I F t'" if "pg_inv I B t" "buildFunction I D B F t = Some t'" for t t'
      using buildFunction_ok [OF assms(1) that(1), of F] that(2) by auto
  qed (rule function_built_le)
  have b: "call_wrapper_map (snd (buildInst I B i acc)) = call_wrapper_map (snd acc)" for i acc by (simp add: buildInst_def split_beta Let_def)
  have bs: "call_wrapper_map (snd (fold (buildInst I B) is acc)) = call_wrapper_map (snd acc)" for "is" acc
    by (induction "is" arbitrary: acc) (simp_all add: b)
  have fm: "call_wrapper_map q = call_wrapper_map pg" if "buildFunction I D B F pg = Some q" for F pg q
  proof -
    obtain fw0 m0 where m0: "new_FunctionWrapper I F (pg_mem pg) = (fw0, m0)" by fastforce
    obtain fw1 q1 where q1: "fold (buildInst I B) (instructions I F) (fw0, pg\<lparr>pg_mem := m0\<rparr>) = (fw1, q1)" by fastforce
    then have "call_wrapper_map q1 = call_wrapper_map pg" using bs [of "instructions I F" "(fw0, pg\<lparr>pg_mem := m0\<rparr>)"] by simp
    then show ?thesis using that m0 q1 by (auto simp: buildFunction_def split: if_splits bind_splits)
  qed
  have "call_wrapper_map q = call_wrapper_map pg" if "fold_option (buildFunction I D B) Fs pg = Some q" for Fs pg q
    using that fm by (induction Fs arbitrary: pg) (auto split: bind_splits)
  then have c2: "call_wrapper_map pg2 = []" using pg1(1) pg2(1) cwm1 assms(3) by simp
  define pg3 where "pg3 = fold (buildCallSites I) ?Fs pg2"
  have f: "pg_mem pg3 = pg_mem pg2" "pg_graph pg3 = pg_graph pg2" "func_wrapper_map pg3 = func_wrapper_map pg2"
    "global_var_tree_map pg3 = global_var_tree_map pg2"
    using buildCallSites_all_fields [of I ?Fs pg2] by (simp_all add: pg3_def)
  define pg where "pg = pg3\<lparr>pg_graph := (pg_graph pg3)\<lparr>is_build := True\<rparr>\<rparr>"
  have "pdg_build I D B pg0 = Some pg" using pg1(1) pg2(1) by (simp add: pdg_build_def pg_def pg3_def Let_def)
  moreover have "pg_inv I B pg" using pg2(2) f by (simp add: pg_inv_def pg_def)
  moreover have "function_built I F pg" if "F \<in> set ?Fs" for F using built [OF that] f by (simp add: function_built_def pg_def)
  moreover have "hasFuncWrapper pg = hasFuncWrapper pg2" using f by (simp add: hasFuncWrapper_def fun_eq_iff pg_def)
  ultimately show ?thesis using buildCallSites_all_keys [of ?Fs I pg2 B, OF built pg2(2)] c2 by (auto simp: pg_def pg3_def)
qed

lemma finite_field_edges: "finite (field_edges m)"
proof -
  have "field_edges m = (\<Union>n \<in> {..< pm_next m}. (\<lambda>c. (n, c, PARAMETER_FIELD)) ` set (tn_children (pm_tnodes m n)))"
    by (auto simp: field_edges_def)
  then show ?thesis by simp
qed

subsection \<open>Which values have a node\<close>

text \<open>The globals that get a node and a tree: those that are not constant and have a debug type.\<close>

definition typed_global :: "ir \<Rightarrow> dbg \<Rightarrow> vid \<Rightarrow> bool" where
  "typed_global I B gv \<longleftrightarrow> gv \<in> set (moduleGlobals I) \<and> \<not> isConstantGlobal B gv \<and> getGlobalVarDIType B gv \<noteq> 0"

abbreviation bound_values :: "ProgramGraph \<Rightarrow> vid set" where
  "bound_values pg \<equiv> {v. contains (val_node_map (pg_graph pg)) v}"

abbreviation tree_globals :: "ProgramGraph \<Rightarrow> vid set" where
  "tree_globals pg \<equiv> {v. contains (global_var_tree_map pg) v}"

lemma contains_dict_insert: "contains (dict_insert k v m) j \<longleftrightarrow> j = k \<or> contains m j"
  by (auto simp: contains_map_of map_of_dict_insert)

lemma buildGlobal_keys:
  "buildGlobal I D B gv pg = Some pg' \<Longrightarrow>
   bound_values pg' = bound_values pg \<union> (if isConstantGlobal B gv \<or> getGlobalVarDIType B gv = 0 then {} else {gv}) \<and>
   tree_globals pg' = tree_globals pg \<union> (if isConstantGlobal B gv \<or> getGlobalVarDIType B gv = 0 then {} else {gv})"
  by (auto simp: buildGlobal_def split_beta Let_def val_node_map_bindNode contains_dict_insert split: if_splits bind_splits)

lemma buildGlobals_keys:
  "fold_option (buildGlobal I D B) gs pg = Some pg' \<Longrightarrow>
   bound_values pg' = bound_values pg \<union> {g \<in> set gs. \<not> isConstantGlobal B g \<and> getGlobalVarDIType B g \<noteq> 0} \<and>
   tree_globals pg' = tree_globals pg \<union> {g \<in> set gs. \<not> isConstantGlobal B g \<and> getGlobalVarDIType B g \<noteq> 0}"
proof (induction gs arbitrary: pg)
  case (Cons g gs)
  then obtain pg1 where pg1: "buildGlobal I D B g pg = Some pg1" "fold_option (buildGlobal I D B) gs pg1 = Some pg'" by (auto split: bind_splits)
  show ?case using Cons.IH [OF pg1(2)] buildGlobal_keys [OF pg1(1)] by (auto split: if_splits)
qed simp

lemma buildInsts_keys:
  "bound_values (snd (fold (buildInst I B) is acc)) = bound_values (snd acc) \<union> set is \<and>
   global_var_tree_map (snd (fold (buildInst I B) is acc)) = global_var_tree_map (snd acc)"
proof (induction "is" arbitrary: acc)
  case (Cons i "is")
  have "bound_values (snd (buildInst I B i acc)) = insert i (bound_values (snd acc))"
    "global_var_tree_map (snd (buildInst I B i acc)) = global_var_tree_map (snd acc)"
    by (auto simp: buildInst_def split_beta Let_def val_node_map_bindNode contains_dict_insert)
  then show ?case using Cons.IH [of "buildInst I B i acc"] by auto
qed simp

lemma addTree_loop_map:
  assumes "addTree_loop m q G = Some G'"
  shows "val_node_map G' = val_node_map G"
  by (rule addTree_loop.raw_induct [OF _ assms, where P = "\<lambda>_ _ G G'. val_node_map G' = val_node_map G"])
    (fastforce simp: addNode_def split: list.splits)

lemma addFormalTrees_map: "addFormalTrees m fw as G = Some G' \<Longrightarrow> val_node_map G' = val_node_map G"
proof (induction "as" arbitrary: G)
  case (Cons a "as")
  then show ?case by (fastforce simp: addTreeNodesToGraph_def dest: addTree_loop_map split: option.splits bind_splits)
qed simp

lemma buildFunction_keys:
  assumes "buildFunction I D B F pg = Some pg'"
  shows "bound_values pg' = bound_values pg \<union> (if hasBody I F then set (instructions I F) else {}) \<and> tree_globals pg' = tree_globals pg"
proof (cases "hasBody I F")
  case True
  obtain fw0 m0 where m0: "new_FunctionWrapper I F (pg_mem pg) = (fw0, m0)" by fastforce
  obtain fw1 q1 where q1: "fold (buildInst I B) (instructions I F) (fw0, pg\<lparr>pg_mem := m0\<rparr>) = (fw1, q1)" by fastforce
  then have "bound_values q1 = bound_values pg \<union> set (instructions I F)" "global_var_tree_map q1 = global_var_tree_map pg"
    using buildInsts_keys [of I B "instructions I F" "(fw0, pg\<lparr>pg_mem := m0\<rparr>)"] by simp_all
  moreover obtain fw2 m2 G2 where "addFormalTreeNodesToGraph m2 fw2 (pg_graph q1) = Some G2"
      "pg' = q1\<lparr>pg_mem := m2, pg_graph := addNode (entry_node fw2) G2, func_wrapper_map := dict_insert F fw2 (func_wrapper_map q1)\<rparr>"
    using assms True m0 q1 by (auto simp: buildFunction_def hasBody_def split: if_splits bind_splits)
  ultimately show ?thesis using True addFormalTrees_map by (auto simp: addFormalTreeNodesToGraph_def addNode_def)
qed (use assms in \<open>auto simp: buildFunction_def hasBody_def\<close>)

lemma buildFunctions_keys:
  "fold_option (buildFunction I D B) Fs pg = Some pg' \<Longrightarrow>
   bound_values pg' = bound_values pg \<union> (\<Union>F \<in> {F \<in> set Fs. hasBody I F}. set (instructions I F)) \<and> tree_globals pg' = tree_globals pg"
proof (induction Fs arbitrary: pg)
  case (Cons F Fs)
  then obtain pg1 where pg1: "buildFunction I D B F pg = Some pg1" "fold_option (buildFunction I D B) Fs pg1 = Some pg'" by (auto split: bind_splits)
  show ?case using Cons.IH [OF pg1(2)] buildFunction_keys [OF pg1(1)] by (auto split: if_splits)
qed simp

lemma defined_functions_hasBody: "{F \<in> set (moduleFunctions I). hasBody I F} = defined_functions I"
  by (auto simp: hasBody_def defined_functions_def)

lemma pdg_build_keys:
  assumes "pdg_build I D B new_ProgramGraph = Some pg"
  shows "bound_values pg = {v. typed_global I B v} \<union> (\<Union>F \<in> defined_functions I. set (instructions I F))" and "tree_globals pg = {v. typed_global I B v}"
proof -
  obtain pg1 pg2 where p: "fold_option (buildGlobal I D B) (moduleGlobals I) new_ProgramGraph = Some pg1"
      "fold_option (buildFunction I D B) (moduleFunctions I) pg1 = Some pg2"
      "pg = (fold (buildCallSites I) (moduleFunctions I) pg2)\<lparr>pg_graph := (pg_graph (fold (buildCallSites I) (moduleFunctions I) pg2))\<lparr>is_build := True\<rparr>\<rparr>"
    using assms by (auto simp: pdg_build_def Let_def split: bind_splits)
  have "bound_values pg = bound_values pg2" "tree_globals pg = tree_globals pg2"
    using buildCallSites_all_fields [of I "moduleFunctions I" pg2] by (simp_all add: p(3))
  moreover have "bound_values new_ProgramGraph = {}" "tree_globals new_ProgramGraph = {}" by (simp_all add: new_ProgramGraph_def contains_def)
  ultimately show "bound_values pg = {v. typed_global I B v} \<union> (\<Union>F \<in> defined_functions I. set (instructions I F))" "tree_globals pg = {v. typed_global I B v}"
    using buildGlobals_keys [OF p(1)] buildFunctions_keys [OF p(2)] defined_functions_hasBody [of I] by (auto simp: typed_global_def)
qed

text \<open>
  C12: The program graph is built for every module with well-formed debug types.  A value has a node exactly if it is an instruction
  of a defined function or a global variable that is not constant and has a debug type, and the node found for a value stands
  for that value; exactly these globals have a tree.  Every defined function gets a wrapper whose entry node belongs to
  it; a call site gets a wrapper exactly if it calls, through casts at most, a function that has one.  The only edges are those
  between the fields of parameter trees, in all six views of the graph.
\<close>

theorem program_graph_built:
  assumes "di_ok D"
  shows "\<exists>pg. pdg_build I D B new_ProgramGraph = Some pg \<and> is_build (pg_graph pg) \<and>
    (\<forall>v. (\<exists>n. getNode (pg_graph pg) v = Some n) \<longleftrightarrow> typed_global I B v \<or> (\<exists>F \<in> defined_functions I. v \<in> set (instructions I F))) \<and>
    (\<forall>v n. getNode (pg_graph pg) v = Some n \<longrightarrow> node_val (pm_nodes (pg_mem pg) n) = v) \<and>
    (\<forall>v. contains (global_var_tree_map pg) v \<longleftrightarrow> typed_global I B v) \<and>
    (\<forall>F \<in> defined_functions I. \<exists>fw. map_of (func_wrapper_map pg) F = Some fw \<and> node_func (pm_nodes (pg_mem pg) (entry_node fw)) = F) \<and>
    (\<forall>ci. contains (call_wrapper_map pg) ci \<longleftrightarrow> (\<exists>F \<in> defined_functions I. ci \<in> set (instructions I F) \<and>
      kind I ci = KCall \<and> \<not> isDbgDeclare B ci \<and> (\<exists>G. getCalledFunc I ci = Some G \<and> hasFuncWrapper pg G))) \<and>
    mirrors (field_edges (pg_mem pg)) (pm_nodes (pg_mem pg))"
proof -
  obtain pg where pg: "pdg_build I D B new_ProgramGraph = Some pg" "pg_inv I B pg" "is_build (pg_graph pg)"
      "\<forall>F \<in> set (moduleFunctions I). function_built I F pg"
      "\<forall>ci. contains (call_wrapper_map pg) ci \<longleftrightarrow> (\<exists>F \<in> set (moduleFunctions I). hasBody I F \<and> ci \<in> set (instructions I F) \<and>
        kind I ci = KCall \<and> \<not> isDbgDeclare B ci \<and> (\<exists>G. getCalledFunc I ci = Some G \<and> hasFuncWrapper pg G))"
    using pdg_build_ok [OF assms new_ProgramGraph_inv, of I B] by (auto simp: new_ProgramGraph_def)
  have node: "getNode (pg_graph pg) v = map_of (val_node_map (pg_graph pg)) v" for v by (auto simp: getNode_def hasNode_def contains_def)
  have nodes: "(\<exists>n. getNode (pg_graph pg) v = Some n) \<longleftrightarrow> v \<in> bound_values pg" for v by (simp add: node contains_map_of)
  have "\<exists>fw. map_of (func_wrapper_map pg) F = Some fw \<and> node_func (pm_nodes (pg_mem pg) (entry_node fw)) = F" if "F \<in> defined_functions I" for F
  proof -
    have "function_built I F pg" using pg(4) that by (simp add: defined_functions_def)
    then have "contains (func_wrapper_map pg) F" using that unfolding function_built_def defined_functions_def by blast
    then show ?thesis using pg_invD(3) [OF pg(2)] by (auto simp: contains_def wrapper_ok_def)
  qed
  moreover have "mirrors (field_edges (pg_mem pg)) (pm_nodes (pg_mem pg))" using pg_invD(1) [OF pg(2)] unfolding mem_ok_def by blast
  moreover have "node_val (pm_nodes (pg_mem pg) n) = v" if "getNode (pg_graph pg) v = Some n" for v n
    using pg_invD(2) [OF pg(2)] that by (simp add: stands_for_def node)
  moreover have "(\<exists>n. getNode (pg_graph pg) v = Some n) \<longleftrightarrow> typed_global I B v \<or> (\<exists>F \<in> defined_functions I. v \<in> set (instructions I F))" for v
    unfolding nodes pdg_build_keys(1) [OF pg(1)] by blast
  moreover have "contains (global_var_tree_map pg) v \<longleftrightarrow> typed_global I B v" for v using pdg_build_keys(2) [OF pg(1)] by blast
  ultimately show ?thesis using pg(1,3,5) defined_functions_hasBody [of I] by (intro exI [of _ pg]) blast
qed

text \<open>
  C39: The tree of a global variable is never expanded.  The debug type of the variable is only tested and not given to the root, so
  that building the tree of a variable, whatever its type, allocates the root alone; the root points to itself through its address.
\<close>

theorem global_tree_is_single_node:
  assumes "\<not> isConstantGlobal B gv" and "getGlobalVarDIType B gv \<noteq> 0"
  shows "\<exists>pg'. buildGlobal I D B gv pg = Some pg' \<and> pm_next (pg_mem pg') = Suc (pm_next (pg_mem pg)) \<and>
    tn_children (pm_tnodes (pg_mem pg') (pm_next (pg_mem pg))) = [] \<and>
    addr_vars (pm_tnodes (pg_mem pg') (pm_next (pg_mem pg))) = [gv] \<and> node_di_type (pm_nodes (pg_mem pg') (pm_next (pg_mem pg))) = 0"
proof -
  let ?n = "pm_next (pg_mem pg)"
  obtain n m1 where m1: "new_TreeNode_val I gv GLOBAL_VAR (pg_mem pg) = (n, m1)" by fastforce
  note f = alloc_node_fields [OF m1 [unfolded new_TreeNode_val_def]]
  obtain t m2 where m2: "new_Tree_val (uninitTree B) gv (addAddrVars n [gv] m1) = (t, m2)" by fastforce
  have g: "pm_nodes m2 = pm_nodes m1" "pm_next m2 = pm_next m1"
    "pm_tnodes m2 = (pm_tnodes m1)(n := (pm_tnodes m1 n)\<lparr>addr_vars := fold List.insert [gv] (addr_vars (pm_tnodes m1 n))\<rparr>)"
    using m2 by (auto simp: new_Tree_val_def alloc_tree_def addAddrVars_def Let_def)
  let ?m = "setRootNode t n m2"
  have di: "node_di_type (pm_nodes ?m n) = 0" using f g by (simp add: setRootNode_def new_Node_val_def new_Node_def)
  then have "expandNode I D n (increaseTreeSize t ?m) = Some (0, increaseTreeSize t ?m)" by (simp add: expandNode_def)
  then have "expand_levels max_tree_depth I D t [n] ?m = Some (increaseTreeSize t ?m)"
    by (simp add: max_tree_depth_def eval_nat_numeral)
  then have "tree_build I D t ?m = Some (increaseTreeSize t ?m)" by (simp add: tree_build_def)
  then show ?thesis using assms m1 m2 f g di
    by (simp add: buildGlobal_def setRootNode_def mk_TreeNode_def)
qed

subsection \<open>Formal and actual trees\<close>

lemma read_tree_frame:
  assumes "mem_ok m" and "r < pm_next m" and "\<And>n. n < pm_next m \<Longrightarrow> tn_children (pm_tnodes m' n) = tn_children (pm_tnodes m n) \<and>
    node_di_type (pm_nodes m' n) = node_di_type (pm_nodes m n)"
  shows "read_tree j m' r = read_tree j m r"
  using assms(2)
proof (induction j arbitrary: r)
  case 0
  then show ?case using assms(3) by simp
next
  case (Suc j)
  have "c < pm_next m" if "c \<in> set (tn_children (pm_tnodes m r))" for c
    using assms(1) Suc.prems that unfolding mem_ok_def by blast
  then have "map (read_tree j m') (tn_children (pm_tnodes m r)) = map (read_tree j m) (tn_children (pm_tnodes m r))"
    using Suc.IH by simp
  then show ?case using assms(3) [OF Suc.prems] by simp
qed

lemma build_copy_shape:
  assumes "di_ok D" and "mem_ok m" and "r = root_node (pm_trees m src)"
  shows "\<exists>t m'. build_copy I D B src base ty vs m = Some (t, m') \<and> t = pm_next_tree m \<and> extends m m' \<and>
    (\<forall>j \<ge> max_tree_depth. read_tree j m' (root_node (pm_trees m' t)) = type_unfold max_tree_depth D (node_di_type (pm_nodes m r))) \<and>
    (\<forall>n < pm_next m. tn_children (pm_tnodes m' n) = tn_children (pm_tnodes m n)) \<and>
    (\<forall>u < pm_next_tree m. root_node (pm_trees m' u) = root_node (pm_trees m u))"
proof -
  obtain n m0 where m0: "copy_TreeNode r m = (n, m0)" by fastforce
  note a = m0 [unfolded copy_TreeNode_def Let_def]
  note f = alloc_node_fields [OF a]
  obtain tr where tr: "copy_Tree (uninitTree B) src m = alloc_tree tr m0" "root_node tr = n"
    using m0 assms(3) by (auto simp: copy_Tree_def Let_def)
  obtain t m1 where m1: "alloc_tree tr m0 = (t, m1)" by fastforce
  note c = alloc_tree_fields [OF m1]
  define m2 where "m2 = (case base of None \<Rightarrow> m1 | Some v \<Rightarrow> setBaseVal t v m1)"
  define m3 where "m3 = addAddrVars (root_node (pm_trees m2 t)) vs m2"
  define m4 where "m4 = setTreeNodeType t ty m3"
  have s: "same_shape m0 m4"
  proof -
    have "same_shape m1 m2" using same_shapeI [of m1 m1] by (auto simp: m2_def split: option.splits)
    then have "same_shape m0 m2" using c same_shape_trans by blast
    then have "same_shape m0 m3" using same_shape_trans [of m0 m2 m3] by (simp add: m3_def)
    then show ?thesis using same_shape_trans [of m0 m3 m4] setTreeNodeType_same_shape by (simp add: m4_def)
  qed
  have roots: "root_node (pm_trees m4 u) = (if u = t then n else root_node (pm_trees m0 u))" for u
    using c tr(2) by (simp add: m4_def m3_def m2_def split: option.splits)
  have ok0: "mem_ok m0" using alloc_node_ok(1) [OF assms(2) _ a] by simp
  have e0: "extends m m4"
    using alloc_node_ok(2) [OF assms(2) _ a] same_shape_ok(2) [OF s ok0] extends_trans by (metis blank_new(2))
  have n: "0 < n" "n < pm_next m4" "tn_children (pm_tnodes m4 n) = []" "node_di_type (pm_nodes m4 n) = node_di_type (pm_nodes m r)"
    using assms(2) s f same_shape_node(3) [OF s, of n] by (simp_all add: mem_ok_def same_shape_def mk_TreeNode_def)
  obtain m5 where m5: "tree_build I D t m4 = Some m5" "levels_expanded max_tree_depth D [n] m4 m5"
    using tree_build_ok [OF assms(1) same_shape_ok(1) [OF s ok0] _ n(1-3), of t I] roots by auto
  note l = m5(2) [unfolded levels_expanded_def]
  have "build_copy I D B src base ty vs m = Some (t, m5)" using tr(1) m1 m5(1) by (simp add: build_copy_def m4_def m3_def m2_def)
  moreover have tk: "t = pm_next_tree m" using c f by simp
  moreover have "extends m m5" using e0 l extends_trans by blast
  moreover have "root_node (pm_trees m5 t) = n" using l roots by simp
  moreover have "\<forall>j \<ge> max_tree_depth. read_tree j m5 n = type_unfold max_tree_depth D (node_di_type (pm_nodes m r))" using l n(4) by simp
  moreover have "tn_children (pm_tnodes m5 i) = tn_children (pm_tnodes m i)" if "i < pm_next m" for i
  proof -
    have "tn_children (pm_tnodes m4 i) = tn_children (pm_tnodes m i)" using s f that by (simp add: same_shape_def)
    then show ?thesis using l that f s by (simp add: same_shape_def)
  qed
  moreover have "root_node (pm_trees m5 u) = root_node (pm_trees m u)" if "u < pm_next_tree m" for u
    using l roots f that tk by simp
  ultimately show ?thesis by auto
qed

text \<open>
  The formal-out tree of a parameter and the actual trees of a call are built like the formal-in tree they are copied from: only the
  root is copied, but building the copy unfolds the same debug type, so that read back to any depth both trees are equal, as the
  code that connects them node by node assumes.
\<close>

theorem copied_tree_has_same_shape:
  assumes "di_ok D" and "mem_ok m" and "r = root_node (pm_trees m src)" and "r < pm_next m" and "src < pm_next_tree m"
    and "\<And>j. 6 \<le> j \<Longrightarrow> read_tree j m r = type_unfold 6 D (node_di_type (pm_nodes m r))" and "6 \<le> j"
  shows "\<exists>t m'. build_copy I D B src base ty vs m = Some (t, m') \<and>
    read_tree j m' (root_node (pm_trees m' t)) = read_tree j m' (root_node (pm_trees m' src))"
proof -
  obtain t m' where m': "build_copy I D B src base ty vs m = Some (t, m')" "extends m m'"
      "\<forall>j \<ge> 6. read_tree j m' (root_node (pm_trees m' t)) = type_unfold 6 D (node_di_type (pm_nodes m r))"
      "\<forall>n < pm_next m. tn_children (pm_tnodes m' n) = tn_children (pm_tnodes m n)"
      "\<forall>u < pm_next_tree m. root_node (pm_trees m' u) = root_node (pm_trees m u)"
    using build_copy_shape [OF assms(1-3), of I B base ty vs] unfolding max_tree_depth_def by blast
  have "read_tree j m' r = read_tree j m r"
    by (rule read_tree_frame [OF assms(2,4)]) (use m'(2,4) in \<open>simp add: extends_def\<close>)
  then show ?thesis using m'(1,3,5) assms(3,5-7) by auto
qed

subsection \<open>Examples\<close>

definition dbg_example :: dbg where
  "dbg_example = \<lparr>isDbgDeclare = (\<lambda>_. False), dbgVariable = (\<lambda>_. 0), dbgAddress = (\<lambda>_. 0), varArg = (\<lambda>_. 0), varName = (\<lambda>_. []),
     varSubprogram = (\<lambda>_. 0), varType = (\<lambda>_. 0), fnSubprogram = (\<lambda>_. 0), fnTypeArrays = (\<lambda>_. []), gvTypes = (\<lambda>g. if g = 9 then [5] else []),
     isConstantGlobal = (\<lambda>_. False), uninitTree = (\<lambda>_. \<lparr>base_val = 0, root_node = 0, tree_size = 77\<rparr>)\<rparr>"

theorem program_graph_built_witness:
  "\<exists>pg n. pdg_build (ddg_example\<lparr>moduleGlobals := [8, 9]\<rparr>) di_example dbg_example new_ProgramGraph = Some pg \<and> getNode (pg_graph pg) 5 = Some n \<and>
     node_val (pm_nodes (pg_mem pg) n) = 5 \<and> (\<exists>k. getNode (pg_graph pg) 9 = Some k) \<and> getNode (pg_graph pg) 8 = None"
proof -
  let ?I = "ddg_example\<lparr>moduleGlobals := [8, 9]\<rparr>"
  obtain pg where pg: "pdg_build ?I di_example dbg_example new_ProgramGraph = Some pg"
      "\<forall>v. (\<exists>n. getNode (pg_graph pg) v = Some n) \<longleftrightarrow> typed_global ?I dbg_example v \<or> (\<exists>F \<in> defined_functions ?I. v \<in> set (instructions ?I F))"
      "\<forall>v n. getNode (pg_graph pg) v = Some n \<longrightarrow> node_val (pm_nodes (pg_mem pg) n) = v"
    using program_graph_built [OF di_example_ok, of ?I dbg_example] by blast
  have "\<exists>F \<in> defined_functions ?I. 5 \<in> set (instructions ?I F)" "\<not> (\<exists>F \<in> defined_functions ?I. 8 \<in> set (instructions ?I F))"
    by (simp_all add: defined_functions_def instructions_def ddg_example_def empty_ir_def)
  moreover have "typed_global ?I dbg_example 9" "\<not> typed_global ?I dbg_example 8"
    by (simp_all add: typed_global_def dbg_example_def getGlobalVarDIType_def)
  ultimately show ?thesis using pg by (metis not_None_eq)
qed

theorem global_tree_is_single_node_witness:
  "\<exists>pg'. buildGlobal empty_ir di_example dbg_example 9 new_ProgramGraph = Some pg' \<and> pm_next (pg_mem pg') = 2 \<and> tn_children (pm_tnodes (pg_mem pg') 1) = []"
  using global_tree_is_single_node [of dbg_example 9 empty_ir di_example new_ProgramGraph]
  by (auto simp: dbg_example_def getGlobalVarDIType_def new_ProgramGraph_def new_mem_def)

theorem copied_tree_has_same_shape_witness:
  "\<exists>m t m'. tree_build empty_ir di_example 1 tree_example = Some m \<and> build_copy empty_ir di_example dbg_example 1 None FORMAL_OUT [] m = Some (t, m') \<and>
     read_tree 9 m' (root_node (pm_trees m' t)) = read_tree 9 m' (root_node (pm_trees m' 1))"
proof -
  have "\<exists>m. tree_build empty_ir di_example 1 tree_example = Some m \<and> levels_expanded max_tree_depth di_example [1] tree_example m"
    by (rule tree_build_ok [OF di_example_ok tree_example_ok]) (simp_all add: tree_example_def mk_TreeNode_def)
  then obtain m where m: "tree_build empty_ir di_example 1 tree_example = Some m" "levels_expanded max_tree_depth di_example [1] tree_example m" by blast
  note l = m(2) [unfolded levels_expanded_def]
  have e: "extends tree_example m" "mem_ok m" "root_node (pm_trees m 1) = 1" using l by (simp_all add: tree_example_def)
  have b: "1 < pm_next m" "1 < pm_next_tree m" "node_di_type (pm_nodes m 1) = node_di_type (pm_nodes tree_example 1)"
    using e(1) by (auto simp: extends_def tree_example_def)
  have r: "read_tree j m 1 = type_unfold 6 di_example (node_di_type (pm_nodes m 1))" if "6 \<le> j" for j
    unfolding b(3) using l that by (simp add: max_tree_depth_def)
  have "\<exists>t m'. build_copy empty_ir di_example dbg_example 1 None FORMAL_OUT [] m = Some (t, m') \<and>
      read_tree 9 m' (root_node (pm_trees m' t)) = read_tree 9 m' (root_node (pm_trees m' 1))"
    by (rule copied_tree_has_same_shape [OF di_example_ok e(2) e(3) [symmetric] b(1,2) r]) simp_all
  then show ?thesis using m(1) by blast
qed

end
