(* ===== verification/Node_Types.thy ===== *)
theory Node_Types
  imports Program_Graph
begin

text \<open>
  Debug types for the nodes of the program graph and the end of its construction: \<^verbatim>\<open>bindDITypeToNodes\<close> and
  \<^verbatim>\<open>computeNodeDIType\<close> of \<^verbatim>\<open>Graph.cpp\<close>, \<^verbatim>\<open>runOnModule\<close> and \<^verbatim>\<open>connectGlobalTreeWithAddrVars\<close> of
  \<^verbatim>\<open>ProgramDependencyGraph.cpp\<close>.
\<close>

subsection \<open>Debug types of nodes\<close>

definition setDIType :: "nid \<Rightarrow> dtid \<Rightarrow> pdg_mem \<Rightarrow> pdg_mem" where
  "setDIType n dt m = m\<lparr>pm_nodes := (pm_nodes m)(n := (pm_nodes m n)\<lparr>node_di_type := dt\<rparr>)\<rparr>"

definition di_of :: "GenericGraph \<Rightarrow> pdg_mem \<Rightarrow> vid \<Rightarrow> dtid option" where
  "di_of G m v = map_option (\<lambda>n. node_di_type (pm_nodes m n)) (getNode G v)"

fun similar_alloca :: "ir \<Rightarrow> di \<Rightarrow> GenericGraph \<Rightarrow> pdg_mem \<Rightarrow> vid \<Rightarrow> vid list \<Rightarrow> dtid option" where
  "similar_alloca I D G m v [] = Some 0"
| "similar_alloca I D G m v (ai # is) =
     (if ai = v \<or> kind I ai \<noteq> KAlloca \<or> typeOf I ai \<noteq> typeOf I v then similar_alloca I D G m v is
      else case di_of G m ai of
             None \<Rightarrow> None
           | Some alloca_node_dt \<Rightarrow>
               if alloca_node_dt = 0 then similar_alloca I D G m v is
               else Option.bind (isStructPointerType D alloca_node_dt) (\<lambda>b.
                 if b then Some alloca_node_dt else similar_alloca I D G m v is))"

definition alloca_type :: "ir \<Rightarrow> di \<Rightarrow> GenericGraph \<Rightarrow> pdg_mem \<Rightarrow> nid \<Rightarrow> dtid option" where
  "alloca_type I D G m n =
     (let x = pm_nodes m n
      in if node_di_type x = 0 then similar_alloca I D G m (node_val x) (instructions I (node_func x)) else Some (node_di_type x))"

definition load_type :: "ir \<Rightarrow> di \<Rightarrow> dbg \<Rightarrow> GenericGraph \<Rightarrow> pdg_mem \<Rightarrow> vid \<Rightarrow> dtid option" where
  "load_type I D B G m li =
     (let load_addr = loadPointer I li
      in if isInstruction I load_addr
         then (case di_of G m load_addr of
                 None \<Rightarrow> Some 0
               | Some dt \<Rightarrow> if dt = 0 \<or> getBaseDIType D dt = 0 then Some 0 else stripAttributes D (getBaseDIType D dt))
         else if kind I load_addr = KGlobalVariable
         then (let dt = getGlobalVarDIType B load_addr in Some (if dt = 0 then 0 else getBaseDIType D dt))
         else Some 0)"

definition store_type :: "ir \<Rightarrow> di \<Rightarrow> GenericGraph \<Rightarrow> vid \<Rightarrow> pdg_mem \<Rightarrow> (dtid \<times> pdg_mem) option" where
  "store_type I D G si m =
     (case (getNode G (storeValue I si), di_of G m (storePointer I si)) of
        (Some value_op_node, Some ptr_op_di_type) \<Rightarrow>
          if node_di_type (pm_nodes m value_op_node) \<noteq> 0 \<or> ptr_op_di_type = 0 \<or> getBaseDIType D ptr_op_di_type = 0 then Some (0, m)
          else Option.bind (stripAttributes D (getBaseDIType D ptr_op_di_type)) (\<lambda>dt. Some (dt, setDIType value_op_node dt m))
      | _ \<Rightarrow> Some (0, m))"

definition matching_member :: "ir \<Rightarrow> di \<Rightarrow> vid \<Rightarrow> dtid \<Rightarrow> bool" where
  "matching_member I D gep member \<longleftrightarrow> member \<noteq> 0 \<and> di_isa D member = DIDerivedType \<and> getTag D member = DW_TAG_member \<and>
     getBaseType D member \<noteq> 0 \<and> isGEPOffsetMatchDIOffset I D (getBaseType D member) gep"

definition gep_type :: "ir \<Rightarrow> di \<Rightarrow> GenericGraph \<Rightarrow> pdg_mem \<Rightarrow> vid \<Rightarrow> dtid option" where
  "gep_type I D G m gep =
     (case di_of G m (gepPointer I gep) of
        None \<Rightarrow> Some 0
      | Some dt \<Rightarrow>
          if dt = 0 then Some 0
          else Option.bind (getLowestDIType D dt) (\<lambda>lowest.
            if lowest = 0 \<or> getTag D lowest \<noteq> DW_TAG_structure_type \<or> di_isa D lowest \<noteq> DICompositeType then Some 0
            else Some (case find (matching_member I D gep) (getElements D lowest) of None \<Rightarrow> 0 | Some member \<Rightarrow> getBaseType D member)))"

definition computeNodeDIType :: "ir \<Rightarrow> di \<Rightarrow> dbg \<Rightarrow> GenericGraph \<Rightarrow> nid \<Rightarrow> pdg_mem \<Rightarrow> (dtid \<times> pdg_mem) option" where
  "computeNodeDIType I D B G n m =
     (let v = node_val (pm_nodes m n); keep = map_option (\<lambda>dt. (dt, m))
      in if node_func (pm_nodes m n) = 0 \<or> v = 0 then Some (0, m)
         else if kind I v = KAlloca then keep (alloca_type I D G m n)
         else if kind I v = KLoad then keep (load_type I D B G m v)
         else if kind I v = KStore then store_type I D G v m
         else if kind I v = KGEP then keep (gep_type I D G m v)
         else if isCastInst I v then Some (case di_of G m (getOperand I v 0) of None \<Rightarrow> 0 | Some dt \<Rightarrow> dt, m)
         else Some (0, m))"

definition bindDeclare :: "dbg \<Rightarrow> GenericGraph \<Rightarrow> vid \<Rightarrow> pdg_mem \<times> (nid, dtid) dict \<Rightarrow> (pdg_mem \<times> (nid, dtid) dict) option" where
  "bindDeclare B G dbg_declare_inst acc =
     (case getNode G (dbgAddress B dbg_declare_inst) of
        None \<Rightarrow> Some acc
      | Some addr_node \<Rightarrow>
          let DLV = dbgVariable B dbg_declare_inst
          in if DLV = 0 \<or> varType B DLV = 0 then None
             else Some (setDIType addr_node (varType B DLV) (fst acc), dict_insert addr_node (varType B DLV) (snd acc)))"

definition bindInst :: "ir \<Rightarrow> di \<Rightarrow> dbg \<Rightarrow> GenericGraph \<Rightarrow> vid \<Rightarrow> pdg_mem \<Rightarrow> pdg_mem option" where
  "bindInst I D B G i m =
     (case getNode G i of
        None \<Rightarrow> None
      | Some n \<Rightarrow> Option.bind (computeNodeDIType I D B G n m) (\<lambda>(dt, m'). Some (setDIType n dt m')))"

definition bindFunction :: "ir \<Rightarrow> di \<Rightarrow> dbg \<Rightarrow> vid \<Rightarrow> ProgramGraph \<Rightarrow> ProgramGraph option" where
  "bindFunction I D B F pg =
     (if isDeclaration I F then Some pg
      else case map_of (func_wrapper_map pg) F of
             None \<Rightarrow> None
           | Some fw \<Rightarrow>
               Option.bind (fold_option (bindDeclare B (pg_graph pg)) (dbg_declare_insts fw) (pg_mem pg, node_di_type_map pg)) (\<lambda>(m1, tm).
                 Option.bind (fold_option (bindInst I D B (pg_graph pg)) (instructions I F) m1) (\<lambda>m2.
                   Some (pg\<lparr>pg_mem := m2, node_di_type_map := tm\<rparr>))))"

text \<open>
  The type of a global is dereferenced without a test for null (\<^verbatim>\<open>Graph.cpp:257\<close>).  A global with a node has a debug type, since
  only such globals get one (\<open>pdg_build_keys\<close>), so that the dereference is defined here; for instructions it is not, see the header.
\<close>

definition bindGlobal :: "dbg \<Rightarrow> vid \<Rightarrow> ProgramGraph \<Rightarrow> ProgramGraph" where
  "bindGlobal B gv pg =
     (case getNode (pg_graph pg) gv of
        None \<Rightarrow> pg
      | Some n \<Rightarrow> pg\<lparr>pg_mem := setDIType n (getGlobalVarDIType B gv) (pg_mem pg)\<rparr>)"

definition bindDITypeToNodes :: "ir \<Rightarrow> di \<Rightarrow> dbg \<Rightarrow> ProgramGraph \<Rightarrow> ProgramGraph option" where
  "bindDITypeToNodes I D B pg =
     Option.bind (fold_option (bindFunction I D B) (moduleFunctions I) pg) (\<lambda>pg1. Some (fold (bindGlobal B) (moduleGlobals I) pg1))"

subsection \<open>Globals and their addresses\<close>

definition connectAlias :: "ir \<Rightarrow> nid \<Rightarrow> vid list \<Rightarrow> nid \<Rightarrow> pdg_mem \<Rightarrow> pdg_mem" where
  "connectAlias I current_node parent_addr_vars alias_node m =
     (let v = node_val (pm_nodes m alias_node)
      in if v = 0 \<or> v \<in> set parent_addr_vars \<or> kind I v = KGEP \<and> \<not> hasAllZeroIndices I v then m
         else addAddrVars current_node [v] (link current_node alias_node PARAMETER_IN m))"

definition connectAddrVar :: "ir \<Rightarrow> GenericGraph \<Rightarrow> nid \<Rightarrow> vid list \<Rightarrow> vid \<Rightarrow> pdg_mem \<Rightarrow> pdg_mem" where
  "connectAddrVar I G current_node parent_addr_vars addr_var m =
     (case getNode G addr_var of
        None \<Rightarrow> m
      | Some addr_var_node \<Rightarrow>
          let m1 = link current_node addr_var_node PARAMETER_IN m
          in fold (connectAlias I current_node parent_addr_vars)
               (sorted_list_of_set (getOutNeighborsWithDepType (pm_nodes m1) addr_var_node DATA_ALIAS)) m1)"

text \<open>
  The source inserts into the set of addresses while it iterates over it; the loop here visits the addresses that were in the
  set at the start.
\<close>

partial_function (option) connectGlobal_loop :: "ir \<Rightarrow> GenericGraph \<Rightarrow> nid list \<Rightarrow> pdg_mem \<Rightarrow> pdg_mem option" where
  "connectGlobal_loop I G node_queue m =
     (case node_queue of
        [] \<Rightarrow> Some m
      | current_node # rest \<Rightarrow>
          let parent = parent_node (pm_tnodes m current_node);
              parent_addr_vars = (if parent = 0 then [] else addr_vars (pm_tnodes m parent));
              m1 = fold (connectAddrVar I G current_node parent_addr_vars) (addr_vars (pm_tnodes m current_node)) m
          in connectGlobal_loop I G (rest @ tn_children (pm_tnodes m1 current_node)) m1)"

definition connectGlobalTreeWithAddrVars :: "ir \<Rightarrow> tid \<Rightarrow> ProgramGraph \<Rightarrow> ProgramGraph option" where
  "connectGlobalTreeWithAddrVars I t pg =
     map_option (\<lambda>m. pg\<lparr>pg_mem := m\<rparr>) (connectGlobal_loop I (pg_graph pg) [root_node (pm_trees (pg_mem pg) t)] (pg_mem pg))"

definition ensureBuilt :: "ir \<Rightarrow> di \<Rightarrow> dbg \<Rightarrow> ProgramGraph \<Rightarrow> ProgramGraph option" where
  "ensureBuilt I D B pg =
     (if is_build (pg_graph pg) then Some pg else Option.bind (pdg_build I D B pg) (bindDITypeToNodes I D B))"

text \<open>
  The pass itself, on the graph that the data dependence pass, which it requires, leaves behind.  The control dependence pass is
  a function pass: it runs for a function when \<^verbatim>\<open>getAnalysis\<close> asks for it, which only \<open>connectIntraprocDependencies\<close> does.  The pass also
  builds the call graph and sets up the points-to analysis if that was not done; these are objects of their own
  (\<open>cg_build\<close> and the record of points-to results) and do not touch the program graph.
\<close>

definition pdg_runOnModule :: "ir \<Rightarrow> di \<Rightarrow> dbg \<Rightarrow> ProgramGraph \<Rightarrow> ProgramGraph option" where
  "pdg_runOnModule I D B pg =
     Option.bind (ensureBuilt I D B pg) (\<lambda>pg1. fold_option (connectGlobalTreeWithAddrVars I) (map snd (global_var_tree_map pg1)) pg1)"

subsection \<open>Binding types changes nothing else\<close>

definition only_types :: "pdg_mem \<Rightarrow> pdg_mem \<Rightarrow> bool" where
  "only_types m m' \<longleftrightarrow> pm_next m' = pm_next m \<and> pm_next_tree m' = pm_next_tree m \<and> pm_trees m' = pm_trees m \<and> pm_tnodes m' = pm_tnodes m \<and>
     (\<forall>n. \<exists>d. pm_nodes m' n = (pm_nodes m n)\<lparr>node_di_type := d\<rparr>)"

lemma only_types_refl [simp]: "only_types m m"
proof -
  have "\<exists>d. x = x\<lparr>node_di_type := d\<rparr>" for x :: Node by (rule exI [of _ "node_di_type x"]) simp
  then show ?thesis by (simp add: only_types_def)
qed

lemma only_types_trans:
  assumes "only_types a b" and "only_types b c"
  shows "only_types a c"
proof -
  have "\<exists>d. pm_nodes c n = (pm_nodes a n)\<lparr>node_di_type := d\<rparr>" for n
  proof -
    obtain d d' where "pm_nodes b n = (pm_nodes a n)\<lparr>node_di_type := d\<rparr>" "pm_nodes c n = (pm_nodes b n)\<lparr>node_di_type := d'\<rparr>"
      using assms unfolding only_types_def by blast
    then have "pm_nodes c n = (pm_nodes a n)\<lparr>node_di_type := d'\<rparr>" by simp
    then show ?thesis by blast
  qed
  then show ?thesis using assms unfolding only_types_def by simp
qed

lemma setDIType_only_types [simp]: "only_types m (setDIType n dt m)"
proof -
  have "\<exists>d. x = x\<lparr>node_di_type := d\<rparr>" for x :: Node by (rule exI [of _ "node_di_type x"]) simp
  then show ?thesis by (auto simp: only_types_def setDIType_def)
qed

lemma only_types_node:
  assumes "only_types m m'"
  shows "node_val (pm_nodes m' n) = node_val (pm_nodes m n)" and "node_func (pm_nodes m' n) = node_func (pm_nodes m n)"
    and "stands_for I v (pm_nodes m' n) = stands_for I v (pm_nodes m n)"
proof -
  obtain d where "pm_nodes m' n = (pm_nodes m n)\<lparr>node_di_type := d\<rparr>" using assms unfolding only_types_def by blast
  then show "node_val (pm_nodes m' n) = node_val (pm_nodes m n)" "node_func (pm_nodes m' n) = node_func (pm_nodes m n)"
    "stands_for I v (pm_nodes m' n) = stands_for I v (pm_nodes m n)" by (simp_all add: stands_for_def)
qed

lemma mirrors_only_types:
  assumes "only_types m m'" and "mirrors E (pm_nodes m)"
  shows "mirrors E (pm_nodes m')"
proof -
  have f: "out_edge_set (pm_nodes m' n) = out_edge_set (pm_nodes m n)" "in_edge_set (pm_nodes m' n) = in_edge_set (pm_nodes m n)"
    "out_neighbors (pm_nodes m' n) = out_neighbors (pm_nodes m n)" "in_neighbors (pm_nodes m' n) = in_neighbors (pm_nodes m n)"
    "out_neighbors_with_edge_type (pm_nodes m' n) = out_neighbors_with_edge_type (pm_nodes m n)"
    "in_neighbors_with_edge_type (pm_nodes m' n) = in_neighbors_with_edge_type (pm_nodes m n)" for n
  proof -
    obtain d where "pm_nodes m' n = (pm_nodes m n)\<lparr>node_di_type := d\<rparr>" using assms(1) unfolding only_types_def by blast
    then show "out_edge_set (pm_nodes m' n) = out_edge_set (pm_nodes m n)" "in_edge_set (pm_nodes m' n) = in_edge_set (pm_nodes m n)"
    "out_neighbors (pm_nodes m' n) = out_neighbors (pm_nodes m n)" "in_neighbors (pm_nodes m' n) = in_neighbors (pm_nodes m n)"
    "out_neighbors_with_edge_type (pm_nodes m' n) = out_neighbors_with_edge_type (pm_nodes m n)"
    "in_neighbors_with_edge_type (pm_nodes m' n) = in_neighbors_with_edge_type (pm_nodes m n)" by simp_all
  qed
  have "mirrors E (pm_nodes m') = mirrors E (pm_nodes m)" by (simp only: mirrors_def f)
  then show ?thesis using assms(2) by simp
qed

subsection \<open>Binding types succeeds\<close>

definition nodes_stand :: "ir \<Rightarrow> GenericGraph \<Rightarrow> pdg_mem \<Rightarrow> bool" where
  "nodes_stand I G m \<longleftrightarrow> (\<forall>v n. getNode G v = Some n \<longrightarrow> stands_for I v (pm_nodes m n))"

lemma nodes_stand_only_types: "nodes_stand I G m \<Longrightarrow> only_types m m' \<Longrightarrow> nodes_stand I G m'"
  by (simp add: nodes_stand_def only_types_node(3))

definition has_nodes :: "GenericGraph \<Rightarrow> vid list \<Rightarrow> bool" where
  "has_nodes G vs \<longleftrightarrow> (\<forall>v \<in> set vs. \<exists>n. getNode G v = Some n)"

lemma similar_alloca_total:
  assumes "di_ok D" and "has_nodes G is"
  shows "\<exists>dt. similar_alloca I D G m v is = Some dt"
  using assms(2)
proof (induction "is")
  case (Cons i "is")
  obtain n where n: "getNode G i = Some n" and rest: "\<exists>dt. similar_alloca I D G m v is = Some dt" using Cons by (auto simp: has_nodes_def)
  show ?case
  proof (cases "node_di_type (pm_nodes m n) = 0")
    case False
    then obtain b where "isStructPointerType D (node_di_type (pm_nodes m n)) = Some b" using isStructPointerType_total [OF assms(1)] by blast
    then show ?thesis using n rest False by (simp add: di_of_def)
  qed (use n rest in \<open>simp add: di_of_def\<close>)
qed simp

lemma strip_total: "di_ok D \<Longrightarrow> d \<noteq> 0 \<Longrightarrow> \<exists>s. stripAttributes D d = Some s"
  using stripAttributes_exact by blast

lemma load_type_total: "di_ok D \<Longrightarrow> \<exists>dt. load_type I D B G m v = Some dt"
proof -
  assume D: "di_ok D"
  show ?thesis
  proof (cases "isInstruction I (loadPointer I v)")
    case True
    show ?thesis
    proof (cases "di_of G m (loadPointer I v)")
      case (Some dt)
      then show ?thesis using True strip_total [OF D, of "getBaseDIType D dt"] by (cases "dt = 0 \<or> getBaseDIType D dt = 0") (auto simp: load_type_def)
    qed (use True in \<open>simp add: load_type_def\<close>)
  qed (simp add: load_type_def Let_def)
qed

lemma gep_type_total: "di_ok D \<Longrightarrow> \<exists>dt. gep_type I D G m v = Some dt"
proof -
  assume D: "di_ok D"
  have l: "\<exists>l. getLowestDIType D dt = Some l" for dt using getLowestDIType_exact [of D dt] D by (auto simp: di_ok_def)
  show ?thesis
  proof (cases "di_of G m (gepPointer I v)")
    case (Some dt)
    then show ?thesis using l [of dt] by (auto simp: gep_type_def)
  qed (simp add: gep_type_def)
qed

lemma store_type_total:
  assumes "di_ok D"
  shows "\<exists>dt m'. store_type I D G v m = Some (dt, m') \<and> only_types m m'"
proof (cases "getNode G (storeValue I v)")
  case (Some n)
  show ?thesis
  proof (cases "di_of G m (storePointer I v)")
    case p: (Some p)
    show ?thesis
    proof (cases "node_di_type (pm_nodes m n) \<noteq> 0 \<or> p = 0 \<or> getBaseDIType D p = 0")
      case False
      then obtain s where "stripAttributes D (getBaseDIType D p) = Some s" using strip_total [OF assms, of "getBaseDIType D p"] by auto
      then show ?thesis using Some p False by (simp add: store_type_def)
    qed (use Some p in \<open>auto simp: store_type_def\<close>)
  qed (use Some in \<open>simp add: store_type_def\<close>)
qed (simp add: store_type_def)

lemma computeNodeDIType_total:
  assumes "di_ok D" and "has_nodes G (instructions I (node_func (pm_nodes m n)))"
  shows "\<exists>dt m'. computeNodeDIType I D B G n m = Some (dt, m') \<and> only_types m m'"
proof -
  let ?v = "node_val (pm_nodes m n)"
  have "\<exists>dt. alloca_type I D G m n = Some dt" using similar_alloca_total [OF assms] by (simp add: alloca_type_def Let_def)
  moreover have "\<exists>dt. load_type I D B G m ?v = Some dt" "\<exists>dt. gep_type I D G m ?v = Some dt"
    using load_type_total gep_type_total assms(1) by blast+
  ultimately show ?thesis using store_type_total [OF assms(1), of I G ?v m] by (auto simp: computeNodeDIType_def Let_def)
qed

definition bind_ok :: "ir \<Rightarrow> di \<Rightarrow> GenericGraph \<Rightarrow> vid \<Rightarrow> bool" where
  "bind_ok I D G i \<longleftrightarrow> di_ok D \<and> (\<exists>n. getNode G i = Some n) \<and> isInstruction I i \<and> has_nodes G (instructions I (getFunction I i))"

lemma bindInst_ok:
  assumes "bind_ok I D G i" and "nodes_stand I G m"
  shows "\<exists>m'. bindInst I D B G i m = Some m' \<and> nodes_stand I G m' \<and> only_types m m'"
proof -
  obtain n where n: "getNode G i = Some n" using assms(1) by (auto simp: bind_ok_def)
  have "node_func (pm_nodes m n) = getFunction I i" using assms n by (simp add: nodes_stand_def stands_for_def bind_ok_def)
  then obtain dt m' where m': "computeNodeDIType I D B G n m = Some (dt, m')" "only_types m m'"
    using computeNodeDIType_total [of D G I m n B] assms(1) by (auto simp: bind_ok_def)
  have o: "only_types m (setDIType n dt m')" using m'(2) only_types_trans setDIType_only_types by blast
  show ?thesis using n m'(1) o nodes_stand_only_types [OF assms(2) o] by (simp add: bindInst_def)
qed

interpretation bind_steps: total_steps "bindInst I D B G" "bind_ok I D G" "nodes_stand I G" only_types for I D B G
  by unfold_locales (use bindInst_ok in \<open>blast | auto intro: only_types_trans\<close>)+

text \<open>Debug intrinsics describe variables with a type; functions without a body are the declarations.\<close>

definition dbg_ok :: "dbg \<Rightarrow> bool" where
  "dbg_ok B \<longleftrightarrow> (\<forall>i. isDbgDeclare B i \<longrightarrow> dbgVariable B i \<noteq> 0 \<and> varType B (dbgVariable B i) \<noteq> 0)"

definition module_ok :: "ir \<Rightarrow> bool" where
  "module_ok I \<longleftrightarrow> parents_ok I \<and> (\<forall>F \<in> set (moduleFunctions I). isDeclaration I F \<longleftrightarrow> blocks I F = []) \<and>
     (\<forall>F \<in> defined_functions I. \<forall>i \<in> set (instructions I F). isInstruction I i)"

lemma bindDeclares_ok:
  assumes "dbg_ok B" and "\<And>i. i \<in> set ds \<Longrightarrow> isDbgDeclare B i"
  shows "\<exists>m' tm'. fold_option (bindDeclare B G) ds (m, tm) = Some (m', tm') \<and> only_types m m'"
  using assms(2)
proof (induction ds arbitrary: m tm)
  case (Cons d ds)
  have d: "dbgVariable B d \<noteq> 0" "varType B (dbgVariable B d) \<noteq> 0" using assms(1) Cons.prems [of d] by (simp_all add: dbg_ok_def)
  obtain m1 tm1 where m1: "bindDeclare B G d (m, tm) = Some (m1, tm1)" "only_types m m1"
    using d by (cases "getNode G (dbgAddress B d)") (simp_all add: bindDeclare_def Let_def)
  obtain m2 tm2 where "fold_option (bindDeclare B G) ds (m1, tm1) = Some (m2, tm2)" "only_types m1 m2" using Cons.IH [of m1 tm1] Cons.prems by auto
  then show ?case using m1 only_types_trans [of m m1 m2] by simp
qed simp

definition types_inv :: "ir \<Rightarrow> dbg \<Rightarrow> ProgramGraph \<Rightarrow> bool" where
  "types_inv I B pg \<longleftrightarrow> nodes_stand I (pg_graph pg) (pg_mem pg) \<and>
     (\<forall>F \<in> set (moduleFunctions I). function_built I F pg) \<and>
     (\<forall>F fw. map_of (func_wrapper_map pg) F = Some fw \<longrightarrow> dbg_declare_insts fw = filter (isDbgDeclare B) (instructions I F))"

definition types_le :: "ProgramGraph \<Rightarrow> ProgramGraph \<Rightarrow> bool" where
  "types_le pg pg' \<longleftrightarrow> only_types (pg_mem pg) (pg_mem pg') \<and> pg_graph pg' = pg_graph pg \<and> func_wrapper_map pg' = func_wrapper_map pg \<and>
     call_wrapper_map pg' = call_wrapper_map pg \<and> global_var_tree_map pg' = global_var_tree_map pg"

lemma types_le_refl [simp]: "types_le pg pg"
  by (simp add: types_le_def)

lemma types_le_trans: "types_le a b \<Longrightarrow> types_le b c \<Longrightarrow> types_le a c"
  using only_types_trans by (auto simp: types_le_def)

lemma types_inv_le: "types_inv I B pg \<Longrightarrow> types_le pg pg' \<Longrightarrow> types_inv I B pg'"
  using nodes_stand_only_types by (auto simp: types_inv_def types_le_def function_built_def)

lemma getNode_contains: "contains (val_node_map G) v \<Longrightarrow> \<exists>n. getNode G v = Some n"
  by (auto simp: getNode_def hasNode_def contains_def)

lemma types_inv_node:
  assumes "types_inv I B pg" and "F \<in> defined_functions I" and "i \<in> set (instructions I F)"
  shows "\<exists>n. getNode (pg_graph pg) i = Some n \<and> node_val (pm_nodes (pg_mem pg) n) = i"
proof -
  have "function_built I F pg" using assms(1,2) by (simp add: types_inv_def defined_functions_def)
  then have "contains (val_node_map (pg_graph pg)) i" using assms(2,3) by (simp add: function_built_def defined_functions_def)
  then obtain n where "getNode (pg_graph pg) i = Some n" using getNode_contains by blast
  then show ?thesis using assms(1) by (auto simp: types_inv_def nodes_stand_def stands_for_def)
qed

lemma bindFunction_ok:
  assumes "di_ok D" and "dbg_ok B" and "module_ok I" and "F \<in> set (moduleFunctions I)" and "types_inv I B pg"
  shows "\<exists>pg'. bindFunction I D B F pg = Some pg' \<and> types_inv I B pg' \<and> types_le pg pg'"
proof (cases "isDeclaration I F")
  case True
  then show ?thesis using assms(5) by (simp add: bindFunction_def)
next
  case False
  let ?G = "pg_graph pg"
  have F: "F \<in> defined_functions I" using False assms(3,4) by (auto simp: module_ok_def defined_functions_def)
  have built: "contains (func_wrapper_map pg) F" "has_nodes ?G (instructions I F)"
    using assms(4,5) F getNode_contains by (auto simp: types_inv_def function_built_def defined_functions_def has_nodes_def)
  obtain fw where fw: "map_of (func_wrapper_map pg) F = Some fw" using built(1) by (auto simp: contains_def)
  then have d: "dbg_declare_insts fw = filter (isDbgDeclare B) (instructions I F)" using assms(5) by (simp add: types_inv_def)
  obtain m1 tm where m1: "fold_option (bindDeclare B ?G) (dbg_declare_insts fw) (pg_mem pg, node_di_type_map pg) = Some (m1, tm)" "only_types (pg_mem pg) m1"
    using bindDeclares_ok [OF assms(2), of "dbg_declare_insts fw" ?G "pg_mem pg" "node_di_type_map pg"] d by auto
  have "bind_ok I D ?G i" if "i \<in> set (instructions I F)" for i
    using that F assms(1,3) built(2) unfolding bind_ok_def module_ok_def parents_ok_def has_nodes_def by auto
  then obtain m2 where m2: "fold_option (bindInst I D B ?G) (instructions I F) m1 = Some m2" "only_types m1 m2"
    using bind_steps.loop_total [of I D ?G "instructions I F" m1 B] assms(5) nodes_stand_only_types [OF _ m1(2), of I ?G]
    by (auto simp: list_all_iff types_inv_def)
  let ?pg = "pg\<lparr>pg_mem := m2, node_di_type_map := tm\<rparr>"
  have "types_le pg ?pg" using m1(2) m2(2) only_types_trans by (simp add: types_le_def)
  moreover have "bindFunction I D B F pg = Some ?pg" using False fw m1(1) m2(1) by (simp add: bindFunction_def)
  ultimately show ?thesis using types_inv_le [OF assms(5)] by blast
qed

interpretation function_types: total_steps "bindFunction I D B" "\<lambda>F. di_ok D \<and> dbg_ok B \<and> module_ok I \<and> F \<in> set (moduleFunctions I)"
  "types_inv I B" types_le for I D B
  by unfold_locales (use bindFunction_ok in \<open>blast | auto intro: types_le_trans\<close>)+

lemma bindGlobals_le: "types_le pg (fold (bindGlobal B) gs pg)"
proof (induction gs arbitrary: pg)
  case (Cons g gs)
  have "types_le pg (bindGlobal B g pg)" by (auto simp: bindGlobal_def types_le_def split: option.splits)
  then show ?case using Cons.IH types_le_trans by fastforce
qed simp

lemma bindDITypeToNodes_ok:
  assumes "di_ok D" and "dbg_ok B" and "module_ok I" and "types_inv I B pg"
  shows "\<exists>pg'. bindDITypeToNodes I D B pg = Some pg' \<and> types_inv I B pg' \<and> types_le pg pg'"
proof -
  obtain pg1 where pg1: "fold_option (bindFunction I D B) (moduleFunctions I) pg = Some pg1" "types_inv I B pg1" "types_le pg pg1"
    using function_types.loop_total [of D B I "moduleFunctions I" pg] assms by (auto simp: list_all_iff)
  then show ?thesis using bindGlobals_le types_le_trans types_inv_le by (auto simp: bindDITypeToNodes_def)
qed

subsection \<open>The graph the passes start from\<close>

definition children_bounded :: "pdg_mem \<Rightarrow> bool" where
  "children_bounded m \<longleftrightarrow> (\<forall>n < pm_next m. \<forall>c \<in> set (tn_children (pm_tnodes m n)). n < c \<and> c < pm_next m)"

lemma pdg_build_types_inv:
  assumes "di_ok D"
  shows "\<exists>pg. pdg_build I D B new_ProgramGraph = Some pg \<and> types_inv I B pg \<and> pg_inv I B pg"
proof -
  obtain pg where pg: "pdg_build I D B new_ProgramGraph = Some pg" "pg_inv I B pg" "\<forall>F \<in> set (moduleFunctions I). function_built I F pg"
    using pdg_build_ok [OF assms new_ProgramGraph_inv, of I B] by (auto simp: new_ProgramGraph_def)
  have "getNode (pg_graph pg) v = map_of (val_node_map (pg_graph pg)) v" for v by (auto simp: getNode_def hasNode_def contains_def)
  then show ?thesis using pg(1,2) pg_invD(2,3) [OF pg(2)] pg(3) by (auto simp: types_inv_def nodes_stand_def wrapper_ok_def)
qed

lemma ensureBuilt_ok:
  assumes "di_ok D" and "dbg_ok B" and "module_ok I"
  shows "\<exists>pg. ensureBuilt I D B new_ProgramGraph = Some pg \<and> is_build (pg_graph pg) \<and> types_inv I B pg \<and> mirrors (field_edges (pg_mem pg)) (pm_nodes (pg_mem pg)) \<and>
    children_bounded (pg_mem pg) \<and> (\<forall>t \<in> snd ` set (global_var_tree_map pg). root_node (pm_trees (pg_mem pg) t) < pm_next (pg_mem pg))"
proof -
  obtain pg where pg: "pdg_build I D B new_ProgramGraph = Some pg" "pg_inv I B pg" "types_inv I B pg"
    using pdg_build_types_inv [OF assms(1)] by blast
  then have "is_build (pg_graph pg)" by (auto simp: pdg_build_def Let_def split: bind_splits)
  obtain pg' where pg': "bindDITypeToNodes I D B pg = Some pg'" "types_inv I B pg'" "types_le pg pg'"
    using bindDITypeToNodes_ok [OF assms] pg by blast
  have b: "is_build (pg_graph pg')" using \<open>is_build (pg_graph pg)\<close> pg'(3) by (simp add: types_le_def)
  have o: "only_types (pg_mem pg) (pg_mem pg')" using pg'(3) by (simp add: types_le_def)
  have "field_edges (pg_mem pg') = field_edges (pg_mem pg)" using o by (simp add: field_edges_def only_types_def)
  moreover have "mirrors (field_edges (pg_mem pg)) (pm_nodes (pg_mem pg))" using pg_invD(1) [OF pg(2)] unfolding mem_ok_def by blast
  ultimately have "mirrors (field_edges (pg_mem pg')) (pm_nodes (pg_mem pg'))" using mirrors_only_types [OF o] by simp
  moreover have "ensureBuilt I D B new_ProgramGraph = Some pg'" using pg(1) pg'(1) by (simp add: ensureBuilt_def new_ProgramGraph_def)
  moreover have "children_bounded (pg_mem pg')"
  proof -
    have "children_bounded (pg_mem pg)" using pg_invD(1) [OF pg(2)] unfolding mem_ok_def children_bounded_def by blast
    moreover have "children_bounded (pg_mem pg') = children_bounded (pg_mem pg)" using o by (simp only: children_bounded_def only_types_def)
    ultimately show ?thesis by simp
  qed
  moreover have "root_node (pm_trees (pg_mem pg') t) < pm_next (pg_mem pg')" if "t \<in> snd ` set (global_var_tree_map pg')" for t
    using pg_invD(4) [OF pg(2), of t] that pg'(3) o by (simp add: types_le_def only_types_def)
  ultimately show ?thesis using pg'(2) b by blast
qed

subsection \<open>Types of fields\<close>

text \<open>
  C38: The type of a field is found at offset zero only.  The code compares the offset of the address computation with the offset of the
  \<^emph>\<open>type\<close> of a member, not of the member; in DWARF metadata only members have an offset, so that an address
  computation that selects a field at another offset always gets the null type, although the structure has the field.
\<close>

theorem gep_type_only_at_offset_zero:
  assumes "di_ok D" and "gep_field I gep = Some (s, k)" and "8 * structOffset I s k + gep_shift I gep \<noteq> 0"
    and "\<And>d. offsets_fit I D d gep" and "\<And>d. getTag D d \<noteq> DW_TAG_member \<Longrightarrow> getOffsetInBits D d = 0"
    and "\<And>d. getTag D d = DW_TAG_member \<Longrightarrow> getTag D (getBaseType D d) \<noteq> DW_TAG_member"
  shows "gep_type I D G m gep = Some 0"
proof -
  have no: "\<not> matching_member I D gep d" for d
  proof
    assume "matching_member I D gep d"
    then have d: "getTag D d = DW_TAG_member" "isGEPOffsetMatchDIOffset I D (getBaseType D d) gep" by (simp_all add: matching_member_def)
    have "8 * structOffset I s k + gep_shift I gep = getOffsetInBits D (getBaseType D d)"
      using d(2) assms(2) gep_match_iff [OF assms(4), of "getBaseType D d"] by auto
    then show False using assms(3,5,6) d(1) by simp
  qed
  then have f: "find (matching_member I D gep) xs = None" for xs by (simp add: find_None_iff)
  show ?thesis
  proof (cases "di_of G m (gepPointer I gep)")
    case (Some dt)
    obtain l where "getLowestDIType D dt = Some l" using getLowestDIType_exact [of D dt] assms(1) by (auto simp: di_ok_def)
    then show ?thesis using Some f by (simp add: gep_type_def)
  qed (simp add: gep_type_def)
qed

theorem gep_type_only_at_offset_zero_witness:
  "gep_type gep_match_example di_example \<lparr>val_node_map = [(11, 1)], node_set = {1}, is_build = True\<rparr> tree_example 10 = Some 0 \<and>
   isGEPOffsetMatchDIOffset gep_match_example di_example 7 10 \<and> 7 \<in> set (getElements di_example 4)"
proof -
  note defs = gep_match_example_def empty_ir_def constantInt_def getOperand_def gep_shift_def getLShrOnGep_def gep_field_def gep_index_def
    getStructTypeFromGEP_def gepPointer_def sval_def di_example_def
  have fit: "offsets_fit gep_match_example di_example d 10" for d by (simp add: offsets_fit_def defs)
  have "gep_type gep_match_example di_example \<lparr>val_node_map = [(11, 1)], node_set = {1}, is_build = True\<rparr> tree_example 10 = Some 0"
    by (rule gep_type_only_at_offset_zero [OF di_example_ok, of _ _ 5 1]) (use fit in \<open>auto simp: defs split: if_splits\<close>)
  then show ?thesis using gep_match_iff [OF fit, of 7] by (simp add: defs)
qed

subsection \<open>Types of declared variables\<close>

lemma setDIType_di: "node_di_type (pm_nodes (setDIType n dt m) k) = (if k = n then dt else node_di_type (pm_nodes m k))"
  by (simp add: setDIType_def)

lemma bindDeclares_type:
  assumes "fold_option (bindDeclare B G) ds (m, tm) = Some (m', tm')" and "getNode G i = Some n"
    and "\<And>v. getNode G v = Some n \<Longrightarrow> v = i" and "\<And>d. d \<in> set ds \<Longrightarrow> dbgAddress B d = i \<Longrightarrow> varType B (dbgVariable B d) = T"
  shows "node_di_type (pm_nodes m' n) = (if \<exists>d \<in> set ds. dbgAddress B d = i then T else node_di_type (pm_nodes m n))"
  using assms(1,4)
proof (induction ds arbitrary: m tm)
  case (Cons d ds)
  obtain m1 tm1 where m1: "bindDeclare B G d (m, tm) = Some (m1, tm1)" "fold_option (bindDeclare B G) ds (m1, tm1) = Some (m', tm')"
    using Cons.prems(1) by (auto split: bind_splits)
  have "node_di_type (pm_nodes m1 n) = (if dbgAddress B d = i then T else node_di_type (pm_nodes m n))"
  proof (cases "getNode G (dbgAddress B d)")
    case None
    then show ?thesis using m1(1) assms(2) by (auto simp: bindDeclare_def)
  next
    case (Some k)
    have "k = n \<longleftrightarrow> dbgAddress B d = i"
    proof
      show "dbgAddress B d = i" if "k = n" using assms(3) [of "dbgAddress B d"] Some that by simp
      show "k = n" if "dbgAddress B d = i" using assms(2) Some that by simp
    qed
    then show ?thesis using m1(1) Some Cons.prems(2) [of d] by (auto simp: bindDeclare_def setDIType_di Let_def split: if_splits)
  qed
  moreover have "node_di_type (pm_nodes m' n) = (if \<exists>d \<in> set ds. dbgAddress B d = i then T else node_di_type (pm_nodes m1 n))"
    by (rule Cons.IH [OF m1(2)]) (simp add: Cons.prems(2))
  ultimately show ?case by simp
qed simp

lemma bindInst_keeps_type:
  assumes "bindInst I D B G j m = Some m'" and "nodes_stand I G m" and "getNode G i = Some n"
    and "node_di_type (pm_nodes m n) \<noteq> 0" and "kind I i = KAlloca" and "i \<noteq> 0" and "getFunction I i \<noteq> 0"
  shows "node_di_type (pm_nodes m' n) = node_di_type (pm_nodes m n)"
proof -
  obtain k where k: "getNode G j = Some k" using assms(1) by (auto simp: bindInst_def split: option.splits)
  obtain dt m1 where m1: "computeNodeDIType I D B G k m = Some (dt, m1)" "m' = setDIType k dt m1"
    using assms(1) k by (auto simp: bindInst_def split: bind_splits)
  have stand: "node_val (pm_nodes m n) = i" "node_func (pm_nodes m n) = getFunction I i" "node_val (pm_nodes m k) = j"
    using assms(2,3,5) k by (auto simp: nodes_stand_def stands_for_def)
  show ?thesis
  proof (cases "j = i")
    case True
    then have "k = n" using k assms(3) by simp
    moreover have "dt = node_di_type (pm_nodes m n)"
      using m1(1) \<open>k = n\<close> True stand assms(4-7) by (auto simp: computeNodeDIType_def alloca_type_def Let_def)
    ultimately show ?thesis using m1(2) by (simp add: setDIType_di)
  next
    case False
    then have "k \<noteq> n" using stand by auto
    moreover have "node_di_type (pm_nodes m1 n) = node_di_type (pm_nodes m n)"
    proof (cases "kind I j = KStore")
      case True
      have "node_di_type (pm_nodes m1 n) = node_di_type (pm_nodes m n)" if "store_type I D G j m = Some (dt, m1)"
        using that assms(4) by (auto simp: store_type_def setDIType_di split: option.splits if_splits bind_splits)
      then show ?thesis using m1(1) stand True by (auto simp: computeNodeDIType_def Let_def split: if_splits)
    next
      case False
      then have "m1 = m" using m1(1) stand by (auto simp: computeNodeDIType_def Let_def split: if_splits)
      then show ?thesis by simp
    qed
    ultimately show ?thesis using m1(2) by (simp add: setDIType_di)
  qed
qed

lemma bindInsts_keep_type:
  assumes "fold_option (bindInst I D B G) is m = Some m'" and "\<And>j. j \<in> set is \<Longrightarrow> bind_ok I D G j" and "nodes_stand I G m"
    and "getNode G i = Some n" and "node_di_type (pm_nodes m n) \<noteq> 0" and "kind I i = KAlloca" and "i \<noteq> 0" and "getFunction I i \<noteq> 0"
  shows "node_di_type (pm_nodes m' n) = node_di_type (pm_nodes m n)"
  using assms(1-3,5)
proof (induction "is" arbitrary: m)
  case (Cons j "is")
  obtain m1 where m1: "bindInst I D B G j m = Some m1" "nodes_stand I G m1"
    using bindInst_ok [of I D G j m B] Cons.prems(2,3) by auto
  then have "node_di_type (pm_nodes m1 n) = node_di_type (pm_nodes m n)"
    using bindInst_keeps_type [OF _ Cons.prems(3) assms(4) Cons.prems(4) assms(6-8)] by blast
  then show ?case using Cons.IH [of m1] Cons.prems m1 by simp
qed simp

text \<open>
  C29: A variable keeps its declared type.  Binding the types of a function succeeds and gives the node of a stack slot the type
  with which \<^verbatim>\<open>dbg.declare\<close> declares it; neither the later pass over the instructions, which assigns a type to every node, the slot
  included, nor a store through which a type is guessed overwrites it.
\<close>

theorem declared_type_kept:
  assumes "di_ok D" and "dbg_ok B" and "module_ok I" and "F \<in> set (moduleFunctions I)" and "types_inv I B pg" and "F \<noteq> 0"
    and "i \<in> set (instructions I F)" and "kind I i = KAlloca" and "i \<noteq> 0"
    and "d \<in> set (instructions I F)" and "isDbgDeclare B d" and "dbgAddress B d = i"
    and "\<And>e. e \<in> set (instructions I F) \<Longrightarrow> isDbgDeclare B e \<Longrightarrow> dbgAddress B e = i \<Longrightarrow> varType B (dbgVariable B e) = T"
  shows "\<exists>pg'. bindFunction I D B F pg = Some pg' \<and> di_of (pg_graph pg') (pg_mem pg') i = Some T"
proof -
  let ?G = "pg_graph pg"
  have body: "blocks I F \<noteq> []" using assms(7) by (auto simp: instructions_def)
  then have F: "F \<in> defined_functions I" "\<not> isDeclaration I F" using assms(3,4) by (auto simp: module_ok_def defined_functions_def)
  have fn: "getFunction I i = F" using assms(3,7) F(1) by (simp add: module_ok_def parents_ok_def)
  have built: "contains (func_wrapper_map pg) F" "has_nodes ?G (instructions I F)"
    using assms(4,5) F body getNode_contains by (auto simp: types_inv_def function_built_def has_nodes_def)
  obtain fw where fw: "map_of (func_wrapper_map pg) F = Some fw" using built(1) by (auto simp: contains_def)
  have ds: "dbg_declare_insts fw = filter (isDbgDeclare B) (instructions I F)" using assms(5) fw by (simp add: types_inv_def)
  obtain n where n: "getNode ?G i = Some n" using built(2) assms(7) by (auto simp: has_nodes_def)
  have stand: "nodes_stand I ?G (pg_mem pg)" using assms(5) by (simp add: types_inv_def)
  then have inj: "v = i" if "getNode ?G v = Some n" for v using n that by (auto simp: nodes_stand_def stands_for_def)
  obtain pg' where pg': "bindFunction I D B F pg = Some pg'" using bindFunction_ok [OF assms(1-5)] by blast
  then obtain m1 tm m2 where m: "fold_option (bindDeclare B ?G) (dbg_declare_insts fw) (pg_mem pg, node_di_type_map pg) = Some (m1, tm)"
      "fold_option (bindInst I D B ?G) (instructions I F) m1 = Some m2" "pg' = pg\<lparr>pg_mem := m2, node_di_type_map := tm\<rparr>"
    using F(2) fw by (auto simp: bindFunction_def split: bind_splits)
  have T1: "node_di_type (pm_nodes m1 n) = T"
    using bindDeclares_type [OF m(1) n inj, of T] assms(10-13) ds by auto
  have "only_types (pg_mem pg) m1" using bindDeclares_ok [OF assms(2), of "dbg_declare_insts fw" ?G "pg_mem pg" "node_di_type_map pg"] ds m(1) by auto
  then have "nodes_stand I ?G m1" using nodes_stand_only_types [OF stand] by blast
  moreover have "bind_ok I D ?G j" if "j \<in> set (instructions I F)" for j
    using that F(1) assms(1,3) built(2) unfolding bind_ok_def module_ok_def parents_ok_def has_nodes_def by auto
  moreover have "T \<noteq> 0" using assms(2,11) assms(13) [OF assms(10,11,12)] by (auto simp: dbg_ok_def)
  ultimately have "node_di_type (pm_nodes m2 n) = T"
    using bindInsts_keep_type [OF m(2) _ _ n _ assms(8,9)] T1 assms(6) fn by auto
  then show ?thesis using pg' m(3) n by (simp add: di_of_def)
qed

subsection \<open>Connecting the trees of globals\<close>

text \<open>A change of the store that adds edges of types in \<open>T\<close> and otherwise touches addresses and access tags only.\<close>

definition adds_edges :: "EdgeType set \<Rightarrow> pdg_mem \<Rightarrow> pdg_mem \<Rightarrow> bool" where
  "adds_edges T m m' \<longleftrightarrow> pm_next m' = pm_next m \<and> pm_trees m' = pm_trees m \<and>
     (\<forall>n. tn_children (pm_tnodes m' n) = tn_children (pm_tnodes m n) \<and> parent_node (pm_tnodes m' n) = parent_node (pm_tnodes m n)) \<and>
     (\<forall>n. node_val (pm_nodes m' n) = node_val (pm_nodes m n) \<and> node_func (pm_nodes m' n) = node_func (pm_nodes m n) \<and>
          node_di_type (pm_nodes m' n) = node_di_type (pm_nodes m n)) \<and>
     (\<exists>X. finite X \<and> (\<forall>E. mirrors E (pm_nodes m) \<longrightarrow> mirrors (E \<union> X) (pm_nodes m')) \<and> (\<forall>(a, b, t) \<in> X. t \<in> T))"

lemma adds_no_edges: "\<exists>X. finite X \<and> (\<forall>E. mirrors E h \<longrightarrow> mirrors (E \<union> X) h) \<and> (\<forall>(a, b, t) \<in> X. t \<in> T)"
  by (rule exI [of _ "{}"]) simp

lemma adds_edges_refl [simp]: "adds_edges T m m"
  using adds_no_edges by (simp add: adds_edges_def)

lemma adds_edges_trans:
  assumes "adds_edges T a b" and "adds_edges T b c"
  shows "adds_edges T a c"
proof -
  obtain X Y where X: "finite X" "\<forall>E. mirrors E (pm_nodes a) \<longrightarrow> mirrors (E \<union> X) (pm_nodes b)" "\<forall>(x, y, t) \<in> X. t \<in> T"
    and Y: "finite Y" "\<forall>E. mirrors E (pm_nodes b) \<longrightarrow> mirrors (E \<union> Y) (pm_nodes c)" "\<forall>(x, y, t) \<in> Y. t \<in> T"
    using assms unfolding adds_edges_def by blast
  have "\<forall>E. mirrors E (pm_nodes a) \<longrightarrow> mirrors (E \<union> (X \<union> Y)) (pm_nodes c)" using X(2) Y(2) by (simp add: Un_assoc [symmetric])
  moreover have "\<forall>(x, y, t) \<in> X \<union> Y. t \<in> T" using X(3) Y(3) by blast
  moreover have "finite (X \<union> Y)" using X(1) Y(1) by simp
  ultimately have "\<exists>Z. finite Z \<and> (\<forall>E. mirrors E (pm_nodes a) \<longrightarrow> mirrors (E \<union> Z) (pm_nodes c)) \<and> (\<forall>(x, y, t) \<in> Z. t \<in> T)" by blast
  then show ?thesis using assms unfolding adds_edges_def by auto
qed

lemma adds_edges_link: "t \<in> T \<Longrightarrow> adds_edges T m (link a b t m)"
proof -
  assume "t \<in> T"
  moreover have "\<forall>E. mirrors E (pm_nodes m) \<longrightarrow> mirrors (E \<union> {(a, b, t)}) (pm_nodes (link a b t m))"
    using mirrors_add by (simp add: link_def)
  ultimately have "\<exists>X. finite X \<and> (\<forall>E. mirrors E (pm_nodes m) \<longrightarrow> mirrors (E \<union> X) (pm_nodes (link a b t m))) \<and> (\<forall>(x, y, t) \<in> X. t \<in> T)"
    by (intro exI [of _ "{(a, b, t)}"]) simp
  then show ?thesis unfolding adds_edges_def by (simp add: link_def)
qed

lemma adds_edges_vars: "adds_edges T m (addAddrVars n vs m)"
  using adds_no_edges by (simp add: adds_edges_def addAddrVars_def)

lemma adds_edges_fold: "(\<And>x m. adds_edges T m (f x m)) \<Longrightarrow> adds_edges T m (fold f xs m)"
  by (induction xs arbitrary: m) (auto intro: adds_edges_trans)

lemma adds_edges_fields:
  assumes "adds_edges T m m'"
  shows "pm_next m' = pm_next m" and "pm_trees m' = pm_trees m" and "tn_children (pm_tnodes m' n) = tn_children (pm_tnodes m n)"
    and "parent_node (pm_tnodes m' n) = parent_node (pm_tnodes m n)" and "node_val (pm_nodes m' n) = node_val (pm_nodes m n)"
    and "node_func (pm_nodes m' n) = node_func (pm_nodes m n)" and "node_di_type (pm_nodes m' n) = node_di_type (pm_nodes m n)"
  using assms unfolding adds_edges_def by blast+

lemma connectAlias_adds: "PARAMETER_IN \<in> T \<Longrightarrow> adds_edges T m (connectAlias I n vs a m)"
  using adds_edges_trans [OF adds_edges_link adds_edges_vars] by (simp add: connectAlias_def Let_def)

lemma connectAddrVar_adds: "adds_edges {PARAMETER_IN} m (connectAddrVar I G n vs a m)"
proof (cases "getNode G a")
  case (Some k)
  have "adds_edges {PARAMETER_IN} (link n k PARAMETER_IN m) (fold (connectAlias I n vs) xs (link n k PARAMETER_IN m))" for xs
    by (rule adds_edges_fold) (rule connectAlias_adds, simp)
  then have "adds_edges {PARAMETER_IN} m (fold (connectAlias I n vs) xs (link n k PARAMETER_IN m))" for xs
    using adds_edges_trans [OF adds_edges_link] by blast
  then show ?thesis using Some by (simp add: connectAddrVar_def Let_def)
qed (simp add: connectAddrVar_def)

lemma children_bounded_adds: "children_bounded m \<Longrightarrow> adds_edges T m m' \<Longrightarrow> children_bounded m'"
proof -
  assume c: "children_bounded m" and a: "adds_edges T m m'"
  have "children_bounded m' = children_bounded m" by (simp only: children_bounded_def adds_edges_fields [OF a])
  then show ?thesis using c by simp
qed

subsection \<open>Walks over a tree\<close>

text \<open>
  The loops that connect a tree visit its nodes level by level; a visit adds edges and may fail unless the store satisfies \<open>inv\<close>.  A
  walk that is not \<open>deep\<close> ends after the root.
\<close>

locale tree_walk =
  fixes loop :: "nid list \<Rightarrow> pdg_mem \<Rightarrow> pdg_mem option"
    and visit :: "nid \<Rightarrow> pdg_mem \<Rightarrow> pdg_mem option"
    and deep :: bool
    and inv :: "pdg_mem \<Rightarrow> bool"
    and T :: "EdgeType set"
  assumes loop_empty: "loop [] m = Some m"
    and loop_step: "loop (n # q) m =
      Option.bind (visit n m) (\<lambda>m1. if deep then loop (q @ tn_children (pm_tnodes m1 n)) m1 else Some m1)"
    and visit_ok: "inv m \<Longrightarrow> n < pm_next m \<Longrightarrow> \<exists>m1. visit n m = Some m1 \<and> adds_edges T m m1"
    and inv_adds: "inv m \<Longrightarrow> adds_edges T m m1 \<Longrightarrow> inv m1"
begin

lemma walk_returns:
  assumes "inv m" and "children_bounded m" and "set q \<subseteq> {..< pm_next m}"
  shows "\<exists>m'. loop q m = Some m' \<and> adds_edges T m m'"
  using assms
proof (induction "mset (map (\<lambda>n. pm_next m - n) q)" arbitrary: q m rule: wf_induct_rule [OF wf_mult [OF wf_less_than]])
  case (1 q m)
  show ?case
  proof (cases q)
    case Nil
    then show ?thesis by (simp add: loop_empty)
  next
    case (Cons n rest)
    have n: "n < pm_next m" using Cons "1.prems"(3) by simp
    obtain m1 where m1: "visit n m = Some m1" "adds_edges T m m1" using visit_ok [OF "1.prems"(1) n] by blast
    note f = adds_edges_fields [OF m1(2)]
    let ?q = "rest @ tn_children (pm_tnodes m n)" and ?f = "\<lambda>n. pm_next m - n"
    have c: "n < c \<and> c < pm_next m" if "c \<in> set (tn_children (pm_tnodes m n))" for c
      using "1.prems"(2) n that unfolding children_bounded_def by blast
    have "(mset (map ?f rest) + mset (map ?f (tn_children (pm_tnodes m n))), mset (map ?f rest) + {#?f n#}) \<in> mult less_than"
      by (rule one_step_implies_mult) (use c n in \<open>auto intro: diff_less_mono2\<close>)
    then have less: "(mset (map (\<lambda>n. pm_next m1 - n) ?q), mset (map ?f q)) \<in> mult less_than" using Cons f(1) by (simp add: add.commute)
    have sub: "set ?q \<subseteq> {..< pm_next m1}" using Cons "1.prems"(3) c f(1) by auto
    obtain m' where m': "loop ?q m1 = Some m'" "adds_edges T m1 m'"
      using "1.hyps" [OF less inv_adds [OF "1.prems"(1) m1(2)] children_bounded_adds [OF "1.prems"(2) m1(2)] sub] by blast
    then show ?thesis using Cons m1 f(3) adds_edges_trans [OF m1(2)] by (cases deep) (auto simp: loop_step)
  qed
qed

end

interpretation global_walk: tree_walk "connectGlobal_loop I G"
  "\<lambda>n m. Some (fold (connectAddrVar I G n (if parent_node (pm_tnodes m n) = 0 then [] else addr_vars (pm_tnodes m (parent_node (pm_tnodes m n)))))
     (addr_vars (pm_tnodes m n)) m)" True "\<lambda>_. True" "{PARAMETER_IN}" for I G
proof unfold_locales
  show "\<exists>m1. Some (fold (connectAddrVar I G n vs) xs m) = Some m1 \<and> adds_edges {PARAMETER_IN} m m1" for n vs xs m
    by (simp add: adds_edges_fold connectAddrVar_adds)
qed (subst connectGlobal_loop.simps, simp add: Let_def)+

definition conn_inv :: "tid set \<Rightarrow> ProgramGraph \<Rightarrow> bool" where
  "conn_inv T pg \<longleftrightarrow> children_bounded (pg_mem pg) \<and> (\<forall>t \<in> T. root_node (pm_trees (pg_mem pg) t) < pm_next (pg_mem pg))"

definition conn_le :: "ProgramGraph \<Rightarrow> ProgramGraph \<Rightarrow> bool" where
  "conn_le pg pg' \<longleftrightarrow> adds_edges {PARAMETER_IN} (pg_mem pg) (pg_mem pg') \<and> pg_graph pg' = pg_graph pg \<and> func_wrapper_map pg' = func_wrapper_map pg"

lemma connectGlobal_ok:
  assumes "t \<in> T" and "conn_inv T pg"
  shows "\<exists>pg'. connectGlobalTreeWithAddrVars I t pg = Some pg' \<and> conn_inv T pg' \<and> conn_le pg pg'"
proof -
  have c: "children_bounded (pg_mem pg)" "root_node (pm_trees (pg_mem pg) t) < pm_next (pg_mem pg)" using assms by (simp_all add: conn_inv_def)
  obtain m' where m': "connectGlobal_loop I (pg_graph pg) [root_node (pm_trees (pg_mem pg) t)] (pg_mem pg) = Some m'" "adds_edges {PARAMETER_IN} (pg_mem pg) m'"
    using global_walk.walk_returns [OF _ c(1), of "[root_node (pm_trees (pg_mem pg) t)]" I "pg_graph pg"] c(2) by auto
  then have "conn_inv T (pg\<lparr>pg_mem := m'\<rparr>)" using assms(2) children_bounded_adds [OF c(1) m'(2)] by (simp add: conn_inv_def adds_edges_def)
  then show ?thesis using m' by (simp add: connectGlobalTreeWithAddrVars_def conn_le_def)
qed

interpretation global_connections: total_steps "connectGlobalTreeWithAddrVars I" "\<lambda>t. t \<in> T" "conn_inv T" conn_le for I T
proof unfold_locales
  show "\<exists>s'. connectGlobalTreeWithAddrVars I i s = Some s' \<and> conn_inv T s' \<and> conn_le s s'" if "i \<in> T" "conn_inv T s" for i s
    using connectGlobal_ok [OF that] .
qed (auto simp: conn_le_def intro: adds_edges_trans)

text \<open>
  Which edges the connection of the trees adds: a set \<open>X\<close> between \<open>L\<close> and \<open>U\<close>; addresses are only added and the shape of
  the trees stays.
\<close>

definition links :: "edge_spec set \<Rightarrow> edge_spec set \<Rightarrow> pdg_mem \<Rightarrow> pdg_mem \<Rightarrow> bool" where
  "links L U m m' \<longleftrightarrow> pm_trees m' = pm_trees m \<and>
     (\<forall>n. tn_children (pm_tnodes m' n) = tn_children (pm_tnodes m n) \<and> set (addr_vars (pm_tnodes m n)) \<subseteq> set (addr_vars (pm_tnodes m' n))) \<and>
     (\<exists>X. L \<subseteq> X \<and> X \<subseteq> U \<and> (\<forall>E. mirrors E (pm_nodes m) \<longrightarrow> mirrors (E \<union> X) (pm_nodes m')))"

lemma links_refl [simp]: "links {} U m m"
  unfolding links_def by (simp, rule exI [of _ "{}"]) simp

lemma links_trans:
  assumes "links L U a b" and "links L' U b c"
  shows "links (L \<union> L') U a c"
proof -
  obtain X Y where "L \<subseteq> X" "X \<subseteq> U" "\<forall>E. mirrors E (pm_nodes a) \<longrightarrow> mirrors (E \<union> X) (pm_nodes b)"
    "L' \<subseteq> Y" "Y \<subseteq> U" "\<forall>E. mirrors E (pm_nodes b) \<longrightarrow> mirrors (E \<union> Y) (pm_nodes c)"
    using assms unfolding links_def by blast
  then have "L \<union> L' \<subseteq> X \<union> Y" "X \<union> Y \<subseteq> U" "\<forall>E. mirrors E (pm_nodes a) \<longrightarrow> mirrors (E \<union> (X \<union> Y)) (pm_nodes c)"
    by (auto simp: Un_assoc [symmetric])
  then have "\<exists>Z. L \<union> L' \<subseteq> Z \<and> Z \<subseteq> U \<and> (\<forall>E. mirrors E (pm_nodes a) \<longrightarrow> mirrors (E \<union> Z) (pm_nodes c))" by blast
  then show ?thesis using assms unfolding links_def by (simp, blast)
qed

lemma links_weaken: "links L U m m' \<Longrightarrow> L' \<subseteq> L \<Longrightarrow> U \<subseteq> U' \<Longrightarrow> links L' U' m m'"
  unfolding links_def by (meson order_trans)

lemma links_drop: "links L U m m' \<Longrightarrow> links {} U m m'"
  by (erule links_weaken) simp_all

lemma links_link: "(a, b, t) \<in> U \<Longrightarrow> links {(a, b, t)} U m (link a b t m)"
  using mirrors_add unfolding links_def by (simp add: link_def) (rule exI [of _ "{(a, b, t)}"], simp)

lemma links_vars: "links {} U m (addAddrVars n vs m)"
proof -
  have "\<exists>X \<subseteq> U. \<forall>E. mirrors E h \<longrightarrow> mirrors (E \<union> X) h" for h by (rule exI [of _ "{}"]) simp
  moreover have "set (fold List.insert vs xs) = set vs \<union> set xs" for xs :: "vid list" by (induction vs arbitrary: xs) auto
  ultimately show ?thesis by (simp add: links_def addAddrVars_def)
qed

lemma links_fields:
  assumes "links L U m m'"
  shows "pm_trees m' = pm_trees m" and "children_of m' = children_of m" and "set (addr_vars (pm_tnodes m n)) \<subseteq> set (addr_vars (pm_tnodes m' n))"
  using assms unfolding links_def by (simp_all add: children_of_def fun_eq_iff)

lemma links_fold: "(\<And>x m. links (L x) U m (f x m)) \<Longrightarrow> links (\<Union>x \<in> set xs. L x) U m (fold f xs m)"
proof (induction xs arbitrary: m)
  case (Cons x xs)
  show ?case using links_trans [OF Cons.prems [of x m] Cons.IH [OF Cons.prems, of "f x m"]] by simp
qed simp

abbreviation in_edges_from :: "nid set \<Rightarrow> edge_spec set" where
  "in_edges_from S \<equiv> S \<times> UNIV \<times> {PARAMETER_IN}"

definition address_edges :: "GenericGraph \<Rightarrow> pdg_mem \<Rightarrow> nid \<Rightarrow> edge_spec set" where
  "address_edges G m n = {(n, k, PARAMETER_IN) | v k. v \<in> set (addr_vars (pm_tnodes m n)) \<and> getNode G v = Some k}"

lemma connectAddrVar_links: "links {(n, k, PARAMETER_IN) | k. getNode G a = Some k} (in_edges_from {n}) m (connectAddrVar I G n vs a m)"
proof (cases "getNode G a")
  case (Some k)
  have al: "links {} (in_edges_from {n}) m (connectAlias I n vs x m)" for x m
  proof -
    have "links ({(n, x, PARAMETER_IN)} \<union> {}) (in_edges_from {n}) m (addAddrVars n [v] (link n x PARAMETER_IN m))" for v
      by (rule links_trans [OF links_link links_vars]) simp
    then have "links {} (in_edges_from {n}) m (addAddrVars n [v] (link n x PARAMETER_IN m))" for v using links_drop by blast
    then show ?thesis by (simp add: connectAlias_def Let_def)
  qed
  have "links {(n, k, PARAMETER_IN)} (in_edges_from {n}) m (fold (connectAlias I n vs) xs (link n k PARAMETER_IN m))" for xs
    using links_trans [OF links_link links_fold [of "\<lambda>_. {}" "in_edges_from {n}" "connectAlias I n vs" xs, OF al]] by simp
  moreover have "{(n, k', PARAMETER_IN) | k'. getNode G a = Some k'} = {(n, k, PARAMETER_IN)}" using Some by auto
  ultimately show ?thesis using Some by (simp add: connectAddrVar_def Let_def)
qed (simp add: connectAddrVar_def)

lemma connectNode_links: "links (address_edges G m n) (in_edges_from {n}) m (fold (connectAddrVar I G n vs) (addr_vars (pm_tnodes m n)) m)"
proof -
  have "address_edges G m n = (\<Union>a \<in> set (addr_vars (pm_tnodes m n)). {(n, k, PARAMETER_IN) | k. getNode G a = Some k})"
    by (auto simp: address_edges_def)
  then show ?thesis using links_fold [OF connectAddrVar_links] by simp
qed

lemma connectGlobal_loop_links:
  assumes "connectGlobal_loop I G q m = Some m'"
  shows "set q \<subseteq> R \<longrightarrow> (\<forall>n \<in> R. set (children_of m n) \<subseteq> R) \<longrightarrow>
    links (if q = [] then {} else address_edges G m (hd q)) (in_edges_from R) m m'"
proof (rule connectGlobal_loop.raw_induct [OF _ assms, where P = "\<lambda>I G q m m'. set q \<subseteq> R \<longrightarrow>
    (\<forall>n \<in> R. set (children_of m n) \<subseteq> R) \<longrightarrow> links (if q = [] then {} else address_edges G m (hd q)) (in_edges_from R) m m'"], intro impI)
  fix loop I G q m m'
  assume IH: "\<And>I G q m m'. loop I G q m = Some m' \<Longrightarrow> set q \<subseteq> R \<longrightarrow>
      (\<forall>n \<in> R. set (children_of m n) \<subseteq> R) \<longrightarrow> links (if q = [] then {} else address_edges G m (hd q)) (in_edges_from R) m m'"
    and step: "(case q of [] \<Rightarrow> Some m | current_node # rest \<Rightarrow>
          let parent = parent_node (pm_tnodes m current_node);
              parent_addr_vars = (if parent = 0 then [] else addr_vars (pm_tnodes m parent));
              m1 = fold (connectAddrVar I G current_node parent_addr_vars) (addr_vars (pm_tnodes m current_node)) m
          in loop I G (rest @ tn_children (pm_tnodes m1 current_node)) m1) = Some m'"
    and q: "set q \<subseteq> R" and R: "\<forall>n \<in> R. set (children_of m n) \<subseteq> R"
  show "links (if q = [] then {} else address_edges G m (hd q)) (in_edges_from R) m m'"
  proof (cases q)
    case Nil
    then show ?thesis using step by simp
  next
    case (Cons n rest)
    define m1 where "m1 = fold (connectAddrVar I G n (if parent_node (pm_tnodes m n) = 0 then [] else addr_vars (pm_tnodes m (parent_node (pm_tnodes m n)))))
      (addr_vars (pm_tnodes m n)) m"
    have l: "links (address_edges G m n) (in_edges_from R) m m1"
      unfolding m1_def by (rule links_weaken [OF connectNode_links]) (use q Cons in auto)
    note c = links_fields(2) [OF l]
    have run: "loop I G (rest @ tn_children (pm_tnodes m1 n)) m1 = Some m'" using step Cons by (simp add: m1_def Let_def)
    have "set (rest @ tn_children (pm_tnodes m1 n)) \<subseteq> R" using q R Cons fun_cong [OF c, of n] by (auto simp: children_of_def)
    then have "links {} (in_edges_from R) m1 m'" using links_drop IH [OF run] R c by simp
    then show ?thesis using links_trans [OF l] Cons by fastforce
  qed
qed

text \<open>The nodes of the trees of globals.\<close>

definition global_tree_nodes :: "ProgramGraph \<Rightarrow> nid set" where
  "global_tree_nodes pg = reach (children_of (pg_mem pg)) ((\<lambda>t. root_node (pm_trees (pg_mem pg) t)) ` snd ` set (global_var_tree_map pg))"

lemma connectGlobals_links:
  assumes "fold_option (connectGlobalTreeWithAddrVars I) ts pg = Some pg'" and "(\<lambda>t. root_node (pm_trees (pg_mem pg) t)) ` set ts \<subseteq> R"
    and "\<And>n. n \<in> R \<Longrightarrow> set (children_of (pg_mem pg) n) \<subseteq> R"
  shows "links (\<Union>t \<in> set ts. address_edges (pg_graph pg) (pg_mem pg) (root_node (pm_trees (pg_mem pg) t))) (in_edges_from R) (pg_mem pg) (pg_mem pg')"
  using assms
proof (induction ts arbitrary: pg)
  case (Cons t ts)
  then obtain pg1 where pg1: "connectGlobalTreeWithAddrVars I t pg = Some pg1" "fold_option (connectGlobalTreeWithAddrVars I) ts pg1 = Some pg'"
    by (auto split: bind_splits)
  let ?r = "\<lambda>t. root_node (pm_trees (pg_mem pg) t)"
  have loop: "connectGlobal_loop I (pg_graph pg) [?r t] (pg_mem pg) = Some (pg_mem pg1)" and g: "pg_graph pg1 = pg_graph pg"
    using pg1(1) by (auto simp: connectGlobalTreeWithAddrVars_def)
  have l: "links (address_edges (pg_graph pg) (pg_mem pg) (?r t)) (in_edges_from R) (pg_mem pg) (pg_mem pg1)"
    using connectGlobal_loop_links [OF loop, of R] Cons.prems(2,3) by simp
  note f = links_fields(1,2) [OF l]
  have e: "address_edges G (pg_mem pg) n \<subseteq> address_edges G (pg_mem pg1) n" for G n using links_fields(3) [OF l, of n] by (auto simp: address_edges_def)
  have "links (\<Union>t \<in> set ts. address_edges (pg_graph pg) (pg_mem pg1) (?r t)) (in_edges_from R) (pg_mem pg1) (pg_mem pg')"
    using Cons.IH [OF pg1(2)] Cons.prems(2,3) f g by simp
  then have "links (\<Union>t \<in> set ts. address_edges (pg_graph pg) (pg_mem pg) (?r t)) (in_edges_from R) (pg_mem pg1) (pg_mem pg')"
    by (rule links_weaken) (rule UN_mono [OF subset_refl e], rule subset_refl)
  then show ?case using links_trans [OF l] by simp
qed simp

lemma pdg_runOnModule_ok:
  assumes "is_build (pg_graph pg)" and "children_bounded (pg_mem pg)"
    and "\<forall>t \<in> snd ` set (global_var_tree_map pg). root_node (pm_trees (pg_mem pg) t) < pm_next (pg_mem pg)" and "mirrors E (pm_nodes (pg_mem pg))"
  shows "\<exists>pg' X. pdg_runOnModule I D B pg = Some pg' \<and> pg_graph pg' = pg_graph pg \<and> mirrors (E \<union> X) (pm_nodes (pg_mem pg')) \<and>
    (\<forall>n. node_val (pm_nodes (pg_mem pg') n) = node_val (pm_nodes (pg_mem pg) n)) \<and> X \<subseteq> in_edges_from (global_tree_nodes pg) \<and>
    (\<Union>t \<in> snd ` set (global_var_tree_map pg). address_edges (pg_graph pg) (pg_mem pg) (root_node (pm_trees (pg_mem pg) t))) \<subseteq> X"
proof -
  let ?T = "snd ` set (global_var_tree_map pg)" and ?ts = "map snd (global_var_tree_map pg)"
  have "conn_inv ?T pg" using assms(2,3) by (simp add: conn_inv_def)
  then obtain pg' where pg': "fold_option (connectGlobalTreeWithAddrVars I) ?ts pg = Some pg'" "conn_le pg pg'"
    using global_connections.loop_total [of ?T ?ts pg I] by (auto simp: list_all_iff)
  have "links (\<Union>t \<in> set ?ts. address_edges (pg_graph pg) (pg_mem pg) (root_node (pm_trees (pg_mem pg) t)))
      (in_edges_from (global_tree_nodes pg)) (pg_mem pg) (pg_mem pg')"
  proof (rule connectGlobals_links [OF pg'(1)])
    show "(\<lambda>t. root_node (pm_trees (pg_mem pg) t)) ` set ?ts \<subseteq> global_tree_nodes pg"
      unfolding global_tree_nodes_def by (simp add: reach_increasing)
    show "set (children_of (pg_mem pg) n) \<subseteq> global_tree_nodes pg" if "n \<in> global_tree_nodes pg" for n
      using that unfolding global_tree_nodes_def by (rule reach_succ)
  qed
  then obtain X where "(\<Union>t \<in> ?T. address_edges (pg_graph pg) (pg_mem pg) (root_node (pm_trees (pg_mem pg) t))) \<subseteq> X"
      "X \<subseteq> in_edges_from (global_tree_nodes pg)" "mirrors (E \<union> X) (pm_nodes (pg_mem pg'))"
    using assms(4) unfolding links_def by auto
  moreover have "pdg_runOnModule I D B pg = Some pg'" using assms(1) pg'(1) by (simp add: pdg_runOnModule_def ensureBuilt_def)
  ultimately show ?thesis using pg'(2) adds_edges_fields(5) [of "{PARAMETER_IN}" "pg_mem pg" "pg_mem pg'"] by (auto simp: conn_le_def)
qed

text \<open>The graph with another state of its nodes, as a dependence pass leaves it.\<close>

definition with_nodes :: "ProgramGraph \<Rightarrow> node_heap \<Rightarrow> ProgramGraph" where
  "with_nodes pg h = pg\<lparr>pg_mem := (pg_mem pg)\<lparr>pm_nodes := h\<rparr>\<rparr>"

lemma with_nodes_fields:
  "global_tree_nodes (with_nodes pg h) = global_tree_nodes pg" "children_bounded (pg_mem (with_nodes pg h)) = children_bounded (pg_mem pg)"
  "address_edges G (pg_mem (with_nodes pg h)) n = address_edges G (pg_mem pg) n"
  by (simp_all add: with_nodes_def global_tree_nodes_def children_of_def [abs_def] children_bounded_def address_edges_def)

text \<open>
  C14: The construction of the program dependence graph ends on every module whose metadata is well-formed.  The graph is built and its
  nodes are given their types (an instruction without a debug type gets type 0, where the source binds a reference to
  null), the data dependence pass, which the pass requires, fills it, and \<open>runOnModule\<close> connects the trees of the globals.  In the
  result every instruction of a defined function has a node that stands for it, and the graph holds, in all six views, the edges of the
  parameter trees, exactly the data dependences, and \<open>PARAMETER_IN\<close> edges \<open>X\<close>: all of them start at nodes of the trees of
  globals, and they include the edge from the root of every such tree to the node of each of its addresses.  The control
  dependence pass is a function pass that nothing in \<open>runOnModule\<close> asks for, and adds no edges here.
\<close>

theorem pdg_runOnModule_terminates:
  assumes "di_ok D" and "dbg_ok B" and "module_ok I"
  shows "\<exists>pg pg' X. ensureBuilt I D B new_ProgramGraph = Some pg \<and>
    pdg_runOnModule I D B (with_nodes pg (ddg_runOnModule I P dep (pg_graph pg) (pm_nodes (pg_mem pg)))) = Some pg' \<and>
    (\<forall>F \<in> defined_functions I. \<forall>i \<in> set (instructions I F). \<exists>n. getNode (pg_graph pg') i = Some n \<and> node_val (pm_nodes (pg_mem pg') n) = i) \<and>
    mirrors (field_edges (pg_mem pg) \<union> (\<Union>F \<in> defined_functions I. function_dependences I P dep (pg_graph pg) F) \<union> X) (pm_nodes (pg_mem pg')) \<and>
    (\<Union>t \<in> snd ` set (global_var_tree_map pg). address_edges (pg_graph pg) (pg_mem pg) (root_node (pm_trees (pg_mem pg) t))) \<subseteq> X \<and>
    X \<subseteq> in_edges_from (global_tree_nodes pg)"
proof -
  obtain pg where pg: "ensureBuilt I D B new_ProgramGraph = Some pg" "is_build (pg_graph pg)" "types_inv I B pg"
      "mirrors (field_edges (pg_mem pg)) (pm_nodes (pg_mem pg))"
      "children_bounded (pg_mem pg)" "\<forall>t \<in> snd ` set (global_var_tree_map pg). root_node (pm_trees (pg_mem pg) t) < pm_next (pg_mem pg)"
    using ensureBuilt_ok [OF assms] by blast
  define h where "h = ddg_runOnModule I P dep (pg_graph pg) (pm_nodes (pg_mem pg))"
  have par: "parents_ok I" using assms(3) by (simp add: module_ok_def)
  note d = ddg_adds [OF par, of P dep "pg_graph pg"]
  let ?E = "field_edges (pg_mem pg) \<union> (\<Union>F \<in> defined_functions I. function_dependences I P dep (pg_graph pg) F)"
  have E: "mirrors ?E h" using d pg(4) by (simp add: adds_def module_dependences_def h_def)
  have v: "node_val (h n) = node_val (pm_nodes (pg_mem pg) n)" for n using d by (simp add: adds_def h_def)
  obtain pg' X where X: "pdg_runOnModule I D B (with_nodes pg h) = Some pg'" "pg_graph pg' = pg_graph pg" "mirrors (?E \<union> X) (pm_nodes (pg_mem pg'))"
      "\<forall>n. node_val (pm_nodes (pg_mem pg') n) = node_val (h n)" "X \<subseteq> in_edges_from (global_tree_nodes pg)"
      "(\<Union>t \<in> snd ` set (global_var_tree_map pg). address_edges (pg_graph pg) (pg_mem pg) (root_node (pm_trees (pg_mem pg) t))) \<subseteq> X"
    using pdg_runOnModule_ok [of "with_nodes pg h" ?E I D B] pg(2,5,6) E unfolding with_nodes_fields by (auto simp: with_nodes_def)
  have "\<exists>n. getNode (pg_graph pg') i = Some n \<and> node_val (pm_nodes (pg_mem pg') n) = i"
    if "F \<in> defined_functions I" "i \<in> set (instructions I F)" for F i
    using types_inv_node [OF pg(3) that] X(2,4) v by simp
  then show ?thesis using pg(1) X unfolding h_def by blast
qed

subsection \<open>Example\<close>

text \<open>The function of \<open>ddg_example\<close> with a declaration, instruction 7, of the stack slot 4 as a pointer to the example structure.\<close>

definition typed_example :: ir where
  "typed_example = ddg_example\<lparr>kind := (\<lambda>v. if v = 4 then KAlloca else if v = 5 then KCast BitCast else if v = 6 then KLoad else if v = 7 then KCall else KFunction),
     insts := (\<lambda>_. [4, 7, 5, 6]), isDeclaration := (\<lambda>F. F \<noteq> 1)\<rparr>"

definition typed_dbg :: dbg where
  "typed_dbg = dbg_example\<lparr>isDbgDeclare := (\<lambda>i. i = 7), dbgVariable := (\<lambda>_. 3), dbgAddress := (\<lambda>_. 4), varType := (\<lambda>_. 5), varName := (\<lambda>_. ''p'')\<rparr>"

lemma typed_example_ok: "module_ok typed_example" "dbg_ok typed_dbg" "defined_functions typed_example = {1}" "instructions typed_example 1 = [4, 7, 5, 6]"
  by (auto simp: module_ok_def dbg_ok_def parents_ok_def defined_functions_def instructions_def getFunction_def typed_example_def typed_dbg_def
      ddg_example_def empty_ir_def)

theorem pdg_runOnModule_terminates_witness:
  "\<exists>pg pg' n. ensureBuilt typed_example di_example typed_dbg new_ProgramGraph = Some pg \<and>
     pdg_runOnModule typed_example di_example typed_dbg
       (with_nodes pg (ddg_runOnModule typed_example pta_example (\<lambda>_. None) (pg_graph pg) (pm_nodes (pg_mem pg)))) = Some pg' \<and>
     getNode (pg_graph pg') 4 = Some n \<and> node_val (pm_nodes (pg_mem pg') n) = 4"
proof -
  obtain pg pg' where "ensureBuilt typed_example di_example typed_dbg new_ProgramGraph = Some pg"
      "pdg_runOnModule typed_example di_example typed_dbg
         (with_nodes pg (ddg_runOnModule typed_example pta_example (\<lambda>_. None) (pg_graph pg) (pm_nodes (pg_mem pg)))) = Some pg'"
      "\<forall>F \<in> defined_functions typed_example. \<forall>i \<in> set (instructions typed_example F). \<exists>n. getNode (pg_graph pg') i = Some n \<and> node_val (pm_nodes (pg_mem pg') n) = i"
    using pdg_runOnModule_terminates [OF di_example_ok typed_example_ok(2,1), of pta_example "\<lambda>_. None"] by (elim exE conjE) (rule that)
  moreover have "1 \<in> defined_functions typed_example" "4 \<in> set (instructions typed_example 1)" unfolding typed_example_ok(3,4) by simp_all
  ultimately show ?thesis by blast
qed

theorem declared_type_kept_witness:
  "\<exists>pg pg'. pdg_build typed_example di_example typed_dbg new_ProgramGraph = Some pg \<and> bindFunction typed_example di_example typed_dbg 1 pg = Some pg' \<and>
     di_of (pg_graph pg') (pg_mem pg') 4 = Some 5"
proof -
  obtain pg where pg: "pdg_build typed_example di_example typed_dbg new_ProgramGraph = Some pg" "types_inv typed_example typed_dbg pg"
    using pdg_build_types_inv [OF di_example_ok] by blast
  have "\<exists>pg'. bindFunction typed_example di_example typed_dbg 1 pg = Some pg' \<and> di_of (pg_graph pg') (pg_mem pg') 4 = Some 5"
    by (rule declared_type_kept [OF di_example_ok typed_example_ok(2,1) _ pg(2), where d = 7])
      (simp_all add: instructions_def typed_example_def typed_dbg_def ddg_example_def)
  then show ?thesis using pg(1) by blast
qed

end
