(* ===== verification/Tree_Connect.thy ===== *)
theory Tree_Connect
  imports Node_Types Control_Dependency
begin

text \<open>
  The functions of \<^verbatim>\<open>ProgramDependencyGraph.cpp\<close> that connect parameter trees with variables and with each other, and
  \<^verbatim>\<open>FunctionWrapper::computeAddrVarDerivedFromArg\<close>.  \<open>fs\<close> is the option \<^verbatim>\<open>FieldSensitive\<close>.  Loops over the addresses of a node that
  insert into the set they iterate over visit the addresses that were in the set at the start.
\<close>

subsection \<open>Trees and variables\<close>

partial_function (option) aliasNodes_loop :: "node_heap \<Rightarrow> nid list \<Rightarrow> nid set \<Rightarrow> nid set option" where
  "aliasNodes_loop h node_queue seen_nodes =
     (case node_queue of
        [] \<Rightarrow> Some seen_nodes
      | current_node # rest \<Rightarrow>
          (let acc = fold enqueue (sorted_list_of_set (getOutNeighborsWithDepType h current_node DATA_ALIAS)) (seen_nodes, rest)
           in aliasNodes_loop h (snd acc) (fst acc)))"

text \<open>The sets \<open>seen_nodes\<close> and \<open>alias_nodes\<close> of the source have the same elements.\<close>

definition getAliasNodes :: "node_heap \<Rightarrow> nid \<Rightarrow> nid set option" where
  "getAliasNodes h n = aliasNodes_loop h [n] {}"

definition formalInVar :: "ir \<Rightarrow> GenericGraph \<Rightarrow> nid \<Rightarrow> vid list \<Rightarrow> vid \<Rightarrow> pdg_mem \<Rightarrow> pdg_mem option" where
  "formalInVar I G current_node parent_addr_vars addr_var m =
     (case getNode G addr_var of
        None \<Rightarrow> Some m
      | Some addr_var_node \<Rightarrow>
          let m1 = link current_node addr_var_node PARAMETER_IN m
          in map_option (\<lambda>alias_nodes. fold (connectAlias I current_node parent_addr_vars) (sorted_list_of_set alias_nodes) m1)
               (getAliasNodes (pm_nodes m1) addr_var_node))"

definition formalInNode :: "ir \<Rightarrow> di \<Rightarrow> GenericGraph \<Rightarrow> nid \<Rightarrow> pdg_mem \<Rightarrow> pdg_mem option" where
  "formalInNode I D G current_node m =
     Option.bind (computeDerivedAddrVarsFromParent I D current_node m) (\<lambda>m1.
       let parent = parent_node (pm_tnodes m1 current_node);
           parent_addr_vars = (if parent = 0 then [] else addr_vars (pm_tnodes m1 parent))
       in fold_option (formalInVar I G current_node parent_addr_vars) (addr_vars (pm_tnodes m1 current_node)) m1)"

partial_function (option) formalIn_loop :: "bool \<Rightarrow> ir \<Rightarrow> di \<Rightarrow> GenericGraph \<Rightarrow> nid list \<Rightarrow> pdg_mem \<Rightarrow> pdg_mem option" where
  "formalIn_loop fs I D G node_queue m =
     (case node_queue of
        [] \<Rightarrow> Some m
      | current_node # rest \<Rightarrow>
          Option.bind (formalInNode I D G current_node m) (\<lambda>m1.
            if fs then formalIn_loop fs I D G (rest @ tn_children (pm_tnodes m1 current_node)) m1 else Some m1))"

definition connectFormalInTreeWithAddrVars :: "bool \<Rightarrow> ir \<Rightarrow> di \<Rightarrow> GenericGraph \<Rightarrow> tid \<Rightarrow> pdg_mem \<Rightarrow> pdg_mem option" where
  "connectFormalInTreeWithAddrVars fs I D G t m = formalIn_loop fs I D G [root_node (pm_trees m t)] m"

definition addAccessTag :: "nid \<Rightarrow> AccessTag \<Rightarrow> pdg_mem \<Rightarrow> pdg_mem" where
  "addAccessTag n tag m =
     m\<lparr>pm_tnodes := (pm_tnodes m)(n := (pm_tnodes m n)\<lparr>acc_tag_set := insert tag (acc_tag_set (pm_tnodes m n))\<rparr>)\<rparr>"

definition formalOutVar :: "ir \<Rightarrow> GenericGraph \<Rightarrow> nid \<Rightarrow> vid \<Rightarrow> pdg_mem \<Rightarrow> pdg_mem" where
  "formalOutVar I G current_node addr_var m =
     (case getNode G addr_var of
        None \<Rightarrow> m
      | Some addr_var_node \<Rightarrow>
          if hasWriteAccess I addr_var
          then addAccessTag current_node TAG_DATA_WRITE (link addr_var_node current_node PARAMETER_OUT m) else m)"

partial_function (option) formalOut_loop :: "bool \<Rightarrow> ir \<Rightarrow> GenericGraph \<Rightarrow> nid list \<Rightarrow> pdg_mem \<Rightarrow> pdg_mem option" where
  "formalOut_loop fs I G node_queue m =
     (case node_queue of
        [] \<Rightarrow> Some m
      | current_node # rest \<Rightarrow>
          (let m1 = fold (formalOutVar I G current_node) (addr_vars (pm_tnodes m current_node)) m
           in if fs then formalOut_loop fs I G (rest @ tn_children (pm_tnodes m1 current_node)) m1 else Some m1))"

definition connectFormalOutTreeWithAddrVars :: "bool \<Rightarrow> ir \<Rightarrow> GenericGraph \<Rightarrow> tid \<Rightarrow> pdg_mem \<Rightarrow> pdg_mem option" where
  "connectFormalOutTreeWithAddrVars fs I G t m = formalOut_loop fs I G [root_node (pm_trees m t)] m"

definition actualInAlias :: "nid \<Rightarrow> nid \<Rightarrow> pdg_mem \<Rightarrow> pdg_mem" where
  "actualInAlias current_node alias_node m =
     (let v = node_val (pm_nodes m alias_node)
      in if v = 0 then m else addAddrVars current_node [v] (link alias_node current_node PARAMETER_IN m))"

definition actualInVar :: "ir \<Rightarrow> GenericGraph \<Rightarrow> vid set \<Rightarrow> nid \<Rightarrow> vid \<Rightarrow> pdg_mem \<Rightarrow> pdg_mem" where
  "actualInVar I G insts_before_ci current_node addr_var m =
     (if isInstruction I addr_var \<and> addr_var \<notin> insts_before_ci then m
      else case getNode G addr_var of
             None \<Rightarrow> m
           | Some addr_var_node \<Rightarrow>
               fold (actualInAlias current_node) (sorted_list_of_set (getOutNeighborsWithDepType (pm_nodes m) addr_var_node DATA_ALIAS))
                 (link addr_var_node current_node PARAMETER_IN m))"

partial_function (option) actualIn_loop :: "ir \<Rightarrow> GenericGraph \<Rightarrow> vid set \<Rightarrow> nid list \<Rightarrow> pdg_mem \<Rightarrow> pdg_mem option" where
  "actualIn_loop I G insts_before_ci node_queue m =
     (case node_queue of
        [] \<Rightarrow> Some m
      | current_node # rest \<Rightarrow>
          (let m1 = fold (actualInVar I G insts_before_ci current_node) (addr_vars (pm_tnodes m current_node)) m
           in actualIn_loop I G insts_before_ci (rest @ tn_children (pm_tnodes m1 current_node)) m1))"

definition connectActualInTreeWithAddrVars :: "ir \<Rightarrow> GenericGraph \<Rightarrow> tid \<Rightarrow> vid \<Rightarrow> pdg_mem \<Rightarrow> pdg_mem option" where
  "connectActualInTreeWithAddrVars I G t ci m = actualIn_loop I G (getInstructionBeforeInst I ci) [root_node (pm_trees m t)] m"

definition actualOutVar :: "ir \<Rightarrow> GenericGraph \<Rightarrow> vid set \<Rightarrow> nid \<Rightarrow> vid \<Rightarrow> pdg_mem \<Rightarrow> pdg_mem" where
  "actualOutVar I G insts_after_ci current_node addr_var m =
     (if isInstruction I addr_var \<and> addr_var \<notin> insts_after_ci then m
      else case getNode G addr_var of None \<Rightarrow> m | Some addr_var_node \<Rightarrow> link current_node addr_var_node PARAMETER_OUT m)"

partial_function (option) actualOut_loop :: "ir \<Rightarrow> GenericGraph \<Rightarrow> vid set \<Rightarrow> nid list \<Rightarrow> pdg_mem \<Rightarrow> pdg_mem option" where
  "actualOut_loop I G insts_after_ci node_queue m =
     (case node_queue of
        [] \<Rightarrow> Some m
      | current_node # rest \<Rightarrow>
          (let m1 = fold (actualOutVar I G insts_after_ci current_node) (addr_vars (pm_tnodes m current_node)) m
           in actualOut_loop I G insts_after_ci (rest @ tn_children (pm_tnodes m1 current_node)) m1))"

definition connectActualOutTreeWithAddrVars :: "ir \<Rightarrow> GenericGraph \<Rightarrow> tid \<Rightarrow> vid \<Rightarrow> pdg_mem \<Rightarrow> pdg_mem option" where
  "connectActualOutTreeWithAddrVars I G t ci m = actualOut_loop I G (getInstructionAfterInst I ci) [root_node (pm_trees m t)] m"

subsection \<open>Trees and trees\<close>

text \<open>\<open>None\<close> is the failed assertion that both nodes have the same number of children.\<close>

partial_function (option) inTrees_loop :: "EdgeType \<Rightarrow> (nid \<times> nid) list \<Rightarrow> pdg_mem \<Rightarrow> pdg_mem option" where
  "inTrees_loop edge_type node_pairs_queue m =
     (case node_pairs_queue of
        [] \<Rightarrow> Some m
      | (src, dst) # rest \<Rightarrow>
          if length (tn_children (pm_tnodes m src)) \<noteq> length (tn_children (pm_tnodes m dst)) then None
          else let m1 = link src dst edge_type m
               in inTrees_loop edge_type (rest @ zip (tn_children (pm_tnodes m1 src)) (tn_children (pm_tnodes m1 dst))) m1)"

definition connectInTrees :: "tid option \<Rightarrow> tid option \<Rightarrow> EdgeType \<Rightarrow> pdg_mem \<Rightarrow> pdg_mem option" where
  "connectInTrees src_tree dst_tree edge_type m =
     (case (src_tree, dst_tree) of
        (Some s, Some d) \<Rightarrow>
          if tree_size (pm_trees m s) \<noteq> tree_size (pm_trees m d) then Some m
          else inTrees_loop edge_type [(root_node (pm_trees m s), root_node (pm_trees m d))] m
      | _ \<Rightarrow> Some m)"

partial_function (option) outTrees_loop :: "EdgeType \<Rightarrow> (nid \<times> nid) list \<Rightarrow> pdg_mem \<Rightarrow> pdg_mem option" where
  "outTrees_loop edge_type node_pairs_queue m =
     (case node_pairs_queue of
        [] \<Rightarrow> Some m
      | (src, dst) # rest \<Rightarrow>
          if length (tn_children (pm_tnodes m src)) \<noteq> length (tn_children (pm_tnodes m dst)) then None
          else let m1 = (if TAG_DATA_WRITE \<in> acc_tag_set (pm_tnodes m src) then link src dst edge_type m else m)
               in outTrees_loop edge_type (rest @ zip (tn_children (pm_tnodes m1 src)) (tn_children (pm_tnodes m1 dst))) m1)"

definition connectOutTrees :: "tid option \<Rightarrow> tid option \<Rightarrow> EdgeType \<Rightarrow> pdg_mem \<Rightarrow> pdg_mem option" where
  "connectOutTrees src_tree dst_tree edge_type m =
     (case (src_tree, dst_tree) of
        (Some s, Some d) \<Rightarrow>
          if tree_size (pm_trees m s) \<noteq> tree_size (pm_trees m d) then Some m
          else outTrees_loop edge_type [(root_node (pm_trees m s), root_node (pm_trees m d))] m
      | _ \<Rightarrow> Some m)"

partial_function (option) treeNode_loop :: "EdgeType \<Rightarrow> (nid \<times> nid) list \<Rightarrow> pdg_mem \<Rightarrow> pdg_mem option" where
  "treeNode_loop edge_type node_pairs_queue m =
     (case node_pairs_queue of
        [] \<Rightarrow> Some m
      | (src, dst) # rest \<Rightarrow>
          (let m1 = link src dst edge_type m; cs = tn_children (pm_tnodes m1 src); cd = tn_children (pm_tnodes m1 dst)
           in treeNode_loop edge_type (if length cs = length cd then rest @ zip cs cd else rest) m1))"

definition connectTreeNode :: "nid \<Rightarrow> nid \<Rightarrow> EdgeType \<Rightarrow> pdg_mem \<Rightarrow> pdg_mem option" where
  "connectTreeNode src_node dst_node edge_type m = treeNode_loop edge_type [(src_node, dst_node)] m"

subsection \<open>Calls\<close>

definition nullable :: "tid \<Rightarrow> tid option" where
  "nullable t = (if t = 0 then None else Some t)"

fun connectArgs :: "FunctionWrapper \<Rightarrow> CallWrapper \<Rightarrow> (vid \<times> vid) list \<Rightarrow> ProgramGraph \<Rightarrow> ProgramGraph option" where
  "connectArgs fw cw [] pg = Some pg"
| "connectArgs fw cw ((actual_arg, formal_arg) # args) pg =
     (case (getArgActualInTree cw actual_arg, getArgActualOutTree cw actual_arg) of
        (Some actual_in_tree, Some actual_out_tree) \<Rightarrow>
          Option.bind (addTreeNodesToGraph (pg_mem pg) actual_in_tree (pg_graph pg)) (\<lambda>G1.
            Option.bind (connectInTrees (Some actual_in_tree) (getArgFormalInTree fw formal_arg) PARAMETER_IN (pg_mem pg)) (\<lambda>m1.
              Option.bind (addTreeNodesToGraph m1 actual_out_tree G1) (\<lambda>G2.
                Option.bind (connectOutTrees (getArgFormalOutTree fw formal_arg) (Some actual_out_tree) PARAMETER_OUT m1) (\<lambda>m2.
                  connectArgs fw cw args (pg\<lparr>pg_graph := G2, pg_mem := m2\<rparr>)))))
      | _ \<Rightarrow> None)"

definition connectRet :: "FunctionWrapper \<Rightarrow> CallWrapper \<Rightarrow> pdg_mem \<Rightarrow> pdg_mem option" where
  "connectRet fw cw m =
     (if ret_val_formal_in_tree fw = 0 \<or> ret_val_actual_in_tree cw = 0 then Some m
      else Option.bind (connectInTrees (nullable (ret_val_actual_in_tree cw)) (nullable (ret_val_formal_in_tree fw)) PARAMETER_IN m)
             (connectInTrees (nullable (ret_val_actual_out_tree cw)) (nullable (ret_val_formal_out_tree fw)) PARAMETER_OUT))"

definition returnTo :: "ir \<Rightarrow> GenericGraph \<Rightarrow> vid \<Rightarrow> vid \<Rightarrow> pdg_mem \<Rightarrow> pdg_mem" where
  "returnTo I G call_inst ret_inst m =
     (case (getNode G (getOperand I ret_inst 0), getNode G call_inst) of
        (Some src, Some dst) \<Rightarrow> link src dst DATA_RET m
      | _ \<Rightarrow> m)"

definition connectCallerAndCallee :: "bool \<Rightarrow> ir \<Rightarrow> CallWrapper \<Rightarrow> FunctionWrapper \<Rightarrow> ProgramGraph \<Rightarrow> ProgramGraph option" where
  "connectCallerAndCallee fs I cw fw pg =
     (case getNode (pg_graph pg) (cw_call_inst cw) of
        None \<Rightarrow> Some pg
      | Some call_site_node \<Rightarrow>
          let pg1 = pg\<lparr>pg_mem := link call_site_node (entry_node fw) CALL (pg_mem pg)\<rparr>
          in if \<not> fs then Some pg1
             else if length (cw_arg_list cw) \<noteq> length (arg_list fw) then None
             else Option.bind (connectArgs fw cw (zip (cw_arg_list cw) (arg_list fw)) pg1) (\<lambda>pg2.
               Option.bind (connectRet fw cw (pg_mem pg2)) (\<lambda>m3.
                 Some (pg2\<lparr>pg_mem := fold (returnTo I (pg_graph pg2) (cw_call_inst cw)) (return_insts fw) m3\<rparr>))))"

subsection \<open>Dependences inside a function\<close>

text \<open>The result \<open>False\<close> is the return of the enclosing function at an argument without a tree.\<close>

fun formalArgs :: "bool \<Rightarrow> ir \<Rightarrow> di \<Rightarrow> GenericGraph \<Rightarrow> FunctionWrapper \<Rightarrow> vid list \<Rightarrow> pdg_mem \<Rightarrow> (bool \<times> pdg_mem) option" where
  "formalArgs fs I D G func_w [] m = Some (True, m)"
| "formalArgs fs I D G func_w (a # args) m =
     (case getArgFormalInTree func_w a of
        None \<Rightarrow> Some (False, m)
      | Some formal_in_tree \<Rightarrow>
          (case getArgFormalOutTree func_w a of
             None \<Rightarrow> None
           | Some formal_out_tree \<Rightarrow>
               let m1 = link (entry_node func_w) (root_node (pm_trees m formal_in_tree)) PARAMETER_IN m;
                   m2 = link (entry_node func_w) (root_node (pm_trees m1 formal_out_tree)) PARAMETER_OUT m1
               in Option.bind (connectFormalInTreeWithAddrVars fs I D G formal_in_tree m2) (\<lambda>m3.
                    Option.bind (connectFormalOutTreeWithAddrVars fs I G formal_out_tree m3) (formalArgs fs I D G func_w args))))"

definition formalRet :: "bool \<Rightarrow> ir \<Rightarrow> di \<Rightarrow> GenericGraph \<Rightarrow> FunctionWrapper \<Rightarrow> pdg_mem \<Rightarrow> pdg_mem option" where
  "formalRet fs I D G func_w m =
     (if ret_val_formal_in_tree func_w = 0 then Some m
      else Option.bind (connectFormalInTreeWithAddrVars fs I D G (ret_val_formal_in_tree func_w) m)
             (connectFormalOutTreeWithAddrVars fs I G (ret_val_formal_out_tree func_w)))"

definition connectIntraprocDependencies :: "bool \<Rightarrow> ir \<Rightarrow> di \<Rightarrow> pdt \<Rightarrow> vid \<Rightarrow> ProgramGraph \<Rightarrow> ProgramGraph option" where
  "connectIntraprocDependencies fs I D P F pg =
     (let G = pg_graph pg; entry = (\<lambda>f. map_option entry_node (map_of (func_wrapper_map pg) f))
      in Option.bind (cdg_runOnFunction I P entry G F (pm_nodes (pg_mem pg))) (\<lambda>h.
           Option.bind (map_of (func_wrapper_map pg) F) (\<lambda>func_w.
             Option.bind (formalArgs fs I D G func_w (arg_list func_w) ((pg_mem pg)\<lparr>pm_nodes := h\<rparr>)) (\<lambda>(finished, m).
               map_option (\<lambda>m'. pg\<lparr>pg_mem := m'\<rparr>) (if finished then formalRet fs I D G func_w m else Some m)))))"

subsection \<open>Dependences between functions\<close>

fun actualArgs :: "ir \<Rightarrow> GenericGraph \<Rightarrow> CallWrapper \<Rightarrow> nid \<Rightarrow> vid list \<Rightarrow> pdg_mem \<Rightarrow> (bool \<times> pdg_mem) option" where
  "actualArgs I G call_w call_site_node [] m = Some (True, m)"
| "actualArgs I G call_w call_site_node (a # args) m =
     (case getArgActualInTree call_w a of
        None \<Rightarrow> Some (False, m)
      | Some actual_in_tree \<Rightarrow>
          (case getArgActualOutTree call_w a of
             None \<Rightarrow> None
           | Some actual_out_tree \<Rightarrow>
               let m1 = link call_site_node (root_node (pm_trees m actual_in_tree)) PARAMETER_IN m;
                   m2 = link call_site_node (root_node (pm_trees m1 actual_out_tree)) PARAMETER_OUT m1
               in Option.bind (connectActualInTreeWithAddrVars I G actual_in_tree (cw_call_inst call_w) m2) (\<lambda>m3.
                    Option.bind (connectActualOutTreeWithAddrVars I G actual_out_tree (cw_call_inst call_w) m3)
                      (actualArgs I G call_w call_site_node args))))"

definition actualRet :: "ir \<Rightarrow> GenericGraph \<Rightarrow> CallWrapper \<Rightarrow> pdg_mem \<Rightarrow> pdg_mem option" where
  "actualRet I G call_w m =
     (if ret_val_actual_in_tree call_w = 0 then Some m
      else Option.bind (connectActualOutTreeWithAddrVars I G (ret_val_actual_in_tree call_w) (cw_call_inst call_w) m)
             (connectActualOutTreeWithAddrVars I G (ret_val_actual_out_tree call_w) (cw_call_inst call_w)))"

definition actualTrees :: "bool \<Rightarrow> ir \<Rightarrow> GenericGraph \<Rightarrow> CallWrapper \<Rightarrow> nid \<Rightarrow> pdg_mem \<Rightarrow> (bool \<times> pdg_mem) option" where
  "actualTrees fs I G call_w call_site_node m =
     (if \<not> fs then Some (True, m)
      else Option.bind (actualArgs I G call_w call_site_node (cw_arg_list call_w) m) (\<lambda>(finished, m1).
        map_option (Pair finished) (if finished then actualRet I G call_w m1 else Some m1)))"

fun interprocCalls :: "bool \<Rightarrow> ir \<Rightarrow> vid list \<Rightarrow> ProgramGraph \<Rightarrow> ProgramGraph option" where
  "interprocCalls fs I [] pg = Some pg"
| "interprocCalls fs I (call_inst # rest) pg =
     (case (map_of (call_wrapper_map pg) call_inst, getNode (pg_graph pg) call_inst) of
        (Some call_w, Some call_site_node) \<Rightarrow>
          Option.bind (actualTrees fs I (pg_graph pg) call_w call_site_node (pg_mem pg)) (\<lambda>(finished, m).
            if \<not> finished then Some (pg\<lparr>pg_mem := m\<rparr>)
            else Option.bind (cw_called_func call_w) (\<lambda>f. Option.bind (map_of (func_wrapper_map pg) f) (\<lambda>called_func_w.
              Option.bind (connectCallerAndCallee fs I call_w called_func_w (pg\<lparr>pg_mem := m\<rparr>)) (interprocCalls fs I rest))))
      | _ \<Rightarrow> interprocCalls fs I rest pg)"

definition connectInterprocDependencies :: "bool \<Rightarrow> ir \<Rightarrow> vid \<Rightarrow> ProgramGraph \<Rightarrow> ProgramGraph option" where
  "connectInterprocDependencies fs I F pg =
     Option.bind (map_of (func_wrapper_map pg) F) (\<lambda>func_w. interprocCalls fs I (call_insts func_w) pg)"

definition callActual :: "ir \<Rightarrow> ProgramGraph \<Rightarrow> nid \<Rightarrow> vid \<Rightarrow> nid \<Rightarrow> pdg_mem \<Rightarrow> pdg_mem option" where
  "callActual I pg current_node addr_var call_node m =
     (let ci = node_val (pm_nodes m call_node)
      in if ci = 0 \<or> kind I ci \<noteq> KCall then Some m
         else case getCalledFunc I ci of
                None \<Rightarrow> Some m
              | Some called_func \<Rightarrow>
                  if isDeclaration I called_func then Some m
                  else Option.bind (map_of (call_wrapper_map pg) ci) (\<lambda>call_wrapper.
                    case getArgActualInTree call_wrapper addr_var of
                      None \<Rightarrow> Some m
                    | Some t \<Rightarrow>
                        let r = root_node (pm_trees m t)
                        in if r = 0 then Some m else connectTreeNode current_node r PARAMETER_IN m))"

definition callActualVar :: "ir \<Rightarrow> ProgramGraph \<Rightarrow> nid \<Rightarrow> vid \<Rightarrow> pdg_mem \<Rightarrow> pdg_mem option" where
  "callActualVar I pg current_node addr_var m =
     (case getNode (pg_graph pg) addr_var of
        None \<Rightarrow> Some m
      | Some addr_var_node \<Rightarrow>
          fold_option (callActual I pg current_node addr_var)
            (sorted_list_of_set (getOutNeighborsWithDepType (pm_nodes m) addr_var_node DATA_DEF_USE)) m)"

partial_function (option) callActual_loop :: "bool \<Rightarrow> ir \<Rightarrow> ProgramGraph \<Rightarrow> nid list \<Rightarrow> pdg_mem \<Rightarrow> pdg_mem option" where
  "callActual_loop fs I pg node_queue m =
     (case node_queue of
        [] \<Rightarrow> Some m
      | current_node # rest \<Rightarrow>
          Option.bind (fold_option (callActualVar I pg current_node) (addr_vars (pm_tnodes m current_node)) m) (\<lambda>m1.
            if fs then callActual_loop fs I pg (rest @ tn_children (pm_tnodes m1 current_node)) m1 else Some m1))"

definition connectFormalInTreeWithCallActualNode :: "bool \<Rightarrow> ir \<Rightarrow> tid \<Rightarrow> ProgramGraph \<Rightarrow> ProgramGraph option" where
  "connectFormalInTreeWithCallActualNode fs I t pg =
     map_option (\<lambda>m. pg\<lparr>pg_mem := m\<rparr>) (callActual_loop fs I pg [root_node (pm_trees (pg_mem pg) t)] (pg_mem pg))"

text \<open>The formal-in trees of a function up to the first argument without one.\<close>

fun formalInTrees :: "FunctionWrapper \<Rightarrow> vid list \<Rightarrow> tid list" where
  "formalInTrees func_w [] = []"
| "formalInTrees func_w (a # args) =
     (case getArgFormalInTree func_w a of None \<Rightarrow> [] | Some t \<Rightarrow> t # formalInTrees func_w args)"

definition connectFormalInTreeWithActualTree :: "bool \<Rightarrow> ir \<Rightarrow> vid \<Rightarrow> ProgramGraph \<Rightarrow> ProgramGraph option" where
  "connectFormalInTreeWithActualTree fs I F pg =
     Option.bind (map_of (func_wrapper_map pg) F) (\<lambda>func_w.
       fold_option (connectFormalInTreeWithCallActualNode fs I) (formalInTrees func_w (arg_list func_w)) pg)"

subsection \<open>Addresses that reach a parameter through other functions\<close>

definition reachableVar :: "di \<Rightarrow> vid \<Rightarrow> nid \<Rightarrow> nid \<Rightarrow> pdg_mem \<Rightarrow> pdg_mem option" where
  "reachableVar D current_func current_node n m =
     (let v = node_val (pm_nodes m n); dt = node_di_type (pm_nodes m current_node); parent = parent_node (pm_tnodes m current_node)
      in if v = 0 \<or> node_func (pm_nodes m n) \<noteq> current_func then Some m
         else Option.bind (if dt = 0 then Some True else isPointerType D dt) (\<lambda>here.
           if here then Some (addAddrVars current_node [v] m)
           else Some (if parent = 0 then m else addAddrVars parent [v] m)))"

partial_function (option) reachable_loop :: "di \<Rightarrow> vid \<Rightarrow> nid list \<Rightarrow> pdg_mem \<Rightarrow> pdg_mem option" where
  "reachable_loop D current_func node_queue m =
     (case node_queue of
        [] \<Rightarrow> Some m
      | current_node # rest \<Rightarrow>
          Option.bind (findNodesReachedByEdges (pm_nodes m) current_node {PARAMETER_IN, DATA_RET} False) (\<lambda>reachable_nodes.
            Option.bind (fold_option (reachableVar D current_func current_node) (sorted_list_of_set reachable_nodes) m) (\<lambda>m1.
              reachable_loop D current_func (rest @ tn_children (pm_tnodes m1 current_node)) m1)))"

definition conntectFormalInTreeWithInterprocReachableAddrVars :: "di \<Rightarrow> tid \<Rightarrow> pdg_mem \<Rightarrow> pdg_mem option" where
  "conntectFormalInTreeWithInterprocReachableAddrVars D t m =
     (let root = root_node (pm_trees m t); current_func = node_func (pm_nodes m root)
      in if current_func = 0 then Some m else reachable_loop D current_func [root] m)"

definition connectAddrVarsReachableFromInterprocFlow :: "di \<Rightarrow> vid \<Rightarrow> ProgramGraph \<Rightarrow> ProgramGraph option" where
  "connectAddrVarsReachableFromInterprocFlow D F pg =
     Option.bind (map_of (func_wrapper_map pg) F) (\<lambda>func_w.
       map_option (\<lambda>m. pg\<lparr>pg_mem := m\<rparr>)
         (fold_option (conntectFormalInTreeWithInterprocReachableAddrVars D) (formalInTrees func_w (arg_list func_w)) (pg_mem pg)))"

partial_function (option) derivedFromArg_loop :: "pdg_mem \<Rightarrow> nid list \<Rightarrow> vid set \<Rightarrow> vid set option" where
  "derivedFromArg_loop m node_queue ret =
     (case node_queue of
        [] \<Rightarrow> Some ret
      | current_node # rest \<Rightarrow>
          derivedFromArg_loop m (rest @ tn_children (pm_tnodes m current_node)) (ret \<union> set (addr_vars (pm_tnodes m current_node))))"

definition computeAddrVarDerivedFromArg :: "FunctionWrapper \<Rightarrow> vid \<Rightarrow> pdg_mem \<Rightarrow> vid set option" where
  "computeAddrVarDerivedFromArg fw a m =
     Option.bind (getArgFormalInTree fw a) (\<lambda>t. derivedFromArg_loop m [root_node (pm_trees m t)] {})"

subsection \<open>Alias nodes\<close>

definition alias_succs :: "node_heap \<Rightarrow> nid \<Rightarrow> nid list" where
  "alias_succs h n = sorted_list_of_set (getOutNeighborsWithDepType h n DATA_ALIAS)"

interpretation alias_search: push_search
  "\<lambda>q V a. map_option (\<lambda>S. (S, a)) (aliasNodes_loop h q V)" "alias_succs h" "\<lambda>x (a :: unit). a" for h
proof unfold_locales
  show "map_option (\<lambda>S. (S, a)) (aliasNodes_loop h [] V) = Some (V, a)" for V a
    by (subst aliasNodes_loop.simps) simp
  show "map_option (\<lambda>S. (S, a)) (aliasNodes_loop h (x # q) V) =
      map_option (\<lambda>S. (S, a)) (aliasNodes_loop h (snd (fold enqueue (alias_succs h x) (V, q))) (fst (fold enqueue (alias_succs h x) (V, q))))"
    for x q V a
    by (subst aliasNodes_loop.simps) (simp add: Let_def alias_succs_def)
qed

lemma set_alias_succs:
  assumes "finite E" and "mirrors E h"
  shows "set (alias_succs h n) = {b. (n, b, DATA_ALIAS) \<in> E}"
proof -
  have "{b. (n, b, DATA_ALIAS) \<in> E} \<subseteq> (\<lambda>(a, b, t). b) ` E" by force
  then have "finite {b. (n, b, DATA_ALIAS) \<in> E}" using assms(1) finite_surj by blast
  then show ?thesis using assms(2) by (simp add: alias_succs_def getOutNeighborsWithDepType_def mirrors_def)
qed

lemma getAliasNodes_closure:
  assumes "finite E" and "mirrors E h"
  shows "getAliasNodes h n = Some ({(a, b). (a, b, DATA_ALIAS) \<in> E}\<^sup>+ `` {n})"
proof -
  note succs = set_alias_succs [OF assms]
  have "\<exists>xs. map_option (\<lambda>S. (S, ())) (aliasNodes_loop h [n] {}) = Some ({} \<union> (unmarked (alias_succs h) {})\<^sup>+ `` set [n], fold (\<lambda>x a. a) xs ()) \<and>
      set xs = set [n] \<union> (unmarked (alias_succs h) {})\<^sup>+ `` set [n]"
    by (rule alias_search.run_marks [where U = "insert n ((\<lambda>(a, b, t). b) ` E)"]) (use assms(1) succs in force)+
  moreover have "unmarked (alias_succs h) {} = {(a, b). (a, b, DATA_ALIAS) \<in> E}" by (auto simp: unmarked_def succs)
  ultimately show ?thesis by (auto simp: getAliasNodes_def)
qed

subsection \<open>The size of a tree\<close>

lemma new_child_trees: "new_child I D n dt st = Some st' \<Longrightarrow> pm_trees st' = pm_trees st"
  by (auto simp: new_child_def computeDerivedAddrVarsFromParent_def new_TreeNode_def alloc_node_def link_def push_child_def addAddrVars_def
      Let_def split: bind_splits if_splits)

lemma new_children_trees: "fold_option (new_child I D n) ts st = Some st' \<Longrightarrow> pm_trees st' = pm_trees st"
  by (induction ts arbitrary: st) (auto split: bind_splits dest: new_child_trees)

lemma expandNode_trees: "expandNode I D n st = Some (k, st') \<Longrightarrow> pm_trees st' = pm_trees st"
  by (auto simp: expandNode_types split: bind_splits dest: new_children_trees)

lemma expand_level_size:
  "expand_level I D t q nl st = Some (q', st') \<Longrightarrow>
     tree_size (pm_trees st' t) = tree_size (pm_trees st t) + int (length q) \<and> (\<forall>u. u \<noteq> t \<longrightarrow> pm_trees st' u = pm_trees st u)"
proof (induction q arbitrary: nl st)
  case (Cons n q)
  then obtain k st1 where st1: "expandNode I D n (increaseTreeSize t st) = Some (k, st1)"
      "expand_level I D t q (if 0 < k then nl @ tn_children (pm_tnodes st1 n) else nl) st1 = Some (q', st')"
    by (auto split: bind_splits)
  have "pm_trees st1 = pm_trees (increaseTreeSize t st)" by (rule expandNode_trees [OF st1(1)])
  then show ?case using Cons.IH [OF st1(2)] by (simp add: increaseTreeSize_def)
qed simp

fun tree_count :: "nat \<Rightarrow> di \<Rightarrow> dtid \<Rightarrow> nat" where
  "tree_count 0 D dt = 0"
| "tree_count (Suc k) D dt = Suc (sum_list (map (tree_count k D) (case expand_types D dt of None \<Rightarrow> [] | Some ts \<Rightarrow> ts)))"

lemma sum_level:
  assumes "\<And>n. n \<in> set q \<Longrightarrow> expand_types D (d n) = Some (map d' (cs n))"
  shows "length q + sum_list (map (\<lambda>c. tree_count k D (d' c)) (concat (map cs q))) = sum_list (map (\<lambda>n. tree_count (Suc k) D (d n)) q)"
  using assms by (induction q) (auto simp: comp_def)

lemma expand_levels_size:
  assumes "di_ok D" and "mem_ok st" and "level_ok q st" and "expand_levels k I D t q st = Some st'"
  shows "tree_size (pm_trees st' t) = tree_size (pm_trees st t) + int (sum_list (map (\<lambda>n. tree_count k D (node_di_type (pm_nodes st n))) q)) \<and>
    (\<forall>u. u \<noteq> t \<longrightarrow> pm_trees st' u = pm_trees st u)"
  using assms(2-)
proof (induction k arbitrary: q st)
  case 0
  then show ?case by simp
next
  case (Suc k)
  show ?case
  proof (cases "q = []")
    case True
    then show ?thesis using Suc.prems by simp
  next
    case False
    let ?q = "\<lambda>st1. concat (map (\<lambda>n. tn_children (pm_tnodes st1 n)) q)"
    obtain st1 where st1: "expand_level I D t q [] st = Some (?q st1, st1)" "level_expanded D q st st1"
      using expand_level_ok [OF assms(1) Suc.prems(1,2), of I t "[]"] by auto
    note l = st1(2) [unfolded level_expanded_def]
    have "0 < pm_next st" using Suc.prems(1) by (simp add: mem_ok_def)
    then have ok: "level_ok (?q st1) st1" using l unfolding level_ok_def by fastforce
    have "expand_levels k I D t (?q st1) st1 = Some st'" using Suc.prems(3) False st1(1) by simp
    then have r: "tree_size (pm_trees st' t) = tree_size (pm_trees st1 t) +
        int (sum_list (map (\<lambda>c. tree_count k D (node_di_type (pm_nodes st1 c))) (?q st1))) \<and> (\<forall>u. u \<noteq> t \<longrightarrow> pm_trees st' u = pm_trees st1 u)"
      using Suc.IH [OF _ ok] l by blast
    have "length q + sum_list (map (\<lambda>c. tree_count k D (node_di_type (pm_nodes st1 c))) (?q st1)) =
        sum_list (map (\<lambda>n. tree_count (Suc k) D (node_di_type (pm_nodes st n))) q)"
      by (rule sum_level) (use l in blast)
    then have "int (length q) + int (sum_list (map (\<lambda>c. tree_count k D (node_di_type (pm_nodes st1 c))) (?q st1))) =
        int (sum_list (map (\<lambda>n. tree_count (Suc k) D (node_di_type (pm_nodes st n))) q))"
      by (simp only: of_nat_add [symmetric])
    then show ?thesis using r expand_level_size [OF st1(1)] by (simp del: tree_count.simps)
  qed
qed

lemma tree_build_size:
  assumes "di_ok D" and "mem_ok st" and "fresh_root t st" and "tree_build I D t st = Some st'"
  shows "tree_size (pm_trees st' t) = tree_size (pm_trees st t) + int (tree_count max_tree_depth D (node_di_type (pm_nodes st (root_node (pm_trees st t)))))"
    and "u \<noteq> t \<Longrightarrow> pm_trees st' u = pm_trees st u"
  using expand_levels_size [OF assms(1,2), of "[root_node (pm_trees st t)]" max_tree_depth I t st'] assms(3,4)
  by (auto simp: tree_build_def level_ok_def fresh_root_def Let_def)

subsection \<open>Walks over two trees\<close>

definition child_pairs :: "pdg_mem \<Rightarrow> nid \<times> nid \<Rightarrow> (nid \<times> nid) list" where
  "child_pairs m p = zip (tn_children (pm_tnodes m (fst p))) (tn_children (pm_tnodes m (snd p)))"

definition shape_eq :: "pdg_mem \<Rightarrow> nid \<Rightarrow> nid \<Rightarrow> bool" where
  "shape_eq m a b \<longleftrightarrow> (\<exists>N. \<forall>j \<ge> N. read_tree j m a = read_tree j m b)"

lemma shape_eq_children:
  assumes "shape_eq m a b"
  shows "length (tn_children (pm_tnodes m a)) = length (tn_children (pm_tnodes m b))"
    and "(c, d) \<in> set (child_pairs m (a, b)) \<Longrightarrow> shape_eq m c d"
proof -
  obtain N where N: "\<And>j. N \<le> j \<Longrightarrow> map (read_tree j m) (tn_children (pm_tnodes m a)) = map (read_tree j m) (tn_children (pm_tnodes m b))"
    using assms unfolding shape_eq_def by (metis le_Suc_eq read_tree.simps(2) type_tree.inject)
  then show len: "length (tn_children (pm_tnodes m a)) = length (tn_children (pm_tnodes m b))" by (metis length_map order_refl)
  assume "(c, d) \<in> set (child_pairs m (a, b))"
  then obtain i where i: "i < length (tn_children (pm_tnodes m a))" "c = tn_children (pm_tnodes m a) ! i" "d = tn_children (pm_tnodes m b) ! i"
    using len by (auto simp: child_pairs_def set_zip)
  have "read_tree j m c = read_tree j m d" if "N \<le> j" for j
    using arg_cong [OF N [OF that], of "\<lambda>xs. xs ! i"] i len by simp
  then show "shape_eq m c d" unfolding shape_eq_def by blast
qed

lemma link_frame [simp]:
  "pm_tnodes (link a b t m) = pm_tnodes m" "pm_next (link a b t m) = pm_next m" "pm_trees (link a b t m) = pm_trees m"
  "child_pairs (link a b t m) = child_pairs m" "children_bounded (link a b t m) = children_bounded m"
  by (simp_all add: link_def child_pairs_def fun_eq_iff children_bounded_def)

lemma shape_eq_link [simp]: "shape_eq (link a b t m) c d = shape_eq m c d"
proof -
  have "read_tree j (link a b t m) n = read_tree j m n" for j n by (induction j arbitrary: n) (simp_all add: link_def)
  then show ?thesis by (simp add: shape_eq_def)
qed

text \<open>
  The three loops over pairs of nodes link the nodes at the same place of two trees; \<open>marked\<close> tells which pairs are linked.
\<close>

locale pair_walk =
  fixes loop :: "(nid \<times> nid) list \<Rightarrow> pdg_mem \<Rightarrow> pdg_mem option"
    and marked :: "TreeNode \<Rightarrow> bool"
    and ty :: EdgeType
  assumes loop_empty: "loop [] m = Some m"
    and loop_step: "length (tn_children (pm_tnodes m a)) = length (tn_children (pm_tnodes m b)) \<Longrightarrow>
      loop ((a, b) # q) m = loop (q @ child_pairs m (a, b)) (if marked (pm_tnodes m a) then link a b ty m else m)"
begin

definition pair_edges :: "pdg_mem \<Rightarrow> (nid \<times> nid) set \<Rightarrow> edge_spec set" where
  "pair_edges m S = {(a, b, ty) | a b. (a, b) \<in> S \<and> marked (pm_tnodes m a)}"

lemma pairs_linked:
  assumes "children_bounded m" and "\<forall>(a, b) \<in> set q. a < pm_next m \<and> shape_eq m a b"
  shows "\<exists>h. loop q m = Some (m\<lparr>pm_nodes := h\<rparr>) \<and>
    (\<forall>E. mirrors E (pm_nodes m) \<longrightarrow> mirrors (E \<union> pair_edges m (reach (child_pairs m) (set q))) h)"
  using assms
proof (induction "mset (map (\<lambda>p. pm_next m - fst p) q)" arbitrary: q m rule: wf_induct_rule [OF wf_mult [OF wf_less_than]])
  case (1 q m)
  show ?case
  proof (cases q)
    case Nil
    then show ?thesis by (intro exI [of _ "pm_nodes m"]) (simp add: loop_empty pair_edges_def reach_def)
  next
    case (Cons p rest)
    obtain a b where p: "p = (a, b)" by fastforce
    let ?q = "rest @ child_pairs m p" and ?f = "\<lambda>p. pm_next m - fst p" and ?m = "if marked (pm_tnodes m a) then link a b ty m else m"
    have a: "a < pm_next m" "shape_eq m a b" using Cons p "1.prems"(2) by simp_all
    have c: "a < c \<and> c < pm_next m \<and> shape_eq m c d" if "(c, d) \<in> set (child_pairs m p)" for c d
    proof -
      have "c \<in> set (tn_children (pm_tnodes m a))" using that p by (simp add: child_pairs_def set_zip_leftD)
      then have "a < c \<and> c < pm_next m" using "1.prems"(1) a(1) unfolding children_bounded_def by blast
      then show ?thesis using shape_eq_children(2) [OF a(2), of c d] that p by simp
    qed
    have "(mset (map ?f rest) + mset (map ?f (child_pairs m p)), mset (map ?f rest) + {#?f p#}) \<in> mult less_than"
      by (rule one_step_implies_mult) (use c a(1) p in \<open>auto intro: diff_less_mono2\<close>)
    then have less: "(mset (map (\<lambda>p. pm_next ?m - fst p) ?q), mset (map ?f q)) \<in> mult less_than" using Cons by (simp add: add.commute)
    have sub: "\<forall>(c, d) \<in> set ?q. c < pm_next ?m \<and> shape_eq ?m c d" using Cons "1.prems"(2) c by auto
    have cb: "children_bounded ?m" using "1.prems"(1) by simp
    obtain h where h: "loop ?q ?m = Some (?m\<lparr>pm_nodes := h\<rparr>)"
        "\<And>E. mirrors E (pm_nodes ?m) \<Longrightarrow> mirrors (E \<union> pair_edges ?m (reach (child_pairs ?m) (set ?q))) h"
      using "1.hyps" [OF less cb sub] by blast
    have r: "reach (child_pairs m) (set q) = insert p (reach (child_pairs m) (set ?q))"
    proof -
      have "reach (child_pairs m) (set q) = reach (child_pairs m) (insert p (set ?q))"
        using reach_step [of p "set q" "child_pairs m"] Cons by (simp add: Un_commute insert_commute)
      also have "\<dots> = insert p (reach (child_pairs m) (set ?q))" by (rule reach_insert) simp
      finally show ?thesis .
    qed
    have "loop q m = Some (m\<lparr>pm_nodes := h\<rparr>)"
      using h(1) loop_step [OF shape_eq_children(1) [OF a(2)], of rest] Cons p by (auto simp: link_def split: if_splits)
    moreover have "mirrors (E \<union> pair_edges m (reach (child_pairs m) (set q))) h" if E: "mirrors E (pm_nodes m)" for E
    proof -
      let ?E = "if marked (pm_tnodes m a) then insert (a, b, ty) E else E"
      have "mirrors ?E (pm_nodes ?m)" using mirrors_add [OF E] E by (simp add: link_def)
      then have "mirrors (?E \<union> pair_edges ?m (reach (child_pairs ?m) (set ?q))) h" by (rule h(2))
      moreover have "?E \<union> pair_edges ?m (reach (child_pairs ?m) (set ?q)) = E \<union> pair_edges m (reach (child_pairs m) (set q))"
        unfolding r p pair_edges_def by auto
      ultimately show ?thesis by simp
    qed
    ultimately show ?thesis by blast
  qed
qed

end

interpretation in_pairs: pair_walk "inTrees_loop ty" "\<lambda>_. True" ty for ty
  by unfold_locales (subst inTrees_loop.simps, simp add: child_pairs_def Let_def)+

interpretation out_pairs: pair_walk "outTrees_loop ty" "\<lambda>x. TAG_DATA_WRITE \<in> acc_tag_set x" ty for ty
  by unfold_locales (subst outTrees_loop.simps, simp add: child_pairs_def Let_def)+

interpretation node_pairs: pair_walk "treeNode_loop ty" "\<lambda>_. True" ty for ty
  by unfold_locales (subst treeNode_loop.simps, simp add: child_pairs_def Let_def)+

subsection \<open>Connecting a tree with its copy\<close>

lemma mem_ok_bounded: "mem_ok m \<Longrightarrow> children_bounded m"
  unfolding mem_ok_def children_bounded_def by blast

lemma build_copy_size:
  assumes "di_ok D" and "mem_ok m" and "src < pm_next_tree m" and "build_copy I D B src base ty vs m = Some (t, m')"
  shows "tree_size (pm_trees m' t) = int (tree_count max_tree_depth D (node_di_type (pm_nodes m (root_node (pm_trees m src)))))"
    and "tree_size (pm_trees m' src) = tree_size (pm_trees m src)"
proof -
  define r where "r = root_node (pm_trees m src)"
  obtain u m1 where m1: "copy_Tree (uninitTree B) src m = (u, m1)" by fastforce
  define m4 where "m4 = setTreeNodeType u ty (addAddrVars (root_node (pm_trees (case base of None \<Rightarrow> m1 | Some v \<Rightarrow> setBaseVal u v m1) u)) vs
    (case base of None \<Rightarrow> m1 | Some v \<Rightarrow> setBaseVal u v m1))"
  have b: "u = t" "tree_build I D t m4 = Some m'" using assms(4) m1 by (auto simp: build_copy_def m4_def Let_def)
  note c = copy_Tree_ok [OF assms(2) m1]
  have base: "same_shape m1 (case base of None \<Rightarrow> m1 | Some v \<Rightarrow> setBaseVal u v m1)"
    by (cases base) (simp_all add: same_shapeI)
  then have sh: "same_shape m1 m4"
    unfolding m4_def by (rule same_shape_trans [OF same_shape_trans [OF _ setters_same_shape(3)] setTreeNodeType_same_shape])
  have tr: "tree_size (pm_trees m4 w) = tree_size (pm_trees m1 w) \<and> root_node (pm_trees m4 w) = root_node (pm_trees m1 w)" for w
    by (cases base) (simp_all add: m4_def setTreeNodeType_def addAddrVars_def setBaseVal_def Let_def)
  have fresh: "fresh_root t m4" using fresh_root_same_shape [OF sh, of t] tr c(2) b(1) by simp
  have ok4: "mem_ok m4" using same_shape_ok(1) [OF sh grow_ok [OF c(1)]] .
  have cp: "u = pm_next_tree m" "root_node (pm_trees m1 u) = pm_next m" "tree_size (pm_trees m1 u) = 0"
    "node_di_type (pm_nodes m1 (pm_next m)) = node_di_type (pm_nodes m r)" "\<And>w. w \<noteq> u \<Longrightarrow> pm_trees m1 w = pm_trees m w"
    using m1 by (auto simp: copy_Tree_def copy_TreeNode_def alloc_node_def alloc_tree_def Let_def r_def)
  have di: "node_di_type (pm_nodes m4 n) = node_di_type (pm_nodes m1 n)" for n by (rule same_shape_node(3) [OF sh])
  show "tree_size (pm_trees m' t) = int (tree_count max_tree_depth D (node_di_type (pm_nodes m (root_node (pm_trees m src)))))"
    using tree_build_size(1) [OF assms(1) ok4 fresh b(2)] tr cp(2-4) di b(1) by (simp add: r_def)
  have "src \<noteq> t" using assms(3) cp(1) b(1) by simp
  then show "tree_size (pm_trees m' src) = tree_size (pm_trees m src)"
    using tree_build_size(2) [OF assms(1) ok4 fresh b(2)] tr cp(5) b(1) by simp
qed

text \<open>
  C25: A tree is connected with its copy node by node, or not at all.  A copy is built from the root of a tree that has been built
  itself.  Connecting the copy with the original never fails the assertion that both nodes of a pair have the same number of
  children, and it adds exactly the edges between nodes at the same place, if the size of the original was zero when it was created.
  The constructor leaves the size uninitialised; after any other value the sizes differ and nothing is connected.
\<close>

theorem copied_trees_connected:
  assumes "di_ok D" and "mem_ok m0" and "fresh_root src m0" and "src < pm_next_tree m0"
  shows "\<exists>m t m' h. tree_build I D src m0 = Some m \<and> build_copy I D B src base ty vs m = Some (t, m') \<and>
    connectInTrees (Some t) (Some src) e m' = Some (m'\<lparr>pm_nodes := h\<rparr>) \<and>
    mirrors (field_edges m' \<union> (if tree_size (pm_trees m0 src) = 0
      then {(a, b, e) | a b. (a, b) \<in> reach (child_pairs m') {(root_node (pm_trees m' t), root_node (pm_trees m' src))}} else {})) h"
proof -
  define r where "r = root_node (pm_trees m0 src)"
  have fr: "0 < r" "r < pm_next m0" "tn_children (pm_tnodes m0 r) = []" using assms(3) by (simp_all add: fresh_root_def Let_def r_def)
  obtain m where m: "tree_build I D src m0 = Some m" "levels_expanded max_tree_depth D [r] m0 m"
    using tree_build_ok [OF assms(1,2) r_def fr] by blast
  note l = m(2) [unfolded levels_expanded_def]
  have e: "extends m0 m" "mem_ok m" "root_node (pm_trees m src) = r" using l by (simp_all add: r_def)
  have di: "node_di_type (pm_nodes m r) = node_di_type (pm_nodes m0 r)" "r < pm_next m" "src < pm_next_tree m"
    using e(1) fr(2) assms(4) by (simp_all add: extends_def)
  obtain t m' where m': "build_copy I D B src base ty vs m = Some (t, m')" "extends m m'"
      "\<And>j. max_tree_depth \<le> j \<Longrightarrow> read_tree j m' (root_node (pm_trees m' t)) = type_unfold max_tree_depth D (node_di_type (pm_nodes m r))"
      "\<And>n. n < pm_next m \<Longrightarrow> tn_children (pm_tnodes m' n) = tn_children (pm_tnodes m n)"
      "\<And>u. u < pm_next_tree m \<Longrightarrow> root_node (pm_trees m' u) = root_node (pm_trees m u)"
    using build_copy_shape [OF assms(1) e(2) e(3) [symmetric], of I B base ty vs] by blast
  have ok: "mem_ok m'" "root_node (pm_trees m' t) < pm_next m'"
    using build_copy_ok [OF assms(1) e(2), of I B src base ty vs] m'(1) grow_ok by auto
  have src: "root_node (pm_trees m' src) = r" using m'(5) [OF di(3)] e(3) by simp
  have "read_tree j m' r = read_tree j m r" for j
    by (rule read_tree_frame [OF e(2) di(2)]) (use m'(2,4) in \<open>simp add: extends_def\<close>)
  then have "shape_eq m' (root_node (pm_trees m' t)) r"
    unfolding shape_eq_def using m'(3) l di(1) by (intro exI [of _ max_tree_depth]) auto
  then obtain h where h: "inTrees_loop e [(root_node (pm_trees m' t), r)] m' = Some (m'\<lparr>pm_nodes := h\<rparr>)"
      "\<And>E. mirrors E (pm_nodes m') \<Longrightarrow> mirrors (E \<union> in_pairs.pair_edges e m' (reach (child_pairs m') {(root_node (pm_trees m' t), r)})) h"
    using in_pairs.pairs_linked [OF mem_ok_bounded [OF ok(1)], of "[(root_node (pm_trees m' t), r)]" e] ok(2) by auto
  have mi: "mirrors (field_edges m') (pm_nodes m')" using ok(1) unfolding mem_ok_def by blast
  have "tree_size (pm_trees m' t) = tree_size (pm_trees m' src) \<longleftrightarrow> tree_size (pm_trees m0 src) = 0"
    using build_copy_size [OF assms(1) e(2) di(3) m'(1)] tree_build_size(1) [OF assms(1-3) m(1)] e(3) di(1) by (simp add: r_def)
  then have "connectInTrees (Some t) (Some src) e m' = Some (m'\<lparr>pm_nodes := (if tree_size (pm_trees m0 src) = 0 then h else pm_nodes m')\<rparr>)"
    using h(1) src by (simp add: connectInTrees_def)
  moreover have "mirrors (field_edges m' \<union> (if tree_size (pm_trees m0 src) = 0
      then {(a, b, e) | a b. (a, b) \<in> reach (child_pairs m') {(root_node (pm_trees m' t), root_node (pm_trees m' src))}} else {}))
      (if tree_size (pm_trees m0 src) = 0 then h else pm_nodes m')"
    using h(2) [OF mi] mi src by (simp add: in_pairs.pair_edges_def)
  ultimately show ?thesis using m(1) m'(1) by blast
qed

theorem copied_trees_connected_witness:
  "\<exists>m t m' h. tree_build empty_ir di_example 1 tree_example = Some m \<and>
     build_copy empty_ir di_example dbg_example 1 None ACTUAL_IN [] m = Some (t, m') \<and>
     connectInTrees (Some t) (Some 1) PARAMETER_IN m' = Some (m'\<lparr>pm_nodes := h\<rparr>) \<and>
     mirrors (field_edges m' \<union> {(a, b, PARAMETER_IN) | a b. (a, b) \<in> reach (child_pairs m') {(root_node (pm_trees m' t), root_node (pm_trees m' 1))}}) h"
proof -
  have f: "fresh_root 1 tree_example" "1 < pm_next_tree tree_example" "tree_size (pm_trees tree_example 1) = 0"
    by (simp_all add: fresh_root_def tree_example_def mk_TreeNode_def)
  show ?thesis
    using copied_trees_connected [OF di_example_ok tree_example_ok f(1,2), of empty_ir dbg_example None ACTUAL_IN "[]" PARAMETER_IN]
    unfolding f(3) by simp
qed

subsection \<open>Connecting trees with variables\<close>

text \<open>In a well-formed store every node hangs from an older node with a type, and the edges of the graph are finite in number.\<close>

definition parents_typed :: "pdg_mem \<Rightarrow> bool" where
  "parents_typed m \<longleftrightarrow> (\<forall>n < pm_next m. parent_node (pm_tnodes m n) \<noteq> 0 \<longrightarrow> parent_node (pm_tnodes m n) < pm_next m \<and>
     node_di_type (pm_nodes m (parent_node (pm_tnodes m n))) \<noteq> 0)"

definition graph_ok :: "pdg_mem \<Rightarrow> bool" where
  "graph_ok m \<longleftrightarrow> parents_typed m \<and> children_bounded m \<and> (\<exists>E. finite E \<and> mirrors E (pm_nodes m))"

lemma graph_ok_adds:
  assumes "graph_ok m" and "adds_edges T m m'"
  shows "graph_ok m'"
proof -
  obtain E where E: "finite E" "mirrors E (pm_nodes m)" using assms(1) by (auto simp: graph_ok_def)
  obtain X where X: "finite X" "mirrors (E \<union> X) (pm_nodes m')" using assms(2) E(2) unfolding adds_edges_def by blast
  have "parents_typed m' = parents_typed m" by (simp only: parents_typed_def adds_edges_fields [OF assms(2)])
  then have "parents_typed m'" using assms(1) by (simp add: graph_ok_def)
  moreover have "children_bounded m'" using children_bounded_adds [OF _ assms(2)] assms(1) by (simp add: graph_ok_def)
  moreover have "\<exists>E. finite E \<and> mirrors E (pm_nodes m')" using E(1) X by blast
  ultimately show ?thesis by (simp add: graph_ok_def)
qed

lemma adds_edges_mono:
  assumes "adds_edges T m m'" and "T \<subseteq> T'"
  shows "adds_edges T' m m'"
proof -
  obtain X where "finite X" "\<forall>E. mirrors E (pm_nodes m) \<longrightarrow> mirrors (E \<union> X) (pm_nodes m')" "\<forall>(a, b, t) \<in> X. t \<in> T"
    using assms(1) unfolding adds_edges_def by blast
  then have "\<exists>X. finite X \<and> (\<forall>E. mirrors E (pm_nodes m) \<longrightarrow> mirrors (E \<union> X) (pm_nodes m')) \<and> (\<forall>(a, b, t) \<in> X. t \<in> T')"
    using assms(2) by (intro exI [of _ X]) auto
  then show ?thesis using assms(1) unfolding adds_edges_def by simp
qed

lemma adds_edges_tag: "adds_edges T m (addAccessTag n tag m)"
  using adds_no_edges by (simp add: adds_edges_def addAccessTag_def)

lemma derived_vars_added:
  assumes "di_ok D" and "parents_typed m" and "n < pm_next m"
  shows "\<exists>vs. computeDerivedAddrVarsFromParent I D n m = Some (addAddrVars n vs m)"
proof -
  let ?p = "parent_node (pm_tnodes m n)" and ?g = "parent_node (pm_tnodes m (parent_node (pm_tnodes m n)))"
  have nil: "addAddrVars n [] m = m" by (simp add: addAddrVars_def)
  show ?thesis
  proof (cases "?p = 0 \<or> node_di_type (pm_nodes m n) = 0")
    case True
    then have "computeDerivedAddrVarsFromParent I D n m = Some (addAddrVars n [] m)"
      by (simp add: computeDerivedAddrVarsFromParent_def Let_def nil)
    then show ?thesis by blast
  next
    case False
    then have p: "?p < pm_next m" "node_di_type (pm_nodes m ?p) \<noteq> 0" using assms(2,3) by (simp_all add: parents_typed_def)
    obtain b where b: "isStructType D (node_di_type (pm_nodes m ?p)) = Some b" using p(2) by (simp add: isStructType_def)
    have "?g \<noteq> 0 \<longrightarrow> node_di_type (pm_nodes m ?g) \<noteq> 0" using assms(2) p(1) by (simp add: parents_typed_def)
    then obtain s where "?g \<noteq> 0 \<longrightarrow> isStructPointerType D (node_di_type (pm_nodes m ?g)) = Some s"
      using isStructPointerType_total [OF assms(1)] by blast
    then show ?thesis using False b by (cases "?g = 0") (auto simp: computeDerivedAddrVarsFromParent_def Let_def)
  qed
qed

lemma formalInVar_adds:
  assumes "graph_ok m"
  shows "\<exists>m'. formalInVar I G n vs v m = Some m' \<and> adds_edges {PARAMETER_IN} m m'"
proof (cases "getNode G v")
  case (Some k)
  let ?m = "link n k PARAMETER_IN m"
  have a: "adds_edges {PARAMETER_IN} m ?m" by (simp add: adds_edges_link)
  obtain E where "finite E" "mirrors E (pm_nodes ?m)" using graph_ok_adds [OF assms a] by (auto simp: graph_ok_def)
  then obtain A where A: "getAliasNodes (pm_nodes ?m) k = Some A" using getAliasNodes_closure by blast
  have "adds_edges {PARAMETER_IN} ?m (fold (connectAlias I n vs) (sorted_list_of_set A) ?m)"
    by (rule adds_edges_fold) (rule connectAlias_adds, simp)
  then show ?thesis using Some A adds_edges_trans [OF a] by (simp add: formalInVar_def Let_def)
qed (simp add: formalInVar_def)

interpretation formal_in_vars: total_steps "formalInVar I G n vs" "\<lambda>_. True" graph_ok "adds_edges {PARAMETER_IN}" for I G n vs
  by unfold_locales (use formalInVar_adds graph_ok_adds in \<open>blast | auto intro: adds_edges_trans\<close>)+

interpretation formal_in_walk: tree_walk "formalIn_loop fs I D G" "formalInNode I D G" fs "\<lambda>m. di_ok D \<and> graph_ok m" "{PARAMETER_IN}" for fs I D G
proof unfold_locales
  show "\<exists>m1. formalInNode I D G n m = Some m1 \<and> adds_edges {PARAMETER_IN} m m1" if ok: "di_ok D \<and> graph_ok m" "n < pm_next m" for m n
  proof -
    obtain us where us: "computeDerivedAddrVarsFromParent I D n m = Some (addAddrVars n us m)"
      using derived_vars_added [of D m n I] ok unfolding graph_ok_def by blast
    let ?m = "addAddrVars n us m"
    have a: "adds_edges {PARAMETER_IN} m ?m" by (rule adds_edges_vars)
    then have "graph_ok ?m" using graph_ok_adds ok(1) by blast
    then have "\<exists>m1. fold_option (formalInVar I G n vs) xs ?m = Some m1 \<and> graph_ok m1 \<and> adds_edges {PARAMETER_IN} ?m m1" for vs xs
      by (intro formal_in_vars.loop_total) (simp_all add: list_all_iff)
    then show ?thesis using us adds_edges_trans [OF a] by (simp add: formalInNode_def Let_def) blast
  qed
  show "di_ok D \<and> graph_ok m1" if "di_ok D \<and> graph_ok m" "adds_edges {PARAMETER_IN} m m1" for m m1
    using that graph_ok_adds by blast
qed (subst formalIn_loop.simps, simp)+

lemma formalOutVar_adds: "adds_edges {PARAMETER_OUT} m (formalOutVar I G n v m)"
  using adds_edges_trans [OF adds_edges_link adds_edges_tag] by (auto simp: formalOutVar_def split: option.split)

interpretation formal_out_walk: tree_walk "formalOut_loop fs I G" "\<lambda>n m. Some (fold (formalOutVar I G n) (addr_vars (pm_tnodes m n)) m)" fs
  graph_ok "{PARAMETER_OUT}" for fs I G
proof unfold_locales
  show "\<exists>m1. Some (fold (formalOutVar I G n) (addr_vars (pm_tnodes m n)) m) = Some m1 \<and> adds_edges {PARAMETER_OUT} m m1" for n m
    by (simp add: adds_edges_fold formalOutVar_adds)
  show "graph_ok m1" if "graph_ok m" "adds_edges {PARAMETER_OUT} m m1" for m m1 using that by (rule graph_ok_adds)
qed (subst formalOut_loop.simps, simp add: Let_def)+

lemma actualInAlias_adds: "adds_edges {PARAMETER_IN} m (actualInAlias n a m)"
  using adds_edges_trans [OF adds_edges_link adds_edges_vars] by (auto simp: actualInAlias_def Let_def)

lemma actualInVar_adds: "adds_edges {PARAMETER_IN} m (actualInVar I G S n v m)"
proof (cases "getNode G v")
  case (Some k)
  have "adds_edges {PARAMETER_IN} m (fold (actualInAlias n) xs (link k n PARAMETER_IN m))" for xs
    by (rule adds_edges_trans [OF adds_edges_link adds_edges_fold]) (simp_all add: actualInAlias_adds)
  then show ?thesis using Some by (simp add: actualInVar_def)
qed (simp add: actualInVar_def)

interpretation actual_in_walk: tree_walk "actualIn_loop I G S" "\<lambda>n m. Some (fold (actualInVar I G S n) (addr_vars (pm_tnodes m n)) m)" True
  "\<lambda>_. True" "{PARAMETER_IN}" for I G S
proof unfold_locales
  show "\<exists>m1. Some (fold (actualInVar I G S n) (addr_vars (pm_tnodes m n)) m) = Some m1 \<and> adds_edges {PARAMETER_IN} m m1" for n m
    by (simp add: adds_edges_fold actualInVar_adds)
qed (subst actualIn_loop.simps, simp add: Let_def)+

lemma actualOutVar_adds: "adds_edges {PARAMETER_OUT} m (actualOutVar I G S n v m)"
  by (auto simp: actualOutVar_def adds_edges_link split: option.split)

interpretation actual_out_walk: tree_walk "actualOut_loop I G S" "\<lambda>n m. Some (fold (actualOutVar I G S n) (addr_vars (pm_tnodes m n)) m)" True
  "\<lambda>_. True" "{PARAMETER_OUT}" for I G S
proof unfold_locales
  show "\<exists>m1. Some (fold (actualOutVar I G S n) (addr_vars (pm_tnodes m n)) m) = Some m1 \<and> adds_edges {PARAMETER_OUT} m m1" for n m
    by (simp add: adds_edges_fold actualOutVar_adds)
qed (subst actualOut_loop.simps, simp add: Let_def)+

lemma reachableVar_adds:
  assumes "di_ok D"
  shows "\<exists>m'. reachableVar D F n k m = Some m' \<and> adds_edges {} m m'"
proof -
  obtain b where "node_di_type (pm_nodes m n) = 0 \<or> isPointerType D (node_di_type (pm_nodes m n)) = Some b"
    using isPointerType_total [OF assms] by blast
  then show ?thesis by (auto simp: reachableVar_def Let_def adds_edges_vars)
qed

interpretation reachable_vars: total_steps "reachableVar D F n" "\<lambda>_. di_ok D" "\<lambda>_. True" "adds_edges {}" for D F n
  by unfold_locales (use reachableVar_adds in \<open>blast | auto intro: adds_edges_trans\<close>)+

interpretation reachable_walk: tree_walk "reachable_loop D F"
  "\<lambda>n m. Option.bind (findNodesReachedByEdges (pm_nodes m) n {PARAMETER_IN, DATA_RET} False)
     (\<lambda>S. fold_option (reachableVar D F n) (sorted_list_of_set S) m)" True "\<lambda>_. di_ok D" "{}" for D F
proof unfold_locales
  show "\<exists>m1. Option.bind (findNodesReachedByEdges (pm_nodes m) n {PARAMETER_IN, DATA_RET} False)
      (\<lambda>S. fold_option (reachableVar D F n) (sorted_list_of_set S) m) = Some m1 \<and> adds_edges {} m m1" if D: "di_ok D" for n m
  proof -
    obtain S where "findNodesReachedByEdges (pm_nodes m) n {PARAMETER_IN, DATA_RET} False = Some S"
      unfolding findNodesReachedByEdges_def Let_def reachedByEdges_one_round by blast
    then show ?thesis using reachable_vars.loop_total [where xs = "sorted_list_of_set S" and s = m] D by (simp add: list_all_iff)
  qed
qed (subst reachable_loop.simps, simp)+

subsection \<open>Dependences inside a function\<close>

lemma finite_block_edges: "finite (block_edges I g c Xs)"
proof (rule finite_subset)
  show "block_edges I g c Xs \<subseteq> (\<lambda>n. (c, n, CONTROL)) ` snd ` set (val_node_map g)"
    by (force simp: block_edges_def getNode_def dest: map_of_SomeD split: if_splits)
qed simp

lemma control_edges_finite: "finite (control_edges I P g F)" "(a, b, t) \<in> control_edges I P g F \<Longrightarrow> t = CONTROL"
  by (auto simp: control_edges_def branch_edges_def finite_block_edges split: option.splits if_splits)
    (auto simp: block_edges_def)

lemma cdg_adds_edges:
  assumes "pdt_ok P (set (blocks I F))" and "cfg_closed I F" and "entry F = Some e"
  shows "\<exists>h. cdg_runOnFunction I P entry G F (pm_nodes m) = Some h \<and> adds_edges {CONTROL} m (m\<lparr>pm_nodes := h\<rparr>)"
proof -
  let ?b = "addControlDepFromNodeToBB I G e (hd (blocks I F))" and ?X = "block_edges I G e {hd (blocks I F)} \<union> control_edges I P G F"
  obtain k where k: "\<And>h. computeControlDependencies I P G F h = Some (k h)" "adds k (control_edges I P G F)"
    using computeControlDependencies_adds [OF assms(1,2)] by (auto simp: adds_some_def)
  have "adds (\<lambda>h. k (?b h)) ?X" by (rule adds_comp [OF adds_block k(2)])
  then have a: "\<And>E. mirrors E (pm_nodes m) \<Longrightarrow> mirrors (E \<union> ?X) (k (?b (pm_nodes m)))"
      "\<And>n. node_val (k (?b (pm_nodes m)) n) = node_val (pm_nodes m n)" "\<And>n. node_func (k (?b (pm_nodes m)) n) = node_func (pm_nodes m n)"
      "\<And>n. node_di_type (k (?b (pm_nodes m)) n) = node_di_type (pm_nodes m n)"
    unfolding adds_def by blast+
  have "finite ?X" by (simp add: finite_block_edges control_edges_finite(1))
  moreover have "\<forall>(a, b, t) \<in> ?X. t \<in> {CONTROL}"
    using control_edges_finite(2) by (auto simp: block_edges_def)
  ultimately have "\<exists>X. finite X \<and> (\<forall>E. mirrors E (pm_nodes m) \<longrightarrow> mirrors (E \<union> X) (k (?b (pm_nodes m)))) \<and> (\<forall>(a, b, t) \<in> X. t \<in> {CONTROL})"
    using a(1) by (intro exI [of _ ?X]) simp
  then have "adds_edges {CONTROL} m (m\<lparr>pm_nodes := k (?b (pm_nodes m))\<rparr>)" using a(2-4) by (simp add: adds_edges_def)
  then show ?thesis using k(1) assms(3) by (simp add: cdg_runOnFunction_def addControlDepFromEntryNodeToEntryBlock_def)
qed

definition fw_trees_ok :: "FunctionWrapper \<Rightarrow> pdg_mem \<Rightarrow> bool" where
  "fw_trees_ok fw m \<longleftrightarrow>
     (\<forall>a t. getArgFormalInTree fw a = Some t \<longrightarrow> root_node (pm_trees m t) < pm_next m \<and>
        (\<exists>u. getArgFormalOutTree fw a = Some u \<and> root_node (pm_trees m u) < pm_next m)) \<and>
     (\<forall>t \<in> {ret_val_formal_in_tree fw, ret_val_formal_out_tree fw}. t \<noteq> 0 \<longrightarrow> root_node (pm_trees m t) < pm_next m) \<and>
     (ret_val_formal_in_tree fw \<noteq> 0 \<longrightarrow> ret_val_formal_out_tree fw \<noteq> 0)"

lemma fw_trees_ok_adds: "adds_edges T m m' \<Longrightarrow> fw_trees_ok fw m' \<longleftrightarrow> fw_trees_ok fw m"
  by (simp only: fw_trees_ok_def adds_edges_fields)

lemma trees_connected:
  assumes "di_ok D" and "graph_ok m" and "root_node (pm_trees m t) < pm_next m" and "root_node (pm_trees m u) < pm_next m"
  shows "\<exists>m1 m2. connectFormalInTreeWithAddrVars fs I D G t m = Some m1 \<and> connectFormalOutTreeWithAddrVars fs I G u m1 = Some m2 \<and>
    adds_edges {PARAMETER_IN, PARAMETER_OUT} m m2"
proof -
  have b: "children_bounded m" using assms(2) by (simp add: graph_ok_def)
  obtain m1 where m1: "connectFormalInTreeWithAddrVars fs I D G t m = Some m1" "adds_edges {PARAMETER_IN} m m1"
    using formal_in_walk.walk_returns [OF _ b, of D "[root_node (pm_trees m t)]" fs I G] assms(1-3) by (auto simp: connectFormalInTreeWithAddrVars_def)
  have ok: "graph_ok m1" by (rule graph_ok_adds [OF assms(2) m1(2)])
  then have b1: "children_bounded m1" by (simp add: graph_ok_def)
  obtain m2 where m2: "connectFormalOutTreeWithAddrVars fs I G u m1 = Some m2" "adds_edges {PARAMETER_OUT} m1 m2"
    using formal_out_walk.walk_returns [OF ok b1, of "[root_node (pm_trees m1 u)]" fs I G] assms(4) adds_edges_fields(1,2) [OF m1(2)]
    by (auto simp: connectFormalOutTreeWithAddrVars_def)
  have "adds_edges {PARAMETER_IN, PARAMETER_OUT} m m1" "adds_edges {PARAMETER_IN, PARAMETER_OUT} m1 m2"
    using adds_edges_mono [OF m1(2)] adds_edges_mono [OF m2(2)] by simp_all
  then show ?thesis using m1(1) m2(1) adds_edges_trans by blast
qed

lemma formalArgs_ok:
  assumes "di_ok D" and "graph_ok m" and "fw_trees_ok fw m"
  shows "\<exists>b m'. formalArgs fs I D G fw as m = Some (b, m') \<and> adds_edges {PARAMETER_IN, PARAMETER_OUT} m m'"
  using assms(2,3)
proof (induction as arbitrary: m)
  case (Cons a as)
  show ?case
  proof (cases "getArgFormalInTree fw a")
    case (Some t)
    let ?T = "{PARAMETER_IN, PARAMETER_OUT}" and ?e = "entry_node fw"
    obtain u where u: "getArgFormalOutTree fw a = Some u" "root_node (pm_trees m t) < pm_next m" "root_node (pm_trees m u) < pm_next m"
      using Cons.prems(2) Some unfolding fw_trees_ok_def by blast
    let ?m1 = "link ?e (root_node (pm_trees m t)) PARAMETER_IN m"
    let ?m2 = "link ?e (root_node (pm_trees ?m1 u)) PARAMETER_OUT ?m1"
    have a: "adds_edges ?T m ?m2" by (rule adds_edges_trans [OF adds_edges_link adds_edges_link]) simp_all
    obtain m3 m4 where m: "connectFormalInTreeWithAddrVars fs I D G t ?m2 = Some m3" "connectFormalOutTreeWithAddrVars fs I G u m3 = Some m4"
        "adds_edges ?T ?m2 m4"
      using trees_connected [OF assms(1) graph_ok_adds [OF Cons.prems(1) a], of t u fs I G] u(2,3) by auto
    have a4: "adds_edges ?T m m4" by (rule adds_edges_trans [OF a m(3)])
    then obtain b m' where "formalArgs fs I D G fw as m4 = Some (b, m')" "adds_edges ?T m4 m'"
      using Cons.IH [of m4] graph_ok_adds [OF Cons.prems(1) a4] fw_trees_ok_adds [OF a4] Cons.prems(2) by blast
    then show ?thesis using Some u(1) m(1,2) adds_edges_trans [OF a4] by (simp add: Let_def)
  qed (auto intro: exI [of _ False])
qed (auto intro: exI [of _ True])

text \<open>
  Connecting the dependences inside a function terminates.  The control dependences of the function are computed, and the trees of its
  parameters and of its return value are connected with the variables they stand for, transitively over aliases; all loops
  return without a null dereference, and only control edges and edges between parameters and variables are added to
  the graph, in all six views.
\<close>

theorem intraprocedural_connection:
  assumes "di_ok D" and "pdt_ok P (set (blocks I F))" and "cfg_closed I F" and "graph_ok (pg_mem pg)"
    and "map_of (func_wrapper_map pg) F = Some fw" and "fw_trees_ok fw (pg_mem pg)" and "mirrors E (pm_nodes (pg_mem pg))"
  shows "\<exists>pg' X. connectIntraprocDependencies fs I D P F pg = Some pg' \<and> mirrors (E \<union> X) (pm_nodes (pg_mem pg')) \<and>
    X \<subseteq> {(a, b, t). t = CONTROL \<or> t = PARAMETER_IN \<or> t = PARAMETER_OUT}"
proof -
  let ?T = "{CONTROL, PARAMETER_IN, PARAMETER_OUT}" and ?m = "pg_mem pg" and ?G = "pg_graph pg"
  let ?en = "\<lambda>f. map_option entry_node (map_of (func_wrapper_map pg) f)"
  obtain h where h: "cdg_runOnFunction I P ?en ?G F (pm_nodes ?m) = Some h" "adds_edges {CONTROL} ?m (?m\<lparr>pm_nodes := h\<rparr>)"
    using cdg_adds_edges [OF assms(2,3), of ?en "entry_node fw" ?G ?m] assms(5) by auto
  let ?m1 = "?m\<lparr>pm_nodes := h\<rparr>"
  have ok1: "graph_ok ?m1" "fw_trees_ok fw ?m1" using graph_ok_adds [OF assms(4) h(2)] fw_trees_ok_adds [OF h(2)] assms(6) by simp_all
  obtain b m2 where m2: "formalArgs fs I D ?G fw (arg_list fw) ?m1 = Some (b, m2)" "adds_edges {PARAMETER_IN, PARAMETER_OUT} ?m1 m2"
    using formalArgs_ok [OF assms(1) ok1] by blast
  have ok2: "graph_ok m2" "fw_trees_ok fw m2" using graph_ok_adds [OF ok1(1) m2(2)] fw_trees_ok_adds [OF m2(2)] ok1(2) by simp_all
  obtain m3 where m3: "(if b then formalRet fs I D ?G fw m2 else Some m2) = Some m3" "adds_edges {PARAMETER_IN, PARAMETER_OUT} m2 m3"
  proof (cases "b \<and> ret_val_formal_in_tree fw \<noteq> 0")
    case True
    then have "root_node (pm_trees m2 (ret_val_formal_in_tree fw)) < pm_next m2" "root_node (pm_trees m2 (ret_val_formal_out_tree fw)) < pm_next m2"
      using ok2(2) by (auto simp: fw_trees_ok_def)
    from trees_connected [OF assms(1) ok2(1) this, of fs I ?G] that True show ?thesis by (auto simp: formalRet_def)
  next
    case False
    then show ?thesis using that [of m2] by (auto simp: formalRet_def)
  qed
  have "adds_edges ?T ?m ?m1" "adds_edges ?T ?m1 m2" "adds_edges ?T m2 m3"
    using adds_edges_mono [OF h(2)] adds_edges_mono [OF m2(2)] adds_edges_mono [OF m3(2)] by simp_all
  then have "adds_edges ?T ?m m3" using adds_edges_trans by blast
  then obtain X where "mirrors (E \<union> X) (pm_nodes m3)" "\<forall>(a, b, t) \<in> X. t \<in> ?T" using assms(7) unfolding adds_edges_def by blast
  moreover have "connectIntraprocDependencies fs I D P F pg = Some (pg\<lparr>pg_mem := m3\<rparr>)"
    using h(1) assms(5) m2(1) m3(1) by (simp add: connectIntraprocDependencies_def Let_def)
  ultimately show ?thesis by (intro exI [of _ "pg\<lparr>pg_mem := m3\<rparr>"] exI [of _ X]) auto
qed

lemma mem_ok_graph: "mem_ok m \<Longrightarrow> graph_ok m"
proof -
  assume m: "mem_ok m"
  then have "parents_typed m" unfolding mem_ok_def parents_typed_def by (meson less_trans)
  moreover have "mirrors (field_edges m) (pm_nodes m)" using m unfolding mem_ok_def by blast
  ultimately show ?thesis using mem_ok_bounded [OF m] finite_field_edges unfolding graph_ok_def by blast
qed

definition connect_wrapper :: FunctionWrapper where
  "connect_wrapper = (fst (new_FunctionWrapper empty_ir 1 tree_example))\<lparr>arg_list := [9], arg_formal_in_tree_map := [(9, 1)],
     arg_formal_out_tree_map := [(9, 1)], ret_val_formal_in_tree := 1, ret_val_formal_out_tree := 1\<rparr>"

definition connect_example :: ProgramGraph where
  "connect_example = new_ProgramGraph\<lparr>pg_graph := cdg_graph, pg_mem := tree_example, func_wrapper_map := [(1, connect_wrapper)]\<rparr>"

theorem intraprocedural_connection_witness:
  "\<exists>pg' X. connectIntraprocDependencies True cdg_example di_example cdg_tree 1 connect_example = Some pg' \<and>
     mirrors (field_edges tree_example \<union> X) (pm_nodes (pg_mem pg')) \<and> X \<subseteq> {(a, b, t). t = CONTROL \<or> t = PARAMETER_IN \<or> t = PARAMETER_OUT}"
proof (rule intraprocedural_connection [OF di_example_ok])
  show "pdt_ok cdg_tree (set (blocks cdg_example 1))" using cdg_tree_ok by (simp add: cdg_example_def)
  show "cfg_closed cdg_example 1" by (simp add: cfg_closed_def cdg_example_def)
  show "graph_ok (pg_mem connect_example)" using mem_ok_graph [OF tree_example_ok] by (simp add: connect_example_def)
  show "map_of (func_wrapper_map connect_example) 1 = Some connect_wrapper" by (simp add: connect_example_def)
  show "fw_trees_ok connect_wrapper (pg_mem connect_example)"
    by (simp add: fw_trees_ok_def connect_wrapper_def connect_example_def tree_example_def getArgFormalInTree_def getArgFormalOutTree_def)
  show "mirrors (field_edges tree_example) (pm_nodes (pg_mem connect_example))"
    using tree_example_ok unfolding mem_ok_def by (simp add: connect_example_def)
qed

subsection \<open>Calls without trees\<close>

text \<open>
  As \<^verbatim>\<open>ProgramGraph::build\<close> leaves call sites without trees, connecting a function with its callees ends at the first call with an
  argument, and the calls behind it are not connected either.
\<close>

lemma calls_behind_arguments_skipped:
  assumes "map_of (call_wrapper_map pg) ci = Some (new_CallWrapper I ci)" and "getNode (pg_graph pg) ci = Some n" and "callArgs I ci \<noteq> []"
  shows "interprocCalls True I (ci # rest) pg = Some pg"
proof -
  obtain a as where "callArgs I ci = a # as" using assms(3) by (cases "callArgs I ci") auto
  then show ?thesis using assms(1,2) by (simp add: actualTrees_def new_CallWrapper_def getArgActualInTree_def)
qed

end
