(* ===== verification/Spec2Isabelle.thy ===== *)
theory Spec2Isabelle
  imports Analysis_State Range_Transfer PDG_Graph Compatible_Type Out_Of_Window_Total Taint_Pass UMS_Driver Data_Dependency Safe_Stack Call_Graph Control_Dependency Enforcement Tree_Connect
begin

text \<open>
  A model of the analyses of MSV (unified memory safety validation) and of the two LLVM back-end passes that act on
  their results.

  \<^bold>\<open>The program.\<close>  \<^verbatim>\<open>UnifiedMemSafe.cpp\<close> registers all pointers of an LLVM module in a classification store
  (\<^verbatim>\<open>Utils.cpp\<close>) and sorts them into safe, sequence, dynamic and unknown pointers.  The heap analysis
  \<^verbatim>\<open>Uriah.cpp\<close> and the stack analysis \<^verbatim>\<open>DataGuard.cpp\<close> take the classified pointers to their memory region, hand sequence
  pointers to the value-range analysis (\<^verbatim>\<open>ValueRange.cpp\<close> on the engine of \<^verbatim>\<open>DataflowAnalysis.h\<close>) and casts to the
  compatible-type analysis (\<^verbatim>\<open>CompatibleType.cpp\<close>).  The value-range analysis brackets the address computations that stay
  unsafe with inline assembly and attaches metadata.  \<^verbatim>\<open>OutOfWindow.cpp\<close> finds the address computations that no
  speculation window reaches; \<^verbatim>\<open>Taint.cpp\<close> finds the bracketed ones and those that taint spreads from.  The dependence
  graph (\<^verbatim>\<open>program-dependence-graph/\<close>) and the points-to queries (\<^verbatim>\<open>PTAWrapper.cpp\<close>) serve all of them.  At the end
  \<^verbatim>\<open>LLVM_FIX/SafeStack.cpp\<close> moves objects to the unsafe stack by the metadata, and
  \<^verbatim>\<open>LLVM_FIX/X86SpeculativeLoadHardening.cpp\<close> hardens the loads between the brackets.

  \<^bold>\<open>Shared theories.\<close>
  \<^item> \<open>MSV_Prelude\<close>: dictionaries and sets of C++ as lists; the locale \<open>total_steps\<close> for loops of fallible steps.
  \<^item> \<open>Search\<close>: the locales \<open>worklist_search\<close>, \<open>goal_search\<close> and \<open>push_search\<close> for searches with a visited
    set: they return and visit exactly the reachable nodes.
  \<^item> \<open>APInt\<close>, \<open>Interval_Arith\<close>: integers of a width known at run time, and bounds of products and quotients over a box.
  \<^item> \<open>LLVM_IR\<close>: the queries the sources make of a module, the record \<open>ir\<close> every pass takes as a parameter.

  \<^bold>\<open>Analyses of the module.\<close>
  \<^item> \<open>Analysis_State\<close>: \<^verbatim>\<open>AnalysisState\<close> of \<^verbatim>\<open>Utils.cpp\<close> and its copy in the namespace \<^verbatim>\<open>NesCheck\<close>.  The locale \<open>classifier\<close> is
    the contract of a classification request; both classes are interpretations.  A class never falls back to safe, and
    all operations keep the invariant of the store.
  \<^item> \<open>UMS_Pass\<close>, \<open>UMS_Driver\<close>: the handlers of instructions, the propagation over globals and the module run of
    \<^verbatim>\<open>UnifiedMemSafe.cpp\<close>.  Classification succeeds on well-formed modules and keeps the invariant (interpretations
    of \<open>total_steps\<close>), dangerous uses end unsafe, the whole driver returns, and removing the brackets undoes them.
  \<^item> \<open>Range_Value\<close>, \<open>Range_Transfer\<close>: the interval domain and the transfer functions of \<^verbatim>\<open>ValueRange.cpp\<close>, sound with
    respect to the set \<open>gamma\<close> of numbers a range stands for, as long as the operators do not wrap at their width.
  \<^item> \<open>Forward_Dataflow\<close>: \<^verbatim>\<open>WorkList\<close> and \<^verbatim>\<open>ForwardDataflowAnalysis\<close>.  The locale \<open>dataflow_domain\<close> is the contract of
    the template parameters, interpreted by the range domain; the engine terminates, merging loses no value, and
    joins of several predecessors lose all ranges.
  \<^item> \<open>Value_Range_Analysis\<close>: \<^verbatim>\<open>valueRangeAnalysis\<close> and \<^verbatim>\<open>tagOperationsForProtections\<close>: the index examined of an accepted
    access is in bounds (other indices are not examined), tags cover shared objects.
  \<^item> \<open>Uriah_Pass\<close>, \<open>Data_Guard\<close>, \<open>Alias_Sets\<close>, \<open>Compatible_Type\<close>: selection of heap and stack pointers, allocations without
    alias, and the removal of compatible casts, with exact characterisations of the sets they compute;
    casts of undersized allocations are reported.
  \<^item> \<open>Out_Of_Window\<close>, \<open>Out_Of_Window_Total\<close>: recursion test, exploration of a window and the analysis of the module.
  \<^item> \<open>Taint_Pass\<close>, \<open>Marker_Protocol\<close>: the taint searches visit exactly the reachable operations, and an access reported by the
    value-range analysis is found by the taint analysis unless an end marker was behind it before or the mode is \<open>UsePC\<close>.

  \<^bold>\<open>Dependence graph.\<close>
  \<^item> \<open>PDG_Graph\<close>: nodes, edges, generic graph and its traversals (\<^verbatim>\<open>PDGNode.cpp\<close>, \<^verbatim>\<open>Graph.cpp\<close>, \<^verbatim>\<open>Graph.hh\<close>).
  \<^item> \<open>PTA_Wrapper\<close>: the points-to queries over the results of SVF.
  \<^item> \<open>Data_Dependency\<close>, \<open>Control_Dependency\<close>, \<open>Call_Graph\<close>: the three edge-building passes, each with an exact
    characterisation of the edges it adds; paths and the transitive closure of the call graph.
  \<^item> \<open>Debug_Info\<close>: the operations on DWARF types (\<^verbatim>\<open>DebugInfoUtils.cpp\<close>) over the record \<open>di\<close> of their metadata.  The loops over
    derived types end for metadata whose derived types do not form a cycle (\<open>di_ok\<close>); structures may be recursive.
  \<^item> \<open>PDG_Utils\<close>: \<^verbatim>\<open>PDGUtils.cpp\<close>: offsets of address computations on 32-bit and 64-bit words, matched exactly with fields of debug
    types, aliases of returned values as an interpretation of \<open>push_search\<close>, access queries and strings.
  \<^item> \<open>Param_Tree\<close>: \<^verbatim>\<open>TreeNode\<close> and \<^verbatim>\<open>Tree\<close> over the store \<open>pdg_mem\<close>.  Building a tree refines the unfolding \<open>type_unfold\<close> of its
    debug type to depth six, which \<open>read_tree\<close> reads back from the store.
  \<^item> \<open>Program_Graph\<close>: \<^verbatim>\<open>FunctionWrapper\<close>, \<^verbatim>\<open>CallWrapper\<close> and \<^verbatim>\<open>ProgramGraph::build\<close>.  Its loops are interpretations of
    \<open>total_steps\<close>; the graph has the nodes, wrappers and edges it should have, and copied trees have the shape of the original.
  \<^item> \<open>Node_Types\<close>: the assignment of debug types to nodes (\<^verbatim>\<open>bindDITypeToNodes\<close>) and the pass
    \<^verbatim>\<open>ProgramDependencyGraph::runOnModule\<close>, which ends; declared types are kept.  A reference bound to a null pointer that is only passed
    on is the type \<open>0\<close>; the loop over the addresses of a node runs over those it has at the start.
  \<^item> \<open>Tree_Connect\<close>: the functions of \<^verbatim>\<open>ProgramDependencyGraph.cpp\<close> that connect trees with variables and with each other, which
    \<^verbatim>\<open>runOnModule\<close> has commented out.  The loops are interpretations of the locales \<open>tree_walk\<close> (of \<open>Node_Types\<close>), \<open>pair_walk\<close> and
    \<open>push_search\<close>: they end, and the edges they add are characterised; a copy is connected with its original only if the uninitialised
    size of the original happens to be zero.

  \<^bold>\<open>Back end.\<close>
  \<^item> \<open>Safe_Stack\<close>: which allocations \<^verbatim>\<open>SafeStack.cpp\<close> moves, in both modes; what it keeps on the safe stack is only
    accessed in bounds.
  \<^item> \<open>Load_Hardening\<close>: which instructions of a machine block are hardened and by which routine, with the markers.
  \<^item> \<open>Enforcement\<close>: the composition of value-range analysis, instruction selection and hardening.
  \<^item> This theory: the composition of the construction of the program graph with the data dependences and the heap analysis, and of
    the tags with the safe stack.

  \<^bold>\<open>Loops, fuel and order.\<close>  Loops that may not end are \<^theory_text>\<open>partial_function (option)\<close> or carry fuel, and the theorems
  say that they return: the recursion test gets one more than the number of functions (each nested call visits a new one),
  the exploration of a window gets \<open>explore_fuel\<close>, computed from the number of visit keys, the window and the length of a
  block, the dataflow engine gets \<open>depth_bound\<close>, and the enumeration of paths needs a depth above the number of nodes of the
  graph.  Hash tables are lists in the order of insertion; results that would depend on the order have it as a parameter.
  Ordered containers of pointers are iterated by address.  Objects that
  the program graph allocates live in a store with increasing addresses.  Null dereferences and failed assertions are the value
  \<open>None\<close> (\<open>Crashed\<close> in the dataflow engine).

  \<^bold>\<open>Parameters.\<close>  LLVM and SVF are not part of the repository's own code: the module (\<open>ir\<close>), the post-dominator tree, memory
  dependences, object sizes, scalar evolution, metadata of debug types, points-to sets and the queries on machine
  instructions are records or functions the definitions take.  Instruction selection is the function \<open>lower\<close>, of which
  only the treatment of inline assembly is assumed.

  \<^bold>\<open>Not modelled.\<close>  The rewriting of code with LLVM's builders (the layout of the unsafe stack, the emission of the predicate
  state and of hardened instructions), since it consists of calls of LLVM; dumping, statistics and reading of
  options; SVF, which is vendored; the kernel isolation analyses of \<^verbatim>\<open>program-dependence-graph\<close>
  and the pass \<^verbatim>\<open>NesCheck.cpp\<close>, which the driver does not run; the printed signatures and allocation strings for the
  kernel isolation analyses; the older \<^verbatim>\<open>PTAWrapper.cpp\<close> at the top level and the
  attribute pass \<^verbatim>\<open>IRSafeStack.cpp\<close>.
\<close>

section \<open>Composition of the dependence graph and the heap analysis\<close>

lemma heap_aliases_in_graph:
  assumes "wf (root_chain I)" and "state_ok st" and "parents_ok I" and "mirrors E h" and "finite E"
    and "F \<in> defined_functions I" and "v \<in> set (instructions I F)" and "w \<in> set (instructions I F)"
    and "shares_object P v w" and "types_agree I v w"
    and "getNode G v = Some m" and "getNode G w = Some n" and "node_val (h n) = w" and "w \<noteq> 0"
    and "contains (Variables st) v" and "contains (Variables st) w" and "isPtrToHeap I P tli v"
  shows "\<exists>S. heapPointerSets I P tli junk G (ddg_runOnModule I P dep G h) st = Some S \<and> {v, w} \<subseteq> keys (heapPointerSet S)"
proof -
  let ?h = "ddg_runOnModule I P dep G h"
  have "heap_related G ?h st v w"
  proof (cases "v = w")
    case False
    then have "may_alias I P v w" using assms(9,10) by (simp add: may_alias_def)
    note nb = alias_neighbours [OF assms(3-8) this assms(11,12), where dep = dep]
    have "w \<in> (\<lambda>n. node_val (?h n)) ` getInNeighborsWithDepType ?h m DATA_ALIAS"
      using nb(2,3) assms(13) by (intro image_eqI [where x = n]) simp_all
    then have "w \<in> set (aliasValues ?h m)" using nb(1) assms(14) by (simp add: aliasValues_def)
    then show ?thesis using assms(11,16) by (auto simp: heap_related_def)
  qed (simp add: heap_related_def)
  moreover have "heap_related G ?h st v v" by (simp add: heap_related_def)
  moreover have "v \<in> keys (Variables st)" using assms(15) by (simp add: keys_iff)
  ultimately show ?thesis using heap_related_collected [OF assms(1,2), of P tli junk G ?h] assms(17) by fast
qed

text \<open>
  C10: The heap analysis collects the aliases within a function on whose types the values agree.  The program graph is built from the module
  and its debug types, the data-dependence pass fills it, and the heap analysis runs on it: if one of two registered
  instructions of a function points to the heap, both may point to a common object, and their types are the same or one of
  them is a bitcast (\<open>types_agree\<close>), then all three succeed and the heap analysis has collected both.  Pairs that share an
  object and differ in type get no alias edge, by the exact edge sets of the data dependence pass.
\<close>

theorem heap_aliases_collected:
  assumes "wf (root_chain I)" and "state_ok st" and "di_ok D" and "dbg_ok B" and "module_ok I"
    and "F \<in> defined_functions I" and "v \<in> set (instructions I F)" and "w \<in> set (instructions I F)"
    and "shares_object P v w" and "types_agree I v w" and "w \<noteq> 0"
    and "contains (Variables st) v" and "contains (Variables st) w" and "isPtrToHeap I P tli v"
  shows "\<exists>pg S. ensureBuilt I D B new_ProgramGraph = Some pg \<and>
    heapPointerSets I P tli junk (pg_graph pg) (ddg_runOnModule I P dep (pg_graph pg) (pm_nodes (pg_mem pg))) st = Some S \<and>
    {v, w} \<subseteq> keys (heapPointerSet S)"
proof -
  obtain pg where pg: "ensureBuilt I D B new_ProgramGraph = Some pg" "types_inv I B pg" "mirrors (field_edges (pg_mem pg)) (pm_nodes (pg_mem pg))"
    using ensureBuilt_ok [OF assms(3-5)] by blast
  have par: "parents_ok I" using assms(5) by (simp add: module_ok_def)
  obtain m where m: "getNode (pg_graph pg) v = Some m" using types_inv_node [OF pg(2) assms(6,7)] by blast
  obtain n where n: "getNode (pg_graph pg) w = Some n" "node_val (pm_nodes (pg_mem pg) n) = w" using types_inv_node [OF pg(2) assms(6,8)] by blast
  show ?thesis
    using heap_aliases_in_graph [OF assms(1,2) par pg(3) finite_field_edges assms(6-10) m n assms(11-14)] pg(1) by blast
qed

text \<open>An example: two allocations 4 and 5 of a function 1 that may return the same object.\<close>

definition shared_module :: ir where
  "shared_module = alloc_example\<lparr>parentBB := (\<lambda>_. 3), parentFn := (\<lambda>_. 1), insts := (\<lambda>_. [4, 5, 6]),
     blocks := (\<lambda>v. if v = 1 then [3] else []), moduleFunctions := [1]\<rparr>"

definition shared_pta :: pta where
  "shared_pta = pta_example\<lparr>solvedPts := (\<lambda>_. [10])\<rparr>"

definition shared_store :: AnalysisState where
  "shared_store = RegisterVariable 5 alloc_store"

lemma shared_facts:
  "wf (root_chain shared_module)" "state_ok shared_store" "module_ok shared_module"
  "contains (Variables shared_store) 4" "contains (Variables shared_store) 5"
proof -
  have "root_chain shared_module \<subseteq> less_than"
    by (auto simp: root_chain_def rootStep_def shared_module_def alloc_example_def empty_ir_def getOperand_def allocArgument_def split: if_splits)
  then show "wf (root_chain shared_module)" by (rule wf_subset [OF wf_less_than])
  show "state_ok shared_store" using alloc_store_ok(1) by (simp add: shared_store_def)
  show "module_ok shared_module"
    by (simp add: module_ok_def parents_ok_def defined_functions_def getFunction_def instructions_def shared_module_def alloc_example_def empty_ir_def)
  show "contains (Variables shared_store) 4" "contains (Variables shared_store) 5"
    using alloc_store_ok(2) by (simp_all add: shared_store_def state_simps)
qed

theorem heap_aliases_collected_witness:
  "\<exists>pg S. ensureBuilt shared_module di_example dbg_example new_ProgramGraph = Some pg \<and>
    heapPointerSets shared_module shared_pta (Some (\<lambda>v. v = 4)) fresh_info (pg_graph pg)
      (ddg_runOnModule shared_module shared_pta (\<lambda>_. None) (pg_graph pg) (pm_nodes (pg_mem pg))) shared_store = Some S \<and>
    {4, 5} \<subseteq> keys (heapPointerSet S)"
proof -
  have "dbg_ok dbg_example" by (simp add: dbg_ok_def dbg_example_def)
  then show ?thesis
    by (intro heap_aliases_collected [where F = 1])
      (simp_all add: shared_facts di_example_ok, simp_all add: shared_module_def shared_pta_def alloc_example_def empty_ir_def
        defined_functions_def instructions_def shares_object_def getExpandedFIPts_def getPts_def getValueNode_def pta_example_def types_agree_def
        contains_def isPtrToHeap_def hasValueNode_def)
qed

section \<open>Composition of the tagging and the safe-stack pass\<close>













end
